(* ===== verification/Prelude.thy ===== *)
theory Prelude
  imports Main "HOL-Library.Word"
begin

text \<open>
  Shared vocabulary of the development: the identifier types of
  \<^verbatim>\<open>src/include/common/config.h\<close>, the ways a call can fail, the arithmetic of the
  unsigned 64-bit counters, and generic lemmas on lists and maps that several components use.
\<close>

section \<open>Identifier types and constants\<close>

text \<open>
  \<^verbatim>\<open>page_id_t\<close> and \<^verbatim>\<open>frame_id_t\<close> are \<^verbatim>\<open>int32_t\<close>; they are read as
  integers, and the one place that can wrap (allocation of page ids) writes the wrap out.
\<close>

type_synonym page_id_t = int
type_synonym frame_id_t = int
type_synonym byte = "8 word"

definition INVALID_PAGE_ID :: page_id_t where
  "INVALID_PAGE_ID = -1"

definition HEADER_PAGE_ID :: page_id_t where
  "HEADER_PAGE_ID = 0"

definition BUSTUB_PAGE_SIZE :: nat where
  "BUSTUB_PAGE_SIZE = 4096"

section \<open>Failures as values\<close>

text \<open>\<^verbatim>\<open>ExceptionType\<close> of \<^verbatim>\<open>src/include/common/exception.h\<close>.\<close>

datatype ExceptionType =
  ET_INVALID | ET_OUT_OF_RANGE | ET_CONVERSION | ET_UNKNOWN_TYPE | ET_DECIMAL | ET_MISMATCH_TYPE |
  ET_DIVIDE_BY_ZERO | ET_INCOMPATIBLE_TYPE | ET_OUT_OF_MEMORY | ET_NOT_IMPLEMENTED | ET_EXECUTION

text \<open>
  A call that does not return normally yields \<open>Inl e\<close>.  \<open>StdException\<close> is
  \<^verbatim>\<open>throw std::exception()\<close> or the \<^verbatim>\<open>std::logic_error\<close> of
  \<^verbatim>\<open>BUSTUB_ENSURE\<close>, \<open>Exception t\<close> a \<^verbatim>\<open>bustub::Exception\<close>
  of type \<open>t\<close> (an exception built from a message alone has type \<open>ET_INVALID\<close>),
  \<open>InvalidArgument\<close> a \<^verbatim>\<open>std::invalid_argument\<close> that no handler catches,
  \<open>LengthError\<close> the \<^verbatim>\<open>std::length_error\<close> of a vector asked for too many elements,
  \<open>AssertionFailure\<close> a failed assertion,
  \<open>UndefinedBehaviour\<close> an execution to which the language gives no meaning (erasing
  through a singular iterator, reading outside an array, overflowing a signed integer), and
  \<open>OutOfFuel\<close> marks a loop of the model that was cut off; the component theories prove
  that the last one does not happen under their invariants.
\<close>

datatype error =
  StdException | Exception ExceptionType | InvalidArgument | LengthError | AssertionFailure |
  UndefinedBehaviour | OutOfFuel

type_synonym 'a result = "error + 'a"

definition bind_result :: "'a result \<Rightarrow> ('a \<Rightarrow> 'b result) \<Rightarrow> 'b result" where
  "bind_result r f = (case r of Inl e \<Rightarrow> Inl e | Inr x \<Rightarrow> f x)"

lemma bind_result_simps [simp]:
  "bind_result (Inl e) f = Inl e"
  "bind_result (Inr x) f = f x"
  by (simp_all add: bind_result_def)

lemma bind_result_Inr_iff:
  "bind_result r f = Inr y \<longleftrightarrow> (\<exists>x. r = Inr x \<and> f x = Inr y)"
  by (cases r) auto

section \<open>Unsigned counters\<close>

text \<open>
  \<^verbatim>\<open>size_t\<close> counters are natural numbers; a decrement at zero wraps to the largest
  64-bit value, as the code's \<^verbatim>\<open>--\<close> does.
\<close>

definition size_dec :: "nat \<Rightarrow> nat" where
  "size_dec n = (if n = 0 then 2 ^ 64 - 1 else n - 1)"

lemma size_dec_pos [simp]: "0 < n \<Longrightarrow> size_dec n = n - 1"
  by (simp add: size_dec_def)

text \<open>Two's complement wrap of a 32-bit signed integer.\<close>

definition wrap32 :: "int \<Rightarrow> int" where
  "wrap32 x = (x + 2 ^ 31) mod 2 ^ 32 - 2 ^ 31"

lemma wrap32_id: "- (2 ^ 31) \<le> x \<Longrightarrow> x < 2 ^ 31 \<Longrightarrow> wrap32 x = x"
  by (simp add: wrap32_def)

section \<open>Lists\<close>

lemma find_rev_snoc:
  "List.find P (rev (xs @ [x])) = (if P x then Some x else List.find P (rev xs))"
  by simp

lemma find_SomeD:
  "List.find P xs = Some x \<Longrightarrow> x \<in> set xs \<and> P x"
  by (auto simp: find_Some_iff)

end
