(* ===== verification/BPlusTreePage.thy ===== *)
theory BPlusTreePage
  imports Prelude
begin

text \<open>
  The pages of the B+ tree: \<^verbatim>\<open>src/storage/page/b_plus_tree_page.cpp\<close>,
  \<^verbatim>\<open>b_plus_tree_leaf_page.cpp\<close> and \<^verbatim>\<open>b_plus_tree_internal_page.cpp\<close>.  A page
  is a record with the fields of its header; the flexible array is the list of its
  \<^verbatim>\<open>GetSize()\<close> live entries, and reading behind them has no defined meaning.  The end of the
  page is not modelled: the maximal sizes are assumed to be such that the entries fit.  Keys are
  elements of a linear order, whose three-way comparison is the comparator the pages are
  instantiated with; the key in slot 0 of an internal page is never read by a search and is
  the zero key on a fresh page.  The part of an operation that updates child pages in the
  buffer pool is in the theory of the tree.
\<close>

section \<open>Data\<close>

record tree_page =
  max_size :: int
  parent_page_id :: page_id_t
  self_page_id :: page_id_t

record ('k, 'v) leaf_page = tree_page +
  next_page_id :: page_id_t
  leaf_array :: "('k \<times> 'v) list"

record 'k internal_page = tree_page +
  internal_array :: "('k \<times> page_id_t) list"

datatype ('k, 'v) bt_page = LEAF_PAGE "('k, 'v) leaf_page" | INTERNAL_PAGE "'k internal_page"

text \<open>The comparator: negative, zero or positive.\<close>

definition keyComparator :: "'k :: linorder \<Rightarrow> 'k \<Rightarrow> int" where
  "keyComparator a b = (if a < b then -1 else if b < a then 1 else 0)"

section \<open>Header\<close>

fun IsLeafPage :: "('k, 'v) bt_page \<Rightarrow> bool" where
  "IsLeafPage (LEAF_PAGE l) \<longleftrightarrow> True"
| "IsLeafPage (INTERNAL_PAGE i) \<longleftrightarrow> False"

fun GetSize :: "('k, 'v) bt_page \<Rightarrow> int" where
  "GetSize (LEAF_PAGE l) = int (length (leaf_array l))"
| "GetSize (INTERNAL_PAGE i) = int (length (internal_array i))"

fun GetMaxSize :: "('k, 'v) bt_page \<Rightarrow> int" where
  "GetMaxSize (LEAF_PAGE l) = max_size l"
| "GetMaxSize (INTERNAL_PAGE i) = max_size i"

fun GetMinSize :: "('k, 'v) bt_page \<Rightarrow> int" where
  "GetMinSize (LEAF_PAGE l) = max_size l div 2"
| "GetMinSize (INTERNAL_PAGE i) = (max_size i + 1) div 2"

fun GetParentPageId :: "('k, 'v) bt_page \<Rightarrow> page_id_t" where
  "GetParentPageId (LEAF_PAGE l) = parent_page_id l"
| "GetParentPageId (INTERNAL_PAGE i) = parent_page_id i"

fun SetParentPageId :: "page_id_t \<Rightarrow> ('k, 'v) bt_page \<Rightarrow> ('k, 'v) bt_page" where
  "SetParentPageId p (LEAF_PAGE l) = LEAF_PAGE (l\<lparr>parent_page_id := p\<rparr>)"
| "SetParentPageId p (INTERNAL_PAGE i) = INTERNAL_PAGE (i\<lparr>parent_page_id := p\<rparr>)"

fun GetPageId :: "('k, 'v) bt_page \<Rightarrow> page_id_t" where
  "GetPageId (LEAF_PAGE l) = self_page_id l"
| "GetPageId (INTERNAL_PAGE i) = self_page_id i"

definition IsRootPage :: "('k, 'v) bt_page \<Rightarrow> bool" where
  "IsRootPage p \<longleftrightarrow> GetParentPageId p = INVALID_PAGE_ID"

section \<open>Binary search\<close>

text \<open>
  \<^verbatim>\<open>std::lower_bound\<close> as the library computes it: \<open>len\<close> elements from
  \<open>first\<close> on are left, and the middle one decides which half remains.
\<close>

function lower_bound :: "('a \<Rightarrow> bool) \<Rightarrow> 'a list \<Rightarrow> nat \<Rightarrow> nat \<Rightarrow> nat" where
  "lower_bound lt xs first len =
     (if len = 0 then first
      else
        let half = len div 2; middle = first + half
        in if lt (xs ! middle) then lower_bound lt xs (middle + 1) (len - half - 1)
           else lower_bound lt xs first half)"
  by auto
termination
  by (relation "measure (\<lambda>(lt, xs, first, len). len)") auto

declare lower_bound.simps [simp del]

section \<open>Leaf pages\<close>

definition Leaf_Init :: "page_id_t \<Rightarrow> page_id_t \<Rightarrow> int \<Rightarrow> ('k, 'v) leaf_page" where
  "Leaf_Init page_id parent_id max_sz =
     \<lparr>max_size = max_sz, parent_page_id = parent_id, self_page_id = page_id,
      next_page_id = INVALID_PAGE_ID, leaf_array = []\<rparr>"

definition Leaf_GetItem :: "int \<Rightarrow> ('k, 'v) leaf_page \<Rightarrow> ('k \<times> 'v) result" where
  "Leaf_GetItem i l =
     (if 0 \<le> i \<and> i < int (length (leaf_array l)) then Inr (leaf_array l ! nat i)
      else Inl UndefinedBehaviour)"

definition Leaf_KeyAt :: "int \<Rightarrow> ('k, 'v) leaf_page \<Rightarrow> 'k result" where
  "Leaf_KeyAt i l = bind_result (Leaf_GetItem i l) (\<lambda>p. Inr (fst p))"

definition Leaf_KeyIndex :: "'k :: linorder \<Rightarrow> ('k, 'v) leaf_page \<Rightarrow> nat" where
  "Leaf_KeyIndex key l =
     lower_bound (\<lambda>p. keyComparator (fst p) key < 0) (leaf_array l) 0 (length (leaf_array l))"

definition Leaf_Insert :: "'k :: linorder \<Rightarrow> 'v \<Rightarrow> ('k, 'v) leaf_page \<Rightarrow> int \<times> ('k, 'v) leaf_page" where
  "Leaf_Insert key v l =
     (let xs = leaf_array l; array_index = Leaf_KeyIndex key l
      in if array_index = length xs then
           let l = l\<lparr>leaf_array := xs @ [(key, v)]\<rparr> in (int (length (leaf_array l)), l)
         else if keyComparator (fst (xs ! array_index)) key = 0 then (int (length xs), l)
         else
           let l = l\<lparr>leaf_array := take array_index xs @ (key, v) # drop array_index xs\<rparr>
           in (int (length (leaf_array l)), l))"

definition Leaf_Lookup :: "'k :: linorder \<Rightarrow> ('k, 'v) leaf_page \<Rightarrow> 'v option" where
  "Leaf_Lookup key l =
     (let array_index = Leaf_KeyIndex key l
      in if array_index = length (leaf_array l) \<or>
            keyComparator (fst (leaf_array l ! array_index)) key \<noteq> 0 then None
         else Some (snd (leaf_array l ! array_index)))"

definition RemoveAndDeleteRecord :: "'k :: linorder \<Rightarrow> ('k, 'v) leaf_page \<Rightarrow> int \<times> ('k, 'v) leaf_page" where
  "RemoveAndDeleteRecord key l =
     (let xs = leaf_array l; array_index = Leaf_KeyIndex key l
      in if array_index = length xs \<or> keyComparator (fst (xs ! array_index)) key \<noteq> 0
         then (int (length xs), l)
         else
           let l = l\<lparr>leaf_array := take array_index xs @ drop (Suc array_index) xs\<rparr>
           in (int (length (leaf_array l)), l))"

text \<open>
  The moves between two leaves return the pair of the page itself and the recipient.
  \<^verbatim>\<open>MoveHalfTo\<close> copies \<^verbatim>\<open>GetMaxSize() - GetMinSize()\<close> entries, whatever the size.
\<close>

definition Leaf_CopyNFrom :: "('k \<times> 'v) list \<Rightarrow> ('k, 'v) leaf_page \<Rightarrow> ('k, 'v) leaf_page" where
  "Leaf_CopyNFrom items l = l\<lparr>leaf_array := leaf_array l @ items\<rparr>"

definition Leaf_CopyLastFrom :: "'k \<times> 'v \<Rightarrow> ('k, 'v) leaf_page \<Rightarrow> ('k, 'v) leaf_page" where
  "Leaf_CopyLastFrom item l = l\<lparr>leaf_array := leaf_array l @ [item]\<rparr>"

definition Leaf_CopyFirstFrom :: "'k \<times> 'v \<Rightarrow> ('k, 'v) leaf_page \<Rightarrow> ('k, 'v) leaf_page" where
  "Leaf_CopyFirstFrom item l = l\<lparr>leaf_array := item # leaf_array l\<rparr>"

definition Leaf_MoveHalfTo ::
  "('k, 'v) leaf_page \<Rightarrow> ('k, 'v) leaf_page \<Rightarrow> (('k, 'v) leaf_page \<times> ('k, 'v) leaf_page) result" where
  "Leaf_MoveHalfTo l recipient =
     (let start_split_index = nat (max_size l div 2); n = nat (max_size l) - start_split_index
      in if length (leaf_array l) < start_split_index + n then Inl UndefinedBehaviour
         else Inr (l\<lparr>leaf_array := take start_split_index (leaf_array l)\<rparr>,
                   Leaf_CopyNFrom (take n (drop start_split_index (leaf_array l))) recipient))"

definition Leaf_MoveAllTo ::
  "('k, 'v) leaf_page \<Rightarrow> ('k, 'v) leaf_page \<Rightarrow> ('k, 'v) leaf_page \<times> ('k, 'v) leaf_page" where
  "Leaf_MoveAllTo l recipient =
     (l\<lparr>leaf_array := []\<rparr>,
      (Leaf_CopyNFrom (leaf_array l) recipient)\<lparr>next_page_id := next_page_id l\<rparr>)"

definition Leaf_MoveFirstToEndOf ::
  "('k, 'v) leaf_page \<Rightarrow> ('k, 'v) leaf_page \<Rightarrow> (('k, 'v) leaf_page \<times> ('k, 'v) leaf_page) result" where
  "Leaf_MoveFirstToEndOf l recipient =
     bind_result (Leaf_GetItem 0 l) (\<lambda>first_item.
       Inr (l\<lparr>leaf_array := tl (leaf_array l)\<rparr>, Leaf_CopyLastFrom first_item recipient))"

definition Leaf_MoveLastToFrontOf ::
  "('k, 'v) leaf_page \<Rightarrow> ('k, 'v) leaf_page \<Rightarrow> (('k, 'v) leaf_page \<times> ('k, 'v) leaf_page) result" where
  "Leaf_MoveLastToFrontOf l recipient =
     bind_result (Leaf_GetItem (int (length (leaf_array l)) - 1) l) (\<lambda>last_item.
       Inr (l\<lparr>leaf_array := butlast (leaf_array l)\<rparr>, Leaf_CopyFirstFrom last_item recipient))"

section \<open>Internal pages\<close>

definition Internal_Init :: "page_id_t \<Rightarrow> page_id_t \<Rightarrow> int \<Rightarrow> 'k internal_page" where
  "Internal_Init page_id parent_id max_sz =
     \<lparr>max_size = max_sz, parent_page_id = parent_id, self_page_id = page_id, internal_array = []\<rparr>"

definition Internal_item :: "int \<Rightarrow> 'k internal_page \<Rightarrow> ('k \<times> page_id_t) result" where
  "Internal_item i p =
     (if 0 \<le> i \<and> i < int (length (internal_array p)) then Inr (internal_array p ! nat i)
      else Inl UndefinedBehaviour)"

definition Internal_KeyAt :: "int \<Rightarrow> 'k internal_page \<Rightarrow> 'k result" where
  "Internal_KeyAt i p = bind_result (Internal_item i p) (\<lambda>e. Inr (fst e))"

definition Internal_ValueAt :: "int \<Rightarrow> 'k internal_page \<Rightarrow> page_id_t result" where
  "Internal_ValueAt i p = bind_result (Internal_item i p) (\<lambda>e. Inr (snd e))"

text \<open>Writing the first slot of an empty page is within the page and touches no live entry.\<close>

definition SetKeyAt :: "int \<Rightarrow> 'k \<Rightarrow> 'k internal_page \<Rightarrow> 'k internal_page result" where
  "SetKeyAt i key p =
     (if i = 0 \<and> internal_array p = [] then Inr p
      else bind_result (Internal_item i p) (\<lambda>e.
        Inr (p\<lparr>internal_array := (internal_array p)[nat i := (key, snd e)]\<rparr>)))"

definition ValueIndex :: "page_id_t \<Rightarrow> 'k internal_page \<Rightarrow> nat" where
  "ValueIndex v p = length (takeWhile (\<lambda>e. snd e \<noteq> v) (internal_array p))"

definition Internal_Lookup :: "'k :: linorder \<Rightarrow> 'k internal_page \<Rightarrow> page_id_t result" where
  "Internal_Lookup key p =
     (let es = internal_array p
      in if es = [] then Inl UndefinedBehaviour
         else
           let target = lower_bound (\<lambda>e. keyComparator (fst e) key < 0) es 1 (length es - 1)
           in if target = length es then Inr (snd (es ! (length es - 1)))
              else if keyComparator (fst (es ! target)) key = 0 then Inr (snd (es ! target))
              else Inr (snd (es ! (target - 1))))"

text \<open>
  \<^verbatim>\<open>PopulateNewRoot\<close> writes the second key and both child ids of a page whose memory is
  zero.
\<close>

definition PopulateNewRoot :: "page_id_t \<Rightarrow> 'k :: zero \<Rightarrow> page_id_t \<Rightarrow> 'k internal_page \<Rightarrow> 'k internal_page" where
  "PopulateNewRoot old_value new_key new_value p =
     p\<lparr>internal_array := [(0, old_value), (new_key, new_value)]\<rparr>"

definition InsertNodeAfter :: "page_id_t \<Rightarrow> 'k \<Rightarrow> page_id_t \<Rightarrow> 'k internal_page \<Rightarrow> 'k internal_page result" where
  "InsertNodeAfter old_value new_key new_value p =
     (let es = internal_array p; new_value_index = Suc (ValueIndex old_value p)
      in if new_value_index > length es then Inl UndefinedBehaviour
         else Inr (p\<lparr>internal_array := take new_value_index es @ (new_key, new_value) # drop new_value_index es\<rparr>))"

definition Internal_Remove :: "nat \<Rightarrow> 'k internal_page \<Rightarrow> 'k internal_page result" where
  "Internal_Remove i p =
     (if i < length (internal_array p)
      then Inr (p\<lparr>internal_array := take i (internal_array p) @ drop (Suc i) (internal_array p)\<rparr>)
      else Inl UndefinedBehaviour)"

definition RemoveAndReturnOnlyChild :: "'k internal_page \<Rightarrow> (page_id_t \<times> 'k internal_page) result" where
  "RemoveAndReturnOnlyChild p =
     bind_result (Internal_ValueAt 0 p) (\<lambda>v. Inr (v, p\<lparr>internal_array := []\<rparr>))"

section \<open>Search in sorted arrays\<close>

lemma keyComparator_simps [simp]:
  "keyComparator a b < 0 \<longleftrightarrow> a < b" "keyComparator a b = 0 \<longleftrightarrow> a = b"
  by (auto simp: keyComparator_def)

text \<open>
  On a partitioned range the binary search finds the boundary.
\<close>

lemma lower_bound_range:
  "first \<le> lower_bound lt xs first len \<and> lower_bound lt xs first len \<le> first + len"
proof (induction lt xs first len rule: lower_bound.induct)
  case (1 lt xs first len)
  then show ?case
    by (subst (1 2) lower_bound.simps) (fastforce simp: Let_def)
qed

lemma lower_bound_boundary:
  assumes "\<forall>i j. first \<le> i \<longrightarrow> i \<le> j \<longrightarrow> j < first + len \<longrightarrow> lt (xs ! j) \<longrightarrow> lt (xs ! i)"
  shows "(\<forall>i. first \<le> i \<longrightarrow> i < lower_bound lt xs first len \<longrightarrow> lt (xs ! i)) \<and>
         (\<forall>i. lower_bound lt xs first len \<le> i \<longrightarrow> i < first + len \<longrightarrow> \<not> lt (xs ! i))"
  using assms
proof (induction lt xs first len rule: lower_bound.induct)
  case (1 lt xs first len)
  let ?half = "len div 2"
  let ?mid = "first + ?half"
  show ?case
  proof (cases "len = 0")
    case True
    then show ?thesis
      by (simp add: lower_bound.simps [of lt xs first 0])
  next
    case False
    then have h: "?half < len" by simp
    show ?thesis
    proof (cases "lt (xs ! ?mid)")
      case True
      have eq: "lower_bound lt xs first len = lower_bound lt xs (?mid + 1) (len - ?half - 1)"
        using False True by (simp add: lower_bound.simps [of lt xs first len] Let_def)
      have ih: "(\<forall>i. ?mid + 1 \<le> i \<longrightarrow> i < lower_bound lt xs first len \<longrightarrow> lt (xs ! i)) \<and>
         (\<forall>i. lower_bound lt xs first len \<le> i \<longrightarrow> i < first + len \<longrightarrow> \<not> lt (xs ! i))"
        using 1(1) [OF False refl refl True] 1(3) h unfolding eq by simp
      have "lt (xs ! i)" if "first \<le> i" "i \<le> ?mid" for i
        using 1(3) True h that by simp
      then show ?thesis
        using ih by (metis Suc_eq_plus1 not_less_eq_eq)
    next
      case nlt: False
      have eq: "lower_bound lt xs first len = lower_bound lt xs first ?half"
        using False nlt by (simp add: lower_bound.simps [of lt xs first len] Let_def)
      have ih: "(\<forall>i. first \<le> i \<longrightarrow> i < lower_bound lt xs first len \<longrightarrow> lt (xs ! i)) \<and>
         (\<forall>i. lower_bound lt xs first len \<le> i \<longrightarrow> i < ?mid \<longrightarrow> \<not> lt (xs ! i))"
        using 1(2) [OF False refl refl nlt] 1(3) h unfolding eq by simp
      have "\<not> lt (xs ! i)" if "?mid \<le> i" "i < first + len" for i
        using 1(3) nlt that by (metis le_add1)
      then show ?thesis
        using ih by (metis not_le)
    qed
  qed
qed

definition sorted_keys :: "('k :: linorder \<times> 'e) list \<Rightarrow> bool" where
  "sorted_keys xs \<longleftrightarrow> sorted_wrt (<) (map fst xs)"

lemma sorted_keys_simps [simp]:
  "sorted_keys []"
  "sorted_keys (x # xs) \<longleftrightarrow> (\<forall>y \<in> set xs. fst x < fst y) \<and> sorted_keys xs"
  "sorted_keys (xs @ ys) \<longleftrightarrow> sorted_keys xs \<and> sorted_keys ys \<and> (\<forall>x \<in> set xs. \<forall>y \<in> set ys. fst x < fst y)"
  by (auto simp: sorted_keys_def sorted_wrt_append)

lemma sorted_keys_nth:
  "sorted_keys xs \<Longrightarrow> i < j \<Longrightarrow> j < length xs \<Longrightarrow> fst (xs ! i) < fst (xs ! j)"
  by (simp add: sorted_keys_def sorted_wrt_iff_nth_less)

lemma sorted_keys_distinct: "sorted_keys xs \<Longrightarrow> distinct (map fst xs)"
  by (auto simp: sorted_keys_def strict_sorted_iff)

text \<open>The boundary index in a list whose tail from \<open>n\<close> on is sorted.\<close>

lemma lower_bound_sorted:
  assumes "sorted_keys (drop n xs)" "n \<le> length xs"
  shows "lower_bound (\<lambda>p. keyComparator (fst p) key < 0) xs n (length xs - n) =
    n + length (takeWhile (\<lambda>p. fst p < key) (drop n xs))"
proof -
  let ?lt = "\<lambda>p. keyComparator (fst p) key < 0"
  let ?r = "lower_bound ?lt xs n (length xs - n)"
  have range: "n \<le> ?r" "?r \<le> length xs"
    using lower_bound_range [of n ?lt xs "length xs - n"] assms(2) by auto
  have mono: "fst (xs ! i) \<le> fst (xs ! j)" if "n \<le> i" "i \<le> j" "j < length xs" for i j
  proof (cases "i = j")
    case False
    then have "fst (drop n xs ! (i - n)) < fst (drop n xs ! (j - n))"
      using sorted_keys_nth [OF assms(1), of "i - n" "j - n"] that by auto
    then show ?thesis
      using that by simp
  qed simp
  have part: "\<forall>i j. n \<le> i \<longrightarrow> i \<le> j \<longrightarrow> j < n + (length xs - n) \<longrightarrow> ?lt (xs ! j) \<longrightarrow> ?lt (xs ! i)"
    using mono assms(2) by (auto intro: le_less_trans)
  note bound = lower_bound_boundary [OF part]
  have "takeWhile (\<lambda>p. fst p < key) (drop n xs) = take (?r - n) (drop n xs)"
  proof (rule takeWhile_eq_take_P_nth)
    fix i assume "i < ?r - n" "i < length (drop n xs)"
    then show "fst (drop n xs ! i) < key"
      using conjunct1 [OF bound] by auto
  next
    assume "?r - n < length (drop n xs)"
    then show "\<not> fst (drop n xs ! (?r - n)) < key"
      using conjunct2 [OF bound] range assms(2) by auto
  qed
  then show ?thesis
    using range by simp
qed

lemma Leaf_KeyIndex_sorted:
  "sorted_keys (leaf_array l) \<Longrightarrow> Leaf_KeyIndex key l = length (takeWhile (\<lambda>p. fst p < key) (leaf_array l))"
  using lower_bound_sorted [of 0 "leaf_array l" key] by (simp add: Leaf_KeyIndex_def)

section \<open>Operations on sorted pages\<close>

text \<open>A sorted array around a key.\<close>

lemma around_key:
  assumes "sorted_keys xs"
  obtains as bs where "xs = as @ bs" "takeWhile (\<lambda>p. fst p < key) xs = as" "\<forall>p \<in> set as. fst p < key"
    "\<forall>p \<in> set bs. key \<le> fst p" "\<forall>p \<in> set (tl bs). key < fst p"
proof -
  let ?as = "takeWhile (\<lambda>p. fst p < key) xs" and ?bs = "dropWhile (\<lambda>p. fst p < key) xs"
  have s: "sorted_keys ?bs"
    using assms by (metis sorted_keys_simps(3) takeWhile_dropWhile_id)
  have ge: "\<forall>p \<in> set ?bs. key \<le> fst p"
  proof (cases ?bs)
    case (Cons b bs)
    then have "\<not> fst b < key"
      by (metis hd_dropWhile list.distinct(1) list.sel(1))
    then show ?thesis
      using s Cons by (auto simp: not_less intro: le_less_trans less_imp_le)
  next
    case Nil
    show ?thesis
      unfolding Nil by simp
  qed
  moreover have "\<forall>p \<in> set (tl bs). key < fst p" if "bs = ?bs" for bs
    using s [folded that] ge [folded that] by (cases bs) (auto intro: le_less_trans)
  moreover have "\<forall>p \<in> set ?as. fst p < key"
    using set_takeWhileD by metis
  ultimately show ?thesis
    using that [of ?as ?bs] by simp
qed

lemma map_of_less: "\<forall>p \<in> set xs. fst p < key \<Longrightarrow> map_of xs (key :: 'k :: linorder) = None"
  by (auto simp: map_of_eq_None_iff)

lemma map_of_greater: "\<forall>p \<in> set xs. key < fst p \<Longrightarrow> map_of xs (key :: 'k :: linorder) = None"
  by (auto simp: map_of_eq_None_iff)

lemma Leaf_Lookup_sorted: "sorted_keys (leaf_array l) \<Longrightarrow> Leaf_Lookup key l = map_of (leaf_array l) key"
proof -
  assume s: "sorted_keys (leaf_array l)"
  obtain as bs where d: "leaf_array l = as @ bs" "takeWhile (\<lambda>p. fst p < key) (leaf_array l) = as"
    "\<forall>p \<in> set as. fst p < key" "\<forall>p \<in> set bs. key \<le> fst p" "\<forall>p \<in> set (tl bs). key < fst p"
    by (rule around_key [OF s, where key = key])
  note idx = Leaf_KeyIndex_sorted [OF s, of key, unfolded d(2)]
  show ?thesis
    using d(1,3-5) map_of_less [OF d(3)] map_of_greater [of "tl bs" key]
    by (cases bs) (auto simp: Leaf_Lookup_def idx Let_def map_add_def)
qed

text \<open>Insertion keeps the array sorted and adds the binding of a new key.\<close>

lemma Leaf_Insert_sorted:
  assumes "sorted_keys (leaf_array l)"
  shows "if map_of (leaf_array l) key \<noteq> None then Leaf_Insert key v l = (int (length (leaf_array l)), l)
    else \<exists>as bs. leaf_array l = as @ bs \<and> (\<forall>p \<in> set as. fst p < key) \<and> (\<forall>p \<in> set bs. key < fst p) \<and>
      Leaf_Insert key v l = (int (length (leaf_array l)) + 1, l\<lparr>leaf_array := as @ (key, v) # bs\<rparr>)"
proof -
  obtain as bs where d: "leaf_array l = as @ bs" "takeWhile (\<lambda>p. fst p < key) (leaf_array l) = as"
    "\<forall>p \<in> set as. fst p < key" "\<forall>p \<in> set bs. key \<le> fst p" "\<forall>p \<in> set (tl bs). key < fst p"
    by (rule around_key [OF assms, where key = key])
  note idx = Leaf_KeyIndex_sorted [OF assms, of key, unfolded d(2)]
  show ?thesis
  proof (cases bs)
    case Nil
    then show ?thesis
      using d(1,3) map_of_less [OF d(3)]
      by (auto simp: Leaf_Insert_def idx Let_def intro!: exI [of _ as, OF exI [of _ "[]"]])
  next
    case (Cons b bs')
    show ?thesis
    proof (cases "fst b = key")
      case True
      then show ?thesis
        using d Cons map_of_less [OF d(3)] by (cases b) (auto simp: Leaf_Insert_def idx Let_def map_add_def)
    next
      case False
      then have gt: "\<forall>p \<in> set bs. key < fst p"
        using d(4,5) Cons by (auto simp: less_le)
      then have "map_of (leaf_array l) key = None"
        using map_of_less [OF d(3)] map_of_greater [OF gt] d(1) by (simp add: map_add_def)
      then show ?thesis
        using d(1,3) gt Cons False by (auto simp: Leaf_Insert_def idx Let_def intro!: exI [of _ as, OF exI [of _ bs]])
    qed
  qed
qed

lemma RemoveAndDeleteRecord_sorted:
  assumes "sorted_keys (leaf_array l)"
  shows "if map_of (leaf_array l) key = None
    then RemoveAndDeleteRecord key l = (int (length (leaf_array l)), l)
    else \<exists>as v bs. leaf_array l = as @ (key, v) # bs \<and>
      RemoveAndDeleteRecord key l = (int (length (leaf_array l)) - 1, l\<lparr>leaf_array := as @ bs\<rparr>)"
proof -
  obtain as bs where d: "leaf_array l = as @ bs" "takeWhile (\<lambda>p. fst p < key) (leaf_array l) = as"
    "\<forall>p \<in> set as. fst p < key" "\<forall>p \<in> set bs. key \<le> fst p" "\<forall>p \<in> set (tl bs). key < fst p"
    by (rule around_key [OF assms, where key = key])
  note idx = Leaf_KeyIndex_sorted [OF assms, of key, unfolded d(2)]
  show ?thesis
  proof (cases bs)
    case Nil
    then show ?thesis
      using d map_of_less [OF d(3)] by (simp add: RemoveAndDeleteRecord_def idx Let_def)
  next
    case (Cons b bs')
    show ?thesis
    proof (cases "fst b = key")
      case True
      then show ?thesis
        using d Cons map_of_less [OF d(3)]
        by (cases b) (auto simp: RemoveAndDeleteRecord_def idx Let_def map_add_def intro!: exI [of _ as])
    next
      case False
      then have gt: "\<forall>p \<in> set bs. key < fst p"
        using d(4,5) Cons by (auto simp: less_le)
      then have "map_of (leaf_array l) key = None"
        using map_of_less [OF d(3)] map_of_greater [OF gt] d(1) by (simp add: map_add_def)
      then show ?thesis
        using d(1) Cons False by (simp add: RemoveAndDeleteRecord_def idx Let_def)
    qed
  qed
qed

text \<open>
  The search in an internal page: the child behind the last separator that is not greater than
  the key, or the first child.
\<close>

lemma Internal_Lookup_sorted:
  assumes "internal_array p = (k0, c0) # es" "sorted_keys es"
  shows "Internal_Lookup key p =
    Inr (snd (internal_array p ! length (takeWhile (\<lambda>e. fst e \<le> key) es)))"
proof -
  let ?xs = "(k0, c0) # es"
  obtain as bs where d: "es = as @ bs" "takeWhile (\<lambda>p. fst p < key) es = as"
    "\<forall>p \<in> set as. fst p < key" "\<forall>p \<in> set bs. key \<le> fst p" "\<forall>p \<in> set (tl bs). key < fst p"
    by (rule around_key [OF assms(2), where key = key])
  have idx: "lower_bound (\<lambda>e. keyComparator (fst e) key < 0) ?xs 1 (length ?xs - 1) = Suc (length as)"
    using lower_bound_sorted [of 1 ?xs key] assms(2) d(2) by simp
  have as: "takeWhile (\<lambda>e. fst e \<le> key) es = as @ takeWhile (\<lambda>e. fst e \<le> key) bs"
    using d(1,3) by (simp add: takeWhile_append2 less_imp_le)
  show ?thesis
  proof (cases bs)
    case Nil
    then have "length (takeWhile (\<lambda>e. fst e \<le> key) es) = length as"
      unfolding as by simp
    then show ?thesis
      using Nil idx d(1) assms(1) by (simp add: Internal_Lookup_def Let_def)
  next
    case (Cons b bs')
    then have "takeWhile (\<lambda>e. fst e \<le> key) bs = (if fst b = key then [b] else [])"
      using d(4,5) by (cases bs') auto
    then show ?thesis
      using idx as d(1) Cons assms(1) by (auto simp: Internal_Lookup_def Let_def nth_append)
  qed
qed

end
