(* ===== verification/Values.thy ===== *)
theory Values
  imports Prelude
begin

text \<open>
  The data of the type subsystem: \<^verbatim>\<open>src/include/type/limits.h\<close>,
  \<^verbatim>\<open>type_id.h\<close>, \<^verbatim>\<open>value.h\<close>, \<^verbatim>\<open>value.cpp\<close> and the
  static functions of \<^verbatim>\<open>type.cpp\<close>.  A \<^verbatim>\<open>Value\<close> is a record with the
  fields of the class; the union \<^verbatim>\<open>value_\<close> is a datatype whose constructor says
  which member was written.  The C++ conversions between integer widths, the decimal printer
  \<^verbatim>\<open>std::to_string\<close> and the parsers \<^verbatim>\<open>std::stoi\<close> and
  \<^verbatim>\<open>std::stoll\<close> are written out here, with the lemmas the type classes use.

  Floating-point numbers stay abstract: a \<^verbatim>\<open>double\<close> is an element of a type
  \<open>'d\<close> and the processor's operations on it are the fields of a record
  \<open>'d double_ops\<close>, an argument of every definition that computes with doubles.
\<close>

section \<open>Integers of a given width\<close>

text \<open>
  \<open>scast w\<close> is the conversion to a signed \<open>w\<close>-bit integer, \<open>ucast64\<close>
  the conversion to \<^verbatim>\<open>uint64_t\<close>, and \<open>in_sint w\<close> says that an integer is
  a value of the signed type.
\<close>

definition scast :: "nat \<Rightarrow> int \<Rightarrow> int" where
  "scast w x = (x + 2 ^ (w - 1)) mod 2 ^ w - 2 ^ (w - 1)"

definition ucast64 :: "int \<Rightarrow> int" where
  "ucast64 x = x mod 2 ^ 64"

definition in_sint :: "nat \<Rightarrow> int \<Rightarrow> bool" where
  "in_sint w x \<longleftrightarrow> - (2 ^ (w - 1)) \<le> x \<and> x < 2 ^ (w - 1)"

lemma pow2_pred: "0 < w \<Longrightarrow> (2 :: int) ^ w = 2 * 2 ^ (w - 1)"
  by (cases w) simp_all

lemma scast_id: "0 < w \<Longrightarrow> in_sint w x \<Longrightarrow> scast w x = x"
  unfolding scast_def in_sint_def by (subst mod_pos_pos_trivial) (auto simp: pow2_pred)

lemma scast_in_range: "0 < w \<Longrightarrow> in_sint w (scast w x)"
proof -
  assume w: "0 < w"
  have "0 \<le> (x + 2 ^ (w - 1)) mod 2 ^ w" "(x + 2 ^ (w - 1)) mod 2 ^ w < 2 ^ w"
    by simp_all
  then show ?thesis
    unfolding scast_def in_sint_def using pow2_pred [OF w] by linarith
qed

lemma scast_eq_iff: "0 < w \<Longrightarrow> scast w x = x \<longleftrightarrow> in_sint w x"
  using scast_id scast_in_range by metis

lemma in_sint_mono: "in_sint w x \<Longrightarrow> w \<le> w' \<Longrightarrow> in_sint w' x"
proof -
  assume "in_sint w x" "w \<le> w'"
  moreover have "(2 :: int) ^ (w - 1) \<le> 2 ^ (w' - 1)"
    using \<open>w \<le> w'\<close> by (intro power_increasing) auto
  ultimately show ?thesis
    unfolding in_sint_def by linarith
qed

lemma ucast64_range: "0 \<le> ucast64 x" "ucast64 x < 2 ^ 64"
  by (simp_all add: ucast64_def)

lemma ucast64_id: "0 \<le> x \<Longrightarrow> x < 2 ^ 64 \<Longrightarrow> ucast64 x = x"
  by (simp add: ucast64_def)

lemma scast64_ucast64: "0 \<le> x \<Longrightarrow> x < 2 ^ 64 \<Longrightarrow> ucast64 (scast 64 x) = x"
  by (simp add: ucast64_def scast_def mod_simps)

section \<open>Limits\<close>

definition BUSTUB_INT8_MIN :: int where "BUSTUB_INT8_MIN = -128 + 1"
definition BUSTUB_INT16_MIN :: int where "BUSTUB_INT16_MIN = -32768 + 1"
definition BUSTUB_INT32_MIN :: int where "BUSTUB_INT32_MIN = -2147483648 + 1"
definition BUSTUB_INT64_MIN :: int where "BUSTUB_INT64_MIN = -9223372036854775808 + 1"
definition BUSTUB_TIMESTAMP_MIN :: int where "BUSTUB_TIMESTAMP_MIN = 0"
definition BUSTUB_BOOLEAN_MIN :: int where "BUSTUB_BOOLEAN_MIN = 0"
definition BUSTUB_INT8_MAX :: int where "BUSTUB_INT8_MAX = 127"
definition BUSTUB_INT16_MAX :: int where "BUSTUB_INT16_MAX = 32767"
definition BUSTUB_INT32_MAX :: int where "BUSTUB_INT32_MAX = 2147483647"
definition BUSTUB_INT64_MAX :: int where "BUSTUB_INT64_MAX = 9223372036854775807"
definition BUSTUB_TIMESTAMP_MAX :: int where "BUSTUB_TIMESTAMP_MAX = 11231999986399999999"
definition BUSTUB_BOOLEAN_MAX :: int where "BUSTUB_BOOLEAN_MAX = 1"
definition BUSTUB_VALUE_NULL :: int where "BUSTUB_VALUE_NULL = 4294967295"
definition BUSTUB_INT8_NULL :: int where "BUSTUB_INT8_NULL = -128"
definition BUSTUB_INT16_NULL :: int where "BUSTUB_INT16_NULL = -32768"
definition BUSTUB_INT32_NULL :: int where "BUSTUB_INT32_NULL = -2147483648"
definition BUSTUB_INT64_NULL :: int where "BUSTUB_INT64_NULL = -9223372036854775808"
definition BUSTUB_TIMESTAMP_NULL :: int where "BUSTUB_TIMESTAMP_NULL = 18446744073709551615"
definition BUSTUB_BOOLEAN_NULL :: int where "BUSTUB_BOOLEAN_NULL = -128"
definition BUSTUB_VARCHAR_MAX_LEN :: int where "BUSTUB_VARCHAR_MAX_LEN = 4294967295"

lemmas limit_defs =
  BUSTUB_INT8_MIN_def BUSTUB_INT16_MIN_def BUSTUB_INT32_MIN_def BUSTUB_INT64_MIN_def
  BUSTUB_TIMESTAMP_MIN_def BUSTUB_BOOLEAN_MIN_def
  BUSTUB_INT8_MAX_def BUSTUB_INT16_MAX_def BUSTUB_INT32_MAX_def BUSTUB_INT64_MAX_def
  BUSTUB_TIMESTAMP_MAX_def BUSTUB_BOOLEAN_MAX_def BUSTUB_VALUE_NULL_def
  BUSTUB_INT8_NULL_def BUSTUB_INT16_NULL_def BUSTUB_INT32_NULL_def BUSTUB_INT64_NULL_def
  BUSTUB_TIMESTAMP_NULL_def BUSTUB_BOOLEAN_NULL_def BUSTUB_VARCHAR_MAX_LEN_def

section \<open>Printing and parsing decimal integers\<close>

text \<open>
  \<^verbatim>\<open>std::to_string\<close> on integers, and \<^verbatim>\<open>std::stoi\<close> and
  \<^verbatim>\<open>std::stoll\<close>: leading white space and one sign are accepted, the longest run
  of digits is read and the rest of the string is ignored.  No digit at all is
  \<^verbatim>\<open>std::invalid_argument\<close>, a number outside the type is
  \<^verbatim>\<open>std::out_of_range\<close>.
\<close>

definition digit_char :: "nat \<Rightarrow> char" where
  "digit_char d = char_of (48 + d)"

definition char_digit :: "char \<Rightarrow> nat" where
  "char_digit c = of_char c - 48"

definition is_digit :: "char \<Rightarrow> bool" where
  "is_digit c \<longleftrightarrow> 48 \<le> (of_char c :: nat) \<and> (of_char c :: nat) \<le> 57"

definition is_space :: "char \<Rightarrow> bool" where
  "is_space c \<longleftrightarrow> (of_char c :: nat) \<in> {9, 10, 11, 12, 13, 32}"

fun nat_to_string :: "nat \<Rightarrow> string" where
  "nat_to_string n =
     (if n < 10 then [digit_char n] else nat_to_string (n div 10) @ [digit_char (n mod 10)])"

declare nat_to_string.simps [simp del]

definition to_string :: "int \<Rightarrow> string" where
  "to_string i = (if i < 0 then CHR ''-'' # nat_to_string (nat (- i)) else nat_to_string (nat i))"

definition digits_value :: "string \<Rightarrow> nat" where
  "digits_value ds = foldl (\<lambda>a c. 10 * a + char_digit c) 0 ds"

definition parse_digits :: "string \<Rightarrow> nat option" where
  "parse_digits s = (let ds = takeWhile is_digit s in if ds = [] then None else Some (digits_value ds))"

definition parse_int :: "string \<Rightarrow> int option" where
  "parse_int s =
     (case dropWhile is_space s of
        [] \<Rightarrow> None
      | c # cs \<Rightarrow>
          if c = CHR ''-'' then map_option (\<lambda>n. - int n) (parse_digits cs)
          else if c = CHR ''+'' then map_option int (parse_digits cs)
          else map_option int (parse_digits (c # cs)))"

datatype 'a parsed = Parsed 'a | ParseOutOfRange | ParseInvalid

definition sto :: "nat \<Rightarrow> string \<Rightarrow> int parsed" where
  "sto w s =
     (case parse_int s of
        None \<Rightarrow> ParseInvalid
      | Some i \<Rightarrow> if in_sint w i then Parsed i else ParseOutOfRange)"

definition stoi :: "string \<Rightarrow> int parsed" where
  "stoi s = sto 32 s"

definition stoll :: "string \<Rightarrow> int parsed" where
  "stoll s = sto 64 s"

lemma of_char_digit: "d < 10 \<Longrightarrow> (of_char (digit_char d) :: nat) = 48 + d"
  by (simp add: digit_char_def)

lemma is_digit_digit_char: "d < 10 \<Longrightarrow> is_digit (digit_char d)"
  by (simp add: is_digit_def of_char_digit)

lemma char_digit_digit_char: "d < 10 \<Longrightarrow> char_digit (digit_char d) = d"
  by (simp add: char_digit_def of_char_digit)

lemma nat_to_string_digits: "\<forall>c \<in> set (nat_to_string n). is_digit c"
proof (induction n rule: nat_to_string.induct)
  case (1 n)
  then show ?case
    by (cases "n < 10") (auto simp: nat_to_string.simps [of n] is_digit_digit_char)
qed

lemma nat_to_string_nonempty: "nat_to_string n \<noteq> []"
  by (subst nat_to_string.simps) simp

lemma digits_value_nat_to_string: "digits_value (nat_to_string n) = n"
proof (induction n rule: nat_to_string.induct)
  case (1 n)
  show ?case
  proof (cases "n < 10")
    case True
    then show ?thesis
      by (simp add: nat_to_string.simps [of n] digits_value_def char_digit_digit_char)
  next
    case False
    then have "digits_value (nat_to_string n) =
        10 * digits_value (nat_to_string (n div 10)) + char_digit (digit_char (n mod 10))"
      by (simp add: nat_to_string.simps [of n] digits_value_def)
    also have "\<dots> = 10 * (n div 10) + n mod 10"
      using 1 False by (simp add: char_digit_digit_char)
    finally show ?thesis by simp
  qed
qed

lemma parse_digits_nat_to_string: "parse_digits (nat_to_string n) = Some n"
proof -
  have all: "takeWhile is_digit (nat_to_string n) = nat_to_string n"
    using nat_to_string_digits by (simp add: takeWhile_eq_all_conv)
  show ?thesis
    unfolding parse_digits_def Let_def all
    by (simp add: nat_to_string_nonempty digits_value_nat_to_string)
qed

lemma is_digit_not_other:
  "is_digit c \<Longrightarrow> \<not> is_space c \<and> c \<noteq> CHR ''-'' \<and> c \<noteq> CHR ''+''"
  by (auto simp: is_digit_def is_space_def)

lemma parse_int_to_string: "parse_int (to_string i) = Some i"
proof (cases "i < 0")
  case True
  then have "to_string i = CHR ''-'' # nat_to_string (nat (- i))"
    by (simp add: to_string_def)
  moreover have "\<not> is_space (CHR ''-'')"
    by (simp add: is_space_def)
  ultimately show ?thesis
    using True by (simp add: parse_int_def parse_digits_nat_to_string)
next
  case False
  obtain c cs where c: "nat_to_string (nat i) = c # cs"
    using nat_to_string_nonempty by (cases "nat_to_string (nat i)") auto
  then have "is_digit c"
    using nat_to_string_digits [of "nat i"] by simp
  then have "\<not> is_space c" "c \<noteq> CHR ''-''" "c \<noteq> CHR ''+''"
    using is_digit_not_other by blast+
  then show ?thesis
    using False c parse_digits_nat_to_string [of "nat i"] by (simp add: parse_int_def to_string_def)
qed

lemma sto_to_string: "in_sint w i \<Longrightarrow> sto w (to_string i) = Parsed i"
  by (simp add: sto_def parse_int_to_string)

section \<open>Little-endian storage\<close>

text \<open>
  A fixed-size value is stored with a plain store at its address: \<open>n\<close> bytes, the least
  significant one first.
\<close>

fun le_bytes :: "nat \<Rightarrow> int \<Rightarrow> byte list" where
  "le_bytes 0 i = []"
| "le_bytes (Suc n) i = word_of_int (i mod 256) # le_bytes n (i div 256)"

fun le_uint :: "byte list \<Rightarrow> int" where
  "le_uint [] = 0"
| "le_uint (b # bs) = uint b + 256 * le_uint bs"

definition le_sint :: "byte list \<Rightarrow> int" where
  "le_sint bs = scast (8 * length bs) (le_uint bs)"

lemma length_le_bytes [simp]: "length (le_bytes n i) = n"
  by (induction n arbitrary: i) auto

lemma le_uint_le_bytes: "le_uint (le_bytes n i) = i mod 256 ^ n"
proof (induction n arbitrary: i)
  case 0
  show ?case by simp
next
  case (Suc n)
  have "uint (word_of_int (i mod 256) :: byte) = i mod 256"
    by (simp add: uint_word_of_int)
  then have "le_uint (le_bytes (Suc n) i) = i mod 256 + 256 * (i div 256 mod 256 ^ n)"
    by (simp add: Suc.IH)
  also have "\<dots> = i mod (256 * 256 ^ n)"
    by (simp add: zmod_zmult2_eq)
  finally show ?case by simp
qed

lemma le_sint_le_bytes: "0 < n \<Longrightarrow> in_sint (8 * n) i \<Longrightarrow> le_sint (le_bytes n i) = i"
proof -
  assume n: "0 < n" and i: "in_sint (8 * n) i"
  have "(256 :: int) ^ n = 2 ^ (8 * n)"
    by (simp add: power_mult)
  then have "le_sint (le_bytes n i) = scast (8 * n) (i mod 2 ^ (8 * n))"
    by (simp add: le_sint_def le_uint_le_bytes)
  also have "\<dots> = scast (8 * n) i"
    by (simp add: scast_def mod_simps)
  also have "\<dots> = i"
    using n i by (simp add: scast_id)
  finally show ?thesis .
qed

text \<open>A store of \<open>bs\<close> at the start of a buffer; past its end it has no defined meaning.\<close>

definition store_bytes :: "byte list \<Rightarrow> byte list \<Rightarrow> byte list result" where
  "store_bytes bs storage =
     (if length bs \<le> length storage then Inr (bs @ drop (length bs) storage)
      else Inl UndefinedBehaviour)"

definition load_bytes :: "nat \<Rightarrow> byte list \<Rightarrow> byte list result" where
  "load_bytes n storage =
     (if n \<le> length storage then Inr (take n storage) else Inl UndefinedBehaviour)"

lemma load_after_store:
  "store_bytes bs storage = Inr storage' \<Longrightarrow> load_bytes (length bs) storage' = Inr bs"
  by (auto simp: store_bytes_def load_bytes_def split: if_splits)

lemma length_store_bytes:
  "store_bytes bs storage = Inr storage' \<Longrightarrow> length storage' = length storage"
  by (auto simp: store_bytes_def split: if_splits)

text \<open>Characters are bytes.\<close>

definition char_byte :: "char \<Rightarrow> byte" where
  "char_byte c = word_of_nat (of_char c)"

definition byte_char :: "byte \<Rightarrow> char" where
  "byte_char b = char_of (unat b)"

lemma byte_char_byte: "byte_char (char_byte c) = c"
proof -
  have "unat (word_of_nat (of_char c) :: byte) = of_char c"
    using of_char_of [of "of_char c :: nat"] by (simp add: unat_of_nat take_bit_eq_mod)
  then show ?thesis
    by (simp add: byte_char_def char_byte_def)
qed

lemma char_byte_eq_iff: "char_byte c = char_byte c' \<longleftrightarrow> c = c'"
  by (metis byte_char_byte)

lemma char_byte_zero_iff: "char_byte c = 0 \<longleftrightarrow> c = CHR 0x00"
proof -
  have "char_byte (CHR 0x00) = 0"
    by (simp add: char_byte_def)
  then show ?thesis
    using char_byte_eq_iff by metis
qed

section \<open>Type identifiers, values and floating-point numbers\<close>

datatype TypeId =
  INVALID | BOOLEAN | TINYINT | SMALLINT | INTEGER | BIGINT | DECIMAL | VARCHAR | TIMESTAMP

text \<open>
  The table of type instances, indexed by the number of the type: an array of fourteen pointers of
  which the first eight are initialised.  An instance is named by the type its class implements.
\<close>

primrec type_num :: "TypeId \<Rightarrow> nat" where
  "type_num INVALID = 0"
| "type_num BOOLEAN = 1"
| "type_num TINYINT = 2"
| "type_num SMALLINT = 3"
| "type_num INTEGER = 4"
| "type_num BIGINT = 5"
| "type_num DECIMAL = 6"
| "type_num VARCHAR = 7"
| "type_num TIMESTAMP = 8"

definition k_types :: "TypeId option list" where
  "k_types = [Some INVALID, Some BOOLEAN, Some TINYINT, Some SMALLINT, Some INTEGER, Some BIGINT, Some DECIMAL, Some VARCHAR]
     @ replicate 6 None"

definition GetInstance :: "TypeId \<Rightarrow> TypeId option" where
  "GetInstance t = k_types ! type_num t"

lemma GetInstance_simps [simp]:
  "GetInstance INVALID = Some INVALID" "GetInstance BOOLEAN = Some BOOLEAN" "GetInstance TINYINT = Some TINYINT"
  "GetInstance SMALLINT = Some SMALLINT" "GetInstance INTEGER = Some INTEGER" "GetInstance BIGINT = Some BIGINT"
  "GetInstance DECIMAL = Some DECIMAL" "GetInstance VARCHAR = Some VARCHAR" "GetInstance TIMESTAMP = None"
  by (simp_all add: GetInstance_def k_types_def)

lemma GetInstance_iff [simp]:
  "GetInstance t = Some c \<longleftrightarrow> t = c \<and> c \<noteq> TIMESTAMP" "GetInstance t = None \<longleftrightarrow> t = TIMESTAMP"
  by (cases t; auto)+

datatype CmpBool = CmpFalse | CmpTrue | CmpNull

definition GetCmpBool :: "bool \<Rightarrow> CmpBool" where
  "GetCmpBool b = (if b then CmpTrue else CmpFalse)"

text \<open>
  The union \<^verbatim>\<open>value_\<close>: an integer member, the double, or the pointer to the
  characters of a string (\<open>None\<close> is the null pointer; the list holds every byte the
  pointer may be read for).  \<open>NoVal\<close> is a union no member of which was written.
\<close>

datatype 'd val = NoVal | IntVal int | DecVal 'd | StrVal "string option"

record 'd Value =
  v_val :: "'d val"
  v_len :: int
  v_manage :: bool
  v_type :: TypeId

record 'd double_ops =
  d_of_int :: "int \<Rightarrow> 'd"
  d_add :: "'d \<Rightarrow> 'd \<Rightarrow> 'd"
  d_sub :: "'d \<Rightarrow> 'd \<Rightarrow> 'd"
  d_mul :: "'d \<Rightarrow> 'd \<Rightarrow> 'd"
  d_div :: "'d \<Rightarrow> 'd \<Rightarrow> 'd"
  d_trunc :: "'d \<Rightarrow> 'd"
  d_sqrt :: "'d \<Rightarrow> 'd"
  d_eq :: "'d \<Rightarrow> 'd \<Rightarrow> bool"
  d_lt :: "'d \<Rightarrow> 'd \<Rightarrow> bool"
  d_le :: "'d \<Rightarrow> 'd \<Rightarrow> bool"
  d_to_int :: "'d \<Rightarrow> int option"
  d_to_string :: "'d \<Rightarrow> string"
  d_stod :: "string \<Rightarrow> 'd parsed"
  d_bytes :: "'d \<Rightarrow> byte list"
  d_of_bytes :: "byte list \<Rightarrow> 'd"
  dbl_lowest :: 'd
  flt_lowest :: 'd
  dbl_max :: 'd

text \<open>
  \<open>d_to_int\<close> truncates towards zero and is \<open>None\<close> for an infinity or a NaN.
  The named limits are those of \<^verbatim>\<open>limits.h\<close>.
\<close>

definition BUSTUB_DECIMAL_MIN :: "'d double_ops \<Rightarrow> 'd" where
  "BUSTUB_DECIMAL_MIN D = flt_lowest D"

definition BUSTUB_DECIMAL_MAX :: "'d double_ops \<Rightarrow> 'd" where
  "BUSTUB_DECIMAL_MAX D = dbl_max D"

definition BUSTUB_DECIMAL_NULL :: "'d double_ops \<Rightarrow> 'd" where
  "BUSTUB_DECIMAL_NULL D = dbl_lowest D"

text \<open>The comparison operators a macro of the type classes is instantiated with.\<close>

datatype cmp_op = OpEq | OpNe | OpLt | OpLe | OpGt | OpGe

fun cmp_int :: "cmp_op \<Rightarrow> int \<Rightarrow> int \<Rightarrow> bool" where
  "cmp_int OpEq x y \<longleftrightarrow> x = y"
| "cmp_int OpNe x y \<longleftrightarrow> x \<noteq> y"
| "cmp_int OpLt x y \<longleftrightarrow> x < y"
| "cmp_int OpLe x y \<longleftrightarrow> x \<le> y"
| "cmp_int OpGt x y \<longleftrightarrow> y < x"
| "cmp_int OpGe x y \<longleftrightarrow> y \<le> x"

fun cmp_double :: "'d double_ops \<Rightarrow> cmp_op \<Rightarrow> 'd \<Rightarrow> 'd \<Rightarrow> bool" where
  "cmp_double D OpEq x y \<longleftrightarrow> d_eq D x y"
| "cmp_double D OpNe x y \<longleftrightarrow> \<not> d_eq D x y"
| "cmp_double D OpLt x y \<longleftrightarrow> d_lt D x y"
| "cmp_double D OpLe x y \<longleftrightarrow> d_le D x y"
| "cmp_double D OpGt x y \<longleftrightarrow> d_lt D y x"
| "cmp_double D OpGe x y \<longleftrightarrow> d_le D y x"

section \<open>Construction of values\<close>

text \<open>
  The constructors are told apart by the static type of their second argument.  Each writes
  the union member of the type (converting the argument to its width) and records in
  \<open>v_len\<close> whether the member holds the null marker of the type.
\<close>

definition Value_type :: "TypeId \<Rightarrow> 'd Value" where
  "Value_type t = \<lparr>v_val = NoVal, v_len = BUSTUB_VALUE_NULL, v_manage = False, v_type = t\<rparr>"

definition int_Value :: "TypeId \<Rightarrow> int \<Rightarrow> int \<Rightarrow> 'd Value" where
  "int_Value t i null_mark =
     (Value_type t)\<lparr>v_val := IntVal i, v_len := (if i = null_mark then BUSTUB_VALUE_NULL else 0)\<rparr>"

definition Value_int8 :: "TypeId \<Rightarrow> int \<Rightarrow> 'd Value result" where
  "Value_int8 t i =
     (case t of
        BOOLEAN \<Rightarrow> Inr (int_Value t (scast 8 i) BUSTUB_BOOLEAN_NULL)
      | TINYINT \<Rightarrow> Inr (int_Value t (scast 8 i) BUSTUB_INT8_NULL)
      | SMALLINT \<Rightarrow> Inr (int_Value t (scast 16 i) BUSTUB_INT16_NULL)
      | INTEGER \<Rightarrow> Inr (int_Value t (scast 32 i) BUSTUB_INT32_NULL)
      | BIGINT \<Rightarrow> Inr (int_Value t (scast 64 i) BUSTUB_INT64_NULL)
      | _ \<Rightarrow> Inl (Exception ET_INCOMPATIBLE_TYPE))"

definition Value_int16 :: "TypeId \<Rightarrow> int \<Rightarrow> 'd Value result" where
  "Value_int16 t i =
     (case t of
        BOOLEAN \<Rightarrow> Inr (int_Value t (scast 8 i) BUSTUB_BOOLEAN_NULL)
      | TINYINT \<Rightarrow> Inr (int_Value t (scast 8 i) BUSTUB_INT8_NULL)
      | SMALLINT \<Rightarrow> Inr (int_Value t (scast 16 i) BUSTUB_INT16_NULL)
      | INTEGER \<Rightarrow> Inr (int_Value t (scast 32 i) BUSTUB_INT32_NULL)
      | BIGINT \<Rightarrow> Inr (int_Value t (scast 64 i) BUSTUB_INT64_NULL)
      | TIMESTAMP \<Rightarrow> Inr (int_Value t (ucast64 i) BUSTUB_TIMESTAMP_NULL)
      | _ \<Rightarrow> Inl (Exception ET_INCOMPATIBLE_TYPE))"

definition Value_int32 :: "TypeId \<Rightarrow> int \<Rightarrow> 'd Value result" where
  "Value_int32 t i =
     (case t of
        BOOLEAN \<Rightarrow> Inr (int_Value t (scast 8 i) BUSTUB_BOOLEAN_NULL)
      | TINYINT \<Rightarrow> Inr (int_Value t (scast 8 i) BUSTUB_INT8_NULL)
      | SMALLINT \<Rightarrow> Inr (int_Value t (scast 16 i) BUSTUB_INT16_NULL)
      | INTEGER \<Rightarrow> Inr (int_Value t (scast 32 i) BUSTUB_INT32_NULL)
      | BIGINT \<Rightarrow> Inr (int_Value t (scast 64 i) BUSTUB_INT64_NULL)
      | TIMESTAMP \<Rightarrow> Inr (int_Value t (ucast64 i) BUSTUB_TIMESTAMP_NULL)
      | _ \<Rightarrow> Inl (Exception ET_INCOMPATIBLE_TYPE))"

definition Value_int64 :: "TypeId \<Rightarrow> int \<Rightarrow> 'd Value result" where
  "Value_int64 t i =
     (case t of
        BOOLEAN \<Rightarrow> Inr (int_Value t (scast 8 i) BUSTUB_BOOLEAN_NULL)
      | TINYINT \<Rightarrow> Inr (int_Value t (scast 8 i) BUSTUB_INT8_NULL)
      | SMALLINT \<Rightarrow> Inr (int_Value t (scast 16 i) BUSTUB_INT16_NULL)
      | INTEGER \<Rightarrow> Inr (int_Value t (scast 32 i) BUSTUB_INT32_NULL)
      | BIGINT \<Rightarrow> Inr (int_Value t (scast 64 i) BUSTUB_INT64_NULL)
      | TIMESTAMP \<Rightarrow> Inr (int_Value t (ucast64 i) BUSTUB_TIMESTAMP_NULL)
      | _ \<Rightarrow> Inl (Exception ET_INCOMPATIBLE_TYPE))"

definition Value_uint64 :: "TypeId \<Rightarrow> int \<Rightarrow> 'd Value result" where
  "Value_uint64 t i =
     (case t of
        BIGINT \<Rightarrow> Inr (int_Value t (scast 64 i) BUSTUB_INT64_NULL)
      | TIMESTAMP \<Rightarrow> Inr (int_Value t (ucast64 i) BUSTUB_TIMESTAMP_NULL)
      | _ \<Rightarrow> Inl (Exception ET_INCOMPATIBLE_TYPE))"

definition Value_double :: "'d double_ops \<Rightarrow> TypeId \<Rightarrow> 'd \<Rightarrow> 'd Value result" where
  "Value_double D t d =
     (case t of
        DECIMAL \<Rightarrow> Inr ((Value_type t)\<lparr>v_val := DecVal d,
                      v_len := (if d_eq D d (BUSTUB_DECIMAL_NULL D) then BUSTUB_VALUE_NULL else 0)\<rparr>)
      | _ \<Rightarrow> Inl (Exception ET_INCOMPATIBLE_TYPE))"

text \<open>
  \<open>Value_varlen t data len manage\<close> copies \<open>len\<close> bytes behind the pointer when it
  manages the data (fewer bytes there are an invalid read) and keeps the pointer otherwise.
\<close>

definition Value_varlen :: "TypeId \<Rightarrow> string option \<Rightarrow> int \<Rightarrow> bool \<Rightarrow> 'd Value result" where
  "Value_varlen t data len manage =
     (case t of
        VARCHAR \<Rightarrow>
          (case data of
             None \<Rightarrow> Inr ((Value_type t)\<lparr>v_val := StrVal None, v_len := BUSTUB_VALUE_NULL\<rparr>)
           | Some bs \<Rightarrow>
               if manage then
                 if \<not> len < BUSTUB_VARCHAR_MAX_LEN then Inl AssertionFailure
                 else if int (length bs) < len then Inl UndefinedBehaviour
                 else Inr ((Value_type t)\<lparr>v_val := StrVal (Some (take (nat len) bs)), v_len := len,
                                         v_manage := True\<rparr>)
               else Inr ((Value_type t)\<lparr>v_val := StrVal (Some bs), v_len := len, v_manage := False\<rparr>))
      | _ \<Rightarrow> Inl (Exception ET_INCOMPATIBLE_TYPE))"

text \<open>From a \<^verbatim>\<open>std::string\<close>: the characters and the terminating zero.\<close>

definition Value_string :: "TypeId \<Rightarrow> string \<Rightarrow> 'd Value result" where
  "Value_string t data =
     (case t of
        VARCHAR \<Rightarrow>
          (let len = (int (length data) + 1) mod 2 ^ 32
           in Inr ((Value_type t)\<lparr>v_val := StrVal (Some (take (nat len) (data @ [CHR 0x00]))),
                                 v_len := len, v_manage := True\<rparr>))
      | _ \<Rightarrow> Inl (Exception ET_INCOMPATIBLE_TYPE))"

text \<open>The copy constructor: a managed string is copied, everything else is shared.\<close>

definition Value_copy :: "'d Value \<Rightarrow> 'd Value result" where
  "Value_copy other =
     (case v_type other of
        VARCHAR \<Rightarrow>
          if v_len other = BUSTUB_VALUE_NULL then Inr (other\<lparr>v_val := StrVal None\<rparr>)
          else if v_manage other then
            (case v_val other of
               StrVal (Some bs) \<Rightarrow>
                 if int (length bs) < v_len other then Inl UndefinedBehaviour
                 else Inr (other\<lparr>v_val := StrVal (Some (take (nat (v_len other)) bs))\<rparr>)
             | _ \<Rightarrow> Inl UndefinedBehaviour)
          else Inr other
      | _ \<Rightarrow> Inr other)"

section \<open>Reading values\<close>

definition IsNull :: "'d Value \<Rightarrow> bool" where
  "IsNull v \<longleftrightarrow> v_len v = BUSTUB_VALUE_NULL"

text \<open>
  \<^verbatim>\<open>GetAs<T>\<close> reinterprets the bytes of the union.  Reading an integer member at its
  own width or a smaller one gives its low bytes; reading bytes that were never written, or
  the bytes of another kind of member, is left without meaning.
\<close>

definition int_bits :: "TypeId \<Rightarrow> nat" where
  "int_bits t =
     (case t of BOOLEAN \<Rightarrow> 8 | TINYINT \<Rightarrow> 8 | SMALLINT \<Rightarrow> 16 | INTEGER \<Rightarrow> 32 | BIGINT \<Rightarrow> 64
      | TIMESTAMP \<Rightarrow> 64 | _ \<Rightarrow> 0)"

definition GetAs_int :: "nat \<Rightarrow> 'd Value \<Rightarrow> int result" where
  "GetAs_int w v =
     (case v_val v of
        IntVal i \<Rightarrow> if w \<le> int_bits (v_type v) then Inr (scast w i) else Inl UndefinedBehaviour
      | _ \<Rightarrow> Inl UndefinedBehaviour)"

definition GetAs_uint64 :: "'d Value \<Rightarrow> int result" where
  "GetAs_uint64 v =
     (case v_val v of
        IntVal i \<Rightarrow> if int_bits (v_type v) = 64 then Inr (ucast64 i) else Inl UndefinedBehaviour
      | _ \<Rightarrow> Inl UndefinedBehaviour)"

definition GetAs_double :: "'d Value \<Rightarrow> 'd result" where
  "GetAs_double v = (case v_val v of DecVal d \<Rightarrow> Inr d | _ \<Rightarrow> Inl UndefinedBehaviour)"

text \<open>The bytes behind the pointer of a string value.\<close>

definition GetAs_varlen :: "'d Value \<Rightarrow> string option result" where
  "GetAs_varlen v = (case v_val v of StrVal p \<Rightarrow> Inr p | _ \<Rightarrow> Inl UndefinedBehaviour)"

definition CheckInteger :: "'d Value \<Rightarrow> bool" where
  "CheckInteger v \<longleftrightarrow> v_type v \<in> {TINYINT, SMALLINT, INTEGER, BIGINT}"

definition CheckComparable :: "'d Value \<Rightarrow> 'd Value \<Rightarrow> bool" where
  "CheckComparable v r =
     (case v_type v of
        BOOLEAN \<Rightarrow> v_type r = BOOLEAN \<or> v_type r = VARCHAR
      | TINYINT \<Rightarrow> v_type r \<in> {TINYINT, SMALLINT, INTEGER, BIGINT, DECIMAL, VARCHAR}
      | SMALLINT \<Rightarrow> v_type r \<in> {TINYINT, SMALLINT, INTEGER, BIGINT, DECIMAL, VARCHAR}
      | INTEGER \<Rightarrow> v_type r \<in> {TINYINT, SMALLINT, INTEGER, BIGINT, DECIMAL, VARCHAR}
      | BIGINT \<Rightarrow> v_type r \<in> {TINYINT, SMALLINT, INTEGER, BIGINT, DECIMAL, VARCHAR}
      | DECIMAL \<Rightarrow> v_type r \<in> {TINYINT, SMALLINT, INTEGER, BIGINT, DECIMAL, VARCHAR}
      | VARCHAR \<Rightarrow> True
      | _ \<Rightarrow> False)"

section \<open>Static functions of the type class\<close>

definition GetTypeSize :: "TypeId \<Rightarrow> nat result" where
  "GetTypeSize t =
     (case t of
        BOOLEAN \<Rightarrow> Inr 1 | TINYINT \<Rightarrow> Inr 1 | SMALLINT \<Rightarrow> Inr 2 | INTEGER \<Rightarrow> Inr 4
      | BIGINT \<Rightarrow> Inr 8 | DECIMAL \<Rightarrow> Inr 8 | TIMESTAMP \<Rightarrow> Inr 8 | VARCHAR \<Rightarrow> Inr 0
      | _ \<Rightarrow> Inl (Exception ET_UNKNOWN_TYPE))"

definition IsCoercableFrom :: "TypeId \<Rightarrow> TypeId \<Rightarrow> bool" where
  "IsCoercableFrom self t =
     (case self of
        INVALID \<Rightarrow> False
      | BOOLEAN \<Rightarrow> True
      | TIMESTAMP \<Rightarrow> t = VARCHAR \<or> t = TIMESTAMP
      | VARCHAR \<Rightarrow> t \<in> {BOOLEAN, TINYINT, SMALLINT, INTEGER, BIGINT, DECIMAL, TIMESTAMP, VARCHAR}
      | _ \<Rightarrow> t \<in> {TINYINT, SMALLINT, INTEGER, BIGINT, DECIMAL, VARCHAR})"

definition TypeIdToString :: "TypeId \<Rightarrow> string" where
  "TypeIdToString t =
     (case t of
        INVALID \<Rightarrow> ''INVALID'' | BOOLEAN \<Rightarrow> ''BOOLEAN'' | TINYINT \<Rightarrow> ''TINYINT''
      | SMALLINT \<Rightarrow> ''SMALLINT'' | INTEGER \<Rightarrow> ''INTEGER'' | BIGINT \<Rightarrow> ''BIGINT''
      | DECIMAL \<Rightarrow> ''DECIMAL'' | TIMESTAMP \<Rightarrow> ''TIMESTAMP'' | VARCHAR \<Rightarrow> ''VARCHAR'')"

definition GetMinValue :: "'d double_ops \<Rightarrow> TypeId \<Rightarrow> 'd Value result" where
  "GetMinValue D t =
     (case t of
        BOOLEAN \<Rightarrow> Value_int32 t 0
      | TINYINT \<Rightarrow> Value_int8 t BUSTUB_INT8_MIN
      | SMALLINT \<Rightarrow> Value_int16 t BUSTUB_INT16_MIN
      | INTEGER \<Rightarrow> Value_int32 t BUSTUB_INT32_MIN
      | BIGINT \<Rightarrow> Value_int64 t BUSTUB_INT64_MIN
      | DECIMAL \<Rightarrow> Value_double D t (BUSTUB_DECIMAL_MIN D)
      | TIMESTAMP \<Rightarrow> Value_int32 t 0
      | VARCHAR \<Rightarrow> Value_string t []
      | _ \<Rightarrow> Inl (Exception ET_MISMATCH_TYPE))"

definition GetMaxValue :: "'d double_ops \<Rightarrow> TypeId \<Rightarrow> 'd Value result" where
  "GetMaxValue D t =
     (case t of
        BOOLEAN \<Rightarrow> Value_int32 t 1
      | TINYINT \<Rightarrow> Value_int8 t BUSTUB_INT8_MAX
      | SMALLINT \<Rightarrow> Value_int16 t BUSTUB_INT16_MAX
      | INTEGER \<Rightarrow> Value_int32 t BUSTUB_INT32_MAX
      | BIGINT \<Rightarrow> Value_int64 t BUSTUB_INT64_MAX
      | DECIMAL \<Rightarrow> Value_double D t (BUSTUB_DECIMAL_MAX D)
      | TIMESTAMP \<Rightarrow> Value_uint64 t BUSTUB_TIMESTAMP_MAX
      | VARCHAR \<Rightarrow> Value_varlen t None 0 False
      | _ \<Rightarrow> Inl (Exception ET_MISMATCH_TYPE))"

text \<open>Every method the base class does not implement throws.\<close>

definition Type_not_implemented :: "'a result" where
  "Type_not_implemented = Inl (Exception ET_NOT_IMPLEMENTED)"

end
