(* ===== verification/Interfaces.thy ===== *)
theory Interfaces
  imports Prelude
begin

text \<open>
  The contracts between components, as locales.  The buffer pool manager relies on a replacer
  (which frames may be reused), on a page table (a finite map from page ids to frames) and on a
  disk (the last page image written is the one read back).  The clients of an index rely on a
  finite map.  The lemmas inside a locale are what the client needs of its provider; the
  providers interpret the locales on their own definitions in their own theories.
\<close>

section \<open>The replacer\<close>

locale replacer =
  fixes inv :: "nat \<Rightarrow> 'r \<Rightarrow> bool"
    and tracked :: "'r \<Rightarrow> frame_id_t set"
    and evictables :: "'r \<Rightarrow> frame_id_t set"
    and record_access :: "frame_id_t \<Rightarrow> 'r \<Rightarrow> 'r result"
    and set_evictable :: "frame_id_t \<Rightarrow> bool \<Rightarrow> 'r \<Rightarrow> 'r result"
    and remove :: "frame_id_t \<Rightarrow> 'r \<Rightarrow> 'r result"
    and evict :: "'r \<Rightarrow> (frame_id_t option \<times> 'r) result"
  assumes evictables_tracked: "inv n r \<Longrightarrow> evictables r \<subseteq> tracked r"
    and record_law: "inv n r \<Longrightarrow> f \<le> int n \<Longrightarrow>
      \<exists>r'. record_access f r = Inr r' \<and> inv n r' \<and>
        tracked r' = insert f (tracked r) \<and> evictables r' = evictables r"
    and set_evictable_law: "inv n r \<Longrightarrow> f \<le> int n \<Longrightarrow> f \<in> tracked r \<Longrightarrow>
      \<exists>r'. set_evictable f b r = Inr r' \<and> inv n r' \<and> tracked r' = tracked r \<and>
        evictables r' = (if b then insert f (evictables r) else evictables r - {f})"
    and remove_law: "inv n r \<Longrightarrow> f \<le> int n \<Longrightarrow> f \<in> evictables r \<Longrightarrow>
      \<exists>r'. remove f r = Inr r' \<and> inv n r' \<and>
        tracked r' = tracked r - {f} \<and> evictables r' = evictables r - {f}"
    and evict_law: "inv n r \<Longrightarrow> evictables r \<noteq> {} \<Longrightarrow>
      \<exists>f r'. evict r = Inr (Some f, r') \<and> f \<in> evictables r \<and> inv n r' \<and>
        tracked r' = tracked r - {f} \<and> evictables r' = evictables r - {f}"
begin

text \<open>Recording an access and pinning, which the buffer pool always does together.\<close>

lemma pin_law:
  assumes "inv n r" and "f \<le> int n"
  obtains r' where "bind_result (record_access f r) (set_evictable f False) = Inr r'"
    and "inv n r'" and "tracked r' = insert f (tracked r)" and "evictables r' = evictables r - {f}"
proof -
  obtain r1 where r1: "record_access f r = Inr r1" "inv n r1"
    "tracked r1 = insert f (tracked r)" "evictables r1 = evictables r"
    using record_law [OF assms] by blast
  moreover obtain r2 where "set_evictable f False r1 = Inr r2" "inv n r2"
    "tracked r2 = tracked r1" "evictables r2 = evictables r1 - {f}"
    using set_evictable_law [OF r1(2) assms(2), of False] r1(3) by auto
  ultimately show ?thesis by (intro that [of r2]) auto
qed

lemma evict_pin_law:
  assumes "inv n r" and "evictables r \<noteq> {}" and "\<And>f. f \<in> evictables r \<Longrightarrow> f \<le> int n"
  obtains f r1 r2 where "evict r = Inr (Some f, r1)" and "f \<in> evictables r"
    and "bind_result (record_access f r1) (set_evictable f False) = Inr r2"
    and "inv n r2" and "tracked r2 = tracked r" and "evictables r2 = evictables r - {f}"
proof -
  obtain f r1 where e: "evict r = Inr (Some f, r1)" "f \<in> evictables r" "inv n r1"
    "tracked r1 = tracked r - {f}" "evictables r1 = evictables r - {f}"
    using evict_law [OF assms(1,2)] by blast
  obtain r2 where "bind_result (record_access f r1) (set_evictable f False) = Inr r2"
    and "inv n r2" "tracked r2 = insert f (tracked r1)" "evictables r2 = evictables r1 - {f}"
    by (rule pin_law [OF e(3) assms(3) [OF e(2)]])
  moreover have "insert f (tracked r - {f}) = tracked r"
    using e(2) evictables_tracked [OF assms(1)] by auto
  ultimately show ?thesis using e by (intro that [of f r1 r2]) auto
qed

end

section \<open>The page table\<close>

locale page_table =
  fixes tinv :: "'t \<Rightarrow> bool"
    and entries :: "'t \<Rightarrow> 'k \<Rightarrow> 'v option"
    and keys :: "'k set"
    and find :: "'k \<Rightarrow> 't \<Rightarrow> 'v option result"
    and insert_key :: "'k \<Rightarrow> 'v \<Rightarrow> 't \<Rightarrow> 't result"
    and remove_key :: "'k \<Rightarrow> 't \<Rightarrow> (bool \<times> 't) result"
  assumes find_law: "tinv t \<Longrightarrow> find k t = Inr (entries t k)"
    and insert_law: "tinv t \<Longrightarrow> insert k (dom (entries t)) \<subseteq> keys \<Longrightarrow>
      \<exists>t'. insert_key k v t = Inr t' \<and> tinv t' \<and> entries t' = (entries t)(k \<mapsto> v)"
    and remove_law: "tinv t \<Longrightarrow>
      \<exists>t'. remove_key k t = Inr (entries t k \<noteq> None, t') \<and> tinv t' \<and> entries t' = (entries t)(k := None)"
begin

text \<open>The entry of an evicted page is replaced by the entry of the page that takes over its frame.\<close>

lemma rekey_law:
  assumes "tinv t" and "insert k (dom (entries t)) \<subseteq> keys"
  obtains t1 t2 where "remove_key old t = Inr (entries t old \<noteq> None, t1)"
    and "insert_key k v t1 = Inr t2" and "tinv t2" and "entries t2 = (entries t)(old := None, k \<mapsto> v)"
proof -
  obtain t1 where t1: "remove_key old t = Inr (entries t old \<noteq> None, t1)" "tinv t1"
    "entries t1 = (entries t)(old := None)"
    using remove_law [OF assms(1)] by blast
  moreover have "insert k (dom (entries t1)) \<subseteq> keys" using assms(2) t1(3) by auto
  ultimately show ?thesis using insert_law [of t1 k v] that by auto
qed

end

section \<open>The disk\<close>

text \<open>
  \<open>capacity\<close> bounds the page ids that can be stored.  A read is promised only into a zeroed buffer,
  because reading behind the end of the database file leaves the buffer as it is.
\<close>

locale disk =
  fixes dinv :: "'d \<Rightarrow> bool"
    and capacity :: "'d \<Rightarrow> int"
    and image :: "'d \<Rightarrow> page_id_t \<Rightarrow> byte list"
    and read_page :: "page_id_t \<Rightarrow> byte list \<Rightarrow> 'd \<Rightarrow> (byte list \<times> 'd) result"
    and write_page :: "page_id_t \<Rightarrow> byte list \<Rightarrow> 'd \<Rightarrow> 'd result"
  assumes image_length: "dinv d \<Longrightarrow> 0 \<le> p \<Longrightarrow> p < capacity d \<Longrightarrow> length (image d p) = BUSTUB_PAGE_SIZE"
    and read_law: "dinv d \<Longrightarrow> 0 \<le> p \<Longrightarrow> p < capacity d \<Longrightarrow>
      read_page p (replicate BUSTUB_PAGE_SIZE 0) d = Inr (image d p, d)"
    and write_law: "dinv d \<Longrightarrow> 0 \<le> p \<Longrightarrow> p < capacity d \<Longrightarrow> length xs = BUSTUB_PAGE_SIZE \<Longrightarrow>
      \<exists>d'. write_page p xs d = Inr d' \<and> dinv d' \<and> capacity d' = capacity d \<and>
        (\<forall>q. 0 \<le> q \<longrightarrow> q < capacity d \<longrightarrow> image d' q = (if q = p then xs else image d q))"
begin

lemma read_after_write:
  assumes "dinv d" and "0 \<le> p" and "p < capacity d" and "length xs = BUSTUB_PAGE_SIZE"
    and "0 \<le> q" and "q < capacity d"
  obtains d' where "write_page p xs d = Inr d'"
    and "read_page q (replicate BUSTUB_PAGE_SIZE 0) d' = Inr (if q = p then xs else image d q, d')"
  using write_law [OF assms(1-4)] read_law [of _ q] assms by force

end

section \<open>The index\<close>

text \<open>
  The requests a client makes of an index, their answers, and the two ways to serve a sequence of
  them: \<open>index_spec\<close> on a map, and \<open>index_run\<close> with the operations of an
  implementation.  An insertion of a key that is there changes nothing and answers false; a search
  is allowed only while the index has a binding.
\<close>

datatype ('k, 'v) index_op = InsertEntry 'k 'v | DeleteEntry 'k | ScanKey 'k

datatype 'v index_out = Inserted bool | Deleted | Found "'v option"

definition put_new :: "'k \<Rightarrow> 'v \<Rightarrow> ('k \<rightharpoonup> 'v) \<Rightarrow> ('k \<rightharpoonup> 'v)" where
  "put_new k v m = (if m k = None then m(k \<mapsto> v) else m)"

fun index_spec :: "('k, 'v) index_op list \<Rightarrow> ('k \<rightharpoonup> 'v) \<Rightarrow> ('v index_out list \<times> ('k \<rightharpoonup> 'v)) result" where
  "index_spec [] m = Inr ([], m)"
| "index_spec (InsertEntry k v # ops) m =
     bind_result (index_spec ops (put_new k v m)) (\<lambda>(outs, m'). Inr (Inserted (m k = None) # outs, m'))"
| "index_spec (DeleteEntry k # ops) m =
     bind_result (index_spec ops (m(k := None))) (\<lambda>(outs, m'). Inr (Deleted # outs, m'))"
| "index_spec (ScanKey k # ops) m =
     (if m = Map.empty then Inl AssertionFailure
      else bind_result (index_spec ops m) (\<lambda>(outs, m'). Inr (Found (m k) # outs, m')))"

fun index_run :: "('k \<Rightarrow> 'v \<Rightarrow> 't \<Rightarrow> (bool \<times> 't) result) \<Rightarrow> ('k \<Rightarrow> 't \<Rightarrow> 't result) \<Rightarrow> ('k \<Rightarrow> 't \<Rightarrow> ('v option \<times> 't) result) \<Rightarrow>
    ('k, 'v) index_op list \<Rightarrow> 't \<Rightarrow> ('v index_out list \<times> 't) result" where
  "index_run ins rem get [] t = Inr ([], t)"
| "index_run ins rem get (InsertEntry k v # ops) t =
     bind_result (ins k v t) (\<lambda>(b, t).
     bind_result (index_run ins rem get ops t) (\<lambda>(outs, t). Inr (Inserted b # outs, t)))"
| "index_run ins rem get (DeleteEntry k # ops) t =
     bind_result (rem k t) (\<lambda>t.
     bind_result (index_run ins rem get ops t) (\<lambda>(outs, t). Inr (Deleted # outs, t)))"
| "index_run ins rem get (ScanKey k # ops) t =
     bind_result (get k t) (\<lambda>(v, t).
     bind_result (index_run ins rem get ops t) (\<lambda>(outs, t). Inr (Found v # outs, t)))"

fun insertions :: "('k, 'v) index_op list \<Rightarrow> nat" where
  "insertions [] = 0"
| "insertions (InsertEntry k v # ops) = Suc (insertions ops)"
| "insertions (DeleteEntry k # ops) = insertions ops"
| "insertions (ScanKey k # ops) = insertions ops"

text \<open>\<open>rep t m r\<close>: the state \<open>t\<close> holds the map \<open>m\<close> and has room for \<open>r\<close> insertions.\<close>

locale map_index =
  fixes rep :: "'t \<Rightarrow> ('k \<rightharpoonup> 'v) \<Rightarrow> nat \<Rightarrow> bool"
    and ins :: "'k \<Rightarrow> 'v \<Rightarrow> 't \<Rightarrow> (bool \<times> 't) result"
    and rem :: "'k \<Rightarrow> 't \<Rightarrow> 't result"
    and get :: "'k \<Rightarrow> 't \<Rightarrow> ('v option \<times> 't) result"
  assumes ins_law: "rep t m (Suc r) \<Longrightarrow> \<exists>t'. ins k v t = Inr (m k = None, t') \<and> rep t' (put_new k v m) r"
    and rem_law: "rep t m r \<Longrightarrow> \<exists>t'. rem k t = Inr t' \<and> rep t' (m(k := None)) r"
    and get_law: "rep t m r \<Longrightarrow> m \<noteq> Map.empty \<Longrightarrow> \<exists>t'. get k t = Inr (m k, t') \<and> rep t' m r"
    and get_empty: "rep t Map.empty r \<Longrightarrow> get k t = Inl AssertionFailure"
begin

lemma run_refines:
  assumes "rep t m (insertions ops + r)"
  shows "case index_spec ops m of Inl e \<Rightarrow> index_run ins rem get ops t = Inl e
    | Inr (outs, m') \<Rightarrow> \<exists>t'. index_run ins rem get ops t = Inr (outs, t') \<and> rep t' m' r"
  using assms
proof (induction ops arbitrary: m t)
  case (Cons opn ops)
  let ?r = "insertions ops + r"
  show ?case
  proof (cases opn)
    case (InsertEntry k v)
    then obtain t' where "ins k v t = Inr (m k = None, t')" "rep t' (put_new k v m) ?r"
      using ins_law [of t m ?r k v] Cons.prems by auto
    with Cons.IH [of t' "put_new k v m"] show ?thesis using InsertEntry by (auto split: sum.splits)
  next
    case (DeleteEntry k)
    define m' where "m' = m(k := None)"
    obtain t' where t': "rem k t = Inr t'" "rep t' m' ?r"
      using rem_law [of t m ?r k, folded m'_def] Cons.prems DeleteEntry by auto
    have "index_spec (opn # ops) m = bind_result (index_spec ops m') (\<lambda>(outs, m'). Inr (Deleted # outs, m'))"
      by (simp add: DeleteEntry m'_def)
    with Cons.IH [OF t'(2)] t'(1) show ?thesis using DeleteEntry by (auto split: sum.splits)
  next
    case (ScanKey k)
    show ?thesis
    proof (cases "m = Map.empty")
      case True
      then show ?thesis using get_empty [of t _ k] Cons.prems ScanKey by simp
    next
      case False
      obtain t' where "get k t = Inr (m k, t')" "rep t' m ?r"
        using get_law [of t m ?r k] Cons.prems False ScanKey by auto
      with Cons.IH [of t' m] False show ?thesis using ScanKey by (auto split: sum.splits)
    qed
  qed
qed simp

end

section \<open>Step functions\<close>

text \<open>
  A component whose operations are requests to a step function, run on a sequence of requests until
  one fails, and the simulation of an abstract step function by a detailed one.  \<open>ok\<close> is what
  the client owes: it is asked of every request in the state in which it is made.
\<close>

fun run_steps :: "('o \<Rightarrow> 's \<Rightarrow> ('r \<times> 's) result) \<Rightarrow> 'o list \<Rightarrow> 's \<Rightarrow> ('r list \<times> 's) result" where
  "run_steps step [] s = Inr ([], s)"
| "run_steps step (x # xs) s =
     bind_result (step x s) (\<lambda>(r, s). bind_result (run_steps step xs s) (\<lambda>(rs, s). Inr (r # rs, s)))"

fun run_ok :: "('o \<Rightarrow> 's \<Rightarrow> bool) \<Rightarrow> ('o \<Rightarrow> 's \<Rightarrow> ('r \<times> 's) result) \<Rightarrow> 'o list \<Rightarrow> 's \<Rightarrow> bool" where
  "run_ok ok step [] s \<longleftrightarrow> True"
| "run_ok ok step (x # xs) s \<longleftrightarrow> ok x s \<and> (case step x s of Inl e \<Rightarrow> True | Inr (r, s) \<Rightarrow> run_ok ok step xs s)"

locale simulation =
  fixes ok :: "'o \<Rightarrow> 'a \<Rightarrow> bool"
    and rel :: "'c \<Rightarrow> 'a \<Rightarrow> bool"
    and cstep :: "'o \<Rightarrow> 'c \<Rightarrow> ('r \<times> 'c) result"
    and astep :: "'o \<Rightarrow> 'a \<Rightarrow> ('r \<times> 'a) result"
  assumes step_law: "rel c a \<Longrightarrow> ok x a \<Longrightarrow> case astep x a of Inl e \<Rightarrow> cstep x c = Inl e
      | Inr (r, a') \<Rightarrow> \<exists>c'. cstep x c = Inr (r, c') \<and> rel c' a'"
begin

lemma run_refines:
  assumes "rel c a" "run_ok ok astep xs a"
  shows "case run_steps astep xs a of Inl e \<Rightarrow> run_steps cstep xs c = Inl e
    | Inr (rs, a') \<Rightarrow> \<exists>c'. run_steps cstep xs c = Inr (rs, c') \<and> rel c' a'"
  using assms
proof (induction xs arbitrary: c a)
  case (Cons x xs)
  have ok: "ok x a" using Cons.prems(2) by simp
  show ?case
  proof (cases "astep x a")
    case (Inl e)
    then show ?thesis using step_law [OF Cons.prems(1) ok] by simp
  next
    case (Inr p)
    then obtain r a' c' where p: "p = (r, a')" "cstep x c = Inr (r, c')" "rel c' a'"
      using step_law [OF Cons.prems(1) ok] by (cases p) auto
    then show ?thesis
      using Inr Cons.IH [OF p(3)] Cons.prems(2) by (auto split: sum.splits)
  qed
qed simp

end

lemma run_ok_True: "run_ok (\<lambda>x s. True) step xs s"
  by (induction xs arbitrary: s) (auto split: sum.splits)

end
