(* ===== verification/HeaderPage.thy ===== *)
theory HeaderPage
  imports Values Interfaces
begin

text \<open>
  \<^verbatim>\<open>src/storage/page/header_page.cpp\<close>: the page that maps index names to root page ids.
  The page is modelled as its bytes: a 32-bit record count, then records of 36 bytes, each a
  zero-terminated name of at most 31 characters in 32 bytes and a 32-bit page id.  The
  representation relation \<open>holds\<close> relates the bytes to the list of records, and the lemmas
  show that the operations implement a map with unique names.
\<close>

section \<open>Reading and writing inside a page\<close>

definition peek :: "nat \<Rightarrow> nat \<Rightarrow> byte list \<Rightarrow> byte list" where
  "peek off n d = take n (drop off d)"

definition poke :: "nat \<Rightarrow> byte list \<Rightarrow> byte list \<Rightarrow> byte list" where
  "poke off bs d = take off d @ bs @ drop (off + length bs) d"

lemma length_poke [simp]: "off + length bs \<le> length d \<Longrightarrow> length (poke off bs d) = length d"
  by (simp add: poke_def)

lemma nth_poke:
  assumes "off + length bs \<le> length d" "i < length d"
  shows "poke off bs d ! i = (if off \<le> i \<and> i < off + length bs then bs ! (i - off) else d ! i)"
  using assms by (auto simp: poke_def nth_append min_def)

lemma length_peek: "off + n \<le> length d \<Longrightarrow> length (peek off n d) = n"
  by (simp add: peek_def)

lemma nth_peek: "i < n \<Longrightarrow> off + n \<le> length d \<Longrightarrow> peek off n d ! i = d ! (off + i)"
  by (simp add: peek_def)

lemma peek_poke_same:
  "off + length bs \<le> length d \<Longrightarrow> n = length bs \<Longrightarrow> peek off n (poke off bs d) = bs"
  by (rule nth_equalityI) (simp_all add: length_peek nth_peek nth_poke)

lemma peek_poke_other:
  assumes "off + length bs \<le> length d" "a + n \<le> length d" "a + n \<le> off \<or> off + length bs \<le> a"
  shows "peek a n (poke off bs d) = peek a n d"
  using assms by (intro nth_equalityI) (auto simp: length_peek nth_peek nth_poke)

section \<open>Operations\<close>

text \<open>A C string in memory ends at the first zero byte.\<close>

definition c_str :: "string \<Rightarrow> byte list" where
  "c_str s = map char_byte s"

definition cut :: "byte list \<Rightarrow> byte list" where
  "cut bs = takeWhile (\<lambda>b. b \<noteq> 0) bs"

definition GetRecordCount :: "byte list \<Rightarrow> int" where
  "GetRecordCount d = le_sint (peek 0 4 d)"

definition SetRecordCount :: "int \<Rightarrow> byte list \<Rightarrow> byte list" where
  "SetRecordCount n d = poke 0 (le_bytes 4 n) d"

definition HeaderPage_Init :: "byte list \<Rightarrow> byte list" where
  "HeaderPage_Init d = SetRecordCount 0 d"

text \<open>
  The loop of \<^verbatim>\<open>FindRecord\<close> from record \<open>i\<close> on; \<open>strcmp\<close> reads the page
  up to the next zero byte, which has to lie inside the page.
\<close>

function FindRecord_from :: "int \<Rightarrow> int \<Rightarrow> string \<Rightarrow> byte list \<Rightarrow> int result" where
  "FindRecord_from i record_num name d =
     (if i < record_num then
        let raw_name = drop (nat (4 + i * 36)) d
        in if 0 \<notin> set raw_name then Inl UndefinedBehaviour
           else if cut raw_name = cut (c_str name) then Inr i
           else FindRecord_from (i + 1) record_num name d
      else Inr (-1))"
  by auto
termination
  by (relation "measure (\<lambda>(i, n, _, _). nat (n - i))") auto

declare FindRecord_from.simps [simp del]

definition FindRecord :: "string \<Rightarrow> byte list \<Rightarrow> int result" where
  "FindRecord name d = FindRecord_from 0 (GetRecordCount d) name d"

definition poke_checked :: "int \<Rightarrow> byte list \<Rightarrow> byte list \<Rightarrow> byte list result" where
  "poke_checked off bs d =
     (if 0 \<le> off \<and> off + int (length bs) \<le> int (length d) then Inr (poke (nat off) bs d)
      else Inl UndefinedBehaviour)"

definition InsertRecord :: "string \<Rightarrow> page_id_t \<Rightarrow> byte list \<Rightarrow> (bool \<times> byte list) result" where
  "InsertRecord name root_id d =
     (if \<not> (length name < 32 \<and> root_id > INVALID_PAGE_ID) then Inl AssertionFailure
      else
        let record_num = GetRecordCount d; offset = 4 + record_num * 36
        in bind_result (FindRecord name d) (\<lambda>found.
             if found \<noteq> -1 then Inr (False, d)
             else bind_result (poke_checked offset (c_str name @ [0]) d) (\<lambda>d.
                  bind_result (poke_checked (offset + 32) (le_bytes 4 root_id) d) (\<lambda>d.
                    Inr (True, SetRecordCount (record_num + 1) d)))))"

definition DeleteRecord :: "string \<Rightarrow> byte list \<Rightarrow> (bool \<times> byte list) result" where
  "DeleteRecord name d =
     (let record_num = GetRecordCount d
      in if \<not> record_num > 0 then Inl AssertionFailure
         else bind_result (FindRecord name d) (\<lambda>index.
           if index = -1 then Inr (False, d)
           else
             let offset = index * 36 + 4; n = (record_num - index - 1) * 36
             in bind_result (poke_checked offset (peek (nat (offset + 36)) (nat n) d) d) (\<lambda>d.
                  Inr (True, SetRecordCount (record_num - 1) d))))"

definition UpdateRecord :: "string \<Rightarrow> page_id_t \<Rightarrow> byte list \<Rightarrow> (bool \<times> byte list) result" where
  "UpdateRecord name root_id d =
     (if \<not> length name < 32 then Inl AssertionFailure
      else bind_result (FindRecord name d) (\<lambda>index.
        if index = -1 then Inr (False, d)
        else bind_result (poke_checked (index * 36 + 4 + 32) (le_bytes 4 root_id) d) (\<lambda>d. Inr (True, d))))"

definition GetRootId :: "string \<Rightarrow> byte list \<Rightarrow> page_id_t option result" where
  "GetRootId name d =
     (if \<not> length name < 32 then Inl AssertionFailure
      else bind_result (FindRecord name d) (\<lambda>index.
        if index = -1 then Inr None
        else Inr (Some (le_sint (peek (nat ((index + 1) * 36)) 4 d)))))"

section \<open>Representation\<close>

definition max_records :: nat where
  "max_records = 113"

text \<open>Names the code can store: short and without a zero byte.\<close>

definition good_name :: "string \<Rightarrow> bool" where
  "good_name s \<longleftrightarrow> length s < 32 \<and> CHR 0x00 \<notin> set s"

definition record_at :: "byte list \<Rightarrow> nat \<Rightarrow> string \<times> page_id_t \<Rightarrow> bool" where
  "record_at d i r \<longleftrightarrow>
     peek (4 + i * 36) (Suc (length (fst r))) d = c_str (fst r) @ [0] \<and>
     le_sint (peek (36 + i * 36) 4 d) = snd r"

definition holds :: "byte list \<Rightarrow> (string \<times> page_id_t) list \<Rightarrow> bool" where
  "holds d rs \<longleftrightarrow>
     length d = BUSTUB_PAGE_SIZE \<and> GetRecordCount d = int (length rs) \<and> length rs \<le> max_records \<and>
     distinct (map fst rs) \<and>
     (\<forall>i < length rs. good_name (fst (rs ! i)) \<and> record_at d i (rs ! i))"

section \<open>Finding a record\<close>

lemma c_str_inj: "c_str s = c_str s' \<longleftrightarrow> s = s'"
  unfolding c_str_def using char_byte_eq_iff by (metis injI inj_map_eq_map)

lemma cut_c_str: "CHR 0x00 \<notin> set s \<Longrightarrow> cut (c_str s @ 0 # rest) = c_str s" "CHR 0x00 \<notin> set s \<Longrightarrow> cut (c_str s) = c_str s"
  by (induction s) (auto simp: cut_def c_str_def char_byte_zero_iff)

lemma good_nameD: "good_name s \<Longrightarrow> CHR 0x00 \<notin> set s"
  by (simp add: good_name_def)

lemma raw_name:
  assumes "peek off (Suc (length s)) d = c_str s @ [0]" "good_name s"
  shows "0 \<in> set (drop off d)" "cut (drop off d) = c_str s"
proof -
  have "drop off d = peek off (Suc (length s)) d @ drop (off + Suc (length s)) d"
    unfolding peek_def by (metis append_take_drop_id drop_drop add.commute)
  then have d: "drop off d = c_str s @ 0 # drop (off + Suc (length s)) d"
    using assms(1) by simp
  show "0 \<in> set (drop off d)" "cut (drop off d) = c_str s"
    unfolding d using cut_c_str(1) [OF good_nameD [OF assms(2)]] by simp_all
qed

lemma holds_raw_name:
  assumes "holds d rs" "i < length rs"
  shows "0 \<in> set (drop (nat (4 + int i * 36)) d)" "cut (drop (nat (4 + int i * 36)) d) = c_str (fst (rs ! i))"
proof -
  have "nat (4 + int i * 36) = 4 + i * 36" by simp
  moreover have "record_at d i (rs ! i)" "good_name (fst (rs ! i))"
    using assms by (auto simp: holds_def)
  ultimately show "0 \<in> set (drop (nat (4 + int i * 36)) d)"
    "cut (drop (nat (4 + int i * 36)) d) = c_str (fst (rs ! i))"
    using raw_name by (auto simp: record_at_def)
qed

lemma FindRecord_from_step:
  assumes "holds d rs" "CHR 0x00 \<notin> set name" "i < length rs"
  shows "FindRecord_from (int i) (int (length rs)) name d =
    (if fst (rs ! i) = name then Inr (int i) else FindRecord_from (int (Suc i)) (int (length rs)) name d)"
  using assms holds_raw_name [OF assms(1,3)]
  by (subst FindRecord_from.simps) (simp add: Let_def cut_c_str(2) c_str_inj add.commute)

lemma FindRecord_from_found:
  assumes "holds d rs" "CHR 0x00 \<notin> set name" "j < length rs" "fst (rs ! j) = name" "i \<le> j"
  shows "FindRecord_from (int i) (int (length rs)) name d = Inr (int j)"
  using assms(5)
proof (induction "j - i" arbitrary: i)
  case 0
  then show ?case
    using assms by (simp add: FindRecord_from_step)
next
  case (Suc n)
  then have i: "i < length rs" "i \<noteq> j"
    using assms(3) by auto
  then have "fst (rs ! i) \<noteq> name"
    using assms(1,3,4) by (auto simp: holds_def distinct_conv_nth)
  then show ?case
    using Suc i assms(1,2) by (simp add: FindRecord_from_step del: of_nat_Suc)
qed

lemma FindRecord_from_missing:
  assumes "holds d rs" "CHR 0x00 \<notin> set name" "\<forall>j < length rs. fst (rs ! j) \<noteq> name" "i \<le> length rs"
  shows "FindRecord_from (int i) (int (length rs)) name d = Inr (-1)"
  using assms(4)
proof (induction "length rs - i" arbitrary: i)
  case 0
  then show ?case
    by (subst FindRecord_from.simps) simp
next
  case (Suc n)
  then have "i < length rs" by simp
  then have "FindRecord_from (int i) (int (length rs)) name d =
      FindRecord_from (int (Suc i)) (int (length rs)) name d"
    using FindRecord_from_step [OF assms(1,2)] assms(3) by simp
  then show ?case
    using Suc \<open>i < length rs\<close> by (simp del: of_nat_Suc)
qed

lemma FindRecord_spec:
  assumes "holds d rs" "CHR 0x00 \<notin> set name"
  obtains (missing) "FindRecord name d = Inr (-1)" "map_of rs name = None"
  | (found) j where "FindRecord name d = Inr (int j)" "j < length rs" "fst (rs ! j) = name"
      "map_of rs name = Some (snd (rs ! j))"
proof (cases "\<exists>j < length rs. fst (rs ! j) = name")
  case True
  then obtain j where j: "j < length rs" "fst (rs ! j) = name" by blast
  then have "(name, snd (rs ! j)) \<in> set rs"
    by (metis nth_mem prod.collapse)
  then have "map_of rs name = Some (snd (rs ! j))"
    using assms(1) by (simp add: holds_def)
  moreover have "FindRecord name d = Inr (int j)"
    using FindRecord_from_found [OF assms j, of 0] assms(1) by (simp add: FindRecord_def holds_def)
  ultimately show ?thesis
    using j by (intro found)
next
  case False
  then have "map_of rs name = None"
    by (auto simp: map_of_eq_None_iff in_set_conv_nth) (metis fst_conv)
  moreover have "FindRecord name d = Inr (-1)"
    using FindRecord_from_missing [OF assms, of 0] False assms(1) by (simp add: FindRecord_def holds_def)
  ultimately show ?thesis
    by (intro missing)
qed

section \<open>The operations on the list of records\<close>

lemma page_bounds:
  assumes "holds d rs"
  shows "length d = 4096" "length rs \<le> 113" "GetRecordCount d = int (length rs)"
  using assms by (simp_all add: holds_def BUSTUB_PAGE_SIZE_def max_records_def)

lemma GetRecordCount_Set:
  "length d = 4096 \<Longrightarrow> n \<le> 113 \<Longrightarrow> GetRecordCount (SetRecordCount (int n) d) = int n"
  by (simp add: GetRecordCount_def SetRecordCount_def peek_poke_same le_sint_le_bytes in_sint_def)

lemma record_at_Set:
  "length d = 4096 \<Longrightarrow> i < 113 \<Longrightarrow> good_name (fst r) \<Longrightarrow>
   record_at (SetRecordCount n d) i r \<longleftrightarrow> record_at d i r"
  by (simp add: record_at_def SetRecordCount_def peek_poke_other good_name_def)

text \<open>A write inside record \<open>j\<close> leaves every other record alone.\<close>

lemma record_at_poke_other:
  assumes "length d = 4096" "i < 113" "j < 113" "i \<noteq> j" "good_name (fst r)"
    "4 + j * 36 \<le> off" "off + length bs \<le> 40 + j * 36"
  shows "record_at (poke off bs d) i r \<longleftrightarrow> record_at d i r"
proof -
  have len: "length (fst r) < 32"
    using assms(5) by (simp add: good_name_def)
  have "4 + i * 36 + 36 \<le> 4 + j * 36 \<or> 4 + j * 36 + 36 \<le> 4 + i * 36"
    using assms(4) by linarith
  then have "peek (4 + i * 36) (Suc (length (fst r))) (poke off bs d) = peek (4 + i * 36) (Suc (length (fst r))) d"
    "peek (36 + i * 36) 4 (poke off bs d) = peek (36 + i * 36) 4 d"
    using assms len by (auto intro!: peek_poke_other)
  then show ?thesis
    by (simp add: record_at_def)
qed

lemma GetRecordCount_poke:
  "length d = 4096 \<Longrightarrow> 4 \<le> off \<Longrightarrow> off + length bs \<le> 4096 \<Longrightarrow>
   GetRecordCount (poke off bs d) = GetRecordCount d"
  by (simp add: GetRecordCount_def peek_poke_other)

lemma write_root:
  assumes "holds d rs" "j < length rs" "in_sint 32 root" "fst (rs ! j) = name"
  shows "holds (poke (36 + j * 36) (le_bytes 4 root) d) (rs[j := (name, root)])"
proof -
  note b = page_bounds [OF assms(1)]
  let ?d = "poke (36 + j * 36) (le_bytes 4 root) d"
  have j: "j < 113" "36 + j * 36 + 4 \<le> 4096"
    using assms(2) b by linarith+
  have "map fst (rs[j := (name, root)]) = map fst rs"
    using assms(2,4) by (intro nth_equalityI) (auto simp: nth_list_update)
  moreover have "record_at ?d i (rs[j := (name, root)] ! i)" if i: "i < length rs" for i
  proof (cases "i = j")
    case True
    have "record_at d j (rs ! j)" "good_name (fst (rs ! j))"
      using assms(1,2) by (auto simp: holds_def)
    then show ?thesis
      using True j i b assms(3,4)
      by (simp add: record_at_def good_name_def peek_poke_other peek_poke_same le_sint_le_bytes)
  next
    case False
    then have "record_at d i (rs ! i)" "good_name (fst (rs ! i))"
      using assms(1) i by (auto simp: holds_def)
    moreover have "i < 113"
      using i b by linarith
    ultimately show ?thesis
      using False j b by (simp add: record_at_poke_other [where j = j])
  qed
  moreover have "GetRecordCount ?d = int (length rs)"
    using b j by (simp add: GetRecordCount_poke)
  ultimately show ?thesis
    using assms(1,2,4) b j by (auto simp: holds_def BUSTUB_PAGE_SIZE_def max_records_def nth_list_update)
qed

lemma append_record:
  assumes "holds d rs" "length rs < 113" "good_name name" "in_sint 32 root" "name \<notin> fst ` set rs"
  defines "n \<equiv> length rs"
  shows "holds (SetRecordCount (int n + 1)
    (poke (36 + n * 36) (le_bytes 4 root) (poke (4 + n * 36) (c_str name @ [0]) d))) (rs @ [(name, root)])"
    (is "holds ?d _")
proof -
  note b = page_bounds [OF assms(1)]
  let ?d1 = "poke (4 + n * 36) (c_str name @ [0]) d"
  let ?d2 = "poke (36 + n * 36) (le_bytes 4 root) ?d1"
  have n: "n < 113" "length name < 32" "length (c_str name) = length name"
    using assms by (auto simp: good_name_def c_str_def)
  have len: "length ?d1 = 4096" "length ?d2 = 4096" "length ?d = 4096"
    using b n by (simp_all add: SetRecordCount_def)
  have "record_at ?d i ((rs @ [(name, root)]) ! i) \<and> good_name (fst ((rs @ [(name, root)]) ! i))"
    if i: "i < Suc n" for i
  proof (cases "i = n")
    case True
    have "record_at ?d2 n (name, root)"
      using b n len assms(4)
      by (simp add: record_at_def peek_poke_other peek_poke_same le_sint_le_bytes)
    then show ?thesis
      using True n len assms(3) by (simp add: record_at_Set n_def)
  next
    case False
    then have i': "i < length rs" "i < 113"
      using i n by (auto simp: n_def)
    then have "record_at d i (rs ! i)" "good_name (fst (rs ! i))"
      using assms(1) by (auto simp: holds_def)
    then show ?thesis
      using False i' b n len by (simp add: nth_append record_at_Set record_at_poke_other)
  qed
  moreover have "GetRecordCount ?d = int n + 1"
    using GetRecordCount_Set [OF len(2), of "Suc n"] n by (simp add: add.commute)
  ultimately show ?thesis
    using assms len by (auto simp: holds_def BUSTUB_PAGE_SIZE_def max_records_def less_Suc_eq)
qed

lemma peek_poke_in:
  "off + length bs \<le> length d \<Longrightarrow> off \<le> a \<Longrightarrow> a + n \<le> off + length bs \<Longrightarrow>
   peek a n (poke off bs d) = peek (a - off) n bs"
  by (rule nth_equalityI) (simp_all add: length_peek nth_peek nth_poke)

lemma peek_peek: "a + n \<le> m \<Longrightarrow> off + m \<le> length d \<Longrightarrow> peek a n (peek off m d) = peek (off + a) n d"
  by (rule nth_equalityI) (simp_all add: length_peek nth_peek add.assoc)

text \<open>Moving the records behind \<open>j\<close> down by one slot.\<close>

lemma remove_record:
  assumes "holds d rs" "j < length rs"
  defines "m \<equiv> (length rs - j - 1) * 36"
  shows "holds (SetRecordCount (int (length rs) - 1) (poke (4 + j * 36) (peek (40 + j * 36) m d) d))
    (take j rs @ drop (Suc j) rs)" (is "holds ?d ?rs")
proof -
  note b = page_bounds [OF assms(1)]
  let ?bs = "peek (40 + j * 36) m d"
  let ?d1 = "poke (4 + j * 36) ?bs d"
  have m: "40 + j * 36 + m = 4 + length rs * 36" "40 + j * 36 + m \<le> 4096"
    using assms(2) b by (auto simp: m_def diff_mult_distrib)
  have lbs: "length ?bs = m"
    using m b by (simp add: length_peek)
  have len: "length ?d1 = 4096" "length ?d = 4096"
    using b m lbs by (simp_all add: SetRecordCount_def)
  have old: "record_at d i (rs ! i)" "good_name (fst (rs ! i))" "length (fst (rs ! i)) < 32" if "i < length rs" for i
    using assms(1) that by (auto simp: holds_def good_name_def)
  have "record_at ?d i (?rs ! i) \<and> good_name (fst (?rs ! i))" if i: "i < length rs - 1" for i
  proof (cases "i < j")
    case True
    then have "record_at ?d1 i (rs ! i)"
      using old [of i] assms(2) i b m lbs by (simp add: record_at_def peek_poke_other)
    then show ?thesis
      using True old [of i] assms(2) i b len by (simp add: nth_append record_at_Set)
  next
    case False
    then have j: "j \<le> i" "Suc i < length rs"
      using i by auto
    have "i * 36 + 36 + 36 \<le> length rs * 36"
      using j(2) by linarith
    then have r: "j * 36 \<le> i * 36" "4 + i * 36 + 36 \<le> 4 + j * 36 + m"
      using j(1) m(1) by auto
    have "peek (4 + i * 36) n ?d1 = peek (4 + Suc i * 36) n d" if "n \<le> 32" for n
      using that r m b lbs by (simp add: peek_poke_in peek_peek)
    moreover have "peek (36 + i * 36) 4 ?d1 = peek (36 + Suc i * 36) 4 d"
      using r m b lbs by (simp add: peek_poke_in peek_peek)
    ultimately have "record_at ?d1 i (rs ! Suc i)"
      using old [OF j(2)] by (simp add: record_at_def)
    then show ?thesis
      using False j old [OF j(2)] assms(2) b len by (simp add: nth_append record_at_Set min_def)
  qed
  moreover have "GetRecordCount ?d = int (length rs) - 1"
    using GetRecordCount_Set [OF len(1), of "length rs - 1"] assms(2) b by (simp add: of_nat_diff)
  moreover have "distinct (map fst ?rs)"
  proof -
    have "map fst ?rs = take j (map fst rs) @ drop (Suc j) (map fst rs)"
      by (simp add: take_map drop_map)
    then show ?thesis
      using assms(1) set_take_disj_set_drop_if_distinct [of "map fst rs" j "Suc j"]
      by (simp only: holds_def distinct_append distinct_take distinct_drop)
  qed
  ultimately show ?thesis
    using assms(2) b len by (auto simp: holds_def BUSTUB_PAGE_SIZE_def max_records_def of_nat_diff)
qed

lemma map_of_update_nth:
  assumes "distinct (map fst rs)" "j < length rs" "fst (rs ! j) = k"
  shows "map_of (rs[j := (k, v)]) = (map_of rs)(k \<mapsto> v)"
  using assms
proof (induction rs arbitrary: j)
  case (Cons r rs)
  show ?case
  proof (cases j)
    case 0
    then show ?thesis
      using Cons.prems by (cases r) auto
  next
    case (Suc i)
    then have "fst r \<noteq> k"
      using Cons.prems nth_mem [of i rs] by auto
    then show ?thesis
      using Suc Cons by (cases r) (auto simp: fun_upd_twist)
  qed
qed simp

lemma map_of_delete_nth:
  assumes "distinct (map fst rs)" "j < length rs" "fst (rs ! j) = k"
  shows "map_of (take j rs @ drop (Suc j) rs) = (map_of rs)(k := None)"
  using assms
proof (induction rs arbitrary: j)
  case (Cons r rs)
  show ?case
  proof (cases j)
    case 0
    then have "map_of rs k = None"
      using Cons.prems by (auto simp: map_of_eq_None_iff)
    then show ?thesis
      using 0 Cons.prems by (cases r) auto
  next
    case (Suc i)
    then have "fst r \<noteq> k"
      using Cons.prems nth_mem [of i rs] by auto
    then show ?thesis
      using Suc Cons by (cases r) (auto simp: fun_upd_twist)
  qed
qed simp

section \<open>Each operation\<close>

lemma GetRootId_spec: "holds d rs \<Longrightarrow> good_name name \<Longrightarrow> GetRootId name d = Inr (map_of rs name)"
proof -
  assume h: "holds d rs" and g: "good_name name"
  show ?thesis
    using h good_nameD [OF g]
  proof (cases rule: FindRecord_spec)
    case missing
    then show ?thesis
      using g by (simp add: GetRootId_def good_name_def)
  next
    case (found j)
    have "nat ((int j + 1) * 36) = 36 + j * 36" by simp
    moreover have "le_sint (peek (36 + j * 36) 4 d) = snd (rs ! j)"
      using h found(2) by (auto simp: holds_def record_at_def)
    ultimately show ?thesis
      using found g by (simp add: GetRootId_def good_name_def)
  qed
qed

lemma InsertRecord_duplicate:
  assumes "holds d rs" "good_name name" "0 \<le> root" "map_of rs name \<noteq> None"
  shows "InsertRecord name root d = Inr (False, d)"
  using assms(1) good_nameD [OF assms(2)]
proof (cases rule: FindRecord_spec)
  case (found j)
  then show ?thesis
    using assms by (simp add: InsertRecord_def good_name_def INVALID_PAGE_ID_def Let_def)
qed (use assms in simp)

lemma InsertRecord_new:
  assumes "holds d rs" "good_name name" "0 \<le> root" "in_sint 32 root" "map_of rs name = None"
  shows "length rs < max_records \<Longrightarrow>
      \<exists>d'. InsertRecord name root d = Inr (True, d') \<and> holds d' (rs @ [(name, root)])"
    "length rs = max_records \<Longrightarrow> InsertRecord name root d = Inl UndefinedBehaviour"
proof -
  note b = page_bounds [OF assms(1)]
  have find: "FindRecord name d = Inr (-1)"
    using assms(1) good_nameD [OF assms(2)] by (cases rule: FindRecord_spec) (use assms(5) in auto)
  have n: "length (c_str name) = length name" "length name < 32"
    using assms(2) by (simp_all add: c_str_def good_name_def)
  have nats: "nat (4 + int (length rs) * 36) = 4 + length rs * 36"
    "nat (36 + int (length rs) * 36) = 36 + length rs * 36" by simp_all
  {
    assume "length rs < max_records"
    then have l: "length rs < 113" by (simp add: max_records_def)
    then show "\<exists>d'. InsertRecord name root d = Inr (True, d') \<and> holds d' (rs @ [(name, root)])"
      using append_record [OF assms(1) l assms(2,4)] assms(3,5) find n b nats
      by (simp add: InsertRecord_def poke_checked_def INVALID_PAGE_ID_def Let_def map_of_eq_None_iff)
  next
    assume "length rs = max_records"
    then show "InsertRecord name root d = Inl UndefinedBehaviour"
      using assms(3) find n b
      by (simp add: InsertRecord_def poke_checked_def INVALID_PAGE_ID_def Let_def max_records_def)
  }
qed

lemma UpdateRecord_spec:
  assumes "holds d rs" "good_name name" "in_sint 32 root"
  shows "if map_of rs name = None then UpdateRecord name root d = Inr (False, d)
    else \<exists>d' rs'. UpdateRecord name root d = Inr (True, d') \<and> holds d' rs' \<and> length rs' = length rs \<and>
      map_of rs' = (map_of rs)(name \<mapsto> root)"
  using assms(1) good_nameD [OF assms(2)]
proof (cases rule: FindRecord_spec)
  case missing
  then show ?thesis
    using assms(2) by (simp add: UpdateRecord_def good_name_def)
next
  case (found j)
  note b = page_bounds [OF assms(1)]
  have "nat (36 + int j * 36) = 36 + j * 36" by simp
  moreover have "int j * 36 + 40 \<le> 4096"
    using found(2) b by linarith
  moreover have "map_of (rs[j := (name, root)]) = (map_of rs)(name \<mapsto> root)"
    using assms(1) found by (intro map_of_update_nth) (auto simp: holds_def)
  ultimately show ?thesis
    using found write_root [OF assms(1) found(2) assms(3) found(3)] assms(2) b
    by (auto simp: UpdateRecord_def good_name_def poke_checked_def intro!: exI [of _ "rs[j := (name, root)]"])
qed

lemma DeleteRecord_spec:
  assumes "holds d rs" "CHR 0x00 \<notin> set name" "rs \<noteq> []"
  shows "if map_of rs name = None then DeleteRecord name d = Inr (False, d)
    else \<exists>d' rs'. DeleteRecord name d = Inr (True, d') \<and> holds d' rs' \<and>
      map_of rs' = (map_of rs)(name := None)"
  using assms(1,2)
proof (cases rule: FindRecord_spec)
  case missing
  then show ?thesis
    using assms(3) page_bounds [OF assms(1)] by (simp add: DeleteRecord_def Let_def)
next
  case (found j)
  note b = page_bounds [OF assms(1)]
  let ?m = "(length rs - j - 1) * 36"
  have nats: "nat (int j * 36 + 4) = 4 + j * 36" "nat (40 + int j * 36) = 40 + j * 36"
    "nat ((int (length rs) - int j - 1) * 36) = ?m"
    using found(2) by (auto simp: nat_mult_distrib nat_diff_distrib')
  have "40 + j * 36 + ?m \<le> 4096"
    using found(2) b by (simp add: diff_mult_distrib)
  then have "int j * 36 + 4 + int (length (peek (40 + j * 36) ?m d)) \<le> 4096"
    using b by (subst length_peek) auto
  moreover have "map_of (take j rs @ drop (Suc j) rs) = (map_of rs)(name := None)"
    using assms(1) found by (intro map_of_delete_nth) (auto simp: holds_def)
  ultimately show ?thesis
    using found remove_record [OF assms(1) found(2)] b nats assms(3)
    by (auto simp: DeleteRecord_def poke_checked_def Let_def intro!: exI [of _ "take j rs @ drop (Suc j) rs"])
qed

lemma le_uint_zeros: "le_uint (replicate n 0) = 0"
  by (induction n) simp_all

lemma holds_blank: "holds (replicate 4096 0) []"
  by (simp add: holds_def BUSTUB_PAGE_SIZE_def GetRecordCount_def peek_def le_sint_def scast_def
      le_uint_zeros)

lemma holds_Init: "length d = BUSTUB_PAGE_SIZE \<Longrightarrow> holds (HeaderPage_Init d) []"
  using GetRecordCount_Set [of d 0] by (simp add: holds_def HeaderPage_Init_def BUSTUB_PAGE_SIZE_def SetRecordCount_def)

section \<open>The page as a map\<close>

datatype header_op = HdrInsert string page_id_t | HdrDelete string | HdrUpdate string page_id_t | HdrGet string

datatype header_out = HdrBool bool | HdrRoot "page_id_t option"

fun header_step :: "header_op \<Rightarrow> byte list \<Rightarrow> (header_out \<times> byte list) result" where
  "header_step (HdrInsert name root) d = bind_result (InsertRecord name root d) (\<lambda>(ok, d). Inr (HdrBool ok, d))"
| "header_step (HdrDelete name) d = bind_result (DeleteRecord name d) (\<lambda>(ok, d). Inr (HdrBool ok, d))"
| "header_step (HdrUpdate name root) d = bind_result (UpdateRecord name root d) (\<lambda>(ok, d). Inr (HdrBool ok, d))"
| "header_step (HdrGet name) d = bind_result (GetRootId name d) (\<lambda>r. Inr (HdrRoot r, d))"

text \<open>The same requests on a finite map from names to root ids.\<close>

type_synonym roots = "string \<rightharpoonup> page_id_t"

fun roots_step :: "header_op \<Rightarrow> roots \<Rightarrow> (header_out \<times> roots) result" where
  "roots_step (HdrInsert name root) m =
     (if 32 \<le> length name \<or> root < 0 then Inl AssertionFailure
      else if m name \<noteq> None then Inr (HdrBool False, m)
      else if card (dom m) = max_records then Inl UndefinedBehaviour
      else Inr (HdrBool True, m(name \<mapsto> root)))"
| "roots_step (HdrDelete name) m =
     (if m = Map.empty then Inl AssertionFailure else Inr (HdrBool (m name \<noteq> None), m(name := None)))"
| "roots_step (HdrUpdate name root) m =
     (if 32 \<le> length name then Inl AssertionFailure
      else if m name = None then Inr (HdrBool False, m) else Inr (HdrBool True, m(name \<mapsto> root)))"
| "roots_step (HdrGet name) m = (if 32 \<le> length name then Inl AssertionFailure else Inr (HdrRoot (m name), m))"

text \<open>Names without a zero byte, and root ids of 32 bits.\<close>

fun header_ok :: "header_op \<Rightarrow> bool" where
  "header_ok (HdrInsert name root) \<longleftrightarrow> CHR 0x00 \<notin> set name \<and> in_sint 32 root"
| "header_ok (HdrDelete name) \<longleftrightarrow> CHR 0x00 \<notin> set name"
| "header_ok (HdrUpdate name root) \<longleftrightarrow> CHR 0x00 \<notin> set name \<and> in_sint 32 root"
| "header_ok (HdrGet name) \<longleftrightarrow> CHR 0x00 \<notin> set name"

definition holds_roots :: "byte list \<Rightarrow> roots \<Rightarrow> bool" where
  "holds_roots d m \<longleftrightarrow> (\<exists>rs. holds d rs \<and> map_of rs = m)"

lemma holds_rootsI: "holds d rs \<Longrightarrow> map_of rs = m \<Longrightarrow> holds_roots d m"
  by (auto simp: holds_roots_def)

lemma holds_card: "holds d rs \<Longrightarrow> card (dom (map_of rs)) = length rs"
  using distinct_card [of "map fst rs"] by (simp add: holds_def dom_map_of_conv_image_fst)

lemma header_insert_law:
  assumes h: "holds d rs" and ok: "header_ok (HdrInsert name root)"
  shows "case roots_step (HdrInsert name root) (map_of rs) of Inl e \<Rightarrow> header_step (HdrInsert name root) d = Inl e
    | Inr (r, m) \<Rightarrow> \<exists>d'. header_step (HdrInsert name root) d = Inr (r, d') \<and> holds_roots d' m"
proof (cases "32 \<le> length name \<or> root < 0")
  case True
  then show ?thesis by (auto simp: InsertRecord_def INVALID_PAGE_ID_def)
next
  case False
  then have g: "good_name name" "0 \<le> root" "in_sint 32 root" using ok by (simp_all add: good_name_def)
  consider "map_of rs name \<noteq> None" | "map_of rs name = None" "length rs = max_records"
    | "map_of rs name = None" "length rs < max_records"
    using h by (force simp: holds_def)
  then show ?thesis
  proof cases
    case 1
    then show ?thesis
      using InsertRecord_duplicate [OF h g(1,2)] False holds_rootsI [OF h refl] by (auto simp: not_le)
  next
    case 2
    then show ?thesis
      using InsertRecord_new(2) [OF h g 2] False holds_card [OF h] by (simp add: not_le)
  next
    case 3
    then obtain d' where d': "InsertRecord name root d = Inr (True, d')" "holds d' (rs @ [(name, root)])"
      using InsertRecord_new(1) [OF h g] by blast
    moreover have "map_of (rs @ [(name, root)]) = (map_of rs)(name \<mapsto> root)"
      using 3(1) by (auto simp: map_add_def split: option.splits)
    ultimately have "holds_roots d' ((map_of rs)(name \<mapsto> root))" by (intro holds_rootsI)
    then show ?thesis using 3 False d'(1) holds_card [OF h] by (simp add: not_le)
  qed
qed

lemma header_delete_law:
  assumes h: "holds d rs" and ok: "header_ok (HdrDelete name)"
  shows "case roots_step (HdrDelete name) (map_of rs) of Inl e \<Rightarrow> header_step (HdrDelete name) d = Inl e
    | Inr (r, m) \<Rightarrow> \<exists>d'. header_step (HdrDelete name) d = Inr (r, d') \<and> holds_roots d' m"
proof (cases "rs = []")
  case True
  then show ?thesis using page_bounds [OF h] by (simp add: DeleteRecord_def)
next
  case False
  then have ne: "map_of rs \<noteq> Map.empty" by (cases rs) auto
  show ?thesis
  proof (cases "map_of rs name = None")
    case True
    then have "(map_of rs)(name := None) = map_of rs" by (simp add: fun_upd_idem)
    then show ?thesis
      using True ne DeleteRecord_spec [OF h _ False, of name] ok holds_rootsI [OF h refl] by simp
  next
    case present: False
    then obtain d' rs' where d': "DeleteRecord name d = Inr (True, d')" "holds d' rs'" "map_of rs' = (map_of rs)(name := None)"
      using DeleteRecord_spec [OF h _ False, of name] ok by auto
    then show ?thesis using present ne holds_rootsI [OF d'(2,3)] by simp
  qed
qed

lemma header_update_law:
  assumes h: "holds d rs" and ok: "header_ok (HdrUpdate name root)"
  shows "case roots_step (HdrUpdate name root) (map_of rs) of Inl e \<Rightarrow> header_step (HdrUpdate name root) d = Inl e
    | Inr (r, m) \<Rightarrow> \<exists>d'. header_step (HdrUpdate name root) d = Inr (r, d') \<and> holds_roots d' m"
proof (cases "32 \<le> length name")
  case True
  then show ?thesis by (simp add: UpdateRecord_def)
next
  case False
  then have g: "good_name name" "in_sint 32 root" using ok by (simp_all add: good_name_def)
  note spec = UpdateRecord_spec [OF h g]
  show ?thesis
  proof (cases "map_of rs name = None")
    case True
    then show ?thesis using False spec holds_rootsI [OF h refl] by simp
  next
    case present: False
    then obtain d' rs' where d': "UpdateRecord name root d = Inr (True, d')" "holds d' rs'" "map_of rs' = (map_of rs)(name \<mapsto> root)"
      using spec by auto
    then show ?thesis using False present holds_rootsI [OF d'(2,3)] by simp
  qed
qed

lemma header_get_law:
  assumes h: "holds d rs" and ok: "header_ok (HdrGet name)"
  shows "case roots_step (HdrGet name) (map_of rs) of Inl e \<Rightarrow> header_step (HdrGet name) d = Inl e
    | Inr (r, m) \<Rightarrow> \<exists>d'. header_step (HdrGet name) d = Inr (r, d') \<and> holds_roots d' m"
proof (cases "32 \<le> length name")
  case True
  then show ?thesis by (simp add: GetRootId_def)
next
  case False
  then show ?thesis using GetRootId_spec [OF h, of name] ok holds_rootsI [OF h refl] by (simp add: good_name_def)
qed

interpretation hp: simulation "\<lambda>op m. header_ok op" holds_roots header_step roots_step
proof unfold_locales
  fix d m op assume "holds_roots d m" "header_ok op"
  then obtain rs where "holds d rs" "map_of rs = m" "header_ok op" by (auto simp: holds_roots_def)
  then show "case roots_step op m of Inl e \<Rightarrow> header_step op d = Inl e
    | Inr (r, m') \<Rightarrow> \<exists>d'. header_step op d = Inr (r, d') \<and> holds_roots d' m'"
    using header_insert_law header_delete_law header_update_law header_get_law by (cases op) blast+
qed

lemma header_run_ok: "\<forall>op \<in> set ops. header_ok op \<Longrightarrow> run_ok (\<lambda>op m. header_ok op) roots_step ops m"
  by (induction ops arbitrary: m) (auto split: sum.splits)

section \<open>Property\<close>

text \<open>
  C21. A header page is a map from index names to root ids.  After \<open>Init\<close>, any sequence of
  insertions, deletions, updates and lookups answers as a finite map does, failures included.  An
  insertion of a present name answers false and changes nothing; of a new name it stores the id,
  until the page holds 113 names, when it writes past the end of the page.  Updates and deletions
  succeed exactly for a present name.  A name of 32 characters or more fails an assertion in all
  operations but the deletion, a negative root id fails one in the insertion, and so does a deletion
  from an empty page.  Names have no zero byte and root ids have 32 bits.
\<close>

theorem header_page_is_map:
  assumes "length d = BUSTUB_PAGE_SIZE" "\<forall>op \<in> set ops. header_ok op"
  shows "case run_steps roots_step ops Map.empty of
      Inl e \<Rightarrow> run_steps header_step ops (HeaderPage_Init d) = Inl e
    | Inr (outs, m) \<Rightarrow> \<exists>d'. run_steps header_step ops (HeaderPage_Init d) = Inr (outs, d') \<and> holds_roots d' m"
  using hp.run_refines [OF holds_rootsI [OF holds_Init [OF assms(1)]] header_run_ok [OF assms(2)], of Map.empty] by simp

theorem header_page_is_map_witness:
  "run_steps header_step [HdrInsert ''idx'' 7, HdrDelete ''idx'', HdrDelete ''idx''] (HeaderPage_Init (replicate 4096 0)) = Inl AssertionFailure \<and>
   (\<exists>d'. run_steps header_step [HdrGet ''idx'', HdrInsert ''idx'' 7, HdrInsert ''idx'' 8, HdrUpdate ''idx'' 9, HdrGet ''idx'', HdrDelete ''idx'']
      (HeaderPage_Init (replicate 4096 0)) =
    Inr ([HdrRoot None, HdrBool True, HdrBool False, HdrBool True, HdrRoot (Some 9), HdrBool True], d') \<and> holds_roots d' Map.empty)"
  using header_page_is_map [of "replicate 4096 0" "[HdrInsert ''idx'' 7, HdrDelete ''idx'', HdrDelete ''idx'']"]
    header_page_is_map [of "replicate 4096 0" "[HdrGet ''idx'', HdrInsert ''idx'' 7, HdrInsert ''idx'' 8, HdrUpdate ''idx'' 9, HdrGet ''idx'', HdrDelete ''idx'']"]
  by (simp add: BUSTUB_PAGE_SIZE_def in_sint_def max_records_def del: header_step.simps)

end
