(* ===== verification/BPlusTree.thy ===== *)
theory BPlusTree
  imports BPlusTreePage HeaderPage
begin

text \<open>
  \<^verbatim>\<open>src/storage/index/b_plus_tree.cpp\<close> and \<^verbatim>\<open>index_iterator.cpp\<close>.  The state
  holds the members of the class, the pages of the index as the buffer pool presents them, the
  pin multiset, and the two page sets of the calling transaction.  Pages are named by their
  ids; a pointer into a page is the id, and a write through it replaces the page.

  The latches are not part of the sequential model, but the queue of latched pages is, because
  releasing it also unpins.  A fetch of an allocated page succeeds; \<open>bt_avail\<close> says how
  many more pages can be allocated before \<^verbatim>\<open>NewPage\<close> returns a null pointer.  Loops
  that follow page ids take fuel; the specification theory shows how much is enough.
\<close>

section \<open>State and buffer pool\<close>

record ('k, 'v) bplus_tree =
  index_name :: string
  root_page_id :: page_id_t
  leaf_max_size :: int
  internal_max_size :: int
  bt_pages :: "page_id_t \<Rightarrow> ('k, 'v) bt_page option"
  bt_header :: "byte list"
  bt_pins :: "page_id_t list"
  bt_next :: page_id_t
  bt_avail :: nat
  page_set :: "page_id_t option list"
  deleted_page_set :: "page_id_t list"

definition get_page :: "page_id_t \<Rightarrow> ('k, 'v) bplus_tree \<Rightarrow> ('k, 'v) bt_page result" where
  "get_page pid t = (case bt_pages t pid of None \<Rightarrow> Inl UndefinedBehaviour | Some p \<Rightarrow> Inr p)"

definition get_leaf :: "page_id_t \<Rightarrow> ('k, 'v) bplus_tree \<Rightarrow> ('k, 'v) leaf_page result" where
  "get_leaf pid t =
     bind_result (get_page pid t) (\<lambda>p. case p of LEAF_PAGE l \<Rightarrow> Inr l | INTERNAL_PAGE i \<Rightarrow> Inl UndefinedBehaviour)"

definition get_internal :: "page_id_t \<Rightarrow> ('k, 'v) bplus_tree \<Rightarrow> 'k internal_page result" where
  "get_internal pid t =
     bind_result (get_page pid t) (\<lambda>p. case p of LEAF_PAGE l \<Rightarrow> Inl UndefinedBehaviour | INTERNAL_PAGE i \<Rightarrow> Inr i)"

definition put_page :: "page_id_t \<Rightarrow> ('k, 'v) bt_page \<Rightarrow> ('k, 'v) bplus_tree \<Rightarrow> ('k, 'v) bplus_tree" where
  "put_page pid p t = t\<lparr>bt_pages := (bt_pages t)(pid \<mapsto> p)\<rparr>"

definition pin_page :: "page_id_t \<Rightarrow> ('k, 'v) bplus_tree \<Rightarrow> ('k, 'v) bplus_tree" where
  "pin_page pid t = t\<lparr>bt_pins := pid # bt_pins t\<rparr>"

definition UnpinPage :: "page_id_t \<Rightarrow> ('k, 'v) bplus_tree \<Rightarrow> ('k, 'v) bplus_tree" where
  "UnpinPage pid t = t\<lparr>bt_pins := remove1 pid (bt_pins t)\<rparr>"

definition FetchPage :: "page_id_t \<Rightarrow> ('k, 'v) bplus_tree \<Rightarrow> (('k, 'v) bt_page \<times> ('k, 'v) bplus_tree) result" where
  "FetchPage pid t = bind_result (get_page pid t) (\<lambda>p. Inr (p, pin_page pid t))"

definition NewPage :: "('k, 'v) bplus_tree \<Rightarrow> (page_id_t \<times> ('k, 'v) bplus_tree) result" where
  "NewPage t =
     (if bt_avail t = 0 then Inl (Exception ET_OUT_OF_MEMORY)
      else Inr (bt_next t, pin_page (bt_next t) (t\<lparr>bt_next := bt_next t + 1, bt_avail := bt_avail t - 1\<rparr>)))"

definition DeletePage :: "page_id_t \<Rightarrow> ('k, 'v) bplus_tree \<Rightarrow> ('k, 'v) bplus_tree" where
  "DeletePage pid t =
     (if pid \<in> set (bt_pins t) then t else t\<lparr>bt_pages := (bt_pages t)(pid := None)\<rparr>)"

section \<open>Page sets of the transaction\<close>

definition AddIntoPageSet :: "page_id_t option \<Rightarrow> ('k, 'v) bplus_tree \<Rightarrow> ('k, 'v) bplus_tree" where
  "AddIntoPageSet p t = t\<lparr>page_set := page_set t @ [p]\<rparr>"

definition AddIntoDeletedPageSet :: "page_id_t \<Rightarrow> ('k, 'v) bplus_tree \<Rightarrow> ('k, 'v) bplus_tree" where
  "AddIntoDeletedPageSet pid t = t\<lparr>deleted_page_set := List.insert pid (deleted_page_set t)\<rparr>"

fun release :: "page_id_t option list \<Rightarrow> ('k, 'v) bplus_tree \<Rightarrow> ('k, 'v) bplus_tree" where
  "release [] t = t"
| "release (None # ps) t = release ps t"
| "release (Some pid # ps) t = release ps (UnpinPage pid t)"

definition ReleaseLatchFromQueue :: "('k, 'v) bplus_tree \<Rightarrow> ('k, 'v) bplus_tree" where
  "ReleaseLatchFromQueue t = (release (page_set t) t)\<lparr>page_set := []\<rparr>"

section \<open>Search\<close>

datatype Operation = SEARCH | INSERT | DELETE

definition BPlusTree_init :: "string \<Rightarrow> byte list \<Rightarrow> page_id_t \<Rightarrow> nat \<Rightarrow> int \<Rightarrow> int \<Rightarrow> ('k, 'v) bplus_tree" where
  "BPlusTree_init name header next_page avail leaf_max internal_max =
     \<lparr>index_name = name, root_page_id = INVALID_PAGE_ID, leaf_max_size = leaf_max,
      internal_max_size = internal_max, bt_pages = (\<lambda>_. None), bt_header = header, bt_pins = [],
      bt_next = next_page, bt_avail = avail, page_set = [], deleted_page_set = []\<rparr>"

definition IsEmpty :: "('k, 'v) bplus_tree \<Rightarrow> bool" where
  "IsEmpty t \<longleftrightarrow> root_page_id t = INVALID_PAGE_ID"

text \<open>A child that is safe lets the latches and pins of its ancestors go.\<close>

definition release_if_safe :: "Operation \<Rightarrow> ('k, 'v) bt_page \<Rightarrow> ('k, 'v) bplus_tree \<Rightarrow> ('k, 'v) bplus_tree" where
  "release_if_safe op child t =
     (case op of
        SEARCH \<Rightarrow> t
      | INSERT \<Rightarrow>
          if (IsLeafPage child \<and> GetSize child < GetMaxSize child - 1) \<or>
             (\<not> IsLeafPage child \<and> GetSize child < GetMaxSize child)
          then ReleaseLatchFromQueue t else t
      | DELETE \<Rightarrow> if GetSize child > GetMinSize child then ReleaseLatchFromQueue t else t)"

fun FindLeaf_loop ::
  "nat \<Rightarrow> 'k :: linorder \<Rightarrow> Operation \<Rightarrow> bool \<Rightarrow> bool \<Rightarrow> page_id_t \<Rightarrow> ('k, 'v) bplus_tree \<Rightarrow>
   (page_id_t \<times> ('k, 'v) bplus_tree) result" where
  "FindLeaf_loop 0 key op leftMost rightMost pid t = Inl OutOfFuel"
| "FindLeaf_loop (Suc fuel) key op leftMost rightMost pid t =
     bind_result (get_page pid t) (\<lambda>node.
       case node of
         LEAF_PAGE l \<Rightarrow> Inr (pid, t)
       | INTERNAL_PAGE i \<Rightarrow>
           bind_result
             (if leftMost then Internal_ValueAt 0 i
              else if rightMost then Internal_ValueAt (int (length (internal_array i)) - 1) i
              else Internal_Lookup key i) (\<lambda>child.
           if \<not> child > 0 then Inl AssertionFailure
           else bind_result (FetchPage child t) (\<lambda>(child_node, t).
             let t = (case op of SEARCH \<Rightarrow> UnpinPage pid t
                      | _ \<Rightarrow> release_if_safe op child_node (AddIntoPageSet (Some pid) t))
             in FindLeaf_loop fuel key op leftMost rightMost child t)))"

definition FindLeaf ::
  "nat \<Rightarrow> 'k :: linorder \<Rightarrow> Operation \<Rightarrow> bool \<Rightarrow> bool \<Rightarrow> ('k, 'v) bplus_tree \<Rightarrow>
   (page_id_t \<times> ('k, 'v) bplus_tree) result" where
  "FindLeaf fuel key op leftMost rightMost t =
     (if (op = SEARCH \<and> leftMost \<and> rightMost) \<or> root_page_id t = INVALID_PAGE_ID then Inl AssertionFailure
      else bind_result (FetchPage (root_page_id t) t) (\<lambda>(node, t).
        let t = (case op of
                   SEARCH \<Rightarrow> t
                 | INSERT \<Rightarrow> release_if_safe INSERT node t
                 | DELETE \<Rightarrow> if GetSize node > 2 then ReleaseLatchFromQueue t else t)
        in FindLeaf_loop fuel key op leftMost rightMost (root_page_id t) t))"

definition GetValue ::
  "nat \<Rightarrow> 'k :: linorder \<Rightarrow> ('k, 'v) bplus_tree \<Rightarrow> ('v option \<times> ('k, 'v) bplus_tree) result" where
  "GetValue fuel key t =
     bind_result (FindLeaf fuel key SEARCH False False t) (\<lambda>(leaf, t).
     bind_result (get_leaf leaf t) (\<lambda>leaf_node.
       Inr (Leaf_Lookup key leaf_node, UnpinPage leaf t)))"

section \<open>Insertion\<close>

definition UpdateRootPageId :: "bool \<Rightarrow> ('k, 'v) bplus_tree \<Rightarrow> ('k, 'v) bplus_tree result" where
  "UpdateRootPageId insert_record t =
     bind_result
       (if insert_record then InsertRecord (index_name t) (root_page_id t) (bt_header t)
        else UpdateRecord (index_name t) (root_page_id t) (bt_header t))
       (\<lambda>(ok, header). Inr (t\<lparr>bt_header := header\<rparr>))"

definition StartNewTree :: "'k :: linorder \<Rightarrow> 'v \<Rightarrow> ('k, 'v) bplus_tree \<Rightarrow> ('k, 'v) bplus_tree result" where
  "StartNewTree key v t =
     bind_result (NewPage t) (\<lambda>(pid, t).
       let t = t\<lparr>root_page_id := pid\<rparr>;
           leaf = Leaf_Init pid INVALID_PAGE_ID (leaf_max_size t);
           (_, leaf) = Leaf_Insert key v leaf
       in Inr (UnpinPage pid (put_page pid (LEAF_PAGE leaf) t)))"

text \<open>
  \<^verbatim>\<open>CopyNFrom\<close> of an internal page, and its one-entry variants, make the page the parent
  of the children they take over.
\<close>

fun adopt :: "page_id_t \<Rightarrow> page_id_t list \<Rightarrow> ('k, 'v) bplus_tree \<Rightarrow> ('k, 'v) bplus_tree result" where
  "adopt parent [] t = Inr t"
| "adopt parent (c # cs) t =
     bind_result (FetchPage c t) (\<lambda>(node, t).
       adopt parent cs (UnpinPage c (put_page c (SetParentPageId parent node) t)))"

definition Internal_CopyNFrom ::
  "('k \<times> page_id_t) list \<Rightarrow> 'k internal_page \<Rightarrow> ('k, 'v) bplus_tree \<Rightarrow>
   ('k internal_page \<times> ('k, 'v) bplus_tree) result" where
  "Internal_CopyNFrom items p t =
     bind_result (adopt (self_page_id p) (map snd items) t) (\<lambda>t.
       Inr (p\<lparr>internal_array := internal_array p @ items\<rparr>, t))"

definition Internal_MoveHalfTo ::
  "'k internal_page \<Rightarrow> 'k internal_page \<Rightarrow> ('k, 'v) bplus_tree \<Rightarrow>
   ('k internal_page \<times> 'k internal_page \<times> ('k, 'v) bplus_tree) result" where
  "Internal_MoveHalfTo p recipient t =
     (let start_split_index = nat ((max_size p + 1) div 2); es = internal_array p
      in if length es < start_split_index then Inl UndefinedBehaviour
         else bind_result (Internal_CopyNFrom (drop start_split_index es) recipient t) (\<lambda>(recipient, t).
           Inr (p\<lparr>internal_array := take start_split_index es\<rparr>, recipient, t)))"

text \<open>
  \<^verbatim>\<open>Split\<close> returns the shrunken node (which may be a copy that is not in the buffer
  pool) and the id of the new page.
\<close>

definition Split ::
  "('k, 'v) bt_page \<Rightarrow> ('k, 'v) bplus_tree \<Rightarrow> (('k, 'v) bt_page \<times> page_id_t \<times> ('k, 'v) bplus_tree) result" where
  "Split node t =
     bind_result (NewPage t) (\<lambda>(pid, t).
       case node of
         LEAF_PAGE leaf \<Rightarrow>
           bind_result (Leaf_MoveHalfTo leaf (Leaf_Init pid (parent_page_id leaf) (leaf_max_size t)))
             (\<lambda>(leaf, new_leaf). Inr (LEAF_PAGE leaf, pid, put_page pid (LEAF_PAGE new_leaf) t))
       | INTERNAL_PAGE internal \<Rightarrow>
           bind_result (Internal_MoveHalfTo internal
               (Internal_Init pid (parent_page_id internal) (internal_max_size t)) t)
             (\<lambda>(internal, new_internal, t).
               Inr (INTERNAL_PAGE internal, pid, put_page pid (INTERNAL_PAGE new_internal) t)))"

fun InsertIntoParent ::
  "nat \<Rightarrow> page_id_t \<Rightarrow> 'k :: zero \<Rightarrow> page_id_t \<Rightarrow> ('k, 'v) bplus_tree \<Rightarrow> ('k, 'v) bplus_tree result" where
  "InsertIntoParent 0 old_node key new_node t = Inl OutOfFuel"
| "InsertIntoParent (Suc fuel) old_node key new_node t =
     bind_result (get_page old_node t) (\<lambda>old.
     bind_result (get_page new_node t) (\<lambda>new.
       if IsRootPage old then
         bind_result (NewPage t) (\<lambda>(rid, t).
           let t = t\<lparr>root_page_id := rid\<rparr>;
               new_root = PopulateNewRoot (GetPageId old) key (GetPageId new)
                 (Internal_Init rid INVALID_PAGE_ID (internal_max_size t));
               t = put_page rid (INTERNAL_PAGE new_root) t;
               t = put_page old_node (SetParentPageId rid old) t;
               t = put_page new_node (SetParentPageId rid new) t
           in bind_result (UpdateRootPageId False (UnpinPage rid t)) (\<lambda>t. Inr (ReleaseLatchFromQueue t)))
       else
         let parent = GetParentPageId old
         in bind_result (get_internal parent t) (\<lambda>parent_node.
              let t = pin_page parent t
              in if int (length (internal_array parent_node)) < internal_max_size t then
                   bind_result (InsertNodeAfter (GetPageId old) key (GetPageId new) parent_node) (\<lambda>parent_node.
                     Inr (UnpinPage parent (ReleaseLatchFromQueue (put_page parent (INTERNAL_PAGE parent_node) t))))
                 else
                   bind_result (InsertNodeAfter (GetPageId old) key (GetPageId new) parent_node) (\<lambda>copied.
                   bind_result (Split (INTERNAL_PAGE copied) t) (\<lambda>(copied, sibling, t).
                   bind_result (get_internal sibling t) (\<lambda>sibling_node.
                   bind_result (Internal_KeyAt 0 sibling_node) (\<lambda>new_key.
                   bind_result (InsertIntoParent fuel parent new_key sibling (put_page parent copied t)) (\<lambda>t.
                     Inr (UnpinPage sibling (UnpinPage parent t)))))))))) "

definition InsertIntoLeaf ::
  "nat \<Rightarrow> 'k :: {linorder, zero} \<Rightarrow> 'v \<Rightarrow> ('k, 'v) bplus_tree \<Rightarrow> (bool \<times> ('k, 'v) bplus_tree) result" where
  "InsertIntoLeaf fuel key v t =
     bind_result (FindLeaf fuel key INSERT False False t) (\<lambda>(leaf, t).
     bind_result (get_leaf leaf t) (\<lambda>leaf_node.
       let original_size = int (length (leaf_array leaf_node));
           (updated_size, leaf_node) = Leaf_Insert key v leaf_node;
           t = put_page leaf (LEAF_PAGE leaf_node) t
       in if updated_size = original_size then Inr (False, UnpinPage leaf (ReleaseLatchFromQueue t))
          else if updated_size < leaf_max_size t then Inr (True, UnpinPage leaf (ReleaseLatchFromQueue t))
          else
            bind_result (Split (LEAF_PAGE leaf_node) t) (\<lambda>(split, sibling, t).
            case split of INTERNAL_PAGE i \<Rightarrow> Inl UndefinedBehaviour
            | LEAF_PAGE leaf_node \<Rightarrow>
            bind_result (get_leaf sibling t) (\<lambda>split_leaf_node.
              let t = put_page sibling
                        (LEAF_PAGE (split_leaf_node\<lparr>next_page_id := next_page_id leaf_node\<rparr>)) t;
                  t = put_page leaf
                        (LEAF_PAGE (leaf_node\<lparr>next_page_id := self_page_id split_leaf_node\<rparr>)) t
              in bind_result (Leaf_KeyAt 0 split_leaf_node) (\<lambda>rising_key.
                 bind_result (InsertIntoParent fuel leaf rising_key sibling t) (\<lambda>t.
                   Inr (True, UnpinPage sibling (UnpinPage leaf t))))))))"

definition BPlusTree_Insert ::
  "nat \<Rightarrow> 'k :: {linorder, zero} \<Rightarrow> 'v \<Rightarrow> ('k, 'v) bplus_tree \<Rightarrow> (bool \<times> ('k, 'v) bplus_tree) result" where
  "BPlusTree_Insert fuel key v t =
     (let t = AddIntoPageSet None t
      in if IsEmpty t then
           bind_result (StartNewTree key v t) (\<lambda>t. Inr (True, ReleaseLatchFromQueue t))
         else InsertIntoLeaf fuel key v t)"

section \<open>Deletion\<close>

definition Internal_MoveAllTo ::
  "'k internal_page \<Rightarrow> 'k internal_page \<Rightarrow> 'k \<Rightarrow> ('k, 'v) bplus_tree \<Rightarrow>
   ('k internal_page \<times> 'k internal_page \<times> ('k, 'v) bplus_tree) result" where
  "Internal_MoveAllTo p recipient middle_key t =
     bind_result (SetKeyAt 0 middle_key p) (\<lambda>p.
     bind_result (Internal_CopyNFrom (internal_array p) recipient t) (\<lambda>(recipient, t).
       Inr (p\<lparr>internal_array := []\<rparr>, recipient, t)))"

definition Internal_CopyLastFrom ::
  "'k \<times> page_id_t \<Rightarrow> 'k internal_page \<Rightarrow> ('k, 'v) bplus_tree \<Rightarrow> ('k internal_page \<times> ('k, 'v) bplus_tree) result" where
  "Internal_CopyLastFrom pair p t =
     bind_result (adopt (self_page_id p) [snd pair] t) (\<lambda>t.
       Inr (p\<lparr>internal_array := internal_array p @ [pair]\<rparr>, t))"

definition Internal_CopyFirstFrom ::
  "'k \<times> page_id_t \<Rightarrow> 'k internal_page \<Rightarrow> ('k, 'v) bplus_tree \<Rightarrow> ('k internal_page \<times> ('k, 'v) bplus_tree) result" where
  "Internal_CopyFirstFrom pair p t =
     bind_result (adopt (self_page_id p) [snd pair] t) (\<lambda>t.
       Inr (p\<lparr>internal_array := pair # internal_array p\<rparr>, t))"

definition Internal_MoveFirstToEndOf ::
  "'k internal_page \<Rightarrow> 'k internal_page \<Rightarrow> 'k \<Rightarrow> ('k, 'v) bplus_tree \<Rightarrow>
   ('k internal_page \<times> 'k internal_page \<times> ('k, 'v) bplus_tree) result" where
  "Internal_MoveFirstToEndOf p recipient middle_key t =
     bind_result (SetKeyAt 0 middle_key p) (\<lambda>p.
     bind_result (Internal_item 0 p) (\<lambda>first_item.
     bind_result (Internal_CopyLastFrom first_item recipient t) (\<lambda>(recipient, t).
       Inr (p\<lparr>internal_array := tl (internal_array p)\<rparr>, recipient, t))))"

definition Internal_MoveLastToFrontOf ::
  "'k internal_page \<Rightarrow> 'k internal_page \<Rightarrow> 'k \<Rightarrow> ('k, 'v) bplus_tree \<Rightarrow>
   ('k internal_page \<times> 'k internal_page \<times> ('k, 'v) bplus_tree) result" where
  "Internal_MoveLastToFrontOf p recipient middle_key t =
     bind_result (Internal_item (int (length (internal_array p)) - 1) p) (\<lambda>last_item.
     bind_result (SetKeyAt 0 middle_key recipient) (\<lambda>recipient.
     bind_result (Internal_CopyFirstFrom last_item recipient t) (\<lambda>(recipient, t).
       Inr (p\<lparr>internal_array := butlast (internal_array p)\<rparr>, recipient, t))))"

definition AdjustRoot ::
  "page_id_t \<Rightarrow> ('k, 'v) bplus_tree \<Rightarrow> (bool \<times> ('k, 'v) bplus_tree) result" where
  "AdjustRoot old_root_node t =
     bind_result (get_page old_root_node t) (\<lambda>root_node.
       case root_node of
         INTERNAL_PAGE i \<Rightarrow>
           if length (internal_array i) = 1 then
             bind_result (Internal_ValueAt 0 i) (\<lambda>only_child.
             bind_result (FetchPage only_child t) (\<lambda>(only_child_node, t).
               let t = put_page only_child (SetParentPageId INVALID_PAGE_ID only_child_node) t;
                   t = t\<lparr>root_page_id := GetPageId only_child_node\<rparr>
               in bind_result (UpdateRootPageId False t) (\<lambda>t. Inr (True, UnpinPage only_child t))))
           else Inr (False, t)
       | LEAF_PAGE l \<Rightarrow>
           if leaf_array l = [] then Inr (True, t\<lparr>root_page_id := INVALID_PAGE_ID\<rparr>) else Inr (False, t))"

definition Redistribute ::
  "page_id_t \<Rightarrow> page_id_t \<Rightarrow> page_id_t \<Rightarrow> int \<Rightarrow> bool \<Rightarrow> ('k, 'v) bplus_tree \<Rightarrow> ('k, 'v) bplus_tree result" where
  "Redistribute neighbor_node node parent index from_prev t =
     bind_result (get_internal parent t) (\<lambda>parent_node.
     bind_result (get_page node t) (\<lambda>page.
     case page of
       LEAF_PAGE leaf_node \<Rightarrow>
         bind_result (get_leaf neighbor_node t) (\<lambda>neighbor_leaf_node.
         if \<not> from_prev then
           bind_result (Leaf_MoveFirstToEndOf neighbor_leaf_node leaf_node) (\<lambda>(neighbor_leaf_node, leaf_node).
           bind_result (Leaf_KeyAt 0 neighbor_leaf_node) (\<lambda>key.
           bind_result (SetKeyAt (index + 1) key parent_node) (\<lambda>parent_node.
             Inr (put_page parent (INTERNAL_PAGE parent_node) (put_page node (LEAF_PAGE leaf_node)
                   (put_page neighbor_node (LEAF_PAGE neighbor_leaf_node) t))))))
         else
           bind_result (Leaf_MoveLastToFrontOf neighbor_leaf_node leaf_node) (\<lambda>(neighbor_leaf_node, leaf_node).
           bind_result (Leaf_KeyAt 0 leaf_node) (\<lambda>key.
           bind_result (SetKeyAt index key parent_node) (\<lambda>parent_node.
             Inr (put_page parent (INTERNAL_PAGE parent_node) (put_page node (LEAF_PAGE leaf_node)
                   (put_page neighbor_node (LEAF_PAGE neighbor_leaf_node) t)))))))
     | INTERNAL_PAGE internal_node \<Rightarrow>
         bind_result (get_internal neighbor_node t) (\<lambda>neighbor_internal_node.
         if \<not> from_prev then
           bind_result (Internal_KeyAt (index + 1) parent_node) (\<lambda>middle_key.
           bind_result (Internal_MoveFirstToEndOf neighbor_internal_node internal_node middle_key t)
             (\<lambda>(neighbor_internal_node, internal_node, t).
           bind_result (Internal_KeyAt 0 neighbor_internal_node) (\<lambda>key.
           bind_result (SetKeyAt (index + 1) key parent_node) (\<lambda>parent_node.
             Inr (put_page parent (INTERNAL_PAGE parent_node) (put_page node (INTERNAL_PAGE internal_node)
                   (put_page neighbor_node (INTERNAL_PAGE neighbor_internal_node) t)))))))
         else
           bind_result (Internal_KeyAt index parent_node) (\<lambda>middle_key.
           bind_result (Internal_MoveLastToFrontOf neighbor_internal_node internal_node middle_key t)
             (\<lambda>(neighbor_internal_node, internal_node, t).
           bind_result (Internal_KeyAt 0 internal_node) (\<lambda>key.
           bind_result (SetKeyAt index key parent_node) (\<lambda>parent_node.
             Inr (put_page parent (INTERNAL_PAGE parent_node) (put_page node (INTERNAL_PAGE internal_node)
                   (put_page neighbor_node (INTERNAL_PAGE neighbor_internal_node) t))))))))))"

text \<open>
  \<^verbatim>\<open>Coalesce\<close> and \<^verbatim>\<open>CoalesceOrRedistribute\<close> call each other; the former takes
  the recursive call as its first argument.
\<close>

definition Coalesce ::
  "(page_id_t \<Rightarrow> ('k, 'v) bplus_tree \<Rightarrow> (bool \<times> ('k, 'v) bplus_tree) result) \<Rightarrow>
   page_id_t \<Rightarrow> page_id_t \<Rightarrow> page_id_t \<Rightarrow> nat \<Rightarrow> ('k, 'v) bplus_tree \<Rightarrow>
   (bool \<times> ('k, 'v) bplus_tree) result" where
  "Coalesce coalesce_or_redistribute neighbor_node node parent index t =
     bind_result (get_internal parent t) (\<lambda>parent_node.
     bind_result (Internal_KeyAt (int index) parent_node) (\<lambda>middle_key.
     bind_result (get_page node t) (\<lambda>page.
     bind_result
       (case page of
          LEAF_PAGE leaf_node \<Rightarrow>
            bind_result (get_leaf neighbor_node t) (\<lambda>prev_leaf_node.
              let (leaf_node, prev_leaf_node) = Leaf_MoveAllTo leaf_node prev_leaf_node
              in Inr (put_page neighbor_node (LEAF_PAGE prev_leaf_node) (put_page node (LEAF_PAGE leaf_node) t)))
        | INTERNAL_PAGE internal_node \<Rightarrow>
            bind_result (get_internal neighbor_node t) (\<lambda>prev_internal_node.
            bind_result (Internal_MoveAllTo internal_node prev_internal_node middle_key t)
              (\<lambda>(internal_node, prev_internal_node, t).
              Inr (put_page neighbor_node (INTERNAL_PAGE prev_internal_node)
                    (put_page node (INTERNAL_PAGE internal_node) t))))) (\<lambda>t.
     bind_result (Internal_Remove index parent_node) (\<lambda>parent_node.
       coalesce_or_redistribute parent (put_page parent (INTERNAL_PAGE parent_node) t))))))"

fun CoalesceOrRedistribute ::
  "nat \<Rightarrow> page_id_t \<Rightarrow> ('k, 'v) bplus_tree \<Rightarrow> (bool \<times> ('k, 'v) bplus_tree) result" where
  "CoalesceOrRedistribute 0 node t = Inl OutOfFuel"
| "CoalesceOrRedistribute (Suc fuel) node t =
     bind_result (get_page node t) (\<lambda>page.
     if IsRootPage page then
       bind_result (AdjustRoot node t) (\<lambda>(root_should_delete, t).
         Inr (root_should_delete, ReleaseLatchFromQueue t))
     else if GetSize page \<ge> GetMinSize page then Inr (False, ReleaseLatchFromQueue t)
     else
       let parent = GetParentPageId page
       in bind_result (get_internal parent t) (\<lambda>parent_node.
          let t = pin_page parent t; index_in_parent = ValueIndex (GetPageId page) parent_node
          in if index_in_parent > 0 then
               bind_result (Internal_ValueAt (int index_in_parent - 1) parent_node) (\<lambda>sibling.
               bind_result (FetchPage sibling t) (\<lambda>(sibling_node, t).
               if GetSize sibling_node > GetMinSize sibling_node then
                 bind_result (Redistribute sibling node parent (int index_in_parent) True t) (\<lambda>t.
                   Inr (False, UnpinPage sibling (UnpinPage parent (ReleaseLatchFromQueue t))))
               else
                 bind_result (Coalesce (CoalesceOrRedistribute fuel) sibling node parent index_in_parent t)
                   (\<lambda>(parent_node_should_delete, t).
                   let t = (if parent_node_should_delete then AddIntoDeletedPageSet parent t else t)
                   in Inr (True, UnpinPage sibling (UnpinPage parent t)))))
             else if int index_in_parent \<noteq> int (length (internal_array parent_node)) - 1 then
               bind_result (Internal_ValueAt (int index_in_parent + 1) parent_node) (\<lambda>sibling.
               bind_result (FetchPage sibling t) (\<lambda>(sibling_node, t).
               if GetSize sibling_node > GetMinSize sibling_node then
                 bind_result (Redistribute sibling node parent (int index_in_parent) False t) (\<lambda>t.
                   Inr (False, UnpinPage sibling (UnpinPage parent (ReleaseLatchFromQueue t))))
               else
                 let sibling_index = ValueIndex (GetPageId sibling_node) parent_node
                 in bind_result (Coalesce (CoalesceOrRedistribute fuel) node sibling parent sibling_index t)
                   (\<lambda>(parent_node_should_delete, t).
                   let t = AddIntoDeletedPageSet (GetPageId sibling_node) t;
                       t = (if parent_node_should_delete then AddIntoDeletedPageSet parent t else t)
                   in Inr (False, UnpinPage sibling (UnpinPage parent t)))))
             else Inr (False, t)))"

text \<open>
  The comparison in \<^verbatim>\<open>Remove\<close> has the call that shrinks the leaf on its right-hand side
  and reads the size of the leaf on its left; the language leaves open which happens first.
\<close>

definition BPlusTree_Remove ::
  "bool \<Rightarrow> nat \<Rightarrow> 'k :: linorder \<Rightarrow> ('k, 'v) bplus_tree \<Rightarrow> ('k, 'v) bplus_tree result" where
  "BPlusTree_Remove size_first fuel key t =
     (let t = AddIntoPageSet None t
      in if IsEmpty t then Inr (ReleaseLatchFromQueue t)
         else
           bind_result (FindLeaf fuel key DELETE False False t) (\<lambda>(leaf, t).
           bind_result (get_leaf leaf t) (\<lambda>leaf_node.
             let (new_size, new_node) = RemoveAndDeleteRecord key leaf_node;
                 size = (if size_first then int (length (leaf_array leaf_node))
                         else int (length (leaf_array new_node)));
                 t = put_page leaf (LEAF_PAGE new_node) t
             in if size = new_size then Inr (UnpinPage leaf (ReleaseLatchFromQueue t))
                else
                  bind_result (CoalesceOrRedistribute fuel leaf t) (\<lambda>(node_should_delete, t).
                    let t = (if node_should_delete then AddIntoDeletedPageSet leaf t else t);
                        t = UnpinPage leaf t
                    in Inr ((fold DeletePage (deleted_page_set t) t)\<lparr>deleted_page_set := []\<rparr>)))))"

section \<open>Iterator\<close>

record iterator =
  it_leaf :: "page_id_t option"
  it_index :: int

definition Iterator_delete :: "iterator \<Rightarrow> ('k, 'v) bplus_tree \<Rightarrow> ('k, 'v) bplus_tree" where
  "Iterator_delete it t = (case it_leaf it of None \<Rightarrow> t | Some pid \<Rightarrow> UnpinPage pid t)"

definition IsEnd :: "iterator \<Rightarrow> ('k, 'v) bplus_tree \<Rightarrow> bool result" where
  "IsEnd it t =
     (case it_leaf it of
        None \<Rightarrow> Inr True
      | Some pid \<Rightarrow> bind_result (get_leaf pid t) (\<lambda>leaf.
          Inr (next_page_id leaf = INVALID_PAGE_ID \<and> it_index it = int (length (leaf_array leaf)))))"

definition Iterator_deref :: "iterator \<Rightarrow> ('k, 'v) bplus_tree \<Rightarrow> ('k \<times> 'v) result" where
  "Iterator_deref it t =
     (case it_leaf it of
        None \<Rightarrow> Inl UndefinedBehaviour
      | Some pid \<Rightarrow> bind_result (get_leaf pid t) (Leaf_GetItem (it_index it)))"

definition Iterator_next :: "iterator \<Rightarrow> ('k, 'v) bplus_tree \<Rightarrow> (iterator \<times> ('k, 'v) bplus_tree) result" where
  "Iterator_next it t =
     (case it_leaf it of
        None \<Rightarrow> Inl UndefinedBehaviour
      | Some pid \<Rightarrow> bind_result (get_leaf pid t) (\<lambda>leaf.
          if it_index it = int (length (leaf_array leaf)) - 1 \<and> next_page_id leaf \<noteq> INVALID_PAGE_ID then
            bind_result (FetchPage (next_page_id leaf) t) (\<lambda>(_, t).
              Inr (\<lparr>it_leaf = Some (next_page_id leaf), it_index = 0\<rparr>, UnpinPage pid t))
          else Inr (it\<lparr>it_index := it_index it + 1\<rparr>, t)))"

definition Iterator_eq :: "iterator \<Rightarrow> iterator \<Rightarrow> ('k, 'v) bplus_tree \<Rightarrow> bool result" where
  "Iterator_eq it itr t =
     (case it_leaf it of
        None \<Rightarrow> Inr True
      | Some pid \<Rightarrow> bind_result (get_leaf pid t) (\<lambda>leaf.
          case it_leaf itr of
            None \<Rightarrow> Inl UndefinedBehaviour
          | Some qid \<Rightarrow> bind_result (get_leaf qid t) (\<lambda>leaf'.
              Inr (self_page_id leaf = self_page_id leaf' \<and> it_index it = it_index itr))))"

definition Iterator_neq :: "iterator \<Rightarrow> iterator \<Rightarrow> ('k, 'v) bplus_tree \<Rightarrow> bool result" where
  "Iterator_neq it itr t = bind_result (Iterator_eq it itr t) (\<lambda>b. Inr (\<not> b))"

definition Begin :: "nat \<Rightarrow> ('k :: {linorder, zero}, 'v) bplus_tree \<Rightarrow> (iterator \<times> ('k, 'v) bplus_tree) result" where
  "Begin fuel t =
     (if root_page_id t = INVALID_PAGE_ID then Inr (\<lparr>it_leaf = None, it_index = 0\<rparr>, t)
      else bind_result (FindLeaf fuel 0 SEARCH True False t) (\<lambda>(leaf, t).
        Inr (\<lparr>it_leaf = Some leaf, it_index = 0\<rparr>, t)))"

definition Begin_at :: "nat \<Rightarrow> 'k :: linorder \<Rightarrow> ('k, 'v) bplus_tree \<Rightarrow> (iterator \<times> ('k, 'v) bplus_tree) result" where
  "Begin_at fuel key t =
     (if root_page_id t = INVALID_PAGE_ID then Inr (\<lparr>it_leaf = None, it_index = 0\<rparr>, t)
      else bind_result (FindLeaf fuel key SEARCH False False t) (\<lambda>(leaf, t).
           bind_result (get_leaf leaf t) (\<lambda>leaf_node.
             Inr (\<lparr>it_leaf = Some leaf, it_index = int (Leaf_KeyIndex key leaf_node)\<rparr>, t))))"

definition End :: "nat \<Rightarrow> ('k :: {linorder, zero}, 'v) bplus_tree \<Rightarrow> (iterator \<times> ('k, 'v) bplus_tree) result" where
  "End fuel t =
     (if root_page_id t = INVALID_PAGE_ID then Inr (\<lparr>it_leaf = None, it_index = 0\<rparr>, t)
      else bind_result (FindLeaf fuel 0 SEARCH False True t) (\<lambda>(leaf, t).
           bind_result (get_leaf leaf t) (\<lambda>leaf_node.
             Inr (\<lparr>it_leaf = Some leaf, it_index = int (length (leaf_array leaf_node))\<rparr>, t))))"

definition GetRootPageId :: "('k, 'v) bplus_tree \<Rightarrow> page_id_t" where
  "GetRootPageId t = root_page_id t"

end
