(* ===== verification/BPlusTreeShape.thy ===== *)
theory BPlusTreeShape
  imports BPlusTree "HOL-Library.Multiset"
begin

text \<open>
  The correctness of the B+ tree.  A tree datatype is related to the pages of the buffer pool;
  a context (the path from a node to the root with the siblings on both sides) describes the
  rest of the tree around a node, the way the code sees it when it climbs through the parent
  ids.  The invariants split into a part about the context and a part about the subtree.
\<close>

section \<open>Trees and contexts\<close>

datatype ('k, 'v) btree = Lf page_id_t page_id_t "('k \<times> 'v) list" | Nd page_id_t "('k \<times> ('k, 'v) btree) list"

fun root_id :: "('k, 'v) btree \<Rightarrow> page_id_t" where
  "root_id (Lf p n xs) = p"
| "root_id (Nd p cs) = p"

fun ids :: "('k, 'v) btree \<Rightarrow> page_id_t list" where
  "ids (Lf p n xs) = [p]"
| "ids (Nd p cs) = p # concat (map (\<lambda>c. ids (snd c)) cs)"

fun entries :: "('k, 'v) btree \<Rightarrow> ('k \<times> 'v) list" where
  "entries (Lf p n xs) = xs"
| "entries (Nd p cs) = concat (map (\<lambda>c. entries (snd c)) cs)"

fun leaf_links :: "('k, 'v) btree \<Rightarrow> (page_id_t \<times> page_id_t) list" where
  "leaf_links (Lf p n xs) = [(p, n)]"
| "leaf_links (Nd p cs) = concat (map (\<lambda>c. leaf_links (snd c)) cs)"

type_synonym ('k, 'v) frame =
  "page_id_t \<times> ('k \<times> ('k, 'v) btree) list \<times> 'k \<times> ('k \<times> ('k, 'v) btree) list"

fun plug :: "('k, 'v) frame list \<Rightarrow> ('k, 'v) btree \<Rightarrow> ('k, 'v) btree" where
  "plug [] t = t"
| "plug ((p, ls, k, rs) # c) t = plug c (Nd p (ls @ (k, t) # rs))"

fun parent_of :: "('k, 'v) frame list \<Rightarrow> page_id_t" where
  "parent_of [] = INVALID_PAGE_ID"
| "parent_of ((p, ls, k, rs) # c) = p"

definition forest :: "(('k, 'v) btree \<Rightarrow> 'a list) \<Rightarrow> ('k \<times> ('k, 'v) btree) list \<Rightarrow> 'a list" where
  "forest f cs = concat (map (\<lambda>c. f (snd c)) cs)"

lemma forest_simps [simp]:
  "forest f [] = []" "forest f (c # cs) = f (snd c) @ forest f cs" "forest f (cs @ ds) = forest f cs @ forest f ds"
  by (simp_all add: forest_def)

lemma Nd_forest [simp]:
  "ids (Nd p cs) = p # forest ids cs" "entries (Nd p cs) = forest entries cs"
  "leaf_links (Nd p cs) = forest leaf_links cs"
  by (simp_all add: forest_def)

declare ids.simps(2) [simp del] entries.simps(2) [simp del] leaf_links.simps(2) [simp del]

fun ctx_ids :: "('k, 'v) frame list \<Rightarrow> page_id_t list" where
  "ctx_ids [] = []"
| "ctx_ids ((p, ls, k, rs) # c) = p # forest ids ls @ forest ids rs @ ctx_ids c"

fun ctx_left :: "(('k, 'v) btree \<Rightarrow> 'a list) \<Rightarrow> ('k, 'v) frame list \<Rightarrow> 'a list" where
  "ctx_left f [] = []"
| "ctx_left f ((p, ls, k, rs) # c) = ctx_left f c @ forest f ls"

fun ctx_right :: "(('k, 'v) btree \<Rightarrow> 'a list) \<Rightarrow> ('k, 'v) frame list \<Rightarrow> 'a list" where
  "ctx_right f [] = []"
| "ctx_right f ((p, ls, k, rs) # c) = forest f rs @ ctx_right f c"

lemma plug_ids: "mset (ids (plug c t)) = mset (ids t) + mset (ctx_ids c)"
  by (induction c t rule: plug.induct) simp_all

lemma plug_entries: "entries (plug c t) = ctx_left entries c @ entries t @ ctx_right entries c"
  by (induction c t rule: plug.induct) simp_all

lemma plug_links: "leaf_links (plug c t) = ctx_left leaf_links c @ leaf_links t @ ctx_right leaf_links c"
  by (induction c t rule: plug.induct) simp_all

lemma plug_append: "plug (c @ d) t = plug d (plug c t)"
  by (induction c t rule: plug.induct) simp_all

lemma root_id_in_ids: "root_id t \<in> set (ids t)"
  by (cases t) simp_all

lemma distinct_plug: "distinct (ids (plug c t)) \<longleftrightarrow> distinct (ids t @ ctx_ids c)"
  by (metis mset_append mset_eq_imp_distinct_iff plug_ids)

lemma set_plug_ids: "set (ids (plug c t)) = set (ids t) \<union> set (ctx_ids c)"
  by (metis mset_append mset_eq_setD plug_ids set_append)

section \<open>Trees in the buffer pool\<close>

definition leaf_at :: "(page_id_t \<Rightarrow> ('k, 'v) bt_page option) \<Rightarrow> int \<Rightarrow> page_id_t \<Rightarrow> page_id_t \<Rightarrow> page_id_t \<Rightarrow>
    ('k \<times> 'v) list \<Rightarrow> bool" where
  "leaf_at pg lm par p n xs \<longleftrightarrow>
     pg p = Some (LEAF_PAGE \<lparr>max_size = lm, parent_page_id = par, self_page_id = p, next_page_id = n,
                             leaf_array = xs\<rparr>)"

definition internal_at :: "(page_id_t \<Rightarrow> ('k, 'v) bt_page option) \<Rightarrow> int \<Rightarrow> page_id_t \<Rightarrow> page_id_t \<Rightarrow>
    ('k \<times> page_id_t) list \<Rightarrow> bool" where
  "internal_at pg im par p es \<longleftrightarrow>
     pg p = Some (INTERNAL_PAGE \<lparr>max_size = im, parent_page_id = par, self_page_id = p, internal_array = es\<rparr>)"

definition slots :: "('k \<times> ('k, 'v) btree) list \<Rightarrow> ('k \<times> page_id_t) list" where
  "slots cs = map (\<lambda>c. (fst c, root_id (snd c))) cs"

lemma slots_simps [simp]:
  "slots [] = []" "slots (c # cs) = (fst c, root_id (snd c)) # slots cs" "slots (cs @ ds) = slots cs @ slots ds"
  "length (slots cs) = length cs" "slots (take n cs) = take n (slots cs)" "slots (drop n cs) = drop n (slots cs)"
  "map fst (slots cs) = map fst cs"
  by (simp_all add: slots_def take_map drop_map comp_def)

lemma slots_nth: "i < length cs \<Longrightarrow> slots cs ! i = (fst (cs ! i), root_id (snd (cs ! i)))"
  by (simp add: slots_def)

text \<open>\<open>tree_at\<close> relates a tree to the pages, given the page sizes and the id of the parent.\<close>

fun tree_at :: "(page_id_t \<Rightarrow> ('k, 'v) bt_page option) \<Rightarrow> int \<Rightarrow> int \<Rightarrow> page_id_t \<Rightarrow> ('k, 'v) btree \<Rightarrow> bool" where
  "tree_at pg lm im par (Lf p n xs) \<longleftrightarrow> leaf_at pg lm par p n xs"
| "tree_at pg lm im par (Nd p cs) \<longleftrightarrow>
     internal_at pg im par p (slots cs) \<and> (\<forall>c \<in> set cs. tree_at pg lm im p (snd c))"

fun ctx_at :: "(page_id_t \<Rightarrow> ('k, 'v) bt_page option) \<Rightarrow> int \<Rightarrow> int \<Rightarrow> ('k, 'v) frame list \<Rightarrow> page_id_t \<Rightarrow> bool" where
  "ctx_at pg lm im [] hole \<longleftrightarrow> True"
| "ctx_at pg lm im ((p, ls, k, rs) # c) hole \<longleftrightarrow>
     internal_at pg im (parent_of c) p (slots ls @ (k, hole) # slots rs) \<and>
     (\<forall>c \<in> set ls \<union> set rs. tree_at pg lm im p (snd c)) \<and> ctx_at pg lm im c p"

lemma tree_at_plug:
  "tree_at pg lm im INVALID_PAGE_ID (plug c t) \<longleftrightarrow>
   ctx_at pg lm im c (root_id t) \<and> tree_at pg lm im (parent_of c) t"
  by (induction c t rule: plug.induct) auto

text \<open>Only the pages of a tree matter to it.\<close>

lemma tree_at_cong:
  assumes "\<forall>p \<in> set (ids t). pg p = pg' p"
  shows "tree_at pg lm im par t = tree_at pg' lm im par t"
  using assms
proof (induction t arbitrary: par)
  case (Lf p n xs)
  then show ?case by (simp add: leaf_at_def)
next
  case (Nd p cs)
  have "tree_at pg lm im p (snd c) = tree_at pg' lm im p (snd c)" if "c \<in> set cs" for c
    using Nd that by (cases c) (auto simp: forest_def)
  then show ?case
    using Nd.prems by (simp add: internal_at_def)
qed

lemma ctx_at_cong:
  assumes "\<forall>p \<in> set (ctx_ids c). pg p = pg' p"
  shows "ctx_at pg lm im c hole = ctx_at pg' lm im c hole"
  using assms
proof (induction c arbitrary: hole)
  case (Cons f c)
  obtain p ls k rs where f: "f = (p, ls, k, rs)" by (cases f) auto
  have "tree_at pg lm im p (snd x) = tree_at pg' lm im p (snd x)" if "x \<in> set ls \<union> set rs" for x
    using Cons.prems that f by (intro tree_at_cong) (auto simp: forest_def)
  then show ?case
    using Cons f by (simp add: internal_at_def)
qed simp

lemma tree_at_upd_other: "p \<notin> set (ids t) \<Longrightarrow> tree_at (pg(p := x)) lm im par t = tree_at pg lm im par t"
  by (rule tree_at_cong) auto

lemma ctx_at_upd_other: "p \<notin> set (ctx_ids c) \<Longrightarrow> ctx_at (pg(p := x)) lm im c h = ctx_at pg lm im c h"
  by (rule ctx_at_cong) auto

text \<open>Changing the parent id of the root page moves the tree under another parent.\<close>

lemma tree_at_reparent:
  assumes "tree_at pg lm im par t" "distinct (ids t)"
  shows "\<exists>page. pg (root_id t) = Some page \<and> GetPageId page = root_id t \<and> GetParentPageId page = par \<and>
    tree_at (pg(root_id t \<mapsto> SetParentPageId q page)) lm im q t"
proof (cases t)
  case (Lf p n xs)
  then show ?thesis
    using assms by (simp add: leaf_at_def)
next
  case (Nd p cs)
  have "p \<notin> set (ids (snd c))" if "c \<in> set cs" for c
    using assms(2) Nd that by (auto simp: forest_def)
  then show ?thesis
    using assms(1) Nd by (auto simp: internal_at_def tree_at_upd_other)
qed

section \<open>Order\<close>

text \<open>
  Keys of a subtree lie between two bounds, the lower one included.  The children of a node
  are ordered by the keys of the slots after the first.
\<close>

definition above :: "'k :: linorder option \<Rightarrow> 'k \<Rightarrow> bool" where
  "above lo k \<longleftrightarrow> (case lo of None \<Rightarrow> True | Some a \<Rightarrow> a \<le> k)"

definition sabove :: "'k :: linorder option \<Rightarrow> 'k \<Rightarrow> bool" where
  "sabove lo k \<longleftrightarrow> (case lo of None \<Rightarrow> True | Some a \<Rightarrow> a < k)"

definition below :: "'k :: linorder option \<Rightarrow> 'k \<Rightarrow> bool" where
  "below hi k \<longleftrightarrow> (case hi of None \<Rightarrow> True | Some b \<Rightarrow> k < b)"

lemma bounds_simps [simp]:
  "above None k" "sabove None k" "below None k" "above (Some a) k \<longleftrightarrow> a \<le> k" "sabove (Some a) k \<longleftrightarrow> a < k"
  "below (Some b) k \<longleftrightarrow> k < b"
  by (simp_all add: above_def sabove_def below_def)

lemma bounds_trans:
  "sabove lo k \<Longrightarrow> k \<le> l \<Longrightarrow> sabove lo l" "above lo k \<Longrightarrow> k \<le> l \<Longrightarrow> above lo l"
  "above lo k \<Longrightarrow> k < l \<Longrightarrow> sabove lo l" "below hi l \<Longrightarrow> k \<le> l \<Longrightarrow> below hi k" "sabove lo k \<Longrightarrow> above lo k"
  by (auto simp: above_def sabove_def below_def split: option.splits)

fun ordered :: "'k :: linorder option \<Rightarrow> 'k option \<Rightarrow> ('k, 'v) btree \<Rightarrow> bool"
  and ord_forest :: "'k :: linorder option \<Rightarrow> 'k option \<Rightarrow> ('k \<times> ('k, 'v) btree) list \<Rightarrow> bool" where
  "ordered lo hi (Lf p n xs) \<longleftrightarrow> sorted_keys xs \<and> (\<forall>x \<in> set xs. above lo (fst x) \<and> below hi (fst x))"
| "ordered lo hi (Nd p cs) \<longleftrightarrow> ord_forest lo hi cs"
| "ord_forest lo hi [] \<longleftrightarrow> False"
| "ord_forest lo hi [(k, c)] \<longleftrightarrow> ordered lo hi c"
| "ord_forest lo hi ((k, c) # (k', c') # cs) \<longleftrightarrow>
     sabove lo k' \<and> below hi k' \<and> ordered lo (Some k') c \<and> ord_forest (Some k') hi ((k', c') # cs)"

lemma ord_forest_nonempty: "ord_forest lo hi cs \<Longrightarrow> cs \<noteq> []"
  by auto

lemma ord_forest_split:
  assumes "xs \<noteq> []"
  shows "ord_forest lo hi (xs @ (k, c) # ys) \<longleftrightarrow>
    ord_forest lo (Some k) xs \<and> ord_forest (Some k) hi ((k, c) # ys) \<and> sabove lo k \<and> below hi k"
  using assms
proof (induction xs arbitrary: lo rule: induct_list012)
  case (2 x)
  then show ?case by (cases x) auto
next
  case (3 x y zs)
  obtain k1 c1 k2 c2 where xy: "x = (k1, c1)" "y = (k2, c2)"
    by (cases x, cases y) auto
  show ?case
    using 3(2) [of "Some k2"] bounds_trans(1) [of lo k2 k] bounds_trans(4) [of hi k k2]
    by (auto simp: xy)
qed simp

text \<open>A non-empty run of children inside a node, and what the node says of the rest.\<close>

definition lo_of :: "'k option \<Rightarrow> ('k \<times> 'c) list \<Rightarrow> 'k \<Rightarrow> 'k option" where
  "lo_of lo ls k = (if ls = [] then lo else Some k)"

definition hi_of :: "'k option \<Rightarrow> ('k \<times> 'c) list \<Rightarrow> 'k option" where
  "hi_of hi rs = (if rs = [] then hi else Some (fst (hd rs)))"

definition ord_frame :: "'k :: linorder option \<Rightarrow> 'k option \<Rightarrow> ('k \<times> ('k, 'v) btree) list \<Rightarrow> 'k \<Rightarrow>
    ('k \<times> ('k, 'v) btree) list \<Rightarrow> bool" where
  "ord_frame lo hi ls k rs \<longleftrightarrow>
     (ls \<noteq> [] \<longrightarrow> ord_forest lo (Some k) ls \<and> sabove lo k \<and> below hi k) \<and>
     (rs \<noteq> [] \<longrightarrow> ord_forest (Some (fst (hd rs))) hi rs \<and> sabove (lo_of lo ls k) (fst (hd rs)) \<and>
        below hi (fst (hd rs)))"

lemma ord_forest_split_right:
  assumes "xs \<noteq> []"
  shows "ord_forest lo hi (xs @ ys) \<longleftrightarrow> ord_forest lo (hi_of hi ys) xs \<and>
    (ys \<noteq> [] \<longrightarrow> ord_forest (Some (fst (hd ys))) hi ys \<and> sabove lo (fst (hd ys)) \<and> below hi (fst (hd ys)))"
proof (cases ys)
  case (Cons y zs)
  then show ?thesis
    using ord_forest_split [OF assms, of lo hi "fst y" "snd y" zs] by (auto simp: hi_of_def)
qed (simp add: hi_of_def)

lemma ord_segment:
  assumes "ms \<noteq> []"
  shows "ord_forest lo hi (ls @ ms @ rs) \<longleftrightarrow>
    ord_frame lo hi ls (fst (hd ms)) rs \<and> ord_forest (lo_of lo ls (fst (hd ms))) (hi_of hi rs) ms"
proof (cases "ls = []")
  case True
  then show ?thesis
    using ord_forest_split_right [OF assms, of lo hi rs] by (auto simp: ord_frame_def lo_of_def)
next
  case False
  obtain k c ms' where ms: "ms = (k, c) # ms'"
    using assms by (cases ms) auto
  show ?thesis
    using ord_forest_split [OF False, of lo hi k c "ms' @ rs"] ord_forest_split_right [of ms "Some k" hi rs] False
    by (auto simp: ms ord_frame_def lo_of_def)
qed

lemma ord_hole:
  "ord_forest lo hi (ls @ (k, t) # rs) \<longleftrightarrow> ord_frame lo hi ls k rs \<and> ordered (lo_of lo ls k) (hi_of hi rs) t"
  using ord_segment [of "[(k, t)]" lo hi ls rs] by simp

fun ctx_lo :: "('k, 'v) frame list \<Rightarrow> 'k option" where
  "ctx_lo [] = None"
| "ctx_lo ((p, ls, k, rs) # c) = lo_of (ctx_lo c) ls k"

fun ctx_hi :: "('k, 'v) frame list \<Rightarrow> 'k option" where
  "ctx_hi [] = None"
| "ctx_hi ((p, ls, k, rs) # c) = hi_of (ctx_hi c) rs"

fun ctx_ord :: "('k :: linorder, 'v) frame list \<Rightarrow> bool" where
  "ctx_ord [] \<longleftrightarrow> True"
| "ctx_ord ((p, ls, k, rs) # c) \<longleftrightarrow> ord_frame (ctx_lo c) (ctx_hi c) ls k rs \<and> ctx_ord c"

lemma ordered_plug: "ordered None None (plug c t) \<longleftrightarrow> ctx_ord c \<and> ordered (ctx_lo c) (ctx_hi c) t"
  by (induction c t rule: plug.induct) (auto simp: ord_hole)

lemma ordered_entries:
  fixes t :: "('k :: linorder, 'v) btree" and cs :: "('k \<times> ('k, 'v) btree) list"
  shows "ordered lo hi t \<Longrightarrow> sorted_keys (entries t) \<and> (\<forall>x \<in> set (entries t). above lo (fst x) \<and> below hi (fst x))"
    and "ord_forest lo hi cs \<Longrightarrow>
     sorted_keys (forest entries cs) \<and> (\<forall>x \<in> set (forest entries cs). above lo (fst x) \<and> below hi (fst x))"
proof (induction lo hi t and lo hi cs rule: ordered_ord_forest.induct)
  case (5 lo hi k c k' c' cs)
  have "above lo (fst x) \<and> below hi (fst x)" if "x \<in> set (entries c)" for x
    using 5 that bounds_trans(4) [of hi k' "fst x"] by auto
  moreover have "above lo (fst x) \<and> below hi (fst x)" if "x \<in> set (forest entries ((k', c') # cs))" for x
    using 5 that bounds_trans(5) [of lo k'] bounds_trans(2) [of lo k' "fst x"] by auto
  moreover have "fst x < fst y" if "x \<in> set (entries c)" "y \<in> set (forest entries ((k', c') # cs))" for x y
    using 5 that by fastforce
  ultimately show ?case
    using 5 by (auto simp: ball_Un)
qed auto

text \<open>Keys between the bounds of a hole are between the entries on its two sides.\<close>

lemma ctx_sides:
  assumes "ctx_ord c"
  shows "x \<in> set (ctx_left entries c) \<Longrightarrow> above (ctx_lo c) k \<Longrightarrow> fst x < k"
    and "x \<in> set (ctx_right entries c) \<Longrightarrow> below (ctx_hi c) k \<Longrightarrow> k < fst x"
  using assms
proof (induction c arbitrary: k)
  case (Cons f c)
  obtain p ls k' rs where f: "f = (p, ls, k', rs)" by (cases f) auto
  {
    case 1
    show ?case
    proof (cases "ls = []")
      case True
      then show ?thesis using 1 Cons(1) f by (simp add: lo_of_def)
    next
      case False
      then have o: "ord_forest (ctx_lo c) (Some k') ls" "sabove (ctx_lo c) k'" "k' \<le> k"
        using 1 f by (auto simp: ord_frame_def lo_of_def)
      then have "above (ctx_lo c) k"
        by (meson bounds_trans(1,5))
      then show ?thesis
        using 1 f Cons(1) ordered_entries(2) [OF o(1)] o(3) by fastforce
    qed
  next
    case 2
    show ?case
    proof (cases "rs = []")
      case True
      then show ?thesis using 2 Cons(2) f by (simp add: hi_of_def)
    next
      case False
      then have o: "ord_forest (Some (fst (hd rs))) (ctx_hi c) rs" "below (ctx_hi c) (fst (hd rs))" "k < fst (hd rs)"
        using 2 f by (auto simp: ord_frame_def hi_of_def)
      then have "below (ctx_hi c) k"
        by (meson bounds_trans(4) less_imp_le)
      then show ?thesis
        using 2 f Cons(2) ordered_entries(2) [OF o(1)] o(3) by fastforce
    qed
  }
qed simp_all

section \<open>Sizes and balance\<close>

fun sized :: "int \<Rightarrow> int \<Rightarrow> bool \<Rightarrow> ('k, 'v) btree \<Rightarrow> bool" where
  "sized lm im is_root (Lf p n xs) \<longleftrightarrow>
     int (length xs) < lm \<and> (if is_root then xs \<noteq> [] else lm div 2 \<le> int (length xs))"
| "sized lm im is_root (Nd p cs) \<longleftrightarrow>
     int (length cs) \<le> im \<and> (if is_root then 2 \<le> length cs else (im + 1) div 2 \<le> int (length cs)) \<and>
     (\<forall>c \<in> set cs. sized lm im False (snd c))"

fun ctx_sized :: "int \<Rightarrow> int \<Rightarrow> ('k, 'v) frame list \<Rightarrow> bool" where
  "ctx_sized lm im [] \<longleftrightarrow> True"
| "ctx_sized lm im ((p, ls, k, rs) # c) \<longleftrightarrow>
     int (length ls + length rs) + 1 \<le> im \<and>
     (if c = [] then 1 \<le> length ls + length rs else (im + 1) div 2 \<le> int (length ls + length rs) + 1) \<and>
     (\<forall>c \<in> set ls \<union> set rs. sized lm im False (snd c)) \<and> ctx_sized lm im c"

lemma sized_plug: "sized lm im True (plug c t) \<longleftrightarrow> ctx_sized lm im c \<and> sized lm im (c = []) t"
proof (induction c t rule: plug.induct)
  case (2 p ls k rs c t)
  then show ?case by (cases "c = []") auto
qed simp

fun bal :: "nat \<Rightarrow> ('k, 'v) btree \<Rightarrow> bool" where
  "bal h (Lf p n xs) \<longleftrightarrow> h = 0"
| "bal h (Nd p cs) \<longleftrightarrow> h \<noteq> 0 \<and> (\<forall>c \<in> set cs. bal (h - 1) (snd c))"

fun ctx_bal :: "nat \<Rightarrow> ('k, 'v) frame list \<Rightarrow> bool" where
  "ctx_bal g [] \<longleftrightarrow> True"
| "ctx_bal g ((p, ls, k, rs) # c) \<longleftrightarrow> (\<forall>c \<in> set ls \<union> set rs. bal g (snd c)) \<and> ctx_bal (Suc g) c"

lemma bal_plug: "bal (g + length c) (plug c t) \<longleftrightarrow> ctx_bal g c \<and> bal g t"
proof (induction c t arbitrary: g rule: plug.induct)
  case (2 p ls k rs c t)
  show ?case using 2 [of "Suc g"] by auto
qed simp

fun linked :: "(page_id_t \<times> page_id_t) list \<Rightarrow> bool" where
  "linked [] \<longleftrightarrow> True"
| "linked [(p, n)] \<longleftrightarrow> n = INVALID_PAGE_ID"
| "linked ((p, n) # (q, m) # r) \<longleftrightarrow> n = q \<and> linked ((q, m) # r)"

lemma linked_Cons: "linked (x # xs) \<Longrightarrow> linked xs"
  by (cases xs; cases x) auto

lemma linked_append: "linked (xs @ ys) \<Longrightarrow> linked ys"
  by (induction xs) (auto dest: linked_Cons)

end
