(* ===== verification/BPlusTreeFind.thy ===== *)
theory BPlusTreeFind
  imports BPlusTreeShape
begin

text \<open>
  The descent to a leaf.  \<^verbatim>\<open>FindLeaf\<close> is shown to end, with as much fuel as the tree has
  levels, at the leaf whose bounds contain the key (or at the first or last leaf), leaving the
  pages alone and the pins accounted for: what it adds is the leaf and the pages in the queue of
  latched pages.
\<close>

section \<open>Pins and the queue\<close>

fun somes :: "'a option list \<Rightarrow> 'a list" where
  "somes [] = []"
| "somes (None # xs) = somes xs"
| "somes (Some x # xs) = x # somes xs"

lemma somes_append [simp]: "somes (xs @ ys) = somes xs @ somes ys"
  by (induction xs rule: somes.induct) simp_all

lemma mset_UnpinPage [simp]: "mset (bt_pins (UnpinPage p t)) = mset (bt_pins t) - {#p#}"
  by (simp add: UnpinPage_def)

lemma release_spec:
  "\<exists>ps. release q t = t\<lparr>bt_pins := ps\<rparr> \<and> mset ps = mset (bt_pins t) - mset (somes q)"
proof (induction q t rule: release.induct)
  case (3 pid ps t)
  then obtain qs where "release ps (UnpinPage pid t) = (UnpinPage pid t)\<lparr>bt_pins := qs\<rparr>"
    "mset qs = mset (bt_pins (UnpinPage pid t)) - mset (somes ps)" by blast
  then show ?case
    by (intro exI [of _ qs]) (simp add: UnpinPage_def)
next
  case (1 t)
  show ?case by (rule exI [of _ "bt_pins t"]) simp
qed simp

lemma ReleaseLatchFromQueue_spec:
  "\<exists>ps. ReleaseLatchFromQueue t = t\<lparr>bt_pins := ps, page_set := []\<rparr> \<and>
        mset ps = mset (bt_pins t) - mset (somes (page_set t))"
  using release_spec [of "page_set t" t] by (auto simp: ReleaseLatchFromQueue_def)

text \<open>
  \<open>pinned B t\<close>: the pins are those of \<open>B\<close> and those of the queue.
\<close>

definition pinned :: "page_id_t multiset \<Rightarrow> ('k, 'v) bplus_tree \<Rightarrow> bool" where
  "pinned B t \<longleftrightarrow> mset (bt_pins t) = B + mset (somes (page_set t))"

lemma ReleaseLatchFromQueue_pinned:
  assumes "pinned B t"
  obtains ps where "ReleaseLatchFromQueue t = t\<lparr>bt_pins := ps, page_set := []\<rparr>" "mset ps = B"
  using assms ReleaseLatchFromQueue_spec [of t] that by (auto simp: pinned_def)

section \<open>The children of a node\<close>

lemma ord_forest_sorted:
  "ord_forest lo hi (c # cs) \<Longrightarrow> sorted_keys cs \<and> (\<forall>x \<in> set cs. sabove lo (fst x) \<and> below hi (fst x))"
proof (induction cs arbitrary: lo c)
  case (Cons d cs)
  obtain k k' s s' where cd: "c = (k, s)" "d = (k', s')"
    by (cases c, cases d) auto
  have IH: "sorted_keys cs" "\<forall>x \<in> set cs. k' < fst x \<and> below hi (fst x)"
    using Cons cd by fastforce+
  then show ?case
    using Cons.prems cd bounds_trans(1) [of lo k'] by (auto simp: less_imp_le)
qed simp

lemma Internal_Lookup_child:
  assumes "ord_forest lo hi cs" "above lo key" "below hi key" "internal_array i = slots cs"
  obtains ls k d rs where "cs = ls @ (k, d) # rs" "Internal_Lookup key i = Inr (root_id d)"
    "above (lo_of lo ls k) key" "below (hi_of hi rs) key"
proof -
  obtain c0 ct where cs: "cs = c0 # ct"
    using assms(1) by (cases cs) auto
  let ?P = "\<lambda>e. fst e \<le> key"
  let ?j = "length (takeWhile ?P ct)"
  have s: "sorted_keys ct" using ord_forest_sorted assms(1) cs by blast
  then have ss: "sorted_keys (slots ct)" by (simp add: sorted_keys_def)
  have j: "length (takeWhile ?P (slots ct)) = ?j"
    by (simp add: slots_def takeWhile_map comp_def)
  have lt: "?j < length cs"
    by (simp add: cs length_takeWhile_le less_Suc_eq_le)
  have "Internal_Lookup key i = Inr (root_id (snd (cs ! ?j)))"
    using Internal_Lookup_sorted [OF _ ss, of i "fst c0" "root_id (snd c0)" key] assms(4) slots_nth [OF lt]
    by (simp add: j cs)
  moreover have "above (lo_of lo (take ?j cs) (fst (cs ! ?j))) key"
  proof (cases ?j)
    case (Suc m)
    then have "cs ! ?j = takeWhile ?P ct ! m"
      by (simp add: cs takeWhile_nth)
    then have "cs ! ?j \<in> set (takeWhile ?P ct)"
      using Suc by (metis lessI nth_mem)
    then have "?P (cs ! ?j)"
      by (rule set_takeWhileD [THEN conjunct2])
    then show ?thesis by (simp add: lo_of_def assms(2))
  qed (simp add: lo_of_def assms(2))
  moreover have "below (hi_of hi (drop (Suc ?j) cs)) key"
  proof (cases "?j < length ct")
    case True
    then have "hd (drop (Suc ?j) cs) = ct ! ?j" "drop (Suc ?j) cs \<noteq> []"
      by (simp_all add: cs hd_drop_conv_nth)
    then show ?thesis
      using nth_length_takeWhile [OF True] by (simp add: hi_of_def)
  qed (simp add: hi_of_def cs assms(3))
  ultimately show ?thesis
    using that [of "take ?j cs" "fst (cs ! ?j)" "snd (cs ! ?j)" "drop (Suc ?j) cs"] lt
    by (simp add: id_take_nth_drop)
qed

section \<open>Descent\<close>

definition path_ok :: "'k :: linorder \<Rightarrow> bool \<Rightarrow> bool \<Rightarrow> ('k, 'v) frame list \<Rightarrow> bool" where
  "path_ok key leftMost rightMost c \<longleftrightarrow>
     (if leftMost then \<forall>(p, ls, k, rs) \<in> set c. ls = []
      else if rightMost then \<forall>(p, ls, k, rs) \<in> set c. rs = []
      else above (ctx_lo c) key \<and> below (ctx_hi c) key)"

lemma path_ok_Nil [simp]: "path_ok key leftMost rightMost []"
  by (simp add: path_ok_def)

lemma choose_child:
  assumes "ordered (ctx_lo c) (ctx_hi c) (Nd p cs)" "path_ok key leftMost rightMost c" "internal_array i = slots cs"
  obtains ls k d rs where "cs = ls @ (k, d) # rs" "path_ok key leftMost rightMost ((p, ls, k, rs) # c)"
    "(if leftMost then Internal_ValueAt 0 i
      else if rightMost then Internal_ValueAt (int (length (internal_array i)) - 1) i
      else Internal_Lookup key i) = Inr (root_id d)"
proof -
  have ne: "cs \<noteq> []" and o: "ord_forest (ctx_lo c) (ctx_hi c) cs"
    using assms(1) by auto
  show ?thesis
  proof (cases "leftMost \<or> rightMost")
    case True
    then show ?thesis
    proof (cases leftMost)
      case True
      then show ?thesis
        using that [of "[]" "fst (hd cs)" "snd (hd cs)" "tl cs"] ne assms(2,3)
        by (cases cs) (auto simp: path_ok_def Internal_ValueAt_def Internal_item_def)
    next
      case False
      obtain ds d where "cs = ds @ [d]" using ne by (metis rev_exhaust)
      then show ?thesis
        using that [of ds "fst d" "snd d" "[]"] False True assms(2,3)
        by (auto simp: path_ok_def Internal_ValueAt_def Internal_item_def nth_append)
    qed
  next
    case False
    then have b: "above (ctx_lo c) key" "below (ctx_hi c) key"
      using assms(2) by (auto simp: path_ok_def)
    obtain ls k d rs where "cs = ls @ (k, d) # rs" "Internal_Lookup key i = Inr (root_id d)"
      "above (lo_of (ctx_lo c) ls k) key" "below (hi_of (ctx_hi c) rs) key"
      by (rule Internal_Lookup_child [OF o b assms(3)])
    then show ?thesis
      using that False by (simp add: path_ok_def)
  qed
qed

lemma release_if_safe_spec:
  assumes "pinned B t"
  shows "\<exists>ps q. release_if_safe op child t = t\<lparr>bt_pins := ps, page_set := q\<rparr> \<and> mset ps = B + mset (somes q) \<and>
    (op = SEARCH \<longrightarrow> q = page_set t)"
proof (cases "release_if_safe op child t = t")
  case True
  then show ?thesis
    using assms by (intro exI [of _ "bt_pins t", OF exI [of _ "page_set t"]]) (simp add: pinned_def)
next
  case False
  then have "release_if_safe op child t = ReleaseLatchFromQueue t" "op \<noteq> SEARCH"
    by (auto simp: release_if_safe_def split: Operation.splits if_splits)
  then show ?thesis
    using ReleaseLatchFromQueue_pinned [OF assms] by (metis add.right_neutral mset.simps(1) somes.simps(1))
qed

lemma tree_at_root:
  assumes "tree_at pg lm im par t"
  shows "\<exists>page. pg (root_id t) = Some page \<and> GetPageId page = root_id t \<and> GetParentPageId page = par"
  using assms by (cases t) (auto simp: leaf_at_def internal_at_def)

lemma FindLeaf_loop_spec:
  assumes "tree_at (bt_pages t) lm im INVALID_PAGE_ID (plug c s)" "ordered None None (plug c s)"
    "\<forall>p \<in> set (ids s). 0 < p" "bal h s" "h < fuel" "path_ok key leftMost rightMost c"
    "pinned (add_mset (root_id s) B) t"
  shows "\<exists>c' p n xs ps q. FindLeaf_loop fuel key op leftMost rightMost (root_id s) t =
      Inr (p, t\<lparr>bt_pins := ps, page_set := q\<rparr>) \<and> plug c s = plug c' (Lf p n xs) \<and>
      length c' = h + length c \<and>
      path_ok key leftMost rightMost c' \<and> mset ps = add_mset p B + mset (somes q) \<and>
      (op = SEARCH \<longrightarrow> q = page_set t)"
  using assms
proof (induction fuel arbitrary: c s t h)
  case (Suc fuel)
  show ?case
  proof (cases s)
    case (Lf p n xs)
    then show ?thesis
      using Suc.prems
      by (intro exI [of _ c, OF exI [of _ p, OF exI [of _ n, OF exI [of _ xs, OF exI [of _ "bt_pins t",
            OF exI [of _ "page_set t"]]]]]])
        (simp add: get_page_def leaf_at_def tree_at_plug pinned_def)
  next
    case (Nd p cs)
    let ?i = "\<lparr>max_size = im, parent_page_id = parent_of c, self_page_id = p, internal_array = slots cs\<rparr>"
    have page: "bt_pages t p = Some (INTERNAL_PAGE ?i)"
      using Suc.prems(1) by (simp add: Nd tree_at_plug internal_at_def)
    have ord: "ordered (ctx_lo c) (ctx_hi c) (Nd p cs)"
      using Suc.prems(2) by (simp add: Nd ordered_plug)
    have arr: "internal_array ?i = slots cs" by simp
    obtain ls k d rs where ch: "cs = ls @ (k, d) # rs" "path_ok key leftMost rightMost ((p, ls, k, rs) # c)"
      "(if leftMost then Internal_ValueAt 0 ?i
        else if rightMost then Internal_ValueAt (int (length (internal_array ?i)) - 1) ?i
        else Internal_Lookup key ?i) = Inr (root_id d)"
      by (rule choose_child [OF ord Suc.prems(6) arr])
    let ?c = "(p, ls, k, rs) # c"
    have plug: "plug c s = plug ?c d" by (simp add: Nd ch(1))
    have pos: "\<forall>p \<in> set (ids d). 0 < p"
      using Suc.prems(3) by (simp add: Nd ch(1))
    then have rd: "0 < root_id d" using root_id_in_ids by blast
    obtain child where child: "bt_pages t (root_id d) = Some child"
      using Suc.prems(1) tree_at_root [of "bt_pages t" lm im p d] by (auto simp: plug tree_at_plug)
    have bal: "bal (h - 1) d" "h - 1 < fuel" "0 < h"
      using Suc.prems(4,5) by (auto simp: Nd ch(1))
    let ?t1 = "pin_page (root_id d) t"
    define t2 where "t2 = (case op of SEARCH \<Rightarrow> UnpinPage p ?t1
      | _ \<Rightarrow> release_if_safe op child (AddIntoPageSet (Some p) ?t1))"
    have pins: "mset (bt_pins t) = add_mset p B + mset (somes (page_set t))"
      using Suc.prems(7) by (simp add: pinned_def Nd)
    have "\<exists>ps q. t2 = t\<lparr>bt_pins := ps, page_set := q\<rparr> \<and> mset ps = add_mset (root_id d) B + mset (somes q) \<and>
      (op = SEARCH \<longrightarrow> q = page_set t)"
    proof (cases "op = SEARCH")
      case True
      then show ?thesis
        using pins by (intro exI [of _ "remove1 p (root_id d # bt_pins t)", OF exI [of _ "page_set t"]])
          (simp add: t2_def UnpinPage_def pin_page_def)
    next
      case False
      have "pinned (add_mset (root_id d) B) (AddIntoPageSet (Some p) ?t1)"
        using pins by (simp add: pinned_def AddIntoPageSet_def pin_page_def)
      then show ?thesis
        using release_if_safe_spec [of "add_mset (root_id d) B" "AddIntoPageSet (Some p) ?t1" op child] False
        by (cases op) (auto simp: t2_def AddIntoPageSet_def pin_page_def)
    qed
    then obtain ps q where t2: "t2 = t\<lparr>bt_pins := ps, page_set := q\<rparr>" "mset ps = add_mset (root_id d) B + mset (somes q)"
      "op = SEARCH \<longrightarrow> q = page_set t" by blast
    have loop: "FindLeaf_loop (Suc fuel) key op leftMost rightMost (root_id s) t =
      FindLeaf_loop fuel key op leftMost rightMost (root_id d) t2"
      using ch(3) rd by (simp add: Nd get_page_def page FetchPage_def child t2_def Let_def)
    have "pinned (add_mset (root_id d) B) t2"
      by (simp add: pinned_def t2)
    then show ?thesis
      using Suc.IH [of t2 ?c d "h - 1"] Suc.prems(1,2) pos bal ch(2) t2(3)
      unfolding loop plug by (auto simp: t2(1))
  qed
qed simp

section \<open>The tree of a state\<close>

definition holds_tree :: "('k :: linorder, 'v) bplus_tree \<Rightarrow> nat \<Rightarrow> ('k, 'v) btree \<Rightarrow> bool" where
  "holds_tree t h T \<longleftrightarrow>
     tree_at (bt_pages t) (leaf_max_size t) (internal_max_size t) INVALID_PAGE_ID T \<and>
     root_page_id t = root_id T \<and> distinct (ids T) \<and> (\<forall>p \<in> set (ids T). 0 < p \<and> p < bt_next t) \<and>
     ordered None None T \<and> sized (leaf_max_size t) (internal_max_size t) True T \<and> bal h T \<and>
     linked (leaf_links T)"

text \<open>
  The sizes the tree is built with, the limits of the page ids, the header page and the empty
  page sets between two operations.
\<close>

definition bt_wf :: "('k, 'v) bplus_tree \<Rightarrow> bool" where
  "bt_wf t \<longleftrightarrow> 2 \<le> leaf_max_size t \<and> 3 \<le> internal_max_size t \<and> 0 < bt_next t \<and>
     bt_next t + int (bt_avail t) \<le> 2 ^ 31 \<and> good_name (index_name t) \<and> (\<exists>rs. holds (bt_header t) rs) \<and>
     page_set t = [] \<and> deleted_page_set t = []"

text \<open>\<open>represents t h xs\<close>: the tree holds exactly the bindings \<open>xs\<close>, in key order, in \<open>h + 1\<close> levels.\<close>

definition represents :: "('k :: linorder, 'v) bplus_tree \<Rightarrow> nat \<Rightarrow> ('k \<times> 'v) list \<Rightarrow> bool" where
  "represents t h xs \<longleftrightarrow> bt_wf t \<and>
     (if xs = [] then root_page_id t = INVALID_PAGE_ID \<and> h = 0 else \<exists>T. holds_tree t h T \<and> entries T = xs)"

lemma holds_tree_root: "holds_tree t h T \<Longrightarrow> root_page_id t \<noteq> INVALID_PAGE_ID"
  using root_id_in_ids [of T] by (auto simp: holds_tree_def INVALID_PAGE_ID_def)

lemma represents_sorted: "represents t h xs \<Longrightarrow> sorted_keys xs"
  using ordered_entries(1) by (auto simp: represents_def holds_tree_def split: if_splits)

lemma FindLeaf_spec:
  assumes "holds_tree t h T" "h < fuel" "\<not> (op = SEARCH \<and> leftMost \<and> rightMost)" "pinned B t"
  shows "\<exists>c p n xs ps q. FindLeaf fuel key op leftMost rightMost t = Inr (p, t\<lparr>bt_pins := ps, page_set := q\<rparr>) \<and>
    T = plug c (Lf p n xs) \<and> length c = h \<and> path_ok key leftMost rightMost c \<and>
    mset ps = add_mset p B + mset (somes q) \<and> (op = SEARCH \<longrightarrow> q = page_set t)"
proof -
  let ?r = "root_id T"
  have T: "tree_at (bt_pages t) (leaf_max_size t) (internal_max_size t) INVALID_PAGE_ID T" "root_page_id t = ?r"
    "\<forall>p \<in> set (ids T). 0 < p" "ordered None None T" "bal h T"
    using assms(1) by (auto simp: holds_tree_def)
  obtain node where node: "bt_pages t ?r = Some node"
    using tree_at_root [OF T(1)] by blast
  let ?t1 = "pin_page ?r t"
  have p1: "pinned (add_mset ?r B) ?t1"
    using assms(4) by (simp add: pinned_def pin_page_def)
  define t2 where "t2 = (case op of SEARCH \<Rightarrow> ?t1 | INSERT \<Rightarrow> release_if_safe INSERT node ?t1
    | DELETE \<Rightarrow> if GetSize node > 2 then ReleaseLatchFromQueue ?t1 else ?t1)"
  have "\<exists>ps q. t2 = t\<lparr>bt_pins := ps, page_set := q\<rparr> \<and> mset ps = add_mset ?r B + mset (somes q) \<and>
    (op = SEARCH \<longrightarrow> q = page_set t)"
  proof -
    have same: "\<exists>ps q. ?t1 = t\<lparr>bt_pins := ps, page_set := q\<rparr> \<and> mset ps = add_mset ?r B + mset (somes q) \<and> q = page_set t"
      using p1 by (intro exI [of _ "?r # bt_pins t", OF exI [of _ "page_set t"]]) (simp add: pinned_def pin_page_def)
    have rel: "\<exists>ps q. ReleaseLatchFromQueue ?t1 = t\<lparr>bt_pins := ps, page_set := q\<rparr> \<and> mset ps = add_mset ?r B + mset (somes q)"
      by (rule ReleaseLatchFromQueue_pinned [OF p1]) (fastforce simp: pin_page_def intro: exI [of _ "[]"])
    have "t2 = ?t1 \<or> op \<noteq> SEARCH \<and> t2 = ReleaseLatchFromQueue ?t1"
      by (auto simp: t2_def release_if_safe_def split: Operation.splits)
    then show ?thesis
      using same rel by metis
  qed
  then obtain ps q where t2: "t2 = t\<lparr>bt_pins := ps, page_set := q\<rparr>" "pinned (add_mset ?r B) t2"
    "op = SEARCH \<longrightarrow> q = page_set t"
    by (auto simp: pinned_def)
  have "FindLeaf fuel key op leftMost rightMost t = FindLeaf_loop fuel key op leftMost rightMost ?r t2"
    using holds_tree_root [OF assms(1)] assms(3) T(2)
    by (auto simp: FindLeaf_def FetchPage_def get_page_def node Let_def t2_def [symmetric] t2(1))
  moreover have "tree_at (bt_pages t2) (leaf_max_size t) (internal_max_size t) INVALID_PAGE_ID (plug [] T)"
    "ordered None None (plug [] T)"
    using T t2(1) by simp_all
  note loop = FindLeaf_loop_spec [OF this T(3,5) assms(2) path_ok_Nil t2(2), where op = op]
  ultimately show ?thesis
    using loop [where key = key and leftMost = leftMost and rightMost = rightMost] t2(3) unfolding t2(1) by simp
qed

lemma FindLeaf_search:
  assumes "holds_tree t h T" "h < fuel" "\<not> (leftMost \<and> rightMost)" "page_set t = []"
  obtains c p n xs ps where "FindLeaf fuel key SEARCH leftMost rightMost t = Inr (p, t\<lparr>bt_pins := ps\<rparr>)"
    "T = plug c (Lf p n xs)" "path_ok key leftMost rightMost c" "mset ps = add_mset p (mset (bt_pins t))"
proof -
  have "t\<lparr>bt_pins := ps, page_set := page_set t\<rparr> = t\<lparr>bt_pins := ps\<rparr>" for ps
    by (cases t) simp
  moreover have "pinned (mset (bt_pins t)) t"
    using assms(4) by (simp add: pinned_def)
  ultimately show ?thesis
    using FindLeaf_spec [OF assms(1,2), of SEARCH leftMost rightMost "mset (bt_pins t)" key] assms(3,4) that
    by (metis add.right_neutral mset.simps(1) somes.simps(1))
qed

section \<open>Lookup\<close>

lemma map_of_hole:
  assumes "ordered None None (plug c (Lf p n xs))" "path_ok key False False c"
  shows "map_of (entries (plug c (Lf p n xs))) key = map_of xs key"
proof -
  have "ctx_ord c" "above (ctx_lo c) key" "below (ctx_hi c) key"
    using assms by (simp_all add: ordered_plug path_ok_def)
  then have "\<forall>x \<in> set (ctx_left entries c). fst x < key" "\<forall>x \<in> set (ctx_right entries c). key < fst x"
    using ctx_sides [of c] by blast+
  then have "map_of (ctx_left entries c) key = None" "map_of (ctx_right entries c) key = None"
    by (simp_all only: map_of_less map_of_greater)
  then show ?thesis
    by (simp add: plug_entries map_add_def split: option.splits)
qed

lemma get_leaf_hole:
  assumes "tree_at (bt_pages t) lm im INVALID_PAGE_ID (plug c (Lf p n xs))"
  shows "get_leaf p t = Inr \<lparr>max_size = lm, parent_page_id = parent_of c, self_page_id = p, next_page_id = n,
    leaf_array = xs\<rparr>"
  using assms by (simp add: tree_at_plug get_leaf_def get_page_def leaf_at_def)

lemma GetValue_spec:
  assumes "represents t h xs" "xs \<noteq> []" "h < fuel"
  shows "\<exists>ps. GetValue fuel key t = Inr (map_of xs key, t\<lparr>bt_pins := ps\<rparr>) \<and> mset ps = mset (bt_pins t)"
proof -
  obtain T where T: "holds_tree t h T" "entries T = xs"
    using assms(1,2) by (auto simp: represents_def)
  have ps: "page_set t = []"
    using assms(1) by (simp add: represents_def bt_wf_def)
  obtain c p n ys ps where f: "FindLeaf fuel key SEARCH False False t = Inr (p, t\<lparr>bt_pins := ps\<rparr>)"
    "T = plug c (Lf p n ys)" "path_ok key False False c" "mset ps = add_mset p (mset (bt_pins t))"
    by (rule FindLeaf_search [OF T(1) assms(3) _ ps, where leftMost = False and rightMost = False and key = key]) simp
  have o: "ordered None None T" "sorted_keys ys"
    using T(1) f(2) by (auto simp: holds_tree_def ordered_plug)
  have "get_leaf p (t\<lparr>bt_pins := ps\<rparr>) = Inr \<lparr>max_size = leaf_max_size t, parent_page_id = parent_of c,
    self_page_id = p, next_page_id = n, leaf_array = ys\<rparr>"
    using T(1) f(2) by (intro get_leaf_hole [where im = "internal_max_size t"]) (simp add: holds_tree_def)
  then show ?thesis
    using map_of_hole [of c p n ys key] o f T(2)
    by (auto simp: GetValue_def Leaf_Lookup_sorted UnpinPage_def intro!: exI [of _ "remove1 p ps"])
qed

end
