(* ===== verification/BPlusTreeInsert.thy ===== *)
theory BPlusTreeInsert
  imports BPlusTreeFind
begin

text \<open>
  Insertion.  \<open>ins_up\<close> says on trees what \<^verbatim>\<open>InsertIntoParent\<close> does to the pages
  while it climbs: a node that was split in two takes the place of its left half, and splits
  the parent in turn when the parent is full.  The order, size and balance invariants are proved
  for \<open>ins_up\<close>, and the pages are shown to follow it.
\<close>

section \<open>Climbing on trees\<close>

fun ins_up ::
  "int \<Rightarrow> page_id_t \<Rightarrow> ('k :: zero, 'v) frame list \<Rightarrow> ('k, 'v) btree \<Rightarrow> 'k \<Rightarrow> ('k, 'v) btree \<Rightarrow> ('k, 'v) btree" where
  "ins_up im n [] t1 k t2 = Nd n [(0, t1), (k, t2)]"
| "ins_up im n ((p, ls, k1, rs) # c) t1 k t2 =
     (let cs = ls @ [(k1, t1), (k, t2)] @ rs; m = nat ((im + 1) div 2)
      in if int (length cs) \<le> im then plug c (Nd p cs)
         else ins_up im (n + 1) c (Nd p (take m cs)) (fst (cs ! m)) (Nd n (drop m cs)))"

lemma forest_take_drop: "forest f (take m cs) @ forest f (drop m cs) = forest f cs"
  using forest_simps(3) [of f "take m cs" "drop m cs"] by simp

lemma forest_take_drop': "forest f (take m cs) @ forest f (drop m cs) @ r = forest f cs @ r"
  by (metis append_assoc forest_take_drop)

lemma all_take_drop:
  "\<forall>x \<in> set cs. P x \<Longrightarrow> (\<forall>x \<in> set (take m cs). P x) \<and> (\<forall>x \<in> set (drop m cs). P x)"
  by (auto dest: in_set_takeD in_set_dropD)

lemma ins_up_entries:
  "entries (ins_up im n c t1 k t2) = ctx_left entries c @ entries t1 @ entries t2 @ ctx_right entries c"
proof (induction im n c t1 k t2 rule: ins_up.induct)
  case (2 im n p ls k1 rs c t1 k t2)
  let ?cs = "ls @ [(k1, t1), (k, t2)] @ rs"
  show ?case
  proof (cases "int (length ?cs) \<le> im")
    case False
    then show ?thesis
      using 2 [OF refl refl False] by (simp add: Let_def forest_take_drop' del: append.simps take_append drop_append)
  qed (simp add: plug_entries)
qed simp

lemma ins_up_links:
  "leaf_links (ins_up im n c t1 k t2) = ctx_left leaf_links c @ leaf_links t1 @ leaf_links t2 @ ctx_right leaf_links c"
proof (induction im n c t1 k t2 rule: ins_up.induct)
  case (2 im n p ls k1 rs c t1 k t2)
  let ?cs = "ls @ [(k1, t1), (k, t2)] @ rs"
  show ?case
  proof (cases "int (length ?cs) \<le> im")
    case False
    then show ?thesis
      using 2 [OF refl refl False] by (simp add: Let_def forest_take_drop' del: append.simps take_append drop_append)
  qed (simp add: plug_links)
qed simp

text \<open>The new pages are numbered from \<open>n\<close> on.\<close>

lemma ins_up_ids:
  "\<exists>j \<le> length c + 1. mset (ids (ins_up im n c t1 k t2)) =
     mset (ids t1) + mset (ids t2) + mset (ctx_ids c) + mset [n..n + int j - 1]"
proof (induction im n c t1 k t2 rule: ins_up.induct)
  case (1 im n t1 k t2)
  show ?case by (intro exI [of _ 1]) simp
next
  case (2 im n p ls k1 rs c t1 k t2)
  let ?cs = "ls @ [(k1, t1), (k, t2)] @ rs" and ?m = "nat ((im + 1) div 2)"
  show ?case
  proof (cases "int (length ?cs) \<le> im")
    case True
    then show ?thesis
      by (intro exI [of _ 0]) (simp add: plug_ids)
  next
    case False
    have td: "mset (forest ids (take ?m ?cs)) + mset (forest ids (drop ?m ?cs)) = mset (forest ids ?cs)"
      by (metis forest_take_drop mset_append)
    obtain j where j: "j \<le> length c + 1"
      "mset (ids (ins_up im (n + 1) c (Nd p (take ?m ?cs)) (fst (?cs ! ?m)) (Nd n (drop ?m ?cs)))) =
       add_mset p (add_mset n (mset (forest ids (take ?m ?cs)) + mset (forest ids (drop ?m ?cs)))) +
         mset (ctx_ids c) + mset [n + 1..n + 1 + int j - 1]"
      using 2 [OF refl refl False] by auto
    have u: "[n..n + int (Suc j) - 1] = n # [n + 1..n + 1 + int j - 1]"
      by (simp add: upto_rec1)
    have "ins_up im n ((p, ls, k1, rs) # c) t1 k t2 =
      ins_up im (n + 1) c (Nd p (take ?m ?cs)) (fst (?cs ! ?m)) (Nd n (drop ?m ?cs))"
      using False by (simp add: Let_def)
    then show ?thesis
      using j(1) by (intro exI [of _ "Suc j"]) (simp only: j(2) td u, simp)
  qed
qed

text \<open>Both halves of an overfull node.\<close>

lemma ordered_halves:
  assumes "ord_forest lo hi cs" "0 < m" "m < length cs"
  shows "ord_forest lo hi [(k0, Nd p (take m cs)), (fst (cs ! m), Nd n (drop m cs))]"
proof -
  obtain k d where kd: "cs ! m = (k, d)" by (cases "cs ! m")
  have "cs = take m cs @ (k, d) # drop (Suc m) cs" "drop m cs = (k, d) # drop (Suc m) cs"
    using assms(3) by (simp_all add: kd [symmetric] id_take_nth_drop Cons_nth_drop_Suc)
  then show ?thesis
    using assms ord_forest_split [of "take m cs" lo hi k d "drop (Suc m) cs"] by (auto simp: kd)
qed

lemma sized_halves:
  assumes "\<forall>x \<in> set cs. sized lm im False (snd x)" "int (length cs) = im + 1" "3 \<le> im"
  shows "sized lm im False (Nd p (take (nat ((im + 1) div 2)) cs))"
    "sized lm im False (Nd n (drop (nat ((im + 1) div 2)) cs))"
  using all_take_drop [OF assms(1), of "nat ((im + 1) div 2)"] assms(2,3) by auto

lemma bal_halves:
  assumes "\<forall>x \<in> set cs. bal g (snd x)"
  shows "bal (Suc g) (Nd p (take m cs))" "bal (Suc g) (Nd n (drop m cs))"
  using all_take_drop [OF assms, of m] by simp_all

lemma ins_up_ordered:
  assumes "ctx_ord c" "ord_forest (ctx_lo c) (ctx_hi c) [(k0, t1), (k, t2)]" "3 \<le> im" "ctx_sized lm im c"
  shows "ordered None None (ins_up im n c t1 k t2)"
  using assms
proof (induction im n c t1 k t2 arbitrary: k0 rule: ins_up.induct)
  case (2 im n p ls k1 rs c t1 k t2)
  let ?cs = "ls @ [(k1, t1), (k, t2)] @ rs" and ?m = "nat ((im + 1) div 2)"
  have o: "ord_forest (ctx_lo c) (ctx_hi c) ?cs"
    using 2(2,3) ord_segment [of "[(k1, t1), (k, t2)]" "ctx_lo c" "ctx_hi c" ls rs] by simp
  show ?case
  proof (cases "int (length ?cs) \<le> im")
    case True
    then show ?thesis
      using 2(2) o by (simp add: ordered_plug)
  next
    case False
    have "0 < ?m" "?m < length ?cs"
      using False 2(4) by auto
    note h = ordered_halves [OF o this, of k0 p n]
    have "ordered None None (ins_up im (n + 1) c (Nd p (take ?m ?cs)) (fst (?cs ! ?m)) (Nd n (drop ?m ?cs)))"
      by (rule 2(1) [OF refl refl False _ h 2(4)]) (use 2(2,5) in simp_all)
    then show ?thesis
      using False by (simp add: Let_def)
  qed
qed simp

lemma ins_up_sized:
  assumes "ctx_sized lm im c" "sized lm im False t1" "sized lm im False t2" "3 \<le> im"
  shows "sized lm im True (ins_up im n c t1 k t2)"
  using assms
proof (induction im n c t1 k t2 rule: ins_up.induct)
  case (2 im n p ls k1 rs c t1 k t2)
  let ?cs = "ls @ [(k1, t1), (k, t2)] @ rs" and ?m = "nat ((im + 1) div 2)"
  have all: "\<forall>x \<in> set ?cs. sized lm im False (snd x)"
    using 2(2-4) by auto
  show ?case
  proof (cases "int (length ?cs) \<le> im")
    case True
    then show ?thesis
      using 2(2) all by (auto simp: sized_plug)
  next
    case False
    have len: "int (length ?cs) = im + 1"
      using False 2(2) by simp
    have "sized lm im True (ins_up im (n + 1) c (Nd p (take ?m ?cs)) (fst (?cs ! ?m)) (Nd n (drop ?m ?cs)))"
      by (rule 2(1) [OF refl refl False _ sized_halves [OF all len 2(5)] 2(5)]) (use 2(2) in simp)
    then show ?thesis
      using False by (simp add: Let_def)
  qed
qed simp

lemma ins_up_bal:
  assumes "ctx_bal g c" "bal g t1" "bal g t2"
  shows "\<exists>h. bal h (ins_up im n c t1 k t2) \<and> g + length c \<le> h \<and> h \<le> g + length c + 1"
  using assms
proof (induction im n c t1 k t2 arbitrary: g rule: ins_up.induct)
  case (1 im n t1 k t2)
  then show ?case by (intro exI [of _ "Suc g"]) simp
next
  case (2 im n p ls k1 rs c t1 k t2)
  let ?cs = "ls @ [(k1, t1), (k, t2)] @ rs" and ?m = "nat ((im + 1) div 2)"
  have all: "\<forall>x \<in> set ?cs. bal g (snd x)"
    using 2(2-4) by auto
  show ?case
  proof (cases "int (length ?cs) \<le> im")
    case True
    have "bal (Suc g + length c) (plug c (Nd p ?cs))"
      unfolding bal_plug using 2(2) all by auto
    then show ?thesis
      using True by (intro exI [of _ "Suc g + length c"]) simp
  next
    case False
    have "\<exists>h. bal h (ins_up im (n + 1) c (Nd p (take ?m ?cs)) (fst (?cs ! ?m)) (Nd n (drop ?m ?cs))) \<and>
      Suc g + length c \<le> h \<and> h \<le> Suc g + length c + 1"
      by (rule 2(1) [OF refl refl False _ bal_halves [OF all]]) (use 2(2) in simp)
    then show ?thesis
      using False by (simp add: Let_def)
  qed
qed

section \<open>Page updates\<close>

lemma ids_in_forest: "x \<in> set cs \<Longrightarrow> set (ids (snd x)) \<subseteq> set (forest ids cs)"
  by (auto simp: forest_def)

lemma roots_in_forest: "root_id ` snd ` set cs \<subseteq> set (forest ids cs)"
  using ids_in_forest root_id_in_ids by blast

lemma adopt_spec:
  assumes "\<forall>x \<in> set cs. tree_at (bt_pages t) lm im par (snd x)" "distinct (forest ids cs)"
  shows "\<exists>pg. adopt q (map snd (slots cs)) t = Inr (t\<lparr>bt_pages := pg\<rparr>) \<and>
    (\<forall>x \<in> set cs. tree_at pg lm im q (snd x)) \<and>
    (\<forall>p. p \<notin> root_id ` snd ` set cs \<longrightarrow> pg p = bt_pages t p)"
  using assms
proof (induction cs arbitrary: t)
  case Nil
  show ?case by (auto intro: exI [of _ "bt_pages t"])
next
  case (Cons c cs)
  let ?r = "root_id (snd c)"
  obtain page where page: "bt_pages t ?r = Some page"
    "tree_at ((bt_pages t)(?r \<mapsto> SetParentPageId q page)) lm im q (snd c)"
    using tree_at_reparent [of "bt_pages t" lm im par "snd c" q] Cons.prems by auto
  define pg1 where "pg1 = (bt_pages t)(?r \<mapsto> SetParentPageId q page)"
  have other: "?r \<notin> set (ids (snd x))" if "x \<in> set cs" for x
    using that Cons.prems(2) root_id_in_ids [of "snd c"] by (fastforce simp: forest_def)
  then have "\<forall>x \<in> set cs. tree_at pg1 lm im par (snd x)"
    using Cons.prems(1) by (simp add: tree_at_upd_other pg1_def)
  then obtain pg where pg: "adopt q (map snd (slots cs)) (t\<lparr>bt_pages := pg1\<rparr>) = Inr (t\<lparr>bt_pages := pg\<rparr>)"
    "\<forall>x \<in> set cs. tree_at pg lm im q (snd x)" "\<forall>p. p \<notin> root_id ` snd ` set cs \<longrightarrow> pg p = pg1 p"
    using Cons.IH [of "t\<lparr>bt_pages := pg1\<rparr>"] Cons.prems(2) by auto
  have nr: "root_id (snd x) \<notin> set (ids (snd c))" if "x \<in> set cs" for x
    using that Cons.prems(2) root_id_in_ids [of "snd x"] by (fastforce simp: forest_def)
  have "pg p = pg1 p" if "p \<in> set (ids (snd c))" for p
  proof -
    have "p \<notin> root_id ` snd ` set cs"
      using nr that by auto
    then show ?thesis
      by (rule pg(3) [rule_format])
  qed
  then have "tree_at pg lm im q (snd c)"
    using page(2) [folded pg1_def] tree_at_cong [of "snd c" pg pg1] by simp
  moreover have "UnpinPage ?r (put_page ?r (SetParentPageId q page) (pin_page ?r t)) = t\<lparr>bt_pages := pg1\<rparr>"
    by (simp add: UnpinPage_def put_page_def pin_page_def pg1_def)
  ultimately show ?case
    using pg page(1) by (intro exI [of _ pg]) (auto simp: FetchPage_def get_page_def pg1_def)
qed

lemma InsertNodeAfter_slots:
  assumes "root_id t1 \<notin> root_id ` snd ` set ls" "internal_array i = slots ls @ (k1, root_id t1) # slots rs"
  shows "InsertNodeAfter (root_id t1) k (root_id t2) i =
    Inr (i\<lparr>internal_array := slots (ls @ [(k1, t1), (k, t2)] @ rs)\<rparr>)"
proof -
  have "takeWhile (\<lambda>e. snd e \<noteq> root_id t1) (slots ls @ (k1, root_id t1) # slots rs) = slots ls"
    using assms(1) by (subst takeWhile_append2) (force simp: slots_def)+
  then have "ValueIndex (root_id t1) i = length ls"
    by (simp add: ValueIndex_def assms(2))
  then show ?thesis
    by (simp add: InsertNodeAfter_def assms(2))
qed

lemma UpdateRootPageId_spec:
  assumes "good_name (index_name t)" "holds (bt_header t) rs" "0 \<le> root_page_id t" "root_page_id t < 2 ^ 31"
  shows "\<exists>hd rs'. UpdateRootPageId False t = Inr (t\<lparr>bt_header := hd\<rparr>) \<and> holds hd rs'"
  using UpdateRecord_spec [OF assms(2,1), of "root_page_id t"] assms(2-4)
  by (fastforce simp: UpdateRootPageId_def in_sint_def intro: exI [of _ "bt_header t"] split: if_splits)

section \<open>Climbing on pages\<close>

text \<open>
  A state in which the subtree in the hole of a context has been split: the parent still points
  to the left half only.
\<close>

definition split_at :: "('k, 'v) bplus_tree \<Rightarrow> ('k, 'v) frame list \<Rightarrow> ('k, 'v) btree \<Rightarrow> ('k, 'v) btree \<Rightarrow> bool" where
  "split_at t c t1 t2 \<longleftrightarrow>
     ctx_at (bt_pages t) (leaf_max_size t) (internal_max_size t) c (root_id t1) \<and>
     tree_at (bt_pages t) (leaf_max_size t) (internal_max_size t) (parent_of c) t1 \<and>
     tree_at (bt_pages t) (leaf_max_size t) (internal_max_size t) (parent_of c) t2 \<and>
     distinct (ids t1 @ ids t2 @ ctx_ids c) \<and>
     (\<forall>p \<in> set (ids t1 @ ids t2 @ ctx_ids c). 0 < p \<and> p < bt_next t)"

text \<open>What an operation keeps besides the pages.\<close>

definition header_ok :: "('k, 'v) bplus_tree \<Rightarrow> bool" where
  "header_ok t \<longleftrightarrow> (\<exists>rs. holds (bt_header t) rs)"

definition bt_frame :: "('k, 'v) bplus_tree \<Rightarrow> ('k, 'v) bplus_tree \<Rightarrow> bool" where
  "bt_frame t t' \<longleftrightarrow> index_name t' = index_name t \<and> leaf_max_size t' = leaf_max_size t \<and>
     internal_max_size t' = internal_max_size t \<and> deleted_page_set t' = deleted_page_set t \<and>
     bt_next t \<le> bt_next t' \<and> bt_next t' + int (bt_avail t') = bt_next t + int (bt_avail t) \<and>
     (header_ok t \<longrightarrow> header_ok t')"

lemma header_ok_simps [simp]:
  "header_ok (t\<lparr>bt_pages := pg\<rparr>) = header_ok t" "header_ok (t\<lparr>bt_pins := ps\<rparr>) = header_ok t"
  "header_ok (t\<lparr>root_page_id := r\<rparr>) = header_ok t" "header_ok (t\<lparr>page_set := q\<rparr>) = header_ok t"
  "header_ok (t\<lparr>bt_next := n\<rparr>) = header_ok t" "header_ok (t\<lparr>bt_avail := a\<rparr>) = header_ok t"
  by (simp_all add: header_ok_def)

lemma bt_frame_refl [simp]: "bt_frame t t"
  by (simp add: bt_frame_def)

lemma bt_frame_trans: "bt_frame t t' \<Longrightarrow> bt_frame t' t'' \<Longrightarrow> bt_frame t t''"
  by (auto simp: bt_frame_def)

lemma bt_frame_simps [simp]:
  "bt_frame t (t'\<lparr>bt_pages := pg\<rparr>) = bt_frame t t'" "bt_frame t (t'\<lparr>bt_pins := ps\<rparr>) = bt_frame t t'"
  "bt_frame t (t'\<lparr>root_page_id := r\<rparr>) = bt_frame t t'" "bt_frame t (t'\<lparr>page_set := q\<rparr>) = bt_frame t t'"
  "bt_frame t (put_page p pg' t') = bt_frame t t'" "bt_frame t (UnpinPage p t') = bt_frame t t'"
  "bt_frame t (pin_page p t') = bt_frame t t'"
  by (simp_all add: bt_frame_def put_page_def UnpinPage_def pin_page_def)

text \<open>Splitting the parent moves the situation one level up.\<close>

lemma Split_internal:
  fixes t :: "('k :: {linorder, zero}, 'v) bplus_tree"
  assumes "split_at t ((p, ls, k1, rs) # c) t1 t2" "0 < bt_avail t"
    "cs = ls @ [(k1, t1), (k, t2)] @ rs" "m = nat ((internal_max_size t + 1) div 2)" "m \<le> length cs"
    "i = \<lparr>max_size = internal_max_size t, parent_page_id = parent_of c, self_page_id = p, internal_array = slots cs\<rparr>"
  shows "\<exists>t'. Split (INTERNAL_PAGE i) (pin_page p t) =
      Inr (INTERNAL_PAGE (i\<lparr>internal_array := slots (take m cs)\<rparr>), bt_next t, t') \<and>
    get_internal (bt_next t) t' = Inr \<lparr>max_size = internal_max_size t, parent_page_id = parent_of c,
      self_page_id = bt_next t, internal_array = slots (drop m cs)\<rparr> \<and>
    split_at (put_page p (INTERNAL_PAGE (i\<lparr>internal_array := slots (take m cs)\<rparr>)) t') c
      (Nd p (take m cs)) (Nd (bt_next t) (drop m cs)) \<and>
    bt_pins t' = bt_next t # p # bt_pins t \<and> page_set t' = page_set t \<and> root_page_id t' = root_page_id t \<and>
    bt_next t' = bt_next t + 1 \<and> bt_avail t' = bt_avail t - 1 \<and> bt_frame t t'"
proof -
  let ?n = "bt_next t" and ?lm = "leaf_max_size t" and ?im = "internal_max_size t"
  let ?t1 = "pin_page ?n ((pin_page p t)\<lparr>bt_next := ?n + 1, bt_avail := bt_avail t - 1\<rparr>)"
  have S: "\<forall>x \<in> set cs. tree_at (bt_pages t) ?lm ?im p (snd x)" "ctx_at (bt_pages t) ?lm ?im c p"
    using assms(1) by (auto simp: split_at_def assms(3))
  have dist: "distinct (p # forest ids cs @ ctx_ids c)" and bound: "\<forall>q \<in> set (p # forest ids cs @ ctx_ids c). 0 < q \<and> q < ?n"
    using assms(1) by (auto simp: split_at_def assms(3))
  have td: "forest ids cs = forest ids (take m cs) @ forest ids (drop m cs)"
    by (simp only: forest_take_drop)
  have "\<forall>x \<in> set (drop m cs). tree_at (bt_pages ?t1) ?lm ?im p (snd x)" "distinct (forest ids (drop m cs))"
    using S(1) dist td by (auto simp: pin_page_def dest: in_set_dropD)
  from adopt_spec [OF this, of ?n] obtain pg where
    pg: "adopt ?n (map snd (slots (drop m cs))) ?t1 = Inr (?t1\<lparr>bt_pages := pg\<rparr>)"
      "\<forall>x \<in> set (drop m cs). tree_at pg ?lm ?im ?n (snd x)"
      "\<forall>q. q \<notin> root_id ` snd ` set (drop m cs) \<longrightarrow> pg q = bt_pages t q"
    by (auto simp: pin_page_def)
  let ?new = "\<lparr>max_size = ?im, parent_page_id = parent_of c, self_page_id = ?n, internal_array = slots (drop m cs)\<rparr>"
  let ?old = "i\<lparr>internal_array := slots (take m cs)\<rparr>"
  let ?t2 = "put_page ?n (INTERNAL_PAGE ?new) (?t1\<lparr>bt_pages := pg\<rparr>)"
  let ?pg = "pg(?n \<mapsto> INTERNAL_PAGE ?new, p \<mapsto> INTERNAL_PAGE ?old)"
  note roots = roots_in_forest [of "drop m cs"]
  have fresh: "?n \<notin> set (p # forest ids cs @ ctx_ids c)"
    using bound by blast
  have same: "?pg q = bt_pages t q" if "q \<in> set (forest ids (take m cs)) \<union> set (ctx_ids c)" for q
  proof -
    have "q \<notin> set (forest ids (drop m cs))" "q \<noteq> p" "q \<noteq> ?n"
      using that dist fresh unfolding td by auto
    then show ?thesis
      using roots pg(3) by (simp add: subset_iff) blast
  qed
  have "\<forall>q \<in> set (ctx_ids c). ?pg q = bt_pages t q"
    using same by blast
  then have "ctx_at ?pg ?lm ?im c p"
    using S(2) by (simp only: ctx_at_cong)
  moreover have "tree_at ?pg ?lm ?im p (snd x)" if x: "x \<in> set (take m cs)" for x
  proof -
    have "\<forall>q \<in> set (ids (snd x)). ?pg q = bt_pages t q"
      using same ids_in_forest [OF x] by blast
    then show ?thesis
      using S(1) in_set_takeD [OF x] by (simp only: tree_at_cong)
  qed
  moreover have "tree_at ?pg ?lm ?im ?n (snd x)" if x: "x \<in> set (drop m cs)" for x
  proof -
    have "set (ids (snd x)) \<subseteq> set (forest ids (drop m cs))"
      using x by (auto simp: forest_def)
    then have "p \<notin> set (ids (snd x))" "?n \<notin> set (ids (snd x))"
      using dist fresh unfolding td by auto
    then show ?thesis
      using pg(2) x by (simp add: tree_at_upd_other)
  qed
  moreover have "p \<noteq> ?n"
    using fresh by simp
  moreover have "\<forall>q \<in> set (p # ?n # forest ids cs @ ctx_ids c). 0 < q \<and> q < ?n + 1"
    using bound by (auto intro: less_imp_le simp: ball_Un)
  ultimately have "split_at (put_page p (INTERNAL_PAGE ?old) ?t2) c (Nd p (take m cs)) (Nd ?n (drop m cs))"
    using dist fresh unfolding td
    by (auto simp: split_at_def put_page_def pin_page_def internal_at_def assms(6))
  moreover have "Split (INTERNAL_PAGE i) (pin_page p t) = Inr (INTERNAL_PAGE ?old, ?n, ?t2)"
    using assms(2,5) pg(1)
    by (simp add: Split_def NewPage_def pin_page_def assms(6) Internal_MoveHalfTo_def Let_def assms(4) [symmetric]
        Internal_CopyNFrom_def Internal_Init_def)
  ultimately show ?thesis
    using assms(2) by (intro exI [of _ ?t2])
      (simp add: put_page_def pin_page_def get_internal_def get_page_def bt_frame_def of_nat_diff)
qed

text \<open>A new root above two halves.\<close>

lemma new_root_at:
  assumes "tree_at pg lm im par t1" "tree_at pg lm im par t2" "distinct (ids t1 @ ids t2)"
    "n \<notin> set (ids t1) \<union> set (ids t2)" "pg (root_id t1) = Some old" "pg (root_id t2) = Some new"
  shows "tree_at (pg(n \<mapsto> root, root_id t1 \<mapsto> SetParentPageId n old, root_id t2 \<mapsto> SetParentPageId n new)) lm im n t1"
    "tree_at (pg(n \<mapsto> root, root_id t1 \<mapsto> SetParentPageId n old, root_id t2 \<mapsto> SetParentPageId n new)) lm im n t2"
proof -
  have r: "root_id t1 \<in> set (ids t1)" "root_id t2 \<in> set (ids t2)"
    by (rule root_id_in_ids)+
  have "tree_at (pg(root_id t1 \<mapsto> SetParentPageId n old)) lm im n t1"
    using tree_at_reparent [OF assms(1), of n] assms(3,5) by simp
  then show "tree_at (pg(n \<mapsto> root, root_id t1 \<mapsto> SetParentPageId n old, root_id t2 \<mapsto> SetParentPageId n new)) lm im n t1"
    using assms(3,4) r by (subst (asm) tree_at_cong
      [where pg' = "pg(n \<mapsto> root, root_id t1 \<mapsto> SetParentPageId n old, root_id t2 \<mapsto> SetParentPageId n new)"]) auto
  have "tree_at (pg(root_id t2 \<mapsto> SetParentPageId n new)) lm im n t2"
    using tree_at_reparent [OF assms(2), of n] assms(3,6) by simp
  then show "tree_at (pg(n \<mapsto> root, root_id t1 \<mapsto> SetParentPageId n old, root_id t2 \<mapsto> SetParentPageId n new)) lm im n t2"
    using assms(3,4) r by (subst (asm) tree_at_cong
      [where pg' = "pg(n \<mapsto> root, root_id t1 \<mapsto> SetParentPageId n old, root_id t2 \<mapsto> SetParentPageId n new)"]) auto
qed

text \<open>What \<^verbatim>\<open>InsertIntoParent\<close> establishes.\<close>

definition climbed :: "page_id_t multiset \<Rightarrow> nat \<Rightarrow> ('k :: {linorder, zero}, 'v) bplus_tree \<Rightarrow> ('k, 'v) btree \<Rightarrow>
    ('k, 'v) bplus_tree \<Rightarrow> bool" where
  "climbed B m t T t' \<longleftrightarrow>
     tree_at (bt_pages t') (leaf_max_size t) (internal_max_size t) INVALID_PAGE_ID T \<and>
     root_page_id t' = root_id T \<and> (\<forall>p \<in> set (ids T). 0 < p \<and> p < bt_next t') \<and>
     mset (bt_pins t') = B \<and> page_set t' = [] \<and> bt_frame t t' \<and> bt_avail t \<le> bt_avail t' + m"

lemma climbed_step:
  assumes "climbed (add_mset n (add_mset p B)) m u T t'" "bt_frame t u" "bt_avail u = bt_avail t - 1"
  shows "climbed B (Suc m) t T (UnpinPage n (UnpinPage p t'))"
proof -
  have "leaf_max_size u = leaf_max_size t" "internal_max_size u = internal_max_size t"
    using assms(2) by (simp_all add: bt_frame_def)
  moreover have "bt_frame t t'"
    using assms(1,2) bt_frame_trans by (auto simp: climbed_def)
  moreover have "bt_avail t \<le> bt_avail t' + Suc m"
    using assms(1) unfolding climbed_def assms(3) by linarith
  ultimately show ?thesis
    using assms(1) by (simp add: climbed_def) (simp add: UnpinPage_def)
qed

lemma InsertIntoParent_root:
  fixes t :: "('k :: {linorder, zero}, 'v) bplus_tree"
  assumes "split_at t [] t1 t2" "0 < fuel" "0 < bt_avail t" "good_name (index_name t)" "header_ok t"
    "bt_next t + int (bt_avail t) \<le> 2 ^ 31" "pinned B t"
  shows "\<exists>t'. InsertIntoParent fuel (root_id t1) k (root_id t2) t = Inr t' \<and>
    climbed B 1 t (Nd (bt_next t) [(0, t1), (k, t2)]) t'"
proof -
  let ?n = "bt_next t" and ?lm = "leaf_max_size t" and ?im = "internal_max_size t" and ?pg = "bt_pages t"
  have S: "tree_at ?pg ?lm ?im INVALID_PAGE_ID t1" "tree_at ?pg ?lm ?im INVALID_PAGE_ID t2"
    "distinct (ids t1 @ ids t2)" "\<forall>p \<in> set (ids t1 @ ids t2). 0 < p \<and> p < ?n"
    using assms(1) by (simp_all add: split_at_def)
  obtain old where old: "?pg (root_id t1) = Some old" "GetPageId old = root_id t1" "GetParentPageId old = INVALID_PAGE_ID"
    using tree_at_root [OF S(1)] by blast
  obtain new where new: "?pg (root_id t2) = Some new" "GetPageId new = root_id t2"
    using tree_at_root [OF S(2)] by blast
  have r: "root_id t1 \<in> set (ids t1)" "root_id t2 \<in> set (ids t2)"
    by (rule root_id_in_ids)+
  have n: "?n \<notin> set (ids t1) \<union> set (ids t2)" "0 < ?n"
    using S(4) r by (auto intro: less_trans)
  define root :: "('k, 'v) bt_page" where "root = INTERNAL_PAGE \<lparr>max_size = ?im, parent_page_id = INVALID_PAGE_ID, self_page_id = ?n,
    internal_array = [(0, root_id t1), (k, root_id t2)]\<rparr>"
  define pg where "pg = ?pg(?n \<mapsto> root, root_id t1 \<mapsto> SetParentPageId ?n old, root_id t2 \<mapsto> SetParentPageId ?n new)"
  define u where "u = t\<lparr>bt_next := ?n + 1, bt_avail := bt_avail t - 1, root_page_id := ?n, bt_pages := pg\<rparr>"
  have u: "header_ok u" "index_name u = index_name t" "root_page_id u = ?n" "bt_pins u = bt_pins t" "page_set u = page_set t"
    "bt_frame t u" "bt_next u = ?n + 1" "bt_pages u = pg" "bt_avail t \<le> bt_avail u + 1"
    using assms(3,5) by (simp_all add: u_def bt_frame_def of_nat_diff)
  obtain rs where "holds (bt_header u) rs"
    using u(1) by (auto simp: header_ok_def)
  then obtain hd rs' where hd: "UpdateRootPageId False u = Inr (u\<lparr>bt_header := hd\<rparr>)" "holds hd rs'"
    using UpdateRootPageId_spec [of u rs] assms(3,4,6) n(2) u by force
  have "pinned B (u\<lparr>bt_header := hd\<rparr>)"
    using assms(7) by (simp add: pinned_def u)
  then obtain ps where ps: "ReleaseLatchFromQueue (u\<lparr>bt_header := hd\<rparr>) = u\<lparr>bt_header := hd, bt_pins := ps, page_set := []\<rparr>"
    "mset ps = B"
    by (rule ReleaseLatchFromQueue_pinned) simp
  let ?t' = "u\<lparr>bt_header := hd, bt_pins := ps, page_set := []\<rparr>"
  have "bt_frame t ?t'"
    using u(6) hd(2) by (auto simp: bt_frame_def header_ok_def)
  moreover have "pg ?n = Some root"
    using n(1) r by (auto simp: pg_def)
  moreover have "tree_at pg ?lm ?im ?n t1" "tree_at pg ?lm ?im ?n t2"
    unfolding pg_def by (rule new_root_at [OF S(1-3) n(1) old(1) new(1)])+
  moreover have "\<forall>p \<in> set (ids t1 @ ids t2). 0 < p \<and> p < ?n + 1"
    using S(4) by (auto intro: less_imp_le simp: ball_Un)
  ultimately have "climbed B 1 t (Nd ?n [(0, t1), (k, t2)]) ?t'"
    using ps(2) n(2) u(9) by (simp add: climbed_def u(1-8) internal_at_def root_def)
  moreover have "InsertIntoParent fuel (root_id t1) k (root_id t2) t = Inr ?t'"
  proof -
    obtain f where "fuel = Suc f" using assms(2) by (cases fuel) auto
    moreover have "UnpinPage ?n (put_page (root_id t2) (SetParentPageId ?n new) (put_page (root_id t1) (SetParentPageId ?n old)
      (put_page ?n root ((pin_page ?n (t\<lparr>bt_next := ?n + 1, bt_avail := bt_avail t - 1\<rparr>))\<lparr>root_page_id := ?n\<rparr>)))) = u"
      by (simp add: UnpinPage_def put_page_def pin_page_def u_def pg_def)
    ultimately show ?thesis
      using assms(3) hd(1) ps(1) old new
      by (simp add: get_page_def IsRootPage_def NewPage_def Let_def PopulateNewRoot_def Internal_Init_def root_def pin_page_def)
  qed
  ultimately show ?thesis by blast
qed

text \<open>The parent of a split node, and the entry it gets.\<close>

lemma split_parent:
  assumes "split_at t ((p, ls, k1, rs) # c) t1 t2"
  shows "get_page (root_id t1) t = Inr old \<Longrightarrow> GetPageId old = root_id t1 \<and> GetParentPageId old = p \<and> \<not> IsRootPage old"
    "\<exists>old. get_page (root_id t1) t = Inr old" "\<exists>new. get_page (root_id t2) t = Inr new \<and> GetPageId new = root_id t2"
    "get_internal p t = Inr \<lparr>max_size = internal_max_size t, parent_page_id = parent_of c, self_page_id = p,
       internal_array = slots ls @ (k1, root_id t1) # slots rs\<rparr>"
    "InsertNodeAfter (root_id t1) k (root_id t2) \<lparr>max_size = internal_max_size t, parent_page_id = parent_of c,
       self_page_id = p, internal_array = slots ls @ (k1, root_id t1) # slots rs\<rparr> =
     Inr \<lparr>max_size = internal_max_size t, parent_page_id = parent_of c, self_page_id = p,
       internal_array = slots (ls @ [(k1, t1), (k, t2)] @ rs)\<rparr>"
proof -
  let ?lm = "leaf_max_size t" and ?im = "internal_max_size t" and ?pg = "bt_pages t"
  have S: "tree_at ?pg ?lm ?im p t1" "tree_at ?pg ?lm ?im p t2" "0 < p"
    "internal_at ?pg ?im (parent_of c) p (slots ls @ (k1, root_id t1) # slots rs)"
    using assms by (simp_all add: split_at_def)
  note r1 = tree_at_root [OF S(1)] and r2 = tree_at_root [OF S(2)]
  show "get_page (root_id t1) t = Inr old \<Longrightarrow> GetPageId old = root_id t1 \<and> GetParentPageId old = p \<and> \<not> IsRootPage old"
    using r1 S(3) by (auto simp: get_page_def IsRootPage_def INVALID_PAGE_ID_def)
  show "\<exists>old. get_page (root_id t1) t = Inr old" "\<exists>new. get_page (root_id t2) t = Inr new \<and> GetPageId new = root_id t2"
    using r1 r2 by (auto simp: get_page_def)
  show "get_internal p t = Inr \<lparr>max_size = ?im, parent_page_id = parent_of c, self_page_id = p,
       internal_array = slots ls @ (k1, root_id t1) # slots rs\<rparr>"
    using S(4) by (simp add: get_internal_def get_page_def internal_at_def)
  have "root_id t1 \<notin> set (forest ids ls)"
    using assms root_id_in_ids [of t1] by (auto simp: split_at_def)
  then have "root_id t1 \<notin> root_id ` snd ` set ls"
    using roots_in_forest by blast
  then show "InsertNodeAfter (root_id t1) k (root_id t2) \<lparr>max_size = ?im, parent_page_id = parent_of c,
       self_page_id = p, internal_array = slots ls @ (k1, root_id t1) # slots rs\<rparr> =
     Inr \<lparr>max_size = ?im, parent_page_id = parent_of c, self_page_id = p,
       internal_array = slots (ls @ [(k1, t1), (k, t2)] @ rs)\<rparr>"
    by (subst InsertNodeAfter_slots) simp_all
qed

lemma InsertIntoParent_room:
  fixes t :: "('k :: {linorder, zero}, 'v) bplus_tree"
  assumes "split_at t ((p, ls, k1, rs) # c) t1 t2" "0 < fuel" "pinned B t"
    "int (length (ls @ [(k1, t1), (k, t2)] @ rs)) \<le> internal_max_size t"
    "root_page_id t = root_id (plug c (Nd p (ls @ (k1, t1) # rs)))"
  shows "\<exists>t'. InsertIntoParent fuel (root_id t1) k (root_id t2) t = Inr t' \<and>
    climbed B m t (plug c (Nd p (ls @ [(k1, t1), (k, t2)] @ rs))) t'"
proof -
  let ?lm = "leaf_max_size t" and ?im = "internal_max_size t" and ?cs = "ls @ [(k1, t1), (k, t2)] @ rs"
  obtain old new where pages: "get_page (root_id t1) t = Inr old" "get_page (root_id t2) t = Inr new" "GetPageId new = root_id t2"
    using split_parent(2,3) [OF assms(1)] by blast
  note old = split_parent(1) [OF assms(1) pages(1)]
  define node :: "('k, 'v) bt_page" where "node = INTERNAL_PAGE \<lparr>max_size = ?im, parent_page_id = parent_of c,
    self_page_id = p, internal_array = slots ?cs\<rparr>"
  define u where "u = put_page p node (pin_page p t)"
  have "pinned (add_mset p B) u"
    using assms(3) by (simp add: pinned_def u_def put_page_def pin_page_def)
  then obtain ps where ps: "ReleaseLatchFromQueue u = u\<lparr>bt_pins := ps, page_set := []\<rparr>" "mset ps = add_mset p B"
    by (rule ReleaseLatchFromQueue_pinned)
  let ?t' = "UnpinPage p (u\<lparr>bt_pins := ps, page_set := []\<rparr>)"
  have S: "\<forall>x \<in> set ?cs. tree_at (bt_pages t) ?lm ?im p (snd x)" "ctx_at (bt_pages t) ?lm ?im c p"
    "distinct (p # forest ids ?cs @ ctx_ids c)" "\<forall>q \<in> set (p # forest ids ?cs @ ctx_ids c). 0 < q \<and> q < bt_next t"
    using assms(1) by (auto simp: split_at_def)
  have pg: "bt_pages ?t' = (bt_pages t)(p \<mapsto> node)"
    by (simp add: u_def put_page_def pin_page_def UnpinPage_def)
  have "\<forall>x \<in> set ?cs. p \<notin> set (ids (snd x))"
    using S(3) ids_in_forest by fastforce
  then have "\<forall>x \<in> set ?cs. tree_at (bt_pages ?t') ?lm ?im p (snd x)"
    unfolding pg using S(1) by (blast intro: tree_at_upd_other [THEN iffD2])
  moreover have "ctx_at (bt_pages ?t') ?lm ?im c p"
    unfolding pg using S(2,3) by (simp add: ctx_at_upd_other)
  ultimately have "tree_at (bt_pages ?t') ?lm ?im INVALID_PAGE_ID (plug c (Nd p ?cs))"
    unfolding tree_at_plug by (simp only: tree_at.simps root_id.simps) (simp add: pg internal_at_def node_def)
  moreover have "root_id (plug c (Nd p ?cs)) = root_id (plug c (Nd p (ls @ (k1, t1) # rs)))"
    by (cases c rule: rev_cases) (auto simp: plug_append split: prod.splits)
  moreover have "\<forall>q \<in> set (ids (plug c (Nd p ?cs))). 0 < q \<and> q < bt_next t"
    using S(4) by (simp add: set_plug_ids ball_Un)
  ultimately have "climbed B m t (plug c (Nd p ?cs)) ?t'"
    using ps(2) assms(5)
    by (simp add: climbed_def) (simp add: u_def put_page_def pin_page_def UnpinPage_def)
  moreover have "InsertIntoParent fuel (root_id t1) k (root_id t2) t = Inr ?t'"
  proof -
    obtain f where "fuel = Suc f" using assms(2) by (cases fuel) auto
    then show ?thesis
      using assms(4) old pages split_parent(4,5) [OF assms(1)] ps(1)
      by (simp add: Let_def pin_page_def u_def node_def)
  qed
  ultimately show ?thesis by blast
qed

lemma InsertIntoParent_spec:
  fixes t :: "('k :: {linorder, zero}, 'v) bplus_tree"
  assumes "split_at t c t1 t2" "length c < fuel" "length c < bt_avail t"
    "ctx_sized (leaf_max_size t) (internal_max_size t) c" "3 \<le> internal_max_size t"
    "good_name (index_name t)" "header_ok t" "bt_next t + int (bt_avail t) \<le> 2 ^ 31" "pinned B t"
    "c \<noteq> [] \<longrightarrow> root_page_id t = root_id (plug c t1)"
  shows "\<exists>t'. InsertIntoParent fuel (root_id t1) k (root_id t2) t = Inr t' \<and>
    climbed B (length c + 1) t (ins_up (internal_max_size t) (bt_next t) c t1 k t2) t'"
  using assms
proof (induction c arbitrary: fuel t t1 k t2 B)
  case Nil
  then show ?case
    using InsertIntoParent_root [of t t1 t2 fuel B k] by simp
next
  case (Cons f c)
  obtain p ls k1 rs where f: "f = (p, ls, k1, rs)" by (cases f) auto
  note S = Cons.prems(1) [unfolded f]
  let ?im = "internal_max_size t" and ?cs = "ls @ [(k1, t1), (k, t2)] @ rs" and ?m = "nat ((internal_max_size t + 1) div 2)"
  show ?case
  proof (cases "int (length ?cs) \<le> ?im")
    case True
    then show ?thesis
      using InsertIntoParent_room [OF S _ Cons.prems(9) True] Cons.prems(2,10) by (simp add: f)
  next
    case False
    obtain g where g: "fuel = Suc g" "length c < g" using Cons.prems(2) by (cases fuel) auto
    have len: "int (length ?cs) = ?im + 1"
      using False Cons.prems(4) by (simp add: f)
    then have m: "?m < length ?cs" using Cons.prems(5) by linarith
    define i where "i = \<lparr>max_size = ?im, parent_page_id = parent_of c, self_page_id = p, internal_array = slots ?cs\<rparr>"
    let ?n = "bt_next t" and ?t1 = "Nd p (take ?m ?cs)" and ?t2 = "Nd (bt_next t) (drop ?m ?cs)"
    let ?i = "i\<lparr>internal_array := slots (take ?m ?cs)\<rparr>"
    obtain u where u: "Split (INTERNAL_PAGE i) (pin_page p t) = Inr (INTERNAL_PAGE ?i, ?n, u)"
      "get_internal ?n u = Inr \<lparr>max_size = ?im, parent_page_id = parent_of c, self_page_id = ?n,
        internal_array = slots (drop ?m ?cs)\<rparr>"
      "split_at (put_page p (INTERNAL_PAGE ?i) u) c ?t1 ?t2"
      "bt_pins u = ?n # p # bt_pins t" "page_set u = page_set t" "root_page_id u = root_page_id t"
      "bt_next u = ?n + 1" "bt_avail u = bt_avail t - 1" "bt_frame t u"
      using Split_internal [OF S _ refl refl less_imp_le [OF m] i_def] Cons.prems(3) by auto
    let ?u = "put_page p (INTERNAL_PAGE ?i) u"
    have fr: "leaf_max_size u = leaf_max_size t" "internal_max_size u = ?im" "index_name u = index_name t" "header_ok u"
      using u(9) Cons.prems(7) by (simp_all add: bt_frame_def)
    have root: "c \<noteq> [] \<longrightarrow> root_page_id t = root_id (plug c ?t1)"
      using Cons.prems(10) by (cases c rule: rev_cases) (auto simp: f plug_append split: prod.splits)
    have pin: "pinned (add_mset ?n (add_mset p B)) ?u"
      using Cons.prems(9) u(4,5) by (simp add: pinned_def put_page_def)
    let ?T = "ins_up ?im (?n + 1) c ?t1 (fst (?cs ! ?m)) ?t2"
    obtain t' where t': "InsertIntoParent g p (fst (?cs ! ?m)) ?n ?u = Inr t'"
      "climbed (add_mset ?n (add_mset p B)) (length c + 1) ?u ?T t'"
    proof -
      have keep: "leaf_max_size ?u = leaf_max_size t" "internal_max_size ?u = ?im" "index_name ?u = index_name t"
        "header_ok ?u" "bt_avail ?u = bt_avail t - 1" "bt_next ?u = ?n + 1" "root_page_id ?u = root_page_id t"
        using fr u(6-8) by (simp_all add: put_page_def)
      have "length c < bt_avail ?u" "ctx_sized (leaf_max_size ?u) (internal_max_size ?u) c" "3 \<le> internal_max_size ?u"
        "good_name (index_name ?u)" "bt_next ?u + int (bt_avail ?u) \<le> 2 ^ 31"
        "c \<noteq> [] \<longrightarrow> root_page_id ?u = root_id (plug c ?t1)"
        unfolding keep using Cons.prems(3-8) root by (simp_all add: f)
      from Cons.IH [OF u(3) g(2) this(1-4) keep(4) this(5) pin this(6), of "fst (?cs ! ?m)"] show ?thesis
        using that unfolding keep root_id.simps by blast
    qed
    obtain old new where pages: "get_page (root_id t1) t = Inr old" "get_page (root_id t2) t = Inr new" "GetPageId new = root_id t2"
      using split_parent(2,3) [OF S] by blast
    note old = split_parent(1) [OF S pages(1)]
    have "drop ?m ?cs = (?cs ! ?m) # drop (Suc ?m) ?cs"
      using m by (rule Cons_nth_drop_Suc [symmetric])
    then have key: "Internal_KeyAt 0 \<lparr>max_size = ?im, parent_page_id = parent_of c, self_page_id = ?n,
        internal_array = slots (drop ?m ?cs)\<rparr> = Inr (fst (?cs ! ?m))"
      by (simp only: slots_simps) (simp add: Internal_KeyAt_def Internal_item_def)
    have "InsertIntoParent fuel (root_id t1) k (root_id t2) t = Inr (UnpinPage ?n (UnpinPage p t'))"
      using False old pages split_parent(4,5) [OF S] u(1,2) t'(1) key
      by (simp add: g Let_def pin_page_def i_def)
    moreover have "climbed B (length (f # c) + 1) t (ins_up ?im ?n (f # c) t1 k t2) (UnpinPage ?n (UnpinPage p t'))"
      using climbed_step [OF t'(2), of t] False u(8,9) by (simp add: f Let_def) (simp add: put_page_def)
    ultimately show ?thesis by blast
  qed
qed

section \<open>Inserting into a leaf\<close>

lemma holds_tree_leaf:
  assumes "holds_tree t h (plug c (Lf p n ys))" "length c = h"
    "bt_pages t' = (bt_pages t)(p \<mapsto> LEAF_PAGE \<lparr>max_size = leaf_max_size t, parent_page_id = parent_of c,
       self_page_id = p, next_page_id = n, leaf_array = zs\<rparr>)"
    "root_page_id t' = root_page_id t" "leaf_max_size t' = leaf_max_size t" "internal_max_size t' = internal_max_size t"
    "bt_next t' = bt_next t" "ordered (ctx_lo c) (ctx_hi c) (Lf p n zs)"
    "sized (leaf_max_size t) (internal_max_size t) (c = []) (Lf p n zs)"
  shows "holds_tree t' h (plug c (Lf p n zs))"
proof -
  have d: "distinct (ids (Lf p n ys :: ('a, 'b) btree) @ ctx_ids c)"
    using assms(1) distinct_plug [of c "Lf p n ys"] by (simp add: holds_tree_def)
  have r: "root_id (plug c (Lf p n zs)) = root_id (plug c (Lf p n ys))"
    by (cases c rule: rev_cases) (auto simp: plug_append split: prod.splits)
  have b: "bal h (plug c (Lf p n zs))"
    using bal_plug [of 0 c "Lf p n zs"] bal_plug [of 0 c "Lf p n ys"] assms(1,2) by (simp add: holds_tree_def)
  show ?thesis
    using assms(1,8,9) d b unfolding holds_tree_def assms(3-7) r
    by (simp add: tree_at_plug ctx_at_upd_other leaf_at_def distinct_plug set_plug_ids ordered_plug sized_plug plug_links)
qed

lemma map_of_middle: "k \<notin> fst ` set as \<Longrightarrow> map_of (as @ (k, v) # bs) = (map_of (as @ bs))(k \<mapsto> v)"
  by (induction as) auto

text \<open>The keys around the place of a new key in the whole tree.\<close>

lemma insert_in_hole:
  assumes "ordered None None (plug c (Lf p n (as @ bs)))" "path_ok key False False c"
    "\<forall>x \<in> set as. fst x < key" "\<forall>x \<in> set bs. key < fst x"
  shows "ordered (ctx_lo c) (ctx_hi c) (Lf p n (as @ (key, v) # bs))"
    "map_of (ctx_left entries c @ (as @ (key, v) # bs) @ ctx_right entries c) =
     (map_of (entries (plug c (Lf p n (as @ bs)))))(key \<mapsto> v)"
proof -
  have c: "ctx_ord c" "above (ctx_lo c) key" "below (ctx_hi c) key" "ordered (ctx_lo c) (ctx_hi c) (Lf p n (as @ bs))"
    using assms(1,2) by (simp_all add: ordered_plug path_ok_def)
  show "ordered (ctx_lo c) (ctx_hi c) (Lf p n (as @ (key, v) # bs))"
    using c(2-4) assms(3,4) by auto
  have "key \<notin> fst ` set (ctx_left entries c @ as)"
    using ctx_sides(1) [OF c(1) _ c(2)] assms(3) by force
  then show "map_of (ctx_left entries c @ (as @ (key, v) # bs) @ ctx_right entries c) =
     (map_of (entries (plug c (Lf p n (as @ bs)))))(key \<mapsto> v)"
    using map_of_middle [of key "ctx_left entries c @ as" v "bs @ ctx_right entries c"] by (simp add: plug_entries)
qed

text \<open>What an operation establishes, with the heights before and after and the number of new pages.\<close>

definition keeps :: "nat \<Rightarrow> ('k :: linorder, 'v) bplus_tree \<Rightarrow> ('k, 'v) bplus_tree \<Rightarrow> nat \<Rightarrow> ('k \<times> 'v) list \<Rightarrow> bool" where
  "keeps m t t' h' xs' \<longleftrightarrow> represents t' h' xs' \<and> mset (bt_pins t') = mset (bt_pins t) \<and> bt_avail t \<le> bt_avail t' + m"

lemma bt_wf_frame: "bt_wf t \<Longrightarrow> bt_frame t t' \<Longrightarrow> page_set t' = [] \<Longrightarrow> bt_wf t'"
  by (auto simp: bt_wf_def bt_frame_def header_ok_def)

lemma StartNewTree_spec:
  fixes t :: "('k :: {linorder, zero}, 'v) bplus_tree"
  assumes "represents t h []" "0 < bt_avail t"
  shows "\<exists>t'. BPlusTree_Insert fuel key v t = Inr (True, t') \<and> keeps 1 t t' 0 [(key, v)]"
proof -
  let ?n = "bt_next t"
  define leaf :: "('k, 'v) leaf_page" where "leaf = \<lparr>max_size = leaf_max_size t, parent_page_id = INVALID_PAGE_ID,
    self_page_id = ?n, next_page_id = INVALID_PAGE_ID, leaf_array = [(key, v)]\<rparr>"
  let ?t' = "t\<lparr>bt_next := ?n + 1, bt_avail := bt_avail t - 1, root_page_id := ?n, bt_pages := (bt_pages t)(?n \<mapsto> LEAF_PAGE leaf)\<rparr>"
  have wf: "bt_wf t" and root: "root_page_id t = INVALID_PAGE_ID"
    using assms(1) by (simp_all add: represents_def)
  have "Leaf_Insert key v (Leaf_Init ?n INVALID_PAGE_ID (leaf_max_size t)) = (1, leaf)"
    by (simp add: Leaf_Insert_def Leaf_Init_def Leaf_KeyIndex_def lower_bound.simps leaf_def Let_def)
  then have "BPlusTree_Insert fuel key v t = Inr (True, ?t')"
    using assms(2) wf root
    by (simp add: BPlusTree_Insert_def IsEmpty_def AddIntoPageSet_def StartNewTree_def NewPage_def pin_page_def Let_def
        UnpinPage_def put_page_def ReleaseLatchFromQueue_def bt_wf_def)
  moreover have "bt_wf ?t'"
    using wf assms(2) by (simp add: bt_wf_def of_nat_diff)
  moreover have "holds_tree ?t' 0 (Lf ?n INVALID_PAGE_ID [(key, v)])"
    using wf by (simp add: holds_tree_def bt_wf_def leaf_at_def leaf_def)
  then have "\<exists>T. holds_tree ?t' 0 T \<and> entries T = [(key, v)]"
    by (metis entries.simps(1))
  ultimately show ?thesis
    by (intro exI [of _ ?t']) (simp add: keeps_def represents_def)
qed

text \<open>The leaf of the key has room, or holds the key already.\<close>

lemma finish_leaf:
  assumes "pinned (add_mset p B) u" "bt_frame t u" "bt_wf t"
  shows "\<exists>ps. UnpinPage p (ReleaseLatchFromQueue u) = u\<lparr>bt_pins := ps, page_set := []\<rparr> \<and> mset ps = B \<and>
    bt_wf (u\<lparr>bt_pins := ps, page_set := []\<rparr>)"
proof -
  obtain ps where ps: "ReleaseLatchFromQueue u = u\<lparr>bt_pins := ps, page_set := []\<rparr>" "mset ps = add_mset p B"
    by (rule ReleaseLatchFromQueue_pinned [OF assms(1)])
  then show ?thesis
    using bt_wf_frame [OF assms(3), of "u\<lparr>bt_pins := remove1 p ps, page_set := []\<rparr>"] assms(2)
    by (intro exI [of _ "remove1 p ps"]) (simp add: UnpinPage_def)
qed

text \<open>The state after the descent: the tree around the leaf of the key, and the pins.\<close>

definition at_leaf :: "('k :: linorder, 'v) bplus_tree \<Rightarrow> nat \<Rightarrow> ('k \<times> 'v) list \<Rightarrow> 'k \<Rightarrow> ('k, 'v) frame list \<Rightarrow> page_id_t \<Rightarrow>
    page_id_t \<Rightarrow> ('k \<times> 'v) list \<Rightarrow> page_id_t list \<Rightarrow> page_id_t option list \<Rightarrow> bool" where
  "at_leaf t h xs key c p n ys ps q \<longleftrightarrow>
     holds_tree t h (plug c (Lf p n ys)) \<and> entries (plug c (Lf p n ys)) = xs \<and> length c = h \<and>
     path_ok key False False c \<and> mset ps = add_mset p (mset (bt_pins t)) + mset (somes q) \<and> bt_wf t"

lemma at_leafD:
  assumes "at_leaf t h xs key c p n ys ps q"
  shows "holds_tree t h (plug c (Lf p n ys))" "entries (plug c (Lf p n ys)) = xs" "length c = h"
    "path_ok key False False c" "mset ps = add_mset p (mset (bt_pins t)) + mset (somes q)" "bt_wf t"
    "get_leaf p (t\<lparr>bt_pins := ps, page_set := q\<rparr>) = Inr \<lparr>max_size = leaf_max_size t, parent_page_id = parent_of c,
       self_page_id = p, next_page_id = n, leaf_array = ys\<rparr>"
    "sorted_keys ys" "int (length ys) < leaf_max_size t" "map_of xs key = map_of ys key"
    "ordered None None (plug c (Lf p n ys))" "root_page_id t \<noteq> INVALID_PAGE_ID" "xs \<noteq> []"
proof -
  show h: "holds_tree t h (plug c (Lf p n ys))" and e: "entries (plug c (Lf p n ys)) = xs" and "length c = h"
    and k: "path_ok key False False c" and "mset ps = add_mset p (mset (bt_pins t)) + mset (somes q)" and wf: "bt_wf t"
    using assms by (simp_all add: at_leaf_def)
  show "get_leaf p (t\<lparr>bt_pins := ps, page_set := q\<rparr>) = Inr \<lparr>max_size = leaf_max_size t, parent_page_id = parent_of c,
       self_page_id = p, next_page_id = n, leaf_array = ys\<rparr>"
    using h by (intro get_leaf_hole [where im = "internal_max_size t"]) (simp add: holds_tree_def)
  show o: "ordered None None (plug c (Lf p n ys))" and "sorted_keys ys" and "int (length ys) < leaf_max_size t"
    using h by (auto simp: holds_tree_def ordered_plug sized_plug)
  show "map_of xs key = map_of ys key"
    using map_of_hole [OF o k] e by simp
  show "root_page_id t \<noteq> INVALID_PAGE_ID"
    by (rule holds_tree_root [OF h])
  have "ys \<noteq> []"
    using h wf by (auto simp: holds_tree_def sized_plug bt_wf_def split: if_splits)
  then show "xs \<noteq> []"
    using e by (auto simp: plug_entries)
qed

lemma descend:
  assumes "represents t h xs" "xs \<noteq> []" "h < fuel" "op \<noteq> SEARCH"
  obtains c p n ys ps q where
    "FindLeaf fuel key op False False (AddIntoPageSet None t) = Inr (p, t\<lparr>bt_pins := ps, page_set := q\<rparr>)"
    "at_leaf t h xs key c p n ys ps q"
proof -
  obtain T where T: "holds_tree t h T" "entries T = xs"
    using assms(1,2) by (auto simp: represents_def)
  have wf: "bt_wf t" using assms(1) by (simp add: represents_def)
  let ?t = "AddIntoPageSet None t"
  have "holds_tree ?t h T" "pinned (mset (bt_pins t)) ?t"
    using T(1) wf by (simp_all add: holds_tree_def AddIntoPageSet_def pinned_def bt_wf_def)
  from FindLeaf_spec [OF this(1) assms(3) _ this(2), of op False False key] assms(4) obtain c p n ys ps q where
    f: "FindLeaf fuel key op False False ?t = Inr (p, ?t\<lparr>bt_pins := ps, page_set := q\<rparr>)"
      "T = plug c (Lf p n ys)" "length c = h" "path_ok key False False c"
      "mset ps = add_mset p (mset (bt_pins t)) + mset (somes q)" by auto
  have u: "?t\<lparr>bt_pins := ps, page_set := q\<rparr> = t\<lparr>bt_pins := ps, page_set := q\<rparr>"
    by (simp add: AddIntoPageSet_def)
  have "at_leaf t h xs key c p n ys ps q"
    using T f wf by (simp add: at_leaf_def)
  then show ?thesis
    by (rule that [OF f(1) [unfolded u]])
qed

text \<open>\<open>leaf_of\<close> is the page of the leaf in a context.\<close>

definition leaf_of :: "('k, 'v) bplus_tree \<Rightarrow> ('k, 'v) frame list \<Rightarrow> page_id_t \<Rightarrow> page_id_t \<Rightarrow> ('k \<times> 'v) list \<Rightarrow> ('k, 'v) leaf_page" where
  "leaf_of t c p n ys = \<lparr>max_size = leaf_max_size t, parent_page_id = parent_of c, self_page_id = p, next_page_id = n, leaf_array = ys\<rparr>"

lemma leaf_of_simps [simp]:
  "leaf_array (leaf_of t c p n ys) = ys" "(leaf_of t c p n ys)\<lparr>leaf_array := zs\<rparr> = leaf_of t c p n zs"
  "max_size (leaf_of t c p n ys) = leaf_max_size t" "self_page_id (leaf_of t c p n ys) = p"
  "next_page_id (leaf_of t c p n ys) = n" "parent_page_id (leaf_of t c p n ys) = parent_of c"
  "(leaf_of t c p n ys)\<lparr>next_page_id := m\<rparr> = leaf_of t c p m ys"
  by (simp_all add: leaf_of_def)

lemma BPlusTree_Insert_unfold:
  assumes "root_page_id t \<noteq> INVALID_PAGE_ID"
  shows "BPlusTree_Insert fuel key v t = InsertIntoLeaf fuel key v (AddIntoPageSet None t)"
  using assms by (simp add: BPlusTree_Insert_def IsEmpty_def AddIntoPageSet_def)

lemma Insert_duplicate:
  assumes "represents t h xs" "h < fuel" "map_of xs key \<noteq> None"
  shows "\<exists>t'. BPlusTree_Insert fuel key v t = Inr (False, t') \<and> keeps 0 t t' h xs"
proof -
  have ne: "xs \<noteq> []" using assms(3) by auto
  obtain c p n ys ps q where f:
    "FindLeaf fuel key INSERT False False (AddIntoPageSet None t) = Inr (p, t\<lparr>bt_pins := ps, page_set := q\<rparr>)"
    and a: "at_leaf t h xs key c p n ys ps q"
    by (rule descend [OF assms(1) ne assms(2), of INSERT key]) auto
  note d = at_leafD [OF a]
  let ?u = "t\<lparr>bt_pins := ps, page_set := q\<rparr>"
  have ins: "Leaf_Insert key v (leaf_of t c p n ys) = (int (length ys), leaf_of t c p n ys)"
    using Leaf_Insert_sorted [of "leaf_of t c p n ys" key v] d(8,10) assms(3) by simp
  have "bt_pages t p = Some (LEAF_PAGE (leaf_of t c p n ys))"
    using d(1) by (simp add: holds_tree_def tree_at_plug leaf_at_def leaf_of_def)
  then have u: "put_page p (LEAF_PAGE (leaf_of t c p n ys)) ?u = ?u"
    by (cases t) (simp add: put_page_def fun_upd_idem)
  have "pinned (add_mset p (mset (bt_pins t))) ?u" "bt_frame t ?u"
    using d(5) by (simp_all add: pinned_def)
  from finish_leaf [OF this d(6)] obtain ps' where
    fin: "UnpinPage p (ReleaseLatchFromQueue ?u) = t\<lparr>bt_pins := ps', page_set := []\<rparr>"
    "mset ps' = mset (bt_pins t)" "bt_wf (t\<lparr>bt_pins := ps', page_set := []\<rparr>)" by auto
  have "BPlusTree_Insert fuel key v t = Inr (False, t\<lparr>bt_pins := ps', page_set := []\<rparr>)"
    by (simp add: BPlusTree_Insert_unfold [OF d(12)] InsertIntoLeaf_def f d(7) [folded leaf_of_def] ins u fin(1) Let_def)
  moreover have "holds_tree (t\<lparr>bt_pins := ps', page_set := []\<rparr>) h (plug c (Lf p n ys))"
    using d(1) by (simp add: holds_tree_def)
  ultimately show ?thesis
    using fin(2,3) d(2,13) by (auto simp: keeps_def represents_def)
qed

lemma Insert_room:
  assumes f: "FindLeaf fuel key INSERT False False (AddIntoPageSet None t) = Inr (p, t\<lparr>bt_pins := ps, page_set := q\<rparr>)"
    and a: "at_leaf t h xs key c p n (as @ bs) ps q" and ab: "\<forall>x \<in> set as. fst x < key" "\<forall>x \<in> set bs. key < fst x"
    and ins: "Leaf_Insert key v (leaf_of t c p n (as @ bs)) = (int (length (as @ bs)) + 1, leaf_of t c p n (as @ (key, v) # bs))"
    and room: "int (length (as @ bs)) + 1 < leaf_max_size t"
  shows "\<exists>t' xs'. BPlusTree_Insert fuel key v t = Inr (True, t') \<and> keeps 0 t t' h xs' \<and> map_of xs' = (map_of xs)(key \<mapsto> v)"
proof -
  note d = at_leafD [OF a]
  let ?zs = "as @ (key, v) # bs"
  let ?u = "put_page p (LEAF_PAGE (leaf_of t c p n ?zs)) (t\<lparr>bt_pins := ps, page_set := q\<rparr>)"
  have "pinned (add_mset p (mset (bt_pins t))) ?u" "bt_frame t ?u"
    using d(5) by (simp_all add: pinned_def put_page_def)
  from finish_leaf [OF this d(6)] obtain ps' where
    fin: "UnpinPage p (ReleaseLatchFromQueue ?u) = ?u\<lparr>bt_pins := ps', page_set := []\<rparr>"
    "mset ps' = mset (bt_pins t)" "bt_wf (?u\<lparr>bt_pins := ps', page_set := []\<rparr>)" by blast
  let ?t' = "?u\<lparr>bt_pins := ps', page_set := []\<rparr>"
  have "BPlusTree_Insert fuel key v t = Inr (True, ?t')"
    using room by (simp add: BPlusTree_Insert_unfold [OF d(12)] InsertIntoLeaf_def f d(7) [folded leaf_of_def] ins Let_def fin(1))
      (simp add: put_page_def)
  moreover have sz: "sized (leaf_max_size t) (internal_max_size t) (c = []) (Lf p n ?zs)"
    using d(1) room by (auto simp: holds_tree_def sized_plug split: if_splits)
  have "holds_tree ?t' h (plug c (Lf p n ?zs))"
    by (rule holds_tree_leaf [OF d(1,3) _ _ _ _ _ insert_in_hole(1) [OF d(11,4) ab] sz])
      (simp_all add: put_page_def leaf_of_def)
  then have "\<exists>T. holds_tree ?t' h T \<and> entries T = ctx_left entries c @ ?zs @ ctx_right entries c"
    by (metis plug_entries entries.simps(1))
  ultimately show ?thesis
    using fin(2,3) insert_in_hole(2) [OF d(11,4) ab, of v] d(2)
    by (intro exI [of _ ?t', OF exI [of _ "ctx_left entries c @ ?zs @ ctx_right entries c"]])
      (simp add: keeps_def represents_def put_page_def)
qed

text \<open>A full leaf is split in two.\<close>

lemma Split_leaf:
  fixes t :: "('k :: {linorder, zero}, 'v) bplus_tree"
  assumes "int (length zs) = leaf_max_size t" "2 \<le> leaf_max_size t" "0 < bt_avail t" "m = nat (leaf_max_size t div 2)"
  shows "Split (LEAF_PAGE (leaf_of t c p n zs)) t =
    Inr (LEAF_PAGE (leaf_of t c p n (take m zs)), bt_next t,
      put_page (bt_next t) (LEAF_PAGE (leaf_of t c (bt_next t) INVALID_PAGE_ID (drop m zs)))
        (pin_page (bt_next t) (t\<lparr>bt_next := bt_next t + 1, bt_avail := bt_avail t - 1\<rparr>)))"
proof -
  have "take (nat (leaf_max_size t) - m) (drop m zs) = drop m zs" "\<not> length zs < m + (nat (leaf_max_size t) - m)"
    using assms by auto
  then show ?thesis
    using assms(3)
    by (simp add: Split_def NewPage_def Leaf_MoveHalfTo_def Let_def assms(4) [symmetric] Leaf_CopyNFrom_def Leaf_Init_def
        leaf_of_def pin_page_def)
qed

text \<open>Both halves of an overfull leaf in the place of the leaf.\<close>

lemma leaf_halves:
  assumes "ordered lo hi (Lf p n zs)" "int (length zs) = lm" "2 \<le> lm" "m = nat (lm div 2)"
  shows "ord_forest lo hi [(k0, Lf p i (take m zs)), (fst (zs ! m), Lf i n (drop m zs))]"
    "sized lm im False (Lf p i (take m zs))" "sized lm im False (Lf i n (drop m zs))"
proof -
  have m: "0 < m" "m < length zs" using assms(2-4) by auto
  then have z: "zs = take m zs @ zs ! m # drop (Suc m) zs" "drop m zs = zs ! m # drop (Suc m) zs"
    by (simp_all add: id_take_nth_drop Cons_nth_drop_Suc)
  then have s: "sorted_keys (take m zs @ zs ! m # drop (Suc m) zs)"
    using assms(1) by simp
  have bnd: "\<forall>x \<in> set (take m zs @ zs ! m # drop (Suc m) zs). above lo (fst x) \<and> below hi (fst x)"
    using assms(1) z(1) by simp
  have "zs ! 0 \<in> set (take m zs)"
    using m by (metis in_set_conv_nth length_take min.absorb4 nth_take)
  then have "sabove lo (fst (zs ! m))"
    using s bnd bounds_trans(3) [of lo "fst (zs ! 0)" "fst (zs ! m)"] by auto
  then show "ord_forest lo hi [(k0, Lf p i (take m zs)), (fst (zs ! m), Lf i n (drop m zs))]"
    using s bnd unfolding z(2) by (auto intro: less_imp_le)
  show "sized lm im False (Lf p i (take m zs))" "sized lm im False (Lf i n (drop m zs))"
    using assms(2-4) by auto
qed

lemma linked_split:
  "linked (as @ (p, n) # bs) \<Longrightarrow> linked (as @ (p, i) # (i, n) # bs)"
proof (induction as rule: induct_list012)
  case 1
  then show ?case by (cases bs) auto
next
  case (2 x)
  then show ?case by (cases x; cases bs) auto
next
  case (3 x y zs)
  then show ?case by (cases x; cases y) auto
qed

lemma climbed_holds_tree:
  fixes t :: "('k :: {linorder, zero}, 'v) bplus_tree"
  assumes "climbed B m t (ins_up (internal_max_size t) (bt_next t) c t1 k t2) t'" "split_at t c t1 t2"
    "ctx_ord c" "ord_forest (ctx_lo c) (ctx_hi c) [(k0, t1), (k, t2)]"
    "ctx_sized (leaf_max_size t) (internal_max_size t) c" "3 \<le> internal_max_size t"
    "sized (leaf_max_size t) (internal_max_size t) False t1" "sized (leaf_max_size t) (internal_max_size t) False t2"
    "ctx_bal g c" "bal g t1" "bal g t2"
    "linked (ctx_left leaf_links c @ leaf_links t1 @ leaf_links t2 @ ctx_right leaf_links c)"
  shows "\<exists>h. holds_tree t' h (ins_up (internal_max_size t) (bt_next t) c t1 k t2) \<and> h \<le> g + length c + 1"
proof -
  let ?T = "ins_up (internal_max_size t) (bt_next t) c t1 k t2" and ?n = "bt_next t"
  obtain j where "mset (ids ?T) = mset (ids t1 @ ids t2 @ ctx_ids c @ [?n..?n + int j - 1])"
    using ins_up_ids [of c "internal_max_size t" ?n t1 k t2] by auto
  moreover have "distinct (ids t1 @ ids t2 @ ctx_ids c @ [?n..?n + int j - 1])"
    using assms(2) by (auto simp: split_at_def ball_Un)
  ultimately have "distinct (ids ?T)"
    by (metis mset_eq_imp_distinct_iff)
  moreover obtain h where "bal h ?T" "h \<le> g + length c + 1"
    using ins_up_bal [OF assms(9-11)] by blast
  moreover have "leaf_max_size t' = leaf_max_size t" "internal_max_size t' = internal_max_size t"
    using assms(1) by (simp_all add: climbed_def bt_frame_def)
  ultimately show ?thesis
    using assms(1,12) ins_up_ordered [OF assms(3,4,6,5)] ins_up_sized [OF assms(5,7,8,6)]
    by (intro exI [of _ h]) (simp add: holds_tree_def climbed_def ins_up_links)
qed

lemma Insert_split:
  fixes t :: "('k :: {linorder, zero}, 'v) bplus_tree"
  assumes f: "FindLeaf fuel key INSERT False False (AddIntoPageSet None t) = Inr (p, t\<lparr>bt_pins := ps, page_set := q\<rparr>)"
    and a: "at_leaf t h xs key c p n (as @ bs) ps q" and ab: "\<forall>x \<in> set as. fst x < key" "\<forall>x \<in> set bs. key < fst x"
    and ins: "Leaf_Insert key v (leaf_of t c p n (as @ bs)) = (int (length (as @ bs)) + 1, leaf_of t c p n (as @ (key, v) # bs))"
    and full: "int (length (as @ bs)) + 1 = leaf_max_size t" and fuel: "h < fuel" and avail: "h + 1 < bt_avail t"
  shows "\<exists>t' h' xs'. BPlusTree_Insert fuel key v t = Inr (True, t') \<and> keeps (h + 2) t t' h' xs' \<and> h' \<le> h + 1 \<and>
    map_of xs' = (map_of xs)(key \<mapsto> v)"
proof -
  note d = at_leafD [OF a]
  let ?N = "bt_next t" and ?lm = "leaf_max_size t" and ?im = "internal_max_size t"
  define zs where "zs = as @ (key, v) # bs"
  define m where "m = nat (?lm div 2)"
  have wf: "2 \<le> ?lm" "3 \<le> ?im" "good_name (index_name t)" "header_ok t" "?N + int (bt_avail t) \<le> 2 ^ 31"
    using d(6) by (auto simp: bt_wf_def header_ok_def)
  have len: "int (length zs) = ?lm" using full by (simp add: zs_def)
  have m: "m < length zs" using len wf(1) by (auto simp: m_def)
  let ?t1 = "Lf p ?N (take m zs)" and ?t2 = "Lf ?N n (drop m zs)"
  let ?u = "put_page p (LEAF_PAGE (leaf_of t c p n zs)) (t\<lparr>bt_pins := ps, page_set := q\<rparr>)"
  define w where "w = t\<lparr>bt_pins := ?N # ps, page_set := q, bt_next := ?N + 1, bt_avail := bt_avail t - 1,
    bt_pages := (bt_pages t)(?N \<mapsto> LEAF_PAGE (leaf_of t c ?N n (drop m zs)), p \<mapsto> LEAF_PAGE (leaf_of t c p ?N (take m zs)))\<rparr>"
  have T: "ctx_at (bt_pages t) ?lm ?im c p" "distinct (p # ctx_ids c)" "\<forall>r \<in> set (p # ctx_ids c). 0 < r \<and> r < ?N"
    using d(1) distinct_plug [of c "Lf p n (as @ bs)"]
    by (simp_all add: holds_tree_def tree_at_plug set_plug_ids ball_Un)
  then have N: "?N \<notin> set (p # ctx_ids c)" "0 < ?N" by auto
  have sp: "split_at w c ?t1 ?t2"
    using T N by (auto simp: split_at_def w_def leaf_at_def leaf_of_def ctx_at_upd_other intro: less_imp_le)
  have w: "leaf_max_size w = ?lm" "internal_max_size w = ?im" "index_name w = index_name t" "bt_next w = ?N + 1"
    "bt_avail w = bt_avail t - 1" "root_page_id w = root_page_id t" "header_ok w"
    using wf(4) by (simp_all add: w_def)
  have fw: "bt_frame t w"
    using wf(4) avail by (simp add: bt_frame_def w of_nat_diff) (simp add: w_def)
  have pin: "pinned (add_mset ?N (add_mset p (mset (bt_pins t)))) w"
    using d(5) by (simp add: pinned_def w_def)
  have ctx: "ctx_ord c" "ctx_sized ?lm ?im c" "ctx_bal 0 c" "ordered (ctx_lo c) (ctx_hi c) (Lf p n zs)"
    "linked (ctx_left leaf_links c @ (p, n) # ctx_right leaf_links c)"
    using d(1,3) insert_in_hole(1) [OF d(11,4) ab, of v] bal_plug [of 0 c "Lf p n (as @ bs)"]
    by (simp_all add: holds_tree_def ordered_plug sized_plug plug_links zs_def)
  have root: "c \<noteq> [] \<longrightarrow> root_page_id w = root_id (plug c ?t1)"
    using d(1) unfolding w by (cases c rule: rev_cases) (auto simp: holds_tree_def plug_append split: prod.splits)
  have "length c < fuel" "length c < bt_avail w" "ctx_sized (leaf_max_size w) (internal_max_size w) c"
    "3 \<le> internal_max_size w" "good_name (index_name w)" "bt_next w + int (bt_avail w) \<le> 2 ^ 31"
    unfolding w using fuel avail wf ctx(2) d(3) by auto
  from InsertIntoParent_spec [OF sp this(1-5) w(7) this(6) pin root, of "fst (zs ! m)"] obtain t' where
    t': "InsertIntoParent fuel p (fst (zs ! m)) ?N w = Inr t'"
    "climbed (add_mset ?N (add_mset p (mset (bt_pins t)))) (length c + 1) w
      (ins_up (internal_max_size w) (bt_next w) c ?t1 (fst (zs ! m)) ?t2) t'" by auto
  let ?T = "ins_up (internal_max_size w) (bt_next w) c ?t1 (fst (zs ! m)) ?t2"
  note hv = leaf_halves [OF ctx(4) len wf(1) m_def, where i = ?N]
  have "ctx_sized (leaf_max_size w) (internal_max_size w) c" "3 \<le> internal_max_size w"
    "sized (leaf_max_size w) (internal_max_size w) False ?t1" "sized (leaf_max_size w) (internal_max_size w) False ?t2"
    unfolding w(1,2) using ctx(2) wf(2) hv(2,3) by blast+
  moreover have "bal 0 ?t1" "bal 0 ?t2" by simp_all
  moreover have "linked (ctx_left leaf_links c @ leaf_links ?t1 @ leaf_links ?t2 @ ctx_right leaf_links c)"
    using linked_split [OF ctx(5), of ?N] by simp
  ultimately obtain h' where h': "holds_tree t' h' ?T" "h' \<le> h + 1"
    using climbed_holds_tree [OF t'(2) sp ctx(1) hv(1) _ _ _ _ ctx(3)] d(3) by auto
  let ?t' = "UnpinPage ?N (UnpinPage p t')"
  have ent: "entries ?T = ctx_left entries c @ zs @ ctx_right entries c"
    by (simp add: ins_up_entries)
  have "bt_wf ?t'"
    using t'(2) bt_frame_trans [OF fw] by (intro bt_wf_frame [OF d(6)]) (simp_all add: climbed_def UnpinPage_def)
  moreover have "holds_tree ?t' h' ?T"
    using h'(1) by (simp add: holds_tree_def UnpinPage_def)
  moreover have "zs \<noteq> []" by (simp add: zs_def)
  then have "entries ?T \<noteq> []"
    unfolding ent by simp
  ultimately have "represents ?t' h' (entries ?T)"
    by (auto simp only: represents_def if_False)
  moreover have "bt_avail t - 1 \<le> bt_avail ?t' + (h + 1)"
    using t'(2) d(3) unfolding climbed_def w(5) by (simp add: UnpinPage_def)
  then have "bt_avail t \<le> bt_avail ?t' + (h + 2)"
    by linarith
  moreover have "mset (bt_pins ?t') = mset (bt_pins t)"
    using t'(2) by (simp add: climbed_def)
  ultimately have "keeps (h + 2) t ?t' h' (entries ?T)"
    by (simp only: keeps_def)
  moreover have "BPlusTree_Insert fuel key v t = Inr (True, ?t')"
  proof -
    have "Split (LEAF_PAGE (leaf_of t c p n zs)) ?u = Inr (LEAF_PAGE (leaf_of t c p n (take m zs)), ?N,
      put_page ?N (LEAF_PAGE (leaf_of t c ?N INVALID_PAGE_ID (drop m zs)))
        (pin_page ?N (?u\<lparr>bt_next := ?N + 1, bt_avail := bt_avail t - 1\<rparr>)))"
      using Split_leaf [of zs ?u m c p n] len wf(1) avail by (simp add: m_def put_page_def leaf_of_def)
    moreover have "Leaf_KeyAt 0 (leaf_of t c ?N INVALID_PAGE_ID (drop m zs)) = Inr (fst (zs ! m))"
      using m by (simp add: Leaf_KeyAt_def Leaf_GetItem_def)
    moreover have "put_page p (LEAF_PAGE (leaf_of t c p ?N (take m zs))) (put_page ?N (LEAF_PAGE (leaf_of t c ?N n (drop m zs)))
      (put_page ?N (LEAF_PAGE (leaf_of t c ?N INVALID_PAGE_ID (drop m zs)))
        (pin_page ?N (?u\<lparr>bt_next := ?N + 1, bt_avail := bt_avail t - 1\<rparr>)))) = w"
      using N(1) by (auto simp: put_page_def pin_page_def w_def fun_upd_twist)
    ultimately show ?thesis
      using full t'(1)
      by (simp add: BPlusTree_Insert_unfold [OF d(12)] InsertIntoLeaf_def f d(7) [folded leaf_of_def] ins zs_def [symmetric] Let_def)
        (simp add: put_page_def get_leaf_def get_page_def pin_page_def)
  qed
  ultimately show ?thesis
    using h'(2) insert_in_hole(2) [OF d(11,4) ab, of v, folded zs_def] unfolding ent d(2) by blast
qed

lemma BPlusTree_Insert_spec:
  fixes t :: "('k :: {linorder, zero}, 'v) bplus_tree"
  assumes "represents t h xs" "h < fuel" "h + 1 < bt_avail t"
  shows "\<exists>t' h' xs'. BPlusTree_Insert fuel key v t = Inr (map_of xs key = None, t') \<and> keeps (h + 2) t t' h' xs' \<and>
    h' \<le> h + 1 \<and> map_of xs' = (if map_of xs key = None then (map_of xs)(key \<mapsto> v) else map_of xs)"
proof (cases "map_of xs key = None")
  case False
  then show ?thesis
    using Insert_duplicate [OF assms(1,2) False, of v] by (fastforce simp: keeps_def)
next
  case new: True
  show ?thesis
  proof (cases "xs = []")
    case True
    then obtain t' where "BPlusTree_Insert fuel key v t = Inr (True, t')" "keeps 1 t t' 0 [(key, v)]"
      using StartNewTree_spec [of t h fuel key v] assms(1,3) by auto
    then show ?thesis
      using True by (intro exI [of _ t', OF exI [of _ 0, OF exI [of _ "[(key, v)]"]]]) (auto simp: keeps_def)
  next
    case False
    obtain c p n ys ps q where f:
      "FindLeaf fuel key INSERT False False (AddIntoPageSet None t) = Inr (p, t\<lparr>bt_pins := ps, page_set := q\<rparr>)"
      and a: "at_leaf t h xs key c p n ys ps q"
      by (rule descend [OF assms(1) False assms(2), of INSERT key]) auto
    note d = at_leafD [OF a]
    have "map_of ys key = None" using d(10) new by simp
    then obtain as bs where ab: "ys = as @ bs" "\<forall>x \<in> set as. fst x < key" "\<forall>x \<in> set bs. key < fst x"
      "Leaf_Insert key v (leaf_of t c p n ys) = (int (length ys) + 1, leaf_of t c p n (as @ (key, v) # bs))"
      using Leaf_Insert_sorted [of "leaf_of t c p n ys" key v] d(8) by auto
    show ?thesis
    proof (cases "int (length ys) + 1 < leaf_max_size t")
      case True
      then obtain t' xs' where "BPlusTree_Insert fuel key v t = Inr (True, t')" "keeps 0 t t' h xs'"
        "map_of xs' = (map_of xs)(key \<mapsto> v)"
        using Insert_room [OF f a [unfolded ab(1)] ab(2,3) ab(4) [unfolded ab(1)]] ab(1) by auto
      then show ?thesis
        using new by (intro exI [of _ t', OF exI [of _ h, OF exI [of _ xs']]]) (auto simp: keeps_def)
    next
      case False
      then have "int (length (as @ bs)) + 1 = leaf_max_size t"
        using d(9) ab(1) by simp
      then show ?thesis
        using Insert_split [OF f a [unfolded ab(1)] ab(2,3) ab(4) [unfolded ab(1)] _ assms(2,3)] new by auto
    qed
  qed
qed

end
