(* ===== verification/BPlusTreeRemove.thy ===== *)
theory BPlusTreeRemove
  imports BPlusTreeInsert
begin

text \<open>
  Deletion.  \<open>del_up\<close> says on trees what \<^verbatim>\<open>CoalesceOrRedistribute\<close> does to the
  pages while it climbs: a node that has become too small takes an entry from a neighbour that
  can spare one, or is merged with a neighbour, in which case the parent may be too small in
  turn.  The result lists the pages that leave the tree.
\<close>

section \<open>Two neighbours\<close>

fun node_size :: "('k, 'v) btree \<Rightarrow> int" where
  "node_size (Lf p n xs) = int (length xs)"
| "node_size (Nd p cs) = int (length cs)"

fun min_size :: "int \<Rightarrow> int \<Rightarrow> ('k, 'v) btree \<Rightarrow> int" where
  "min_size lm im (Lf p n xs) = lm div 2"
| "min_size lm im (Nd p cs) = (im + 1) div 2"

fun set_key :: "'k \<Rightarrow> ('k \<times> 'c) list \<Rightarrow> ('k \<times> 'c) list" where
  "set_key k [] = []"
| "set_key k (c # cs) = (k, snd c) # cs"

lemma set_key_simps [simp]:
  "length (set_key k cs) = length cs" "forest f (set_key k cs) = forest f cs" "set_key k cs = [] \<longleftrightarrow> cs = []"
  "(\<forall>c \<in> set (set_key k cs). P (snd c)) \<longleftrightarrow> (\<forall>c \<in> set cs. P (snd c))"
  by (cases cs; simp)+

fun shift_right :: "('k, 'v) btree \<Rightarrow> 'k \<Rightarrow> ('k, 'v) btree \<Rightarrow> ('k, 'v) btree \<times> 'k \<times> ('k, 'v) btree" where
  "shift_right (Lf a na xs) k (Lf b nb ys) = (Lf a na (butlast xs), fst (last xs), Lf b nb (last xs # ys))"
| "shift_right (Nd a xs) k (Nd b ys) = (Nd a (butlast xs), fst (last xs), Nd b (last xs # set_key k ys))"
| "shift_right l k r = (l, k, r)"

fun shift_left :: "('k, 'v) btree \<Rightarrow> 'k \<Rightarrow> ('k, 'v) btree \<Rightarrow> ('k, 'v) btree \<times> 'k \<times> ('k, 'v) btree" where
  "shift_left (Lf a na xs) k (Lf b nb ys) = (Lf a na (xs @ [hd ys]), fst (hd (tl ys)), Lf b nb (tl ys))"
| "shift_left (Nd a xs) k (Nd b ys) = (Nd a (xs @ [(k, snd (hd ys))]), fst (hd (tl ys)), Nd b (tl ys))"
| "shift_left l k r = (l, k, r)"

fun join :: "('k, 'v) btree \<Rightarrow> 'k \<Rightarrow> ('k, 'v) btree \<Rightarrow> ('k, 'v) btree" where
  "join (Lf a na xs) k (Lf b nb ys) = Lf a nb (xs @ ys)"
| "join (Nd a xs) k (Nd b ys) = Nd a (xs @ set_key k ys)"
| "join l k r = l"

text \<open>A node that may lack one entry.\<close>

fun thin :: "int \<Rightarrow> int \<Rightarrow> bool \<Rightarrow> ('k, 'v) btree \<Rightarrow> bool" where
  "thin lm im is_root (Lf p n xs) \<longleftrightarrow>
     int (length xs) < lm \<and> (is_root \<or> lm div 2 - 1 \<le> int (length xs))"
| "thin lm im is_root (Nd p cs) \<longleftrightarrow>
     int (length cs) \<le> im \<and> (if is_root then cs \<noteq> [] else (im + 1) div 2 - 1 \<le> int (length cs)) \<and>
     (\<forall>c \<in> set cs. sized lm im False (snd c))"

lemma bal_pair:
  assumes "bal g l" "bal g r"
  obtains (leaves) a na xs b nb ys where "l = Lf a na xs" "r = Lf b nb ys" "g = 0"
    | (nodes) a xs b ys where "l = Nd a xs" "r = Nd b ys" "g \<noteq> 0"
  using assms by (cases l; cases r) auto

lemma ord_pair:
  "ord_forest lo hi [(k0, l), (k, r)] \<longleftrightarrow> sabove lo k \<and> below hi k \<and> ordered lo (Some k) l \<and> ordered (Some k) hi r"
  by simp

lemma ord_forest_set_key:
  "xs \<noteq> [] \<Longrightarrow> ys \<noteq> [] \<Longrightarrow> ord_forest lo hi (xs @ set_key k ys) \<longleftrightarrow>
     ord_forest lo (Some k) xs \<and> ord_forest (Some k) hi ys \<and> sabove lo k \<and> below hi k"
proof -
  assume a: "xs \<noteq> []" "ys \<noteq> []"
  obtain k0 d zs where ys: "ys = (k0, d) # zs" using a(2) by (cases ys) auto
  have "ord_forest (Some k) hi ((k0, d) # zs) = ord_forest (Some k) hi ((k, d) # zs)"
    by (cases zs) auto
  then show ?thesis
    using ord_forest_split [OF a(1), of lo hi k d zs] by (simp add: ys)
qed

lemma join_ordered:
  assumes "ord_forest lo hi [(k0, l), (k, r)]" "bal g l" "bal g r"
  shows "ordered lo hi (join l k r)"
  using assms(2,3)
proof (cases rule: bal_pair)
  case (leaves a na xs b nb ys)
  have "fst x < fst y" if "x \<in> set xs" "y \<in> set ys" for x y
    using assms(1) that leaves by fastforce
  moreover have "above lo (fst x) \<and> below hi (fst x)" if "x \<in> set xs" for x
    using assms(1) that leaves bounds_trans(4) [of hi k "fst x"] by fastforce
  moreover have "above lo (fst y) \<and> below hi (fst y)" if "y \<in> set ys" for y
    using assms(1) that leaves bounds_trans(2) [of lo k "fst y"] bounds_trans(5) [of lo k] by fastforce
  ultimately show ?thesis
    using assms(1) leaves by auto
next
  case (nodes a xs b ys)
  then show ?thesis
    using assms(1) ord_forest_set_key [of xs ys lo hi k] by (cases "xs = []"; cases "ys = []") auto
qed

lemma join_simps:
  assumes "bal g l" "bal g r"
  shows "entries (join l k r) = entries l @ entries r" "root_id (join l k r) = root_id l" "bal g (join l k r)"
    "mset (ids (join l k r)) + {#root_id r#} = mset (ids l) + mset (ids r)"
    "linked (as @ leaf_links l @ leaf_links r @ bs) \<Longrightarrow> linked (as @ leaf_links (join l k r) @ bs)"
    "node_size (join l k r) = node_size l + node_size r"
proof -
  have lk: "linked (as @ (a, b) # (b, n) # bs) \<Longrightarrow> linked (as @ (a, n) # bs)" for as bs :: "(page_id_t \<times> page_id_t) list" and a b n
  proof (induction as rule: induct_list012)
    case 1
    then show ?case by (cases bs) auto
  next
    case (2 x)
    then show ?case by (cases x; cases bs) auto
  next
    case (3 x y zs)
    then show ?case by (cases x; cases y) auto
  qed
  have lk2: "linked (as @ (a, m) # (b, n) # bs) \<Longrightarrow> m = b" for as bs :: "(page_id_t \<times> page_id_t) list" and a m b n
    using linked_append [of as "(a, m) # (b, n) # bs"] by simp
  show "entries (join l k r) = entries l @ entries r"
    using assms by (cases rule: bal_pair) simp_all
  show "root_id (join l k r) = root_id l"
    using assms by (cases rule: bal_pair) simp_all
  show "bal g (join l k r)"
    by (rule bal_pair [OF assms]) (use assms in \<open>simp_all add: ball_Un\<close>)
  show "mset (ids (join l k r)) + {#root_id r#} = mset (ids l) + mset (ids r)"
    using assms by (cases rule: bal_pair) simp_all
  show "node_size (join l k r) = node_size l + node_size r"
    using assms by (cases rule: bal_pair) simp_all
  show "linked (as @ leaf_links (join l k r) @ bs)" if "linked (as @ leaf_links l @ leaf_links r @ bs)"
    using assms
  proof (cases rule: bal_pair)
    case (leaves a na xs b nb ys)
    then have L: "linked (as @ (a, na) # (b, nb) # bs)" using that by simp
    then have "na = b" by (rule lk2)
    then show ?thesis using lk [of as a b nb bs] L leaves by simp
  next
    case (nodes a xs b ys)
    then show ?thesis using that by simp
  qed
qed

lemma join_sized:
  assumes "bal g l" "bal g r" "sized lm im False l \<and> thin lm im False r \<or> thin lm im False l \<and> sized lm im False r"
    "node_size l + node_size r < 2 * min_size lm im l" "2 \<le> lm" "3 \<le> im"
  shows "sized lm im False (join l k r)"
  using assms(1,2)
proof (cases rule: bal_pair)
  case (leaves a na xs b nb ys)
  then show ?thesis using assms(3-6) by auto
next
  case (nodes a xs b ys)
  have "\<forall>c \<in> set xs. sized lm im False (snd c)" "\<forall>c \<in> set ys. sized lm im False (snd c)"
    using assms(3) nodes by auto
  moreover have "(im + 1) div 2 \<le> int (length xs + length ys)" "int (length xs + length ys) \<le> im"
    using assms(3,4,6) nodes by auto
  ultimately show ?thesis
    using nodes by (simp add: ball_Un)
qed

lemma min_size_ge: "2 \<le> lm \<Longrightarrow> 3 \<le> im \<Longrightarrow> 1 \<le> min_size lm im t"
  by (cases t) auto

text \<open>What a shift between neighbours keeps and establishes.\<close>

definition shifted :: "int \<Rightarrow> int \<Rightarrow> 'k :: linorder option \<Rightarrow> 'k option \<Rightarrow> nat \<Rightarrow> ('k, 'v) btree \<Rightarrow> ('k, 'v) btree \<Rightarrow>
    ('k, 'v) btree \<times> 'k \<times> ('k, 'v) btree \<Rightarrow> bool" where
  "shifted lm im lo hi g l r = (\<lambda>(l', k', r').
     (\<forall>k0. ord_forest lo hi [(k0, l'), (k', r')]) \<and> sized lm im False l' \<and> sized lm im False r' \<and>
     bal g l' \<and> bal g r' \<and> entries l' @ entries r' = entries l @ entries r \<and>
     leaf_links l' @ leaf_links r' = leaf_links l @ leaf_links r \<and>
     mset (ids l') + mset (ids r') = mset (ids l) + mset (ids r) \<and> root_id l' = root_id l \<and> root_id r' = root_id r)"

lemma shift_right_ok:
  assumes "ord_forest lo hi [(k0, l), (k, r)]" "bal g l" "bal g r" "sized lm im False l" "min_size lm im l < node_size l"
    "thin lm im False r" "node_size r < min_size lm im r" "2 \<le> lm" "3 \<le> im"
  shows "shifted lm im lo hi g l r (shift_right l k r)"
  using assms(2,3)
proof (cases rule: bal_pair)
  case (leaves a na xs b nb ys)
  then obtain us x where xs: "xs = us @ [x]"
    using assms(5,8) by (cases xs rule: rev_cases) auto
  have "us \<noteq> []" using assms(5,8) leaves xs by auto
  then obtain u us' where us: "us = u # us'" by (cases us) auto
  have o: "sorted_keys (us @ [x])" "\<forall>z \<in> set (us @ [x]). above lo (fst z) \<and> fst z < k" "sabove lo k" "below hi k"
    "sorted_keys ys" "\<forall>z \<in> set ys. k \<le> fst z \<and> below hi (fst z)"
    using assms(1) leaves xs by auto
  then have "sabove lo (fst x)" "below hi (fst x)"
    using bounds_trans(3) [of lo "fst u" "fst x"] bounds_trans(4) [of hi k "fst x"] us by auto
  moreover have "\<forall>z \<in> set ys. fst x < fst z" using o by fastforce
  moreover have "\<forall>z \<in> set ys. fst x \<le> fst z" using o by fastforce
  ultimately show ?thesis
    using o assms(4-8) leaves xs by (auto simp: shifted_def)
next
  case (nodes a xs b ys)
  then obtain us kx tx where xs: "xs = us @ [(kx, tx)]"
    using assms(5,9) by (cases xs rule: rev_cases) auto
  have us: "us \<noteq> []" using assms(5,9) nodes xs by auto
  have ys: "ys \<noteq> []" and r: "ord_forest (Some k) hi ys" "below hi k"
    using assms(1) nodes by auto
  have l: "ord_forest lo (Some kx) us" "ordered (Some kx) (Some k) tx" "sabove lo kx" "kx < k"
    using assms(1) nodes xs ord_forest_split [OF us, of lo "Some k" kx tx "[]"] by auto
  have "ord_forest (Some kx) hi ((kx, tx) # set_key k ys)"
    using ord_forest_set_key [of "[(kx, tx)]" ys "Some kx" hi k] ys r l by simp
  moreover have "below hi kx"
    using bounds_trans(4) [OF r(2), of kx] l(4) by simp
  moreover have "\<forall>c \<in> set us. sized lm im False (snd c)" "sized lm im False tx" "\<forall>c \<in> set ys. sized lm im False (snd c)"
    "\<forall>c \<in> set us. bal (g - 1) (snd c)" "bal (g - 1) tx" "\<forall>c \<in> set ys. bal (g - 1) (snd c)"
    using assms(2-4,6) nodes xs by auto
  ultimately show ?thesis
    using l nodes xs assms(4-7,9) by (auto simp: shifted_def)
qed

lemma shift_left_ok:
  assumes "ord_forest lo hi [(k0, l), (k, r)]" "bal g l" "bal g r" "sized lm im False r" "min_size lm im r < node_size r"
    "thin lm im False l" "node_size l < min_size lm im l" "2 \<le> lm" "3 \<le> im"
  shows "shifted lm im lo hi g l r (shift_left l k r)"
  using assms(2,3)
proof (cases rule: bal_pair)
  case (leaves a na xs b nb ys)
  then obtain y z zs where ys: "ys = y # z # zs"
    using assms(5,8) by (cases ys rule: remdups_adj.cases) auto
  have o: "sorted_keys xs" "\<forall>z \<in> set xs. above lo (fst z) \<and> fst z < k" "sabove lo k" "below hi k"
    "sorted_keys ys" "\<forall>z \<in> set ys. k \<le> fst z \<and> below hi (fst z)"
    using assms(1) leaves by auto
  then have "sabove lo (fst z)" "above lo (fst y)"
    using bounds_trans(1) [of lo k] bounds_trans(5) [of lo] ys by auto
  moreover have "\<forall>x \<in> set xs. fst x < fst y" "\<forall>x \<in> set xs. fst x < fst z"
    using o ys by fastforce+
  ultimately show ?thesis
    using o assms(4-8) leaves ys by (auto simp: shifted_def less_imp_le)
next
  case (nodes a xs b ys)
  then obtain ky ty k2 t2 zs where ys: "ys = (ky, ty) # (k2, t2) # zs"
    using assms(5,9) by (cases ys rule: remdups_adj.cases) auto
  have xs: "xs \<noteq> []" and l: "ord_forest lo (Some k) xs" "sabove lo k" "below hi k"
    using assms(1) nodes by auto
  have r: "k < k2" "below hi k2" "ordered (Some k) (Some k2) ty" "ord_forest (Some k2) hi ((k2, t2) # zs)"
    using assms(1) nodes ys by auto
  have "ord_forest lo (Some k2) (xs @ [(k, ty)])"
    using ord_forest_split [OF xs, of lo "Some k2" k ty "[]"] l r by simp
  moreover have "sabove lo k2"
    using bounds_trans(1) [OF l(2), of k2] r(1) by simp
  moreover have "\<forall>c \<in> set xs. sized lm im False (snd c)" "sized lm im False ty" "\<forall>c \<in> set ((k2, t2) # zs). sized lm im False (snd c)"
    "\<forall>c \<in> set xs. bal (g - 1) (snd c)" "bal (g - 1) ty" "\<forall>c \<in> set ((k2, t2) # zs). bal (g - 1) (snd c)"
    using assms(2-4,6) nodes ys by auto
  ultimately show ?thesis
    using r nodes ys assms(4-7,9) by (auto simp: shifted_def)
qed

section \<open>Climbing on trees\<close>

fun del_root :: "('k, 'v) btree \<Rightarrow> ('k, 'v) btree option \<times> bool \<times> page_id_t list" where
  "del_root (Lf p n xs) = (if xs = [] then (None, True, []) else (Some (Lf p n xs), False, []))"
| "del_root (Nd p cs) = (if length cs = 1 then (Some (snd (hd cs)), True, []) else (Some (Nd p cs), False, []))"

fun del_up :: "int \<Rightarrow> int \<Rightarrow> ('k, 'v) frame list \<Rightarrow> ('k, 'v) btree \<Rightarrow> ('k, 'v) btree option \<times> bool \<times> page_id_t list" where
  "del_up lm im [] s = del_root s"
| "del_up lm im ((p, ls, k, rs) # c) s =
     (if node_size s \<ge> min_size lm im s then (Some (plug ((p, ls, k, rs) # c) s), False, [])
      else if ls \<noteq> [] then
        let (kl, l) = last ls
        in if node_size l > min_size lm im l then
             let (l', k', s') = shift_right l k s
             in (Some (plug c (Nd p (butlast ls @ [(kl, l'), (k', s')] @ rs))), False, [])
           else
             let (T, d, del) = del_up lm im c (Nd p (butlast ls @ (kl, join l k s) # rs))
             in (T, True, if d then p # del else del)
      else
        case rs of
          [] \<Rightarrow> (Some (plug ((p, ls, k, rs) # c) s), False, [])
        | (kr, r) # rs' \<Rightarrow>
            if node_size r > min_size lm im r then
              let (s', k', r') = shift_left s kr r
              in (Some (plug c (Nd p ([(k, s'), (k', r')] @ rs'))), False, [])
            else
              let (T, d, del) = del_up lm im c (Nd p ((k, join s kr r) # rs'))
              in (T, False, root_id r # (if d then p # del else del)))"

text \<open>What the climb keeps: the bindings, the invariants, and every page is in the tree or in the list.\<close>

definition tree_ok :: "int \<Rightarrow> int \<Rightarrow> nat \<Rightarrow> ('k :: linorder \<times> 'v) list \<Rightarrow> ('k, 'v) btree option \<Rightarrow> bool" where
  "tree_ok lm im h xs T \<longleftrightarrow> (case T of None \<Rightarrow> xs = []
     | Some T \<Rightarrow> xs \<noteq> [] \<and> entries T = xs \<and> ordered None None T \<and> sized lm im True T \<and>
         (\<exists>h' \<le> h. bal h' T) \<and> linked (leaf_links T))"

definition opt_ids :: "('k, 'v) btree option \<Rightarrow> page_id_t list" where
  "opt_ids T = (case T of None \<Rightarrow> [] | Some T \<Rightarrow> ids T)"

definition rebuilt :: "int \<Rightarrow> int \<Rightarrow> nat \<Rightarrow> ('k :: linorder, 'v) frame list \<Rightarrow> ('k, 'v) btree \<Rightarrow>
    ('k, 'v) btree option \<times> bool \<times> page_id_t list \<Rightarrow> bool" where
  "rebuilt lm im g c s = (\<lambda>(T, d, del).
     tree_ok lm im (g + length c) (ctx_left entries c @ entries s @ ctx_right entries c) T \<and>
     mset (opt_ids T) + mset del + (if d then {#root_id s#} else {#}) = mset (ids s) + mset (ctx_ids c))"

lemma sized_root: "sized lm im False t \<Longrightarrow> 2 \<le> lm \<Longrightarrow> 3 \<le> im \<Longrightarrow> sized lm im True t"
  by (cases t) auto

lemma sized_entries: "sized lm im r t \<Longrightarrow> bal g t \<Longrightarrow> 2 \<le> lm \<Longrightarrow> 3 \<le> im \<Longrightarrow> entries t \<noteq> []"
proof (induction t arbitrary: r g)
  case (Nd p cs)
  then obtain c cs' where cs: "cs = c # cs'" by (cases cs) (auto split: if_splits)
  have "entries (snd c) \<noteq> []"
    using Nd.IH [of c "snd c" False "g - 1"] Nd.prems cs by (cases c) auto
  then show ?case using cs by simp
qed (auto split: if_splits)

lemma rebuilt_plug:
  assumes "ctx_ord c" "ordered (ctx_lo c) (ctx_hi c) s" "ctx_sized lm im c" "sized lm im (c = []) s" "ctx_bal g c" "bal g s"
    "linked (ctx_left leaf_links c @ leaf_links s @ ctx_right leaf_links c)" "2 \<le> lm" "3 \<le> im"
  shows "rebuilt lm im g c s (Some (plug c s), False, [])"
proof -
  have "sized lm im True (plug c s)" "bal (g + length c) (plug c s)"
    using assms by (simp_all add: sized_plug bal_plug)
  then show ?thesis
    using assms sized_entries [of lm im True "plug c s" "g + length c"]
    by (auto simp: rebuilt_def tree_ok_def opt_ids_def plug_entries plug_links plug_ids ordered_plug)
qed

lemma rebuilt_root:
  assumes "ordered None None s" "thin lm im True s" "bal g s" "linked (leaf_links s)" "2 \<le> lm" "3 \<le> im"
  shows "rebuilt lm im g [] s (del_root s)"
proof (cases s)
  case (Lf p n xs)
  then show ?thesis
    using assms by (auto simp: rebuilt_def tree_ok_def opt_ids_def)
next
  case (Nd p cs)
  show ?thesis
  proof (cases "length cs = 1")
    case True
    then obtain k d where cs: "cs = [(k, d)]" by (cases cs) auto
    have "sized lm im False d" using assms(2) by (simp add: Nd cs)
    then have "sized lm im True d" using assms(5,6) by (rule sized_root)
    moreover have "bal (g - 1) d" using assms(3) by (simp add: Nd cs)
    ultimately show ?thesis
      using assms(1,4-6) sized_entries [of lm im True d "g - 1"] Nd cs
      by (auto simp: rebuilt_def tree_ok_def opt_ids_def intro: exI [of _ "g - 1"])
  next
    case False
    then have "2 \<le> length cs"
      using assms(2) Nd by (cases cs rule: remdups_adj.cases) auto
    then have "sized lm im True s"
      using assms(2) Nd by simp
    then show ?thesis
      using assms sized_entries [of lm im True s g] Nd False
      by (auto simp: rebuilt_def tree_ok_def opt_ids_def)
  qed
qed

text \<open>One level: the neighbours in their node.\<close>

lemma rebuilt_shift:
  assumes "shifted lm im (lo_of (ctx_lo c) ls k0) (hi_of (ctx_hi c) rs) g l r (l', k', r')"
    "ctx_ord c" "ord_frame (ctx_lo c) (ctx_hi c) ls k0 rs" "ctx_sized lm im c" "ctx_bal (Suc g) c"
    "sized lm im (c = []) (Nd p (ls @ [(k0, l'), (k', r')] @ rs))" "\<forall>x \<in> set (ls @ rs). bal g (snd x)"
    "linked (ctx_left leaf_links c @ (forest leaf_links ls @ leaf_links l @ leaf_links r @ forest leaf_links rs) @
       ctx_right leaf_links c)" "2 \<le> lm" "3 \<le> im"
  shows "rebuilt lm im (Suc g) c (Nd p (ls @ [(k0, l), (k, r)] @ rs))
    (Some (plug c (Nd p (ls @ [(k0, l'), (k', r')] @ rs))), False, [])"
proof -
  let ?N = "Nd p (ls @ [(k0, l'), (k', r')] @ rs)"
  have s: "ord_forest (lo_of (ctx_lo c) ls k0) (hi_of (ctx_hi c) rs) [(k0, l'), (k', r')]" "bal g l'" "bal g r'"
    "entries l' @ entries r' = entries l @ entries r" "leaf_links l' @ leaf_links r' = leaf_links l @ leaf_links r"
    "mset (ids l') + mset (ids r') = mset (ids l) + mset (ids r)"
    using assms(1) by (simp_all add: shifted_def)
  have "ordered (ctx_lo c) (ctx_hi c) ?N"
    using ord_segment [of "[(k0, l'), (k', r')]" "ctx_lo c" "ctx_hi c" ls rs] assms(3) s(1) by simp
  moreover have "bal (Suc g) ?N"
    using s(2,3) assms(7) by auto
  moreover have "leaf_links ?N = forest leaf_links ls @ leaf_links l @ leaf_links r @ forest leaf_links rs"
    using s(5) by (simp add: append_assoc [symmetric] del: append_assoc)
  ultimately have "rebuilt lm im (Suc g) c ?N (Some (plug c ?N), False, [])"
    using assms by (intro rebuilt_plug) (simp_all only:)
  moreover have "entries ?N = entries (Nd p (ls @ [(k0, l), (k, r)] @ rs))"
    using s(4) by (simp add: append_assoc [symmetric] del: append_assoc)
  moreover have "mset (ids ?N) = mset (ids (Nd p (ls @ [(k0, l), (k, r)] @ rs)))"
    using s(6) by (simp add: ac_simps)
  ultimately show ?thesis
    by (simp only: rebuilt_def prod.case if_False root_id.simps)
qed

lemma rebuilt_join:
  assumes "rebuilt lm im (Suc g) c (Nd p (ls @ (k0, join l k r) # rs)) (T, d, del)" "bal g l" "bal g r"
  shows "rebuilt lm im g ((p, ls @ [(k0, l)], k, rs) # c) r (T, True, if d then p # del else del)"
    "rebuilt lm im g ((p, ls, k0, (k, r) # rs) # c) l (T, False, root_id r # (if d then p # del else del))"
proof -
  note j = join_simps [OF assms(2,3), where k = k]
  have "add_mset (root_id r) (mset (ids (join l k r))) = mset (ids l) + mset (ids r)"
    using j(4) by simp
  then have "mset (opt_ids T) + mset (if d then p # del else del) + {#root_id r#} =
    add_mset p (mset (forest ids ls) + (mset (ids l) + mset (ids r)) + mset (forest ids rs) + mset (ctx_ids c))"
    using assms(1) by (cases d) (simp_all add: rebuilt_def ac_simps)
  then show "rebuilt lm im g ((p, ls @ [(k0, l)], k, rs) # c) r (T, True, if d then p # del else del)"
    "rebuilt lm im g ((p, ls, k0, (k, r) # rs) # c) l (T, False, root_id r # (if d then p # del else del))"
    using assms(1) j(1) by (simp_all add: rebuilt_def ac_simps)
qed

text \<open>A tree in which one node, the root of \<open>s\<close>, may lack an entry.\<close>

definition hole_ok :: "int \<Rightarrow> int \<Rightarrow> nat \<Rightarrow> ('k :: linorder, 'v) frame list \<Rightarrow> ('k, 'v) btree \<Rightarrow> bool" where
  "hole_ok lm im g c s \<longleftrightarrow> ctx_ord c \<and> ordered (ctx_lo c) (ctx_hi c) s \<and> ctx_sized lm im c \<and> thin lm im (c = []) s \<and>
     ctx_bal g c \<and> bal g s \<and> linked (ctx_left leaf_links c @ leaf_links s @ ctx_right leaf_links c) \<and> 2 \<le> lm \<and> 3 \<le> im"

lemma hole_frame:
  assumes "hole_ok lm im g ((p, ls, k, rs) # c) s"
  shows "ctx_ord c" "ctx_sized lm im c" "ctx_bal (Suc g) c" "2 \<le> lm" "3 \<le> im" "bal g s" "thin lm im False s"
    "\<forall>x \<in> set ls \<union> set rs. sized lm im False (snd x) \<and> bal g (snd x)" "int (length ls + length rs) + 1 \<le> im"
    "if c = [] then 1 \<le> length ls + length rs else (im + 1) div 2 \<le> int (length ls + length rs) + 1"
    "ord_forest (ctx_lo c) (ctx_hi c) (ls @ (k, s) # rs)"
    "linked (ctx_left leaf_links c @ (forest leaf_links ls @ leaf_links s @ forest leaf_links rs) @ ctx_right leaf_links c)"
  using assms by (auto simp: hole_ok_def ord_hole)

text \<open>Two neighbours, of which one is the node of the hole, in the frame of the parent.\<close>

lemma shift_in_frame:
  assumes "shifted lm im (lo_of (ctx_lo c) ls k0) (hi_of (ctx_hi c) rs) g l r (l', k', r')" "ctx_ord c" "ctx_sized lm im c"
    "ctx_bal (Suc g) c" "2 \<le> lm" "3 \<le> im" "\<forall>x \<in> set ls \<union> set rs. sized lm im False (snd x) \<and> bal g (snd x)"
    "int (length ls + length rs) + 2 \<le> im" "c = [] \<or> (im + 1) div 2 \<le> int (length ls + length rs) + 2"
    "ord_forest (ctx_lo c) (ctx_hi c) (ls @ [(k0, l), (k, r)] @ rs)"
    "linked (ctx_left leaf_links c @ (forest leaf_links ls @ leaf_links l @ leaf_links r @ forest leaf_links rs) @ ctx_right leaf_links c)"
  shows "rebuilt lm im (Suc g) c (Nd p (ls @ [(k0, l), (k, r)] @ rs))
    (Some (plug c (Nd p (ls @ [(k0, l'), (k', r')] @ rs))), False, [])"
proof (rule rebuilt_shift [OF assms(1,2) _ assms(3,4) _ _ assms(11,5,6)])
  show "ord_frame (ctx_lo c) (ctx_hi c) ls k0 rs"
    using assms(10) ord_segment [of "[(k0, l), (k, r)]" "ctx_lo c" "ctx_hi c" ls rs] by simp
  show "sized lm im (c = []) (Nd p (ls @ [(k0, l'), (k', r')] @ rs))"
    using assms(1,7-9) by (auto simp: shifted_def)
qed (use assms(7) in auto)

lemma join_in_frame:
  assumes "bal g l" "bal g r" "ctx_ord c" "ctx_sized lm im c"
    "ctx_bal (Suc g) c" "2 \<le> lm" "3 \<le> im" "\<forall>x \<in> set ls \<union> set rs. sized lm im False (snd x) \<and> bal g (snd x)"
    "int (length ls + length rs) + 2 \<le> im" "c = [] \<or> (im + 1) div 2 \<le> int (length ls + length rs) + 2"
    "ord_forest (ctx_lo c) (ctx_hi c) (ls @ [(k0, l), (k, r)] @ rs)"
    "linked (ctx_left leaf_links c @ (forest leaf_links ls @ leaf_links l @ leaf_links r @ forest leaf_links rs) @ ctx_right leaf_links c)"
    "sized lm im False l \<and> thin lm im False r \<or> thin lm im False l \<and> sized lm im False r"
    "node_size l + node_size r < 2 * min_size lm im l"
  shows "hole_ok lm im (Suc g) c (Nd p (ls @ (k0, join l k r) # rs))"
proof -
  have o: "ord_frame (ctx_lo c) (ctx_hi c) ls k0 rs"
    "ord_forest (lo_of (ctx_lo c) ls k0) (hi_of (ctx_hi c) rs) [(k0, l), (k, r)]"
    using assms(11) ord_segment [of "[(k0, l), (k, r)]" "ctx_lo c" "ctx_hi c" ls rs] by simp_all
  note j = join_simps [OF assms(1,2), where k = k]
  have "ord_forest (ctx_lo c) (ctx_hi c) (ls @ (k0, join l k r) # rs)"
    using o(1) join_ordered [OF o(2) assms(1,2)] by (simp add: ord_hole)
  moreover have "sized lm im False (join l k r)"
    by (rule join_sized [OF assms(1,2,13,14,6,7)])
  moreover have "linked (ctx_left leaf_links c @ leaf_links (Nd p (ls @ (k0, join l k r) # rs)) @ ctx_right leaf_links c)"
    using j(5) [of "ctx_left leaf_links c @ forest leaf_links ls" "forest leaf_links rs @ ctx_right leaf_links c"] assms(12) by simp
  ultimately show ?thesis
    using assms(3-10) j(3) by (auto simp: hole_ok_def)
qed

lemma min_size_bal: "bal g l \<Longrightarrow> bal g r \<Longrightarrow> min_size lm im l = min_size lm im r"
  by (cases l; cases r) auto

lemma rebuilt_up:
  assumes "rebuilt lm im (Suc g) c (Nd p (ls @ (k, s) # rs)) (T, False, [])"
  shows "rebuilt lm im g ((p, ls, k, rs) # c) s (T, False, [])"
  using assms by (simp add: rebuilt_def ac_simps)

lemma left_neighbour:
  assumes "hole_ok lm im g ((p, ls @ [(kl, l)], k, rs) # c) s" "\<not> min_size lm im s \<le> node_size s"
  shows "min_size lm im l < node_size l \<Longrightarrow> shift_right l k s = (l', k', s') \<Longrightarrow>
      rebuilt lm im g ((p, ls @ [(kl, l)], k, rs) # c) s (Some (plug c (Nd p (ls @ [(kl, l'), (k', s')] @ rs))), False, [])"
    "\<not> min_size lm im l < node_size l \<Longrightarrow> hole_ok lm im (Suc g) c (Nd p (ls @ (kl, join l k s) # rs))"
    "bal g l" "bal g s"
proof -
  note h = hole_frame [OF assms(1)]
  have b: "bal g l" "sized lm im False l" using h(8) by auto
  have f: "ord_forest (ctx_lo c) (ctx_hi c) (ls @ [(kl, l), (k, s)] @ rs)" using h(11) by simp
  then have o: "ord_forest (lo_of (ctx_lo c) ls kl) (hi_of (ctx_hi c) rs) [(kl, l), (k, s)]"
    using ord_segment [of "[(kl, l), (k, s)]" "ctx_lo c" "ctx_hi c" ls rs] by simp
  have k: "linked (ctx_left leaf_links c @ (forest leaf_links ls @ leaf_links l @ leaf_links s @ forest leaf_links rs) @
    ctx_right leaf_links c)" using h(12) by simp
  have z: "\<forall>x \<in> set ls \<union> set rs. sized lm im False (snd x) \<and> bal g (snd x)" "int (length ls + length rs) + 2 \<le> im"
    "c = [] \<or> (im + 1) div 2 \<le> int (length ls + length rs) + 2"
    using h(8-10) by (auto split: if_splits)
  show "rebuilt lm im g ((p, ls @ [(kl, l)], k, rs) # c) s (Some (plug c (Nd p (ls @ [(kl, l'), (k', s')] @ rs))), False, [])"
    if "min_size lm im l < node_size l" "shift_right l k s = (l', k', s')"
    using shift_in_frame [OF _ h(1-5) z f k] shift_right_ok [OF o b(1) h(6) b(2) that(1) h(7) _ h(4,5)] that(2) assms(2)
    by (intro rebuilt_up) simp
  show "hole_ok lm im (Suc g) c (Nd p (ls @ (kl, join l k s) # rs))" if "\<not> min_size lm im l < node_size l"
    using join_in_frame [OF b(1) h(6) h(1-5) z f k] b(2) h(7) that assms(2) min_size_bal [OF b(1) h(6), of lm im] by simp
qed (use hole_frame [OF assms(1)] in auto)

lemma right_neighbour:
  assumes "hole_ok lm im g ((p, [], k, (kr, r) # rs) # c) s" "\<not> min_size lm im s \<le> node_size s"
  shows "min_size lm im r < node_size r \<Longrightarrow> shift_left s kr r = (s', k', r') \<Longrightarrow>
      rebuilt lm im g ((p, [], k, (kr, r) # rs) # c) s (Some (plug c (Nd p ([(k, s'), (k', r')] @ rs))), False, [])"
    "\<not> min_size lm im r < node_size r \<Longrightarrow> hole_ok lm im (Suc g) c (Nd p ((k, join s kr r) # rs))"
    "bal g r" "bal g s"
proof -
  note h = hole_frame [OF assms(1)]
  let ?nil = "[] :: ('a \<times> ('a, 'b) btree) list"
  have b: "bal g r" "sized lm im False r" using h(8) by auto
  have f: "ord_forest (ctx_lo c) (ctx_hi c) (?nil @ [(k, s), (kr, r)] @ rs)" using h(11) by simp
  then have o: "ord_forest (lo_of (ctx_lo c) ?nil k) (hi_of (ctx_hi c) rs) [(k, s), (kr, r)]"
    using ord_segment [of "[(k, s), (kr, r)]" "ctx_lo c" "ctx_hi c" ?nil rs] by simp
  have k: "linked (ctx_left leaf_links c @ (forest leaf_links ?nil @ leaf_links s @ leaf_links r @ forest leaf_links rs) @
    ctx_right leaf_links c)" using h(12) by simp
  have z: "\<forall>x \<in> set ?nil \<union> set rs. sized lm im False (snd x) \<and> bal g (snd x)" "int (length ?nil + length rs) + 2 \<le> im"
    "c = [] \<or> (im + 1) div 2 \<le> int (length ?nil + length rs) + 2"
    using h(8-10) by (auto split: if_splits)
  show "rebuilt lm im g ((p, [], k, (kr, r) # rs) # c) s (Some (plug c (Nd p ([(k, s'), (k', r')] @ rs))), False, [])"
    if "min_size lm im r < node_size r" "shift_left s kr r = (s', k', r')"
    using shift_in_frame [OF _ h(1-5) z f k] shift_left_ok [OF o h(6) b(1,2) that(1) h(7) _ h(4,5)] that(2) assms(2)
    by (intro rebuilt_up) simp
  show "hole_ok lm im (Suc g) c (Nd p ((k, join s kr r) # rs))" if "\<not> min_size lm im r < node_size r"
    using join_in_frame [OF h(6) b(1) h(1-5) z f k] b(2) h(7) that assms(2) min_size_bal [OF b(1) h(6), of lm im] by simp
qed (use hole_frame [OF assms(1)] in auto)

lemma del_up_rebuilt: "hole_ok lm im g c s \<Longrightarrow> rebuilt lm im g c s (del_up lm im c s)"
proof (induction c arbitrary: s g)
  case Nil
  then show ?case
    using rebuilt_root [of s lm im g] by (simp add: hole_ok_def)
next
  case (Cons f c)
  obtain p ls k rs where f: "f = (p, ls, k, rs)" by (cases f) auto
  note h = hole_frame [OF Cons.prems [unfolded f]]
  show ?case
  proof (cases "node_size s \<ge> min_size lm im s")
    case True
    then have "sized lm im False s" using h(7) by (cases s) auto
    then have "rebuilt lm im g (f # c) s (Some (plug (f # c) s), False, [])"
      using Cons.prems by (intro rebuilt_plug) (simp_all add: hole_ok_def)
    then show ?thesis using True by (simp add: f)
  next
    case small: False
    show ?thesis
    proof (cases "ls = []")
      case False
      then obtain ls' kl l where ls: "ls = ls' @ [(kl, l)]" by (metis rev_exhaust surj_pair)
      note n = left_neighbour [OF Cons.prems [unfolded f ls] small]
      obtain l' k' s' where sh: "shift_right l k s = (l', k', s')" by (cases "shift_right l k s") auto
      obtain T d del where D: "del_up lm im c (Nd p (ls' @ (kl, join l k s) # rs)) = (T, d, del)"
        by (cases "del_up lm im c (Nd p (ls' @ (kl, join l k s) # rs))") auto
      show ?thesis
        using n(1) [OF _ sh] Cons.IH [OF n(2)] rebuilt_join(1) [OF _ n(3,4)] small sh D by (simp add: f ls)
    next
      case nil: True
      then obtain kr r rs' where rs: "rs = (kr, r) # rs'"
        using h(5,10) by (cases rs) (auto split: if_splits)
      note n = right_neighbour [OF Cons.prems [unfolded f nil rs] small]
      obtain s' k' r' where sh: "shift_left s kr r = (s', k', r')" by (cases "shift_left s kr r") auto
      obtain T d del where D: "del_up lm im c (Nd p ((k, join s kr r) # rs')) = (T, d, del)"
        by (cases "del_up lm im c (Nd p ((k, join s kr r) # rs'))") auto
      show ?thesis
        using n(1) [OF _ sh] Cons.IH [OF n(2)] rebuilt_join(2) [of lm im g c p "[]" k s kr r rs' T d del] n(3,4) small sh D
        by (simp add: f nil rs)
    qed
  qed
qed

end
