(* ===== verification/BPlusTreeDelete.thy ===== *)
theory BPlusTreeDelete
  imports BPlusTreeRemove
begin

text \<open>
  The pages follow \<open>del_up\<close>: \<^verbatim>\<open>Redistribute\<close> is a shift between two neighbours,
  \<^verbatim>\<open>Coalesce\<close> a join, and \<^verbatim>\<open>Remove\<close> deletes the binding of the key.
\<close>

section \<open>Two neighbours on pages\<close>

text \<open>The tree of a state while it may be thin at one node.\<close>

definition tree_in :: "('k, 'v) bplus_tree \<Rightarrow> ('k, 'v) btree \<Rightarrow> bool" where
  "tree_in t T \<longleftrightarrow> tree_at (bt_pages t) (leaf_max_size t) (internal_max_size t) INVALID_PAGE_ID T \<and> root_page_id t = root_id T \<and>
     distinct (ids T) \<and> (\<forall>p \<in> set (ids T). 0 < p \<and> p < bt_next t)"

lemma distinct_submset:
  assumes "mset xs \<subseteq># mset ys" "distinct ys"
  shows "distinct xs"
proof -
  obtain zs where "mset ys = mset (xs @ zs)"
    using assms(1) by (metis ex_mset mset_append subset_mset.add_diff_inverse)
  then have "distinct (xs @ zs)"
    using assms(2) mset_eq_imp_distinct_iff by metis
  then show ?thesis by simp
qed

lemma root_id_plug: "root_id (plug c (Nd p cs)) = root_id (plug c (Nd p ds))"
  by (cases c rule: rev_cases) (auto simp: plug_append split: prod.splits)

lemma replace_children:
  assumes "tree_at pg lm im INVALID_PAGE_ID (plug c (Nd p (ls @ ms @ rs)))" "distinct (ids (plug c (Nd p (ls @ ms @ rs))))"
    "internal_at pg' im (parent_of c) p (slots (ls @ ms' @ rs))" "\<forall>x \<in> set ms'. tree_at pg' lm im p (snd x)"
    "\<forall>q. q \<notin> set (p # forest ids ms) \<longrightarrow> pg' q = pg q"
  shows "tree_at pg' lm im INVALID_PAGE_ID (plug c (Nd p (ls @ ms' @ rs)))"
proof -
  have d: "distinct (p # forest ids ls @ forest ids ms @ forest ids rs @ ctx_ids c)"
    using assms(2) by (simp add: distinct_plug)
  have "tree_at pg' lm im p (snd x)" if x: "x \<in> set ls \<union> set rs" for x
  proof -
    have "set (ids (snd x)) \<subseteq> set (forest ids ls) \<union> set (forest ids rs)"
      using x by (auto simp: forest_def)
    then have "set (ids (snd x)) \<inter> set (p # forest ids ms) = {}"
      using d by auto
    then have "\<forall>q \<in> set (ids (snd x)). pg' q = pg q"
      using assms(5) by blast
    then show ?thesis
      using assms(1) x tree_at_cong [of "snd x" pg' pg] by (auto simp: tree_at_plug)
  qed
  moreover have "set (ctx_ids c) \<inter> set (p # forest ids ms) = {}"
    using d by auto
  then have "\<forall>q \<in> set (ctx_ids c). pg' q = pg q"
    using assms(5) by blast
  then have "ctx_at pg' lm im c p"
    using assms(1) ctx_at_cong [of c pg' pg] by (simp add: tree_at_plug)
  ultimately show ?thesis
    using assms(3,4) by (auto simp: tree_at_plug)
qed

lemma slots_set_key: "slots (set_key k cs) = set_key k (slots cs)"
  by (cases cs) auto

lemma SetKeyAt_0: "SetKeyAt 0 k i = Inr (i\<lparr>internal_array := set_key k (internal_array i)\<rparr>)"
  by (cases "internal_array i"; cases i) (simp_all add: SetKeyAt_def Internal_item_def)

text \<open>Two neighbours in a node: the pages of the three.\<close>

definition pair_at :: "('k, 'v) bplus_tree \<Rightarrow> ('k, 'v) frame list \<Rightarrow> page_id_t \<Rightarrow> ('k \<times> ('k, 'v) btree) list \<Rightarrow> 'k \<Rightarrow> ('k, 'v) btree \<Rightarrow>
    'k \<Rightarrow> ('k, 'v) btree \<Rightarrow> ('k \<times> ('k, 'v) btree) list \<Rightarrow> bool" where
  "pair_at t c p ls k0 l k r rs \<longleftrightarrow> tree_in t (plug c (Nd p (ls @ [(k0, l), (k, r)] @ rs)))"

lemma pair_atD:
  assumes "pair_at t c p ls k0 l k r rs"
  shows "tree_at (bt_pages t) (leaf_max_size t) (internal_max_size t) p l" "tree_at (bt_pages t) (leaf_max_size t) (internal_max_size t) p r"
    "distinct (p # ids l @ ids r)"
    "get_internal p t = Inr \<lparr>max_size = internal_max_size t, parent_page_id = parent_of c, self_page_id = p,
       internal_array = slots ls @ [(k0, root_id l), (k, root_id r)] @ slots rs\<rparr>"
    "root_id l \<notin> root_id ` snd ` set ls" "root_id r \<notin> root_id ` snd ` set (ls @ [(k0, l)])"
    "distinct (ids (plug c (Nd p (ls @ [(k0, l), (k, r)] @ rs))))"
    "tree_at (bt_pages t) (leaf_max_size t) (internal_max_size t) INVALID_PAGE_ID (plug c (Nd p (ls @ [(k0, l), (k, r)] @ rs)))"
proof -
  show T: "tree_at (bt_pages t) (leaf_max_size t) (internal_max_size t) INVALID_PAGE_ID (plug c (Nd p (ls @ [(k0, l), (k, r)] @ rs)))"
    and D: "distinct (ids (plug c (Nd p (ls @ [(k0, l), (k, r)] @ rs))))"
    using assms by (simp_all add: pair_at_def tree_in_def)
  show "tree_at (bt_pages t) (leaf_max_size t) (internal_max_size t) p l" "tree_at (bt_pages t) (leaf_max_size t) (internal_max_size t) p r"
    using T by (simp_all add: tree_at_plug)
  show "get_internal p t = Inr \<lparr>max_size = internal_max_size t, parent_page_id = parent_of c, self_page_id = p,
       internal_array = slots ls @ [(k0, root_id l), (k, root_id r)] @ slots rs\<rparr>"
    using T by (simp add: tree_at_plug internal_at_def get_internal_def get_page_def)
  have d: "distinct (p # forest ids ls @ ids l @ ids r)"
    using D by (auto simp: distinct_plug)
  then show "distinct (p # ids l @ ids r)" by auto
  have "root_id l \<in> set (ids l)" "root_id r \<in> set (ids r)" by (rule root_id_in_ids)+
  then show "root_id l \<notin> root_id ` snd ` set ls" "root_id r \<notin> root_id ` snd ` set (ls @ [(k0, l)])"
    using d roots_in_forest [of ls] by auto
qed

lemma pair_at_update:
  assumes "pair_at t c p ls k0 l k r rs" "internal_at pg (internal_max_size t) (parent_of c) p (slots (ls @ ms @ rs))"
    "\<forall>x \<in> set ms. tree_at pg (leaf_max_size t) (internal_max_size t) p (snd x)"
    "\<forall>q. q \<notin> set (p # ids l @ ids r) \<longrightarrow> pg q = bt_pages t q" "mset (forest ids ms) \<subseteq># mset (ids l @ ids r)"
  shows "tree_in (t\<lparr>bt_pages := pg\<rparr>) (plug c (Nd p (ls @ ms @ rs)))"
proof -
  note d = pair_atD [OF assms(1)]
  have "tree_at pg (leaf_max_size t) (internal_max_size t) INVALID_PAGE_ID (plug c (Nd p (ls @ ms @ rs)))"
    using assms(4) by (intro replace_children [OF d(8,7) assms(2,3)]) simp
  moreover have sub: "mset (ids (plug c (Nd p (ls @ ms @ rs)))) \<subseteq># mset (ids (plug c (Nd p (ls @ [(k0, l), (k, r)] @ rs))))"
    using assms(5) by (simp add: plug_ids)
  moreover have "distinct (ids (plug c (Nd p (ls @ ms @ rs))))"
    by (rule distinct_submset [OF sub d(7)])
  moreover have "set (ids (plug c (Nd p (ls @ ms @ rs)))) \<subseteq> set (ids (plug c (Nd p (ls @ [(k0, l), (k, r)] @ rs))))"
    using set_mset_mono [OF sub] by simp
  moreover have "root_page_id t = root_id (plug c (Nd p (ls @ ms @ rs)))"
    using assms(1) root_id_plug [of c p] by (simp only: pair_at_def tree_in_def)
  ultimately show ?thesis
    using assms(1) by (auto simp: tree_in_def pair_at_def)
qed

lemma slots_item:
  "Internal_item (int (length ls)) (i\<lparr>internal_array := slots ls @ e # es\<rparr>) = Inr e"
  by (simp add: Internal_item_def nth_append)

text \<open>Moving the parent id of one child of a node.\<close>

lemma adopt_one:
  assumes "tree_at (bt_pages t) lm im par d" "distinct (ids d)"
  obtains pg where "adopt q [root_id d] t = Inr (t\<lparr>bt_pages := pg\<rparr>)" "tree_at pg lm im q d"
    "\<forall>p. p \<noteq> root_id d \<longrightarrow> pg p = bt_pages t p"
  using adopt_spec [of "[(undefined, d)]" t lm im par q] assms by auto

text \<open>The children of a node outside the changed pages keep their place.\<close>

lemma children_keep:
  assumes "\<forall>x \<in> set cs. tree_at pg lm im par (snd x)" "\<forall>q \<in> set (forest ids cs). pg' q = pg q" "x \<in> set cs"
  shows "tree_at pg' lm im par (snd x)"
  using assms tree_at_cong [of "snd x" pg' pg] ids_in_forest [OF assms(3)] by blast

text \<open>The pages of a leaf and of a node, and the parent of two neighbours.\<close>

definition leaf_page_of :: "('k, 'v) bplus_tree \<Rightarrow> page_id_t \<Rightarrow> page_id_t \<Rightarrow> page_id_t \<Rightarrow> ('k \<times> 'v) list \<Rightarrow> ('k, 'v) leaf_page" where
  "leaf_page_of t par a n xs = \<lparr>max_size = leaf_max_size t, parent_page_id = par, self_page_id = a, next_page_id = n, leaf_array = xs\<rparr>"

definition node_page_of :: "('k, 'v) bplus_tree \<Rightarrow> page_id_t \<Rightarrow> page_id_t \<Rightarrow> ('k \<times> page_id_t) list \<Rightarrow> 'k internal_page" where
  "node_page_of t par a es = \<lparr>max_size = internal_max_size t, parent_page_id = par, self_page_id = a, internal_array = es\<rparr>"

lemma page_of_simps [simp]:
  "leaf_array (leaf_page_of t par a n xs) = xs" "(leaf_page_of t par a n xs)\<lparr>leaf_array := ys\<rparr> = leaf_page_of t par a n ys"
  "(leaf_page_of t par a n xs)\<lparr>next_page_id := m\<rparr> = leaf_page_of t par a m xs" "next_page_id (leaf_page_of t par a n xs) = n"
  "internal_array (node_page_of t par a es) = es" "(node_page_of t par a es)\<lparr>internal_array := fs\<rparr> = node_page_of t par a fs"
  "self_page_id (node_page_of t par a es) = a"
  by (simp_all add: leaf_page_of_def node_page_of_def)

lemma leaf_at_page: "leaf_at pg (leaf_max_size t) par a n xs \<longleftrightarrow> pg a = Some (LEAF_PAGE (leaf_page_of t par a n xs))"
  by (simp add: leaf_at_def leaf_page_of_def)

lemma internal_at_page: "internal_at pg (internal_max_size t) par a es \<longleftrightarrow> pg a = Some (INTERNAL_PAGE (node_page_of t par a es))"
  by (simp add: internal_at_def node_page_of_def)

lemma pair_parent:
  assumes "pair_at t c p ls k0 l k r rs"
  defines "P \<equiv> \<lambda>key. node_page_of t (parent_of c) p (slots ls @ [(k0, root_id l), (key, root_id r)] @ slots rs)"
  shows "get_internal p t = Inr (P k)" "Internal_KeyAt (int (length ls) + 1) (P k) = Inr k"
    "SetKeyAt (int (length ls) + 1) key (P k) = Inr (P key)"
  using pair_atD(4) [OF assms(1)]
  by (simp_all add: P_def node_page_of_def Internal_KeyAt_def SetKeyAt_def Internal_item_def nth_append list_update_append
      nat_add_distrib)

text \<open>Entries moved between two leaves.\<close>

lemma leaves_update:
  assumes "pair_at t c p ls k0 (Lf a na xs) k (Lf b nb ys) rs"
    "pg = (bt_pages t)(a \<mapsto> LEAF_PAGE (leaf_page_of t p a na xs'), b \<mapsto> LEAF_PAGE (leaf_page_of t p b nb ys'),
       p \<mapsto> INTERNAL_PAGE (node_page_of t (parent_of c) p (slots ls @ [(k0, a), (k', b)] @ slots rs)))"
  shows "tree_in (t\<lparr>bt_pages := pg\<rparr>) (plug c (Nd p (ls @ [(k0, Lf a na xs'), (k', Lf b nb ys')] @ rs)))"
proof -
  have "a \<noteq> b" "a \<noteq> p" "b \<noteq> p" using pair_atD(3) [OF assms(1)] by auto
  then show ?thesis
    by (intro pair_at_update [OF assms(1)]) (auto simp: internal_at_page leaf_at_page assms(2))
qed

text \<open>
  A child \<open>d\<close> moved from one of two nodes to the other, which has adopted it; the other
  children stay.
\<close>

lemma nodes_update:
  assumes P: "pair_at t c p ls k0 (Nd a xs) k (Nd b ys) rs"
    and pgA: "tree_at pgA (leaf_max_size t) (internal_max_size t) q d" "\<forall>p. p \<noteq> root_id d \<longrightarrow> pgA p = bt_pages t p"
    and m: "mset (forest ids xs) + mset (forest ids ys) = mset (forest ids us) + mset (forest ids vs) + mset (ids d)"
    and kids: "\<forall>x \<in> set xs'. snd x \<in> snd ` set us \<or> snd x = d \<and> q = a" "\<forall>x \<in> set ys'. snd x \<in> snd ` set vs \<or> snd x = d \<and> q = b"
      "snd ` set us \<subseteq> snd ` set xs" "snd ` set vs \<subseteq> snd ` set ys"
      "mset (forest ids xs') + mset (forest ids ys') = mset (forest ids xs) + mset (forest ids ys)"
    and pg: "pg = pgA(a \<mapsto> INTERNAL_PAGE (node_page_of t p a (slots xs')), b \<mapsto> INTERNAL_PAGE (node_page_of t p b (slots ys')),
       p \<mapsto> INTERNAL_PAGE (node_page_of t (parent_of c) p (slots ls @ [(k0, a), (k', b)] @ slots rs)))"
  shows "tree_in (t\<lparr>bt_pages := pg\<rparr>) (plug c (Nd p (ls @ [(k0, Nd a xs'), (k', Nd b ys')] @ rs)))"
proof -
  let ?lm = "leaf_max_size t" and ?im = "internal_max_size t"
  note D = pair_atD [OF P]
  have rd: "root_id d \<in> set (ids d)" by (rule root_id_in_ids)
  have mm: "mset (p # a # b # forest ids us @ forest ids vs @ ids d) = mset (p # ids (Nd a xs) @ ids (Nd b ys))"
    using m by simp
  then have dist: "distinct (p # a # b # forest ids us @ forest ids vs @ ids d)"
    using D(3) mset_eq_imp_distinct_iff by metis
  then have "root_id d \<notin> set (p # a # b # forest ids us @ forest ids vs)"
    using rd by auto
  then have keep: "pgA r = bt_pages t r" if "r \<in> set (p # a # b # forest ids us @ forest ids vs)" for r
    using that pgA(2) by metis
  have in_us: "set (ids x) \<subseteq> set (forest ids us)" if "x \<in> snd ` set us" for x
    using that by (auto simp: forest_def)
  have in_vs: "set (ids x) \<subseteq> set (forest ids vs)" if "x \<in> snd ` set vs" for x
    using that by (auto simp: forest_def)
  have pgq: "pg r = pgA r" if "r \<notin> {a, b, p}" for r
    using that by (simp add: pg)
  have same: "pg r = bt_pages t r" if r: "r \<in> set (forest ids us) \<union> set (forest ids vs)" for r
  proof -
    have "r \<notin> {a, b, p}" using r dist by auto
    then show ?thesis using pgq keep r by simp
  qed
  have ta: "tree_at pg ?lm ?im a x" if x: "x \<in> snd ` set us" for x
  proof -
    have "\<forall>r \<in> set (ids x). pg r = bt_pages t r"
      using in_us [OF x] same by blast
    moreover have "x \<in> snd ` set xs" using kids(3) x by (rule subsetD)
    ultimately show ?thesis using D(1) tree_at_cong [of x pg "bt_pages t"] by auto
  qed
  have tb: "tree_at pg ?lm ?im b x" if x: "x \<in> snd ` set vs" for x
  proof -
    have "\<forall>r \<in> set (ids x). pg r = bt_pages t r"
      using in_vs [OF x] same by blast
    moreover have "x \<in> snd ` set ys" using kids(4) x by (rule subsetD)
    ultimately show ?thesis using D(2) tree_at_cong [of x pg "bt_pages t"] by auto
  qed
  have td: "tree_at pg ?lm ?im q d"
    using pgA(1) dist by (simp add: pg tree_at_upd_other)
  have "\<forall>x \<in> set xs'. tree_at pg ?lm ?im a (snd x)" "\<forall>x \<in> set ys'. tree_at pg ?lm ?im b (snd x)"
    using kids(1,2) ta tb td by blast+
  moreover have "pg a = Some (INTERNAL_PAGE (node_page_of t p a (slots xs')))" "pg b = Some (INTERNAL_PAGE (node_page_of t p b (slots ys')))"
    using dist by (auto simp: pg)
  ultimately have kid: "\<forall>x \<in> set [(k0, Nd a xs'), (k', Nd b ys')]. tree_at pg ?lm ?im p (snd x)"
    by (simp add: internal_at_page)
  have "pg r = bt_pages t r" if "r \<notin> set (p # ids (Nd a xs) @ ids (Nd b ys))" for r
  proof -
    have "set (p # a # b # forest ids us @ forest ids vs @ ids d) = set (p # ids (Nd a xs) @ ids (Nd b ys))"
      using mm by (rule mset_eq_setD)
    then have "r \<noteq> root_id d" "r \<notin> {a, b, p}" using that rd by auto
    then show ?thesis using pgq pgA(2) by metis
  qed
  then show ?thesis
    using kids(5) by (intro pair_at_update [OF P _ kid]) (simp_all add: internal_at_page pg)
qed

lemma node_moves:
  "adopt b [snd e] t = Inr u \<Longrightarrow>
     Internal_MoveLastToFrontOf (node_page_of t p a (es @ [e])) (node_page_of t p b fs) k t =
     Inr (node_page_of t p a es, node_page_of t p b (e # set_key k fs), u)"
  "adopt b [snd e] t = Inr u \<Longrightarrow>
     Internal_MoveFirstToEndOf (node_page_of t p a (e # es)) (node_page_of t p b fs) k t =
     Inr (node_page_of t p a es, node_page_of t p b (fs @ [(k, snd e)]), u)"
  "Internal_KeyAt 0 (node_page_of t p a (e # es)) = Inr (fst e)"
  by (simp_all add: Internal_MoveLastToFrontOf_def Internal_MoveFirstToEndOf_def Internal_item_def SetKeyAt_0
      Internal_CopyFirstFrom_def Internal_CopyLastFrom_def Internal_KeyAt_def nth_append del: adopt.simps)

lemma node_pages:
  assumes "pair_at t c p ls k0 (Nd a xs) k (Nd b ys) rs"
  shows "get_page a t = Inr (INTERNAL_PAGE (node_page_of t p a (slots xs)))" "get_internal a t = Inr (node_page_of t p a (slots xs))"
    "get_page b t = Inr (INTERNAL_PAGE (node_page_of t p b (slots ys)))" "get_internal b t = Inr (node_page_of t p b (slots ys))"
  using pair_atD(1,2) [OF assms] by (simp_all add: internal_at_page get_internal_def get_page_def)

lemma leaf_pages:
  assumes "pair_at t c p ls k0 (Lf a na xs) k (Lf b nb ys) rs"
  shows "get_page a t = Inr (LEAF_PAGE (leaf_page_of t p a na xs))" "get_leaf a t = Inr (leaf_page_of t p a na xs)"
    "get_page b t = Inr (LEAF_PAGE (leaf_page_of t p b nb ys))" "get_leaf b t = Inr (leaf_page_of t p b nb ys)"
  using pair_atD(1,2) [OF assms] by (simp_all add: leaf_at_page get_leaf_def get_page_def)

lemma Redistribute_prev:
  assumes P: "pair_at t c p ls k0 l k r rs" and b: "bal g l" "bal g r" and n: "1 \<le> node_size l"
    and sh: "shift_right l k r = (l', k', r')"
  shows "\<exists>pg. Redistribute (root_id l) (root_id r) p (int (length ls) + 1) True t = Inr (t\<lparr>bt_pages := pg\<rparr>) \<and>
    tree_in (t\<lparr>bt_pages := pg\<rparr>) (plug c (Nd p (ls @ [(k0, l'), (k', r')] @ rs)))"
  using b
proof (cases rule: bal_pair)
  case (leaves a na xs b nb ys)
  obtain us x where xs: "xs = us @ [x]" using n leaves by (cases xs rule: rev_cases) auto
  note P' = P [unfolded leaves xs]
  show ?thesis
    using leaves_update [OF P' refl, of us "x # ys" "fst x"] pair_parent(1,2) [OF P] pair_parent(3) [OF P, of "fst x"] leaf_pages [OF P'] sh leaves xs
    by (simp add: Redistribute_def Leaf_MoveLastToFrontOf_def Leaf_GetItem_def Leaf_CopyFirstFrom_def
        Leaf_KeyAt_def put_page_def nth_append) blast
next
  case (nodes a xs b ys)
  obtain us kx tx where xs: "xs = us @ [(kx, tx)]" using n nodes by (cases xs rule: rev_cases) auto
  note P' = P [unfolded nodes xs]
  have tx: "tree_at (bt_pages t) (leaf_max_size t) (internal_max_size t) a tx" "distinct (ids tx)"
    using pair_atD(1,3) [OF P] nodes xs by auto
  obtain pgA where pgA: "adopt b [root_id tx] t = Inr (t\<lparr>bt_pages := pgA\<rparr>)" "tree_at pgA (leaf_max_size t) (internal_max_size t) b tx"
    "\<forall>p. p \<noteq> root_id tx \<longrightarrow> pgA p = bt_pages t p"
    by (rule adopt_one [OF tx])
  have "\<forall>x \<in> set ((kx, tx) # set_key k ys). snd x \<in> snd ` set ys \<or> snd x = tx"
    by (cases ys) auto
  then have "tree_in (t\<lparr>bt_pages := pgA(a \<mapsto> INTERNAL_PAGE (node_page_of t p a (slots us)),
      b \<mapsto> INTERNAL_PAGE (node_page_of t p b (slots ((kx, tx) # set_key k ys))),
      p \<mapsto> INTERNAL_PAGE (node_page_of t (parent_of c) p (slots ls @ [(k0, a), (kx, b)] @ slots rs)))\<rparr>)
    (plug c (Nd p (ls @ [(k0, Nd a us), (kx, Nd b ((kx, tx) # set_key k ys))] @ rs)))"
    by (intro nodes_update [OF P' pgA(2,3), of us ys]) (auto simp: image_iff)
  moreover have "Internal_MoveLastToFrontOf (node_page_of t p a (slots xs)) (node_page_of t p b (slots ys)) k t =
    Inr (node_page_of t p a (slots us), node_page_of t p b (slots ((kx, tx) # set_key k ys)), t\<lparr>bt_pages := pgA\<rparr>)"
    using node_moves(1) [of b "(kx, root_id tx)" t] pgA(1) by (simp add: xs slots_set_key del: adopt.simps)
  ultimately show ?thesis
    using pair_parent(1,2) [OF P] pair_parent(3) [OF P, of kx] node_pages [OF P'] sh nodes xs
    by (auto simp: Redistribute_def node_moves(3) put_page_def simp del: adopt.simps)
qed

lemma Redistribute_next:
  assumes P: "pair_at t c p ls k0 l k r rs" and b: "bal g l" "bal g r" and n: "2 \<le> node_size r"
    and sh: "shift_left l k r = (l', k', r')"
  shows "\<exists>pg. Redistribute (root_id r) (root_id l) p (int (length ls)) False t = Inr (t\<lparr>bt_pages := pg\<rparr>) \<and>
    tree_in (t\<lparr>bt_pages := pg\<rparr>) (plug c (Nd p (ls @ [(k0, l'), (k', r')] @ rs)))"
  using b
proof (cases rule: bal_pair)
  case (leaves a na xs b nb ys)
  obtain y z zs where ys: "ys = y # z # zs" using n leaves by (cases ys rule: remdups_adj.cases) auto
  note P' = P [unfolded leaves ys]
  show ?thesis
    using leaves_update [OF P' refl, of "xs @ [y]" "z # zs" "fst z"] pair_parent(1,2) [OF P] pair_parent(3) [OF P, of "fst z"] leaf_pages [OF P'] sh leaves ys pair_atD(3) [OF P]
    by (simp add: Redistribute_def Leaf_MoveFirstToEndOf_def Leaf_GetItem_def Leaf_CopyLastFrom_def
        Leaf_KeyAt_def put_page_def fun_upd_twist) blast
next
  case (nodes a xs b ys)
  obtain ky ty kz tz zs where ys: "ys = (ky, ty) # (kz, tz) # zs" using n nodes by (cases ys rule: remdups_adj.cases) auto
  note P' = P [unfolded nodes ys]
  have ty: "tree_at (bt_pages t) (leaf_max_size t) (internal_max_size t) b ty" "distinct (ids ty)"
    using pair_atD(2,3) [OF P] nodes ys by auto
  obtain pgA where pgA: "adopt a [root_id ty] t = Inr (t\<lparr>bt_pages := pgA\<rparr>)" "tree_at pgA (leaf_max_size t) (internal_max_size t) a ty"
    "\<forall>p. p \<noteq> root_id ty \<longrightarrow> pgA p = bt_pages t p"
    by (rule adopt_one [OF ty])
  have "tree_in (t\<lparr>bt_pages := pgA(a \<mapsto> INTERNAL_PAGE (node_page_of t p a (slots (xs @ [(k, ty)]))),
      b \<mapsto> INTERNAL_PAGE (node_page_of t p b (slots ((kz, tz) # zs))),
      p \<mapsto> INTERNAL_PAGE (node_page_of t (parent_of c) p (slots ls @ [(k0, a), (kz, b)] @ slots rs)))\<rparr>)
    (plug c (Nd p (ls @ [(k0, Nd a (xs @ [(k, ty)])), (kz, Nd b ((kz, tz) # zs))] @ rs)))"
    by (intro nodes_update [OF P' pgA(2,3), of xs "(kz, tz) # zs"]) (auto simp: image_iff)
  moreover have "Internal_MoveFirstToEndOf (node_page_of t p b (slots ys)) (node_page_of t p a (slots xs)) k t =
    Inr (node_page_of t p b (slots ((kz, tz) # zs)), node_page_of t p a (slots (xs @ [(k, ty)])), t\<lparr>bt_pages := pgA\<rparr>)"
    using node_moves(2) [of a "(ky, root_id ty)" t] pgA(1) by (simp add: ys del: adopt.simps)
  ultimately show ?thesis
    using pair_parent(1,2) [OF P] pair_parent(3) [OF P, of kz] node_pages [OF P'] sh nodes ys pair_atD(3) [OF P]
    by (auto simp: Redistribute_def node_moves(3) put_page_def fun_upd_twist simp del: adopt.simps)
qed

text \<open>\<^verbatim>\<open>Coalesce\<close> joins two neighbours and goes on at the parent.\<close>

lemma Internal_Remove_second:
  assumes "pair_at t c p ls k0 l k r rs"
  shows "Internal_Remove (length ls + 1) (node_page_of t (parent_of c) p (slots ls @ [(k0, root_id l), (k, root_id r)] @ slots rs)) =
    Inr (node_page_of t (parent_of c) p (slots ls @ (k0, root_id l) # slots rs))"
  by (simp add: Internal_Remove_def)

lemma Coalesce_spec:
  assumes P: "pair_at t c p ls k0 l k r rs" and b: "bal g l" "bal g r"
  shows "\<exists>pg. Coalesce rec (root_id l) (root_id r) p (length ls + 1) t = rec p (t\<lparr>bt_pages := pg\<rparr>) \<and>
    tree_in (t\<lparr>bt_pages := pg\<rparr>) (plug c (Nd p (ls @ (k0, join l k r) # rs)))"
proof -
  let ?lm = "leaf_max_size t" and ?im = "internal_max_size t"
  have "Internal_KeyAt (int (length ls + 1)) (node_page_of t (parent_of c) p (slots ls @ [(k0, root_id l), (k, root_id r)] @ slots rs)) = Inr k"
    using pair_parent(2) [OF P] by (simp add: add.commute)
  note par = pair_parent(1) [OF P] this Internal_Remove_second [OF P]
  have up: "tree_in (t\<lparr>bt_pages := pg\<rparr>) (plug c (Nd p (ls @ (k0, join l k r) # rs)))"
    if "pg p = Some (INTERNAL_PAGE (node_page_of t (parent_of c) p (slots ls @ (k0, root_id l) # slots rs)))"
      "tree_at pg ?lm ?im p (join l k r)" "\<forall>q. q \<notin> set (p # ids l @ ids r) \<longrightarrow> pg q = bt_pages t q" for pg
  proof -
    have "mset (ids (join l k r)) \<subseteq># mset (ids l @ ids r)"
      using join_simps(4) [OF b, where k = k] by (metis mset_append mset_subset_eq_add_left)
    then show ?thesis
      using pair_at_update [OF P, of pg "[(k0, join l k r)]"] that join_simps(2) [OF b, where k = k]
      by (simp add: internal_at_page)
  qed
  show ?thesis
    using b
  proof (cases rule: bal_pair)
    case (leaves a na xs b nb ys)
    let ?pg = "(bt_pages t)(b \<mapsto> LEAF_PAGE (leaf_page_of t p b nb []), a \<mapsto> LEAF_PAGE (leaf_page_of t p a nb (xs @ ys)),
      p \<mapsto> INTERNAL_PAGE (node_page_of t (parent_of c) p (slots ls @ (k0, root_id l) # slots rs)))"
    have "tree_in (t\<lparr>bt_pages := ?pg\<rparr>) (plug c (Nd p (ls @ (k0, join l k r) # rs)))"
      using pair_atD(3) [OF P] leaves by (intro up) (auto simp: leaf_at_page)
    then show ?thesis
      using par leaf_pages [OF P [unfolded leaves]] leaves
      by (intro exI [of _ ?pg]) (simp add: Coalesce_def Leaf_MoveAllTo_def Leaf_CopyNFrom_def put_page_def)
  next
    case (nodes a xs b ys)
    have dist: "distinct (p # a # b # forest ids xs @ forest ids ys)" using pair_atD(3) [OF P] nodes by auto
    have "\<forall>x \<in> set (set_key k ys). tree_at (bt_pages t) ?lm ?im b (snd x)" "distinct (forest ids (set_key k ys))"
      using pair_atD(2) [OF P] dist nodes by auto
    from adopt_spec [OF this, of a] obtain pgA where pgA: "adopt a (map snd (slots (set_key k ys))) t = Inr (t\<lparr>bt_pages := pgA\<rparr>)"
      "\<forall>x \<in> set (set_key k ys). tree_at pgA ?lm ?im a (snd x)" "\<forall>q. q \<notin> root_id ` snd ` set (set_key k ys) \<longrightarrow> pgA q = bt_pages t q"
      by blast
    let ?pg = "pgA(b \<mapsto> INTERNAL_PAGE (node_page_of t p b []), a \<mapsto> INTERNAL_PAGE (node_page_of t p a (slots (xs @ set_key k ys))),
      p \<mapsto> INTERNAL_PAGE (node_page_of t (parent_of c) p (slots ls @ (k0, root_id l) # slots rs)))"
    have roots: "root_id ` snd ` set (set_key k ys) \<subseteq> set (forest ids ys)"
      using roots_in_forest [of "set_key k ys"] by simp
    have keep: "pgA q = bt_pages t q" if "q \<notin> set (forest ids ys)" for q
      using that roots pgA(3) by blast
    have "tree_at ?pg ?lm ?im a (snd x)" if "x \<in> set xs" for x
      using pair_atD(1) [OF P] nodes dist keep that by (intro children_keep [of xs "bt_pages t"]) auto
    moreover have "tree_at ?pg ?lm ?im a (snd x)" if "x \<in> set (set_key k ys)" for x
      using pgA(2) dist that by (intro children_keep [of "set_key k ys" pgA]) auto
    ultimately have "tree_at ?pg ?lm ?im p (join l k r)"
      using nodes dist by (auto simp: internal_at_page)
    moreover have "?pg q = bt_pages t q" if "q \<notin> set (p # ids l @ ids r)" for q
      using that keep nodes by auto
    ultimately have "tree_in (t\<lparr>bt_pages := ?pg\<rparr>) (plug c (Nd p (ls @ (k0, join l k r) # rs)))"
      by (intro up) auto
    then show ?thesis
      using par node_pages [OF P [unfolded nodes]] nodes pgA(1)
      by (intro exI [of _ ?pg]) (simp add: Coalesce_def Internal_MoveAllTo_def SetKeyAt_0
          Internal_CopyNFrom_def slots_set_key put_page_def)
  qed
qed

section \<open>Climbing on pages\<close>

definition del_frame :: "('k, 'v) bplus_tree \<Rightarrow> ('k, 'v) bplus_tree \<Rightarrow> bool" where
  "del_frame t t' \<longleftrightarrow> index_name t' = index_name t \<and> leaf_max_size t' = leaf_max_size t \<and>
     internal_max_size t' = internal_max_size t \<and> bt_next t' = bt_next t \<and> bt_avail t' = bt_avail t \<and> header_ok t'"

text \<open>What the climb establishes: the new tree, the pins, and the pages marked for deletion.\<close>

definition shrunk :: "page_id_t multiset \<Rightarrow> ('k :: linorder, 'v) bplus_tree \<Rightarrow> ('k, 'v) btree option \<Rightarrow> page_id_t list \<Rightarrow>
    ('k, 'v) bplus_tree \<Rightarrow> bool" where
  "shrunk B t T del t' \<longleftrightarrow> (case T of None \<Rightarrow> root_page_id t' = INVALID_PAGE_ID | Some T \<Rightarrow> tree_in t' T) \<and>
     mset (bt_pins t') = B \<and> page_set t' = [] \<and>
     set (deleted_page_set t') = set (deleted_page_set t) \<union> set del \<and> del_frame t t'"

lemma tree_in_simps [simp]:
  "tree_in (t\<lparr>bt_pins := ps\<rparr>) T = tree_in t T" "tree_in (t\<lparr>page_set := q\<rparr>) T = tree_in t T"
  "tree_in (t\<lparr>deleted_page_set := ds\<rparr>) T = tree_in t T" "tree_in (t\<lparr>bt_header := header\<rparr>) T = tree_in t T"
  "tree_in (pin_page p t) T = tree_in t T" "tree_in (UnpinPage p t) T = tree_in t T"
  "tree_in (AddIntoDeletedPageSet p t) T = tree_in t T"
  by (simp_all add: tree_in_def pin_page_def UnpinPage_def AddIntoDeletedPageSet_def)

lemma tree_at_page:
  assumes "tree_at pg lm im par s"
  shows "\<exists>page. pg (root_id s) = Some page \<and> GetPageId page = root_id s \<and> GetParentPageId page = par \<and>
    GetSize page = node_size s \<and> GetMinSize page = min_size lm im s"
  using assms by (cases s) (auto simp: leaf_at_def internal_at_def)

lemma ValueIndex_slots:
  assumes "root_id s \<notin> root_id ` snd ` set ls"
  shows "ValueIndex (root_id s) (node_page_of t par p (slots ls @ (k, root_id s) # es)) = length ls"
proof -
  have "takeWhile (\<lambda>e. snd e \<noteq> root_id s) (slots ls @ (k, root_id s) # es) = slots ls"
    using assms by (subst takeWhile_append2) (force simp: slots_def)+
  then show ?thesis
    by (simp add: ValueIndex_def)
qed

lemma AdjustRoot_spec:
  fixes s :: "('k :: linorder, 'v) btree"
  assumes "tree_in t s" "thin lm im True s" "good_name (index_name t)" "header_ok t" "bt_next t \<le> 2 ^ 31"
  shows "\<exists>t'. AdjustRoot (root_id s) t = Inr (fst (snd (del_root s)), t') \<and> bt_pins t' = bt_pins t \<and> page_set t' = page_set t \<and>
    deleted_page_set t' = deleted_page_set t \<and> del_frame t t' \<and>
    (case fst (del_root s) of None \<Rightarrow> root_page_id t' = INVALID_PAGE_ID | Some T \<Rightarrow> tree_in t' T)"
proof (cases "\<exists>p k d. s = Nd p [(k, d)]")
  case True
  then obtain p k d where s: "s = Nd p [(k, d)]" by blast
  have T: "tree_at (bt_pages t) (leaf_max_size t) (internal_max_size t) p d" "distinct (ids d)"
    "bt_pages t p = Some (INTERNAL_PAGE (node_page_of t INVALID_PAGE_ID p [(k, root_id d)]))"
    "\<forall>q \<in> set (ids d). 0 < q \<and> q < bt_next t"
    using assms(1) by (auto simp: s tree_in_def internal_at_page)
  obtain page where page: "bt_pages t (root_id d) = Some page" "GetPageId page = root_id d"
    "tree_at ((bt_pages t)(root_id d \<mapsto> SetParentPageId INVALID_PAGE_ID page)) (leaf_max_size t) (internal_max_size t) INVALID_PAGE_ID d"
    using tree_at_reparent [OF T(1,2)] by blast
  define u where "u = t\<lparr>bt_pins := root_id d # bt_pins t, bt_pages := (bt_pages t)(root_id d \<mapsto> SetParentPageId INVALID_PAGE_ID page),
    root_page_id := root_id d\<rparr>"
  obtain rs where "holds (bt_header u) rs" using assms(4) by (auto simp: header_ok_def u_def)
  moreover have "0 < root_id d" "root_id d < 2 ^ 31" using T(4) root_id_in_ids [of d] assms(5) by force+
  ultimately obtain hd rs' where hd: "UpdateRootPageId False u = Inr (u\<lparr>bt_header := hd\<rparr>)" "holds hd rs'"
    using UpdateRootPageId_spec [of u rs] assms(3) by (force simp: u_def)
  let ?t' = "UnpinPage (root_id d) (u\<lparr>bt_header := hd\<rparr>)"
  have "AdjustRoot (root_id s) t = Inr (True, ?t')"
    using T(3) page hd(1)
    by (simp add: AdjustRoot_def s get_page_def Internal_ValueAt_def Internal_item_def FetchPage_def put_page_def pin_page_def u_def)
  moreover have "tree_in ?t' d"
    using page(3) T(2,4) by (simp add: tree_in_def u_def UnpinPage_def)
  moreover have "header_ok ?t'"
    using hd(2) by (auto simp: header_ok_def UnpinPage_def)
  ultimately show ?thesis
    by (intro exI [of _ ?t']) (simp add: s del_frame_def UnpinPage_def u_def)
next
  case False
  show ?thesis
  proof (cases s)
    case (Lf p n xs)
    have "bt_pages t p = Some (LEAF_PAGE (leaf_page_of t INVALID_PAGE_ID p n xs))"
      using assms(1) by (simp add: Lf tree_in_def leaf_at_page)
    then show ?thesis
      using assms(1,4) Lf by (simp add: AdjustRoot_def get_page_def del_frame_def)
  next
    case (Nd p cs)
    have "bt_pages t p = Some (INTERNAL_PAGE (node_page_of t INVALID_PAGE_ID p (slots cs)))"
      using assms(1) by (simp add: Nd tree_in_def internal_at_page)
    moreover have "length cs \<noteq> 1"
      using False Nd by (auto simp: length_Suc_conv)
    ultimately show ?thesis
      using assms(1,4) Nd by (simp add: AdjustRoot_def get_page_def del_frame_def)
  qed
qed

text \<open>The state of a climb at the root of \<open>s\<close> in the context \<open>c\<close>.\<close>

definition climbing :: "page_id_t multiset \<Rightarrow> nat \<Rightarrow> ('k :: linorder, 'v) frame list \<Rightarrow> ('k, 'v) btree \<Rightarrow> ('k, 'v) bplus_tree \<Rightarrow> bool" where
  "climbing B g c s t \<longleftrightarrow> tree_in t (plug c s) \<and> hole_ok (leaf_max_size t) (internal_max_size t) g c s \<and> pinned B t \<and>
     good_name (index_name t) \<and> header_ok t \<and> bt_next t \<le> 2 ^ 31"

lemma shrunk_release:
  assumes "pinned B t" "header_ok t" "tree_in t T"
  shows "shrunk B t (Some T) [] (ReleaseLatchFromQueue t)"
proof -
  obtain ps where "ReleaseLatchFromQueue t = t\<lparr>bt_pins := ps, page_set := []\<rparr>" "mset ps = B"
    by (rule ReleaseLatchFromQueue_pinned [OF assms(1)])
  then show ?thesis
    using assms(2,3) by (simp add: shrunk_def del_frame_def)
qed

text \<open>Undoing the two pins of the parent and the neighbour.\<close>

lemma shrunk_unpin:
  assumes "shrunk (add_mset q (add_mset p B)) u T del t'" "del_frame t u" "deleted_page_set u = deleted_page_set t"
    "set del' = set del \<union> set ds"
  shows "shrunk B t T del' (UnpinPage q (UnpinPage p (fold AddIntoDeletedPageSet ds t')))"
proof -
  have f: "fold AddIntoDeletedPageSet ds t = t\<lparr>deleted_page_set := fold List.insert ds (deleted_page_set t)\<rparr>"
    for ds and t :: "('a, 'b) bplus_tree"
    by (induction ds arbitrary: t) (simp_all add: AddIntoDeletedPageSet_def)
  have "set (fold List.insert ds xs) = set ds \<union> set xs" for xs
    by (induction ds arbitrary: xs) auto
  then show ?thesis
    using assms by (auto simp: shrunk_def f UnpinPage_def del_frame_def header_ok_def tree_in_def split: option.splits)
qed

lemma frame_parent:
  assumes "climbing B g ((p, ls, k, rs) # c) s t"
  shows "\<exists>page. get_page (root_id s) t = Inr page \<and> GetPageId page = root_id s \<and> GetParentPageId page = p \<and>
      GetSize page = node_size s \<and> GetMinSize page = min_size (leaf_max_size t) (internal_max_size t) s \<and> \<not> IsRootPage page"
    "get_internal p t = Inr (node_page_of t (parent_of c) p (slots (ls @ (k, s) # rs)))"
    "ValueIndex (root_id s) (node_page_of t (parent_of c) p (slots (ls @ (k, s) # rs))) = length ls"
proof -
  let ?lm = "leaf_max_size t" and ?im = "internal_max_size t"
  have T: "tree_at (bt_pages t) ?lm ?im p s" "internal_at (bt_pages t) ?im (parent_of c) p (slots (ls @ (k, s) # rs))" "0 < p"
    "distinct (ids (plug c (Nd p (ls @ (k, s) # rs))))"
    using assms by (auto simp: climbing_def tree_in_def tree_at_plug set_plug_ids)
  show "\<exists>page. get_page (root_id s) t = Inr page \<and> GetPageId page = root_id s \<and> GetParentPageId page = p \<and>
      GetSize page = node_size s \<and> GetMinSize page = min_size ?lm ?im s \<and> \<not> IsRootPage page"
    using tree_at_page [OF T(1)] T(3) by (auto simp: get_page_def IsRootPage_def INVALID_PAGE_ID_def)
  show "get_internal p t = Inr (node_page_of t (parent_of c) p (slots (ls @ (k, s) # rs)))"
    using T(2) by (simp add: internal_at_page get_internal_def get_page_def)
  have "root_id s \<notin> set (forest ids ls)"
    using T(4) root_id_in_ids [of s] by (auto simp: distinct_plug)
  then have "root_id s \<notin> root_id ` snd ` set ls"
    using roots_in_forest by blast
  then show "ValueIndex (root_id s) (node_page_of t (parent_of c) p (slots (ls @ (k, s) # rs))) = length ls"
    using ValueIndex_slots [of s ls t "parent_of c" p k "slots rs"] by simp
qed

text \<open>The neighbour of a node, pinned together with the parent.\<close>

lemma neighbour_page:
  assumes "tree_in t (plug c (Nd p (ls @ (k, s) # rs)))"
  shows "\<exists>page. bt_pages t (root_id s) = Some page \<and> GetPageId page = root_id s \<and>
    GetSize page = node_size s \<and> GetMinSize page = min_size (leaf_max_size t) (internal_max_size t) s"
  using assms tree_at_page [of "bt_pages t" "leaf_max_size t" "internal_max_size t" p s]
  by (auto simp: tree_in_def tree_at_plug)

lemma climb_left:
  fixes t :: "('k :: linorder, 'v) bplus_tree"
  assumes C: "climbing B g ((p, ls @ [(kl, l)], k, rs) # c) s t"
    and small: "\<not> min_size (leaf_max_size t) (internal_max_size t) s \<le> node_size s"
    and IH: "\<And>B t. climbing B (Suc g) c (Nd p (ls @ (kl, join l k s) # rs)) t \<Longrightarrow>
      \<exists>t' T d del. del_up (leaf_max_size t) (internal_max_size t) c (Nd p (ls @ (kl, join l k s) # rs)) = (T, d, del) \<and>
        CoalesceOrRedistribute fuel p t = Inr (d, t') \<and> shrunk B t T del t'"
  shows "\<exists>t' T d del. del_up (leaf_max_size t) (internal_max_size t) ((p, ls @ [(kl, l)], k, rs) # c) s = (T, d, del) \<and>
    CoalesceOrRedistribute (Suc fuel) (root_id s) t = Inr (d, t') \<and> shrunk B t T del t'"
proof -
  let ?lm = "leaf_max_size t" and ?im = "internal_max_size t" and ?q = "root_id l"
  let ?P = "node_page_of t (parent_of c) p (slots ((ls @ [(kl, l)]) @ (k, s) # rs))"
  define u where "u = pin_page ?q (pin_page p t)"
  have h: "hole_ok ?lm ?im g ((p, ls @ [(kl, l)], k, rs) # c) s" and pin: "pinned B t" and ti: "tree_in t (plug c (Nd p ((ls @ [(kl, l)]) @ (k, s) # rs)))"
    and ok: "good_name (index_name t)" "header_ok t" "bt_next t \<le> 2 ^ 31"
    using C by (simp_all add: climbing_def)
  note n = left_neighbour [OF h small]
  obtain page where page: "get_page (root_id s) t = Inr page" "GetPageId page = root_id s" "GetParentPageId page = p"
    "GetSize page = node_size s" "GetMinSize page = min_size ?lm ?im s" "\<not> IsRootPage page"
    using frame_parent(1) [OF C] by blast
  obtain sib where sib: "bt_pages t ?q = Some sib" "GetSize sib = node_size l" "GetMinSize sib = min_size ?lm ?im l"
    using neighbour_page [of t c p ls kl l "(k, s) # rs"] ti by auto
  have u: "leaf_max_size u = ?lm" "internal_max_size u = ?im" "deleted_page_set u = deleted_page_set t" "del_frame t u"
    "pinned (add_mset ?q (add_mset p B)) u" "index_name u = index_name t" "header_ok u" "bt_next u = bt_next t"
    using pin ok by (simp_all add: u_def pin_page_def pinned_def del_frame_def)
  have pair: "pair_at u c p ls kl l k s rs" using ti by (simp add: pair_at_def u_def)
  have val: "Internal_ValueAt (int (length ls)) ?P = Inr ?q"
    by (simp add: Internal_ValueAt_def Internal_item_def nth_append)
  show ?thesis
  proof (cases "min_size ?lm ?im l < node_size l")
    case True
    obtain l' k' s' where sh: "shift_right l k s = (l', k', s')" by (cases "shift_right l k s") auto
    have "1 \<le> node_size l"
      using True min_size_ge [of ?lm ?im l] hole_frame(4,5) [OF h] by linarith
    from Redistribute_prev [OF pair n(3,4) this sh] obtain pg where
      R: "Redistribute ?q (root_id s) p (int (length ls) + 1) True u = Inr (u\<lparr>bt_pages := pg\<rparr>)"
      "tree_in (u\<lparr>bt_pages := pg\<rparr>) (plug c (Nd p (ls @ [(kl, l'), (k', s')] @ rs)))" by blast
    have "pinned (add_mset ?q (add_mset p B)) (u\<lparr>bt_pages := pg\<rparr>)" using u(5) by (simp add: pinned_def)
    from shrunk_release [OF this _ R(2)] have "shrunk (add_mset ?q (add_mset p B)) (u\<lparr>bt_pages := pg\<rparr>)
      (Some (plug c (Nd p (ls @ [(kl, l'), (k', s')] @ rs)))) [] (ReleaseLatchFromQueue (u\<lparr>bt_pages := pg\<rparr>))"
      using u(7) by simp
    from shrunk_unpin [OF this, of t "[]" "[]"] have
      "shrunk B t (Some (plug c (Nd p (ls @ [(kl, l'), (k', s')] @ rs)))) [] (UnpinPage ?q (UnpinPage p (ReleaseLatchFromQueue (u\<lparr>bt_pages := pg\<rparr>))))"
      using u(3,4) by (simp add: del_frame_def)
    moreover have "CoalesceOrRedistribute (Suc fuel) (root_id s) t = Inr (False, UnpinPage ?q (UnpinPage p (ReleaseLatchFromQueue (u\<lparr>bt_pages := pg\<rparr>))))"
      using page small frame_parent(2,3) [OF C] val sib True R(1)
      by (simp add: Let_def FetchPage_def get_page_def pin_page_def u_def add.commute [of 1 "int (length ls)"])
    moreover have "del_up ?lm ?im ((p, ls @ [(kl, l)], k, rs) # c) s = (Some (plug c (Nd p (ls @ [(kl, l'), (k', s')] @ rs))), False, [])"
      using small True sh by (simp add: Let_def)
    ultimately show ?thesis by blast
  next
    case False
    from Coalesce_spec [OF pair n(3,4), of "CoalesceOrRedistribute fuel"] obtain pg where
      R: "Coalesce (CoalesceOrRedistribute fuel) ?q (root_id s) p (length ls + 1) u = CoalesceOrRedistribute fuel p (u\<lparr>bt_pages := pg\<rparr>)"
      "tree_in (u\<lparr>bt_pages := pg\<rparr>) (plug c (Nd p (ls @ (kl, join l k s) # rs)))" by blast
    have "climbing (add_mset ?q (add_mset p B)) (Suc g) c (Nd p (ls @ (kl, join l k s) # rs)) (u\<lparr>bt_pages := pg\<rparr>)"
      using R(2) n(2) [OF False] u ok by (simp add: climbing_def pinned_def)
    from IH [OF this] obtain t' T d del where I: "del_up ?lm ?im c (Nd p (ls @ (kl, join l k s) # rs)) = (T, d, del)"
      "CoalesceOrRedistribute fuel p (u\<lparr>bt_pages := pg\<rparr>) = Inr (d, t')" "shrunk (add_mset ?q (add_mset p B)) (u\<lparr>bt_pages := pg\<rparr>) T del t'"
      using u(1,2) by auto
    let ?ds = "if d then [p] else []"
    have "shrunk B t T (if d then p # del else del) (UnpinPage ?q (UnpinPage p (fold AddIntoDeletedPageSet ?ds t')))"
      using shrunk_unpin [OF I(3), of t "if d then p # del else del" ?ds] u(3,4) by (simp add: del_frame_def)
    moreover have "CoalesceOrRedistribute (Suc fuel) (root_id s) t = Inr (True, UnpinPage ?q (UnpinPage p (fold AddIntoDeletedPageSet ?ds t')))"
      using page small frame_parent(2,3) [OF C] val sib False R(1) I(2)
      by (simp add: Let_def FetchPage_def get_page_def pin_page_def u_def)
    moreover have "del_up ?lm ?im ((p, ls @ [(kl, l)], k, rs) # c) s = (T, True, if d then p # del else del)"
      using small False I(1) by (simp add: Let_def)
    ultimately show ?thesis by blast
  qed
qed

lemma climb_right:
  fixes t :: "('k :: linorder, 'v) bplus_tree"
  assumes C: "climbing B g ((p, [], k, (kr, r) # rs) # c) s t"
    and small: "\<not> min_size (leaf_max_size t) (internal_max_size t) s \<le> node_size s"
    and IH: "\<And>B t. climbing B (Suc g) c (Nd p ((k, join s kr r) # rs)) t \<Longrightarrow>
      \<exists>t' T d del. del_up (leaf_max_size t) (internal_max_size t) c (Nd p ((k, join s kr r) # rs)) = (T, d, del) \<and>
        CoalesceOrRedistribute fuel p t = Inr (d, t') \<and> shrunk B t T del t'"
  shows "\<exists>t' T d del. del_up (leaf_max_size t) (internal_max_size t) ((p, [], k, (kr, r) # rs) # c) s = (T, d, del) \<and>
    CoalesceOrRedistribute (Suc fuel) (root_id s) t = Inr (d, t') \<and> shrunk B t T del t'"
proof -
  let ?lm = "leaf_max_size t" and ?im = "internal_max_size t" and ?q = "root_id r"
  let ?P = "node_page_of t (parent_of c) p (slots ((k, s) # (kr, r) # rs))"
  define u where "u = pin_page ?q (pin_page p t)"
  have h: "hole_ok ?lm ?im g ((p, [], k, (kr, r) # rs) # c) s" and pin: "pinned B t" and ti: "tree_in t (plug c (Nd p ((k, s) # (kr, r) # rs)))"
    and ok: "good_name (index_name t)" "header_ok t" "bt_next t \<le> 2 ^ 31"
    using C by (simp_all add: climbing_def)
  note n = right_neighbour [OF h small]
  obtain page where page: "get_page (root_id s) t = Inr page" "GetPageId page = root_id s" "GetParentPageId page = p"
    "GetSize page = node_size s" "GetMinSize page = min_size ?lm ?im s" "\<not> IsRootPage page"
    using frame_parent(1) [OF C] by blast
  obtain sib where sib: "bt_pages t ?q = Some sib" "GetPageId sib = ?q" "GetSize sib = node_size r" "GetMinSize sib = min_size ?lm ?im r"
    using neighbour_page [of t c p "[(k, s)]" kr r rs] ti by auto
  have u: "leaf_max_size u = ?lm" "internal_max_size u = ?im" "deleted_page_set u = deleted_page_set t" "del_frame t u"
    "pinned (add_mset ?q (add_mset p B)) u" "index_name u = index_name t" "header_ok u" "bt_next u = bt_next t"
    using pin ok by (simp_all add: u_def pin_page_def pinned_def del_frame_def)
  have pair: "pair_at u c p [] k s kr r rs" using ti by (simp add: pair_at_def u_def)
  have val: "Internal_ValueAt 1 ?P = Inr ?q"
    by (simp add: Internal_ValueAt_def Internal_item_def)
  have idx: "ValueIndex ?q ?P = 1"
    using ValueIndex_slots [of r "[(k, s)]" t "parent_of c" p kr "slots rs"] pair_atD(6) [OF pair] by simp
  show ?thesis
  proof (cases "min_size ?lm ?im r < node_size r")
    case True
    obtain s' k' r' where sh: "shift_left s kr r = (s', k', r')" by (cases "shift_left s kr r") auto
    have "2 \<le> node_size r"
      using True min_size_ge [of ?lm ?im r] hole_frame(4,5) [OF h] by linarith
    from Redistribute_next [OF pair n(4,3) this sh] obtain pg where
      R: "Redistribute ?q (root_id s) p 0 False u = Inr (u\<lparr>bt_pages := pg\<rparr>)"
      "tree_in (u\<lparr>bt_pages := pg\<rparr>) (plug c (Nd p ([(k, s'), (k', r')] @ rs)))" by auto
    have "pinned (add_mset ?q (add_mset p B)) (u\<lparr>bt_pages := pg\<rparr>)" using u(5) by (simp add: pinned_def)
    from shrunk_release [OF this _ R(2)] have "shrunk (add_mset ?q (add_mset p B)) (u\<lparr>bt_pages := pg\<rparr>)
      (Some (plug c (Nd p ([(k, s'), (k', r')] @ rs)))) [] (ReleaseLatchFromQueue (u\<lparr>bt_pages := pg\<rparr>))"
      using u(7) by simp
    from shrunk_unpin [OF this, of t "[]" "[]"] have
      "shrunk B t (Some (plug c (Nd p ([(k, s'), (k', r')] @ rs)))) [] (UnpinPage ?q (UnpinPage p (ReleaseLatchFromQueue (u\<lparr>bt_pages := pg\<rparr>))))"
      using u(3,4) by (simp add: del_frame_def)
    moreover have "CoalesceOrRedistribute (Suc fuel) (root_id s) t = Inr (False, UnpinPage ?q (UnpinPage p (ReleaseLatchFromQueue (u\<lparr>bt_pages := pg\<rparr>))))"
      using page small frame_parent(2,3) [OF C] val idx sib True R(1)
      by (simp add: Let_def FetchPage_def get_page_def pin_page_def u_def)
    moreover have "del_up ?lm ?im ((p, [], k, (kr, r) # rs) # c) s = (Some (plug c (Nd p ([(k, s'), (k', r')] @ rs))), False, [])"
      using small True sh by (simp add: Let_def)
    ultimately show ?thesis by blast
  next
    case False
    from Coalesce_spec [OF pair n(4,3), of "CoalesceOrRedistribute fuel"] obtain pg where
      R: "Coalesce (CoalesceOrRedistribute fuel) (root_id s) ?q p 1 u = CoalesceOrRedistribute fuel p (u\<lparr>bt_pages := pg\<rparr>)"
      "tree_in (u\<lparr>bt_pages := pg\<rparr>) (plug c (Nd p ((k, join s kr r) # rs)))" by auto
    have "climbing (add_mset ?q (add_mset p B)) (Suc g) c (Nd p ((k, join s kr r) # rs)) (u\<lparr>bt_pages := pg\<rparr>)"
      using R(2) n(2) [OF False] u ok by (simp add: climbing_def pinned_def)
    from IH [OF this] obtain t' T d del where I: "del_up ?lm ?im c (Nd p ((k, join s kr r) # rs)) = (T, d, del)"
      "CoalesceOrRedistribute fuel p (u\<lparr>bt_pages := pg\<rparr>) = Inr (d, t')" "shrunk (add_mset ?q (add_mset p B)) (u\<lparr>bt_pages := pg\<rparr>) T del t'"
      using u(1,2) by auto
    let ?ds = "?q # (if d then [p] else [])"
    have "shrunk B t T (?q # (if d then p # del else del)) (UnpinPage ?q (UnpinPage p (fold AddIntoDeletedPageSet ?ds t')))"
      using shrunk_unpin [OF I(3), of t "?q # (if d then p # del else del)" ?ds] u(3,4) by (simp add: del_frame_def)
    moreover have "CoalesceOrRedistribute (Suc fuel) (root_id s) t = Inr (False, UnpinPage ?q (UnpinPage p (fold AddIntoDeletedPageSet ?ds t')))"
      using page small frame_parent(2,3) [OF C] val idx sib False R(1) I(2)
      by (simp add: Let_def FetchPage_def get_page_def pin_page_def u_def)
    moreover have "del_up ?lm ?im ((p, [], k, (kr, r) # rs) # c) s = (T, False, ?q # (if d then p # del else del))"
      using small False I(1) by (simp add: Let_def)
    ultimately show ?thesis by blast
  qed
qed


lemma climb_root:
  assumes "climbing B g [] s t"
  shows "\<exists>t' T d del. del_up (leaf_max_size t) (internal_max_size t) [] s = (T, d, del) \<and>
    CoalesceOrRedistribute (Suc fuel) (root_id s) t = Inr (d, t') \<and> shrunk B t T del t'"
proof -
  have c: "tree_in t s" "thin (leaf_max_size t) (internal_max_size t) True s" "pinned B t" "good_name (index_name t)" "header_ok t" "bt_next t \<le> 2 ^ 31"
    using assms by (auto simp: climbing_def hole_ok_def)
  obtain page where page: "get_page (root_id s) t = Inr page" "IsRootPage page"
    using c(1) tree_at_page [of "bt_pages t" _ _ INVALID_PAGE_ID s] by (force simp: tree_in_def get_page_def IsRootPage_def)
  obtain T d del where D: "del_root s = (T, d, del)" by (cases "del_root s") auto
  then have del: "del = []" by (cases s) (auto split: if_splits)
  obtain u where u: "AdjustRoot (root_id s) t = Inr (d, u)" "bt_pins u = bt_pins t" "page_set u = page_set t"
    "deleted_page_set u = deleted_page_set t" "del_frame t u"
    "case T of None \<Rightarrow> root_page_id u = INVALID_PAGE_ID | Some T \<Rightarrow> tree_in u T"
    using AdjustRoot_spec [OF c(1,2,4-6)] D by auto
  have "pinned B u" using c(3) u(2,3) by (simp add: pinned_def)
  then obtain ps where ps: "ReleaseLatchFromQueue u = u\<lparr>bt_pins := ps, page_set := []\<rparr>" "mset ps = B"
    by (rule ReleaseLatchFromQueue_pinned)
  then have "shrunk B t T del (ReleaseLatchFromQueue u)"
    using u(4-6) del by (auto simp: shrunk_def del_frame_def split: option.splits)
  then show ?thesis
    using D page u(1) by simp
qed

lemma CoalesceOrRedistribute_spec:
  assumes "climbing B g c s t" "length c < fuel"
  shows "\<exists>t' T d del. del_up (leaf_max_size t) (internal_max_size t) c s = (T, d, del) \<and>
    CoalesceOrRedistribute fuel (root_id s) t = Inr (d, t') \<and> shrunk B t T del t'"
  using assms
proof (induction c arbitrary: fuel B g s t)
  case Nil
  then show ?case using climb_root [of B g s t] by (cases fuel) (auto simp del: CoalesceOrRedistribute.simps)
next
  case (Cons f c)
  obtain p ls k rs where f: "f = (p, ls, k, rs)" by (cases f) auto
  obtain n where n: "fuel = Suc n" "length c < n" using Cons.prems(2) by (cases fuel) auto
  note C = Cons.prems(1) [unfolded f]
  have IH: "\<exists>t' T d del. del_up (leaf_max_size t) (internal_max_size t) c (Nd p cs) = (T, d, del) \<and>
      CoalesceOrRedistribute n p t = Inr (d, t') \<and> shrunk B t T del t'"
    if "climbing B (Suc g) c (Nd p cs) t" for B t cs
    using Cons.IH [OF that n(2)] by simp
  show ?case
  proof (cases "min_size (leaf_max_size t) (internal_max_size t) s \<le> node_size s")
    case True
    have "shrunk B t (Some (plug (f # c) s)) [] (ReleaseLatchFromQueue t)"
      using Cons.prems(1) by (intro shrunk_release) (simp_all add: climbing_def)
    then show ?thesis
      using True frame_parent(1) [OF C] by (auto simp: f n(1))
  next
    case small: False
    show ?thesis
    proof (cases ls rule: rev_cases)
      case (snoc ls' x)
      obtain kl l where x: "x = (kl, l)" by (cases x) auto
      show ?thesis
        using climb_left [OF C [unfolded snoc x] small IH] unfolding f snoc x n(1) by blast
    next
      case Nil
      have h: "hole_ok (leaf_max_size t) (internal_max_size t) g ((p, ls, k, rs) # c) s"
        using C by (simp add: climbing_def)
      have "rs \<noteq> []"
        using hole_frame(5,10) [OF h] Nil by (auto split: if_splits)
      then obtain kr r rs' where rs: "rs = (kr, r) # rs'"
        by (cases rs) auto
      show ?thesis
        using climb_right [OF C [unfolded Nil rs] small IH] unfolding f Nil rs n(1) by blast
    qed
  qed
qed

section \<open>Remove\<close>

lemma fold_DeletePage:
  "\<exists>pg. fold DeletePage ds t = t\<lparr>bt_pages := pg\<rparr> \<and> (\<forall>p. p \<notin> set ds \<longrightarrow> pg p = bt_pages t p)"
proof (induction ds arbitrary: t)
  case Nil
  show ?case by (auto intro: exI [of _ "bt_pages t"])
next
  case (Cons d ds)
  have "\<exists>pg1. DeletePage d t = t\<lparr>bt_pages := pg1\<rparr> \<and> (\<forall>p. p \<noteq> d \<longrightarrow> pg1 p = bt_pages t p)"
    by (cases "d \<in> set (bt_pins t)") (auto simp: DeletePage_def intro: exI [of _ "bt_pages t"])
  then obtain pg1 where pg1: "DeletePage d t = t\<lparr>bt_pages := pg1\<rparr>" "\<forall>p. p \<noteq> d \<longrightarrow> pg1 p = bt_pages t p" by blast
  obtain pg where pg: "fold DeletePage ds (DeletePage d t) = (DeletePage d t)\<lparr>bt_pages := pg\<rparr>"
    "\<forall>p. p \<notin> set ds \<longrightarrow> pg p = bt_pages (DeletePage d t) p"
    using Cons.IH by blast
  show ?case
    using pg1 pg by (intro exI [of _ pg]) simp
qed

lemma map_of_delete: "distinct (map fst (as @ (k, v) # bs)) \<Longrightarrow> map_of (as @ bs) = (map_of (as @ (k, v) # bs))(k := None)"
  by (induction as) (auto simp: map_of_eq_None_iff fun_eq_iff)

lemma BPlusTree_Remove_unfold:
  assumes "root_page_id t \<noteq> INVALID_PAGE_ID"
    "FindLeaf fuel key DELETE False False (AddIntoPageSet None t) = Inr (p, u)" "get_leaf p u = Inr leaf_node"
    "RemoveAndDeleteRecord key leaf_node = (m, new_node)"
  shows "BPlusTree_Remove True fuel key t =
    (if int (length (leaf_array leaf_node)) = m then Inr (UnpinPage p (ReleaseLatchFromQueue (put_page p (LEAF_PAGE new_node) u)))
     else bind_result (CoalesceOrRedistribute fuel p (put_page p (LEAF_PAGE new_node) u)) (\<lambda>(d, t).
       let t = UnpinPage p (if d then AddIntoDeletedPageSet p t else t)
       in Inr ((fold DeletePage (deleted_page_set t) t)\<lparr>deleted_page_set := []\<rparr>)))"
  using assms by (simp add: BPlusTree_Remove_def IsEmpty_def AddIntoPageSet_def Let_def)

lemma Remove_absent:
  assumes "represents t h xs" "h < fuel" "map_of xs key = None"
  shows "\<exists>t'. BPlusTree_Remove True fuel key t = Inr t' \<and> keeps 0 t t' h xs"
proof (cases "xs = []")
  case True
  then have "root_page_id t = INVALID_PAGE_ID" "page_set t = []" using assms(1) by (simp_all add: represents_def bt_wf_def)
  then have "BPlusTree_Remove True fuel key t = Inr t"
    by (simp add: BPlusTree_Remove_def IsEmpty_def AddIntoPageSet_def ReleaseLatchFromQueue_def)
  then show ?thesis using assms(1) by (simp add: keeps_def)
next
  case False
  obtain c p n ys ps q where f:
    "FindLeaf fuel key DELETE False False (AddIntoPageSet None t) = Inr (p, t\<lparr>bt_pins := ps, page_set := q\<rparr>)"
    and a: "at_leaf t h xs key c p n ys ps q"
    by (rule descend [OF assms(1) False assms(2), of DELETE key]) auto
  note d = at_leafD [OF a]
  let ?u = "t\<lparr>bt_pins := ps, page_set := q\<rparr>"
  have rem: "RemoveAndDeleteRecord key (leaf_of t c p n ys) = (int (length ys), leaf_of t c p n ys)"
    using RemoveAndDeleteRecord_sorted [of "leaf_of t c p n ys" key] d(8,10) assms(3) by simp
  have "bt_pages t p = Some (LEAF_PAGE (leaf_of t c p n ys))"
    using d(1) by (simp add: holds_tree_def tree_at_plug leaf_at_def leaf_of_def)
  then have u: "put_page p (LEAF_PAGE (leaf_of t c p n ys)) ?u = ?u"
    by (cases t) (simp add: put_page_def fun_upd_idem)
  have "pinned (add_mset p (mset (bt_pins t))) ?u" "bt_frame t ?u"
    using d(5) by (simp_all add: pinned_def)
  from finish_leaf [OF this d(6)] obtain ps' where
    fin: "UnpinPage p (ReleaseLatchFromQueue ?u) = t\<lparr>bt_pins := ps', page_set := []\<rparr>"
    "mset ps' = mset (bt_pins t)" "bt_wf (t\<lparr>bt_pins := ps', page_set := []\<rparr>)" by auto
  have "BPlusTree_Remove True fuel key t = Inr (t\<lparr>bt_pins := ps', page_set := []\<rparr>)"
    using BPlusTree_Remove_unfold [OF d(12) f d(7) [folded leaf_of_def] rem] by (simp add: u fin(1))
  moreover have "holds_tree (t\<lparr>bt_pins := ps', page_set := []\<rparr>) h (plug c (Lf p n ys))"
    using d(1) by (simp add: holds_tree_def)
  ultimately show ?thesis
    using fin(2,3) d(2) False by (auto simp: keeps_def represents_def)
qed

text \<open>The state after the entry has left its leaf.\<close>

lemma remove_climbing:
  assumes a: "at_leaf t h xs key c p n (as @ (key, v) # bs) ps q"
  defines "u \<equiv> put_page p (LEAF_PAGE (leaf_of t c p n (as @ bs))) (t\<lparr>bt_pins := ps, page_set := q\<rparr>)"
  shows "climbing (add_mset p (mset (bt_pins t))) 0 c (Lf p n (as @ bs)) u"
proof -
  note d = at_leafD [OF a]
  let ?lm = "leaf_max_size t" and ?im = "internal_max_size t" and ?L = "Lf p n (as @ (key, v) # bs)"
  have H: "tree_at (bt_pages t) ?lm ?im INVALID_PAGE_ID (plug c ?L)" "root_page_id t = root_id (plug c ?L)" "distinct (ids (plug c ?L))"
    "\<forall>p \<in> set (ids (plug c ?L)). 0 < p \<and> p < bt_next t" "sized ?lm ?im True (plug c ?L)" "linked (leaf_links (plug c ?L))"
    "bal h (plug c ?L)"
    using d(1) by (simp_all add: holds_tree_def)
  have r: "root_id (plug c (Lf p n (as @ bs))) = root_id (plug c ?L)"
    by (cases c rule: rev_cases) (auto simp: plug_append split: prod.splits)
  have "p \<notin> set (ctx_ids c)" using H(3) by (simp add: distinct_plug)
  then have "tree_in u (plug c (Lf p n (as @ bs)))"
    using H(1-4) r by (simp add: tree_in_def u_def put_page_def tree_at_plug ctx_at_upd_other leaf_at_def leaf_of_def distinct_plug set_plug_ids)
  moreover have "hole_ok ?lm ?im 0 c (Lf p n (as @ bs))"
    using H(5-7) d(3,6,11) bal_plug [of 0 c ?L]
    by (auto simp: hole_ok_def ordered_plug sized_plug plug_links bt_wf_def split: if_splits)
  moreover have "pinned (add_mset p (mset (bt_pins t))) u" "header_ok u" "bt_next u \<le> 2 ^ 31" "good_name (index_name u)"
    using d(5,6) by (auto simp: pinned_def u_def put_page_def header_ok_def bt_wf_def)
  ultimately show ?thesis
    by (simp add: climbing_def u_def put_page_def)
qed

lemma tree_in_pages:
  assumes "tree_in t T" "\<forall>p \<in> set (ids T). pg p = bt_pages t p"
  shows "tree_in (t\<lparr>bt_pages := pg\<rparr>) T"
  using assms tree_at_cong [of T pg "bt_pages t"] by (simp add: tree_in_def)

text \<open>After the climb the marked pages, none of which belongs to the new tree, are deleted.\<close>

lemma represents_shrunk:
  assumes "shrunk B t T del t'" "tree_ok (leaf_max_size t) (internal_max_size t) h xs T" "bt_wf t0"
    "index_name t = index_name t0" "leaf_max_size t = leaf_max_size t0" "internal_max_size t = internal_max_size t0"
    "bt_next t = bt_next t0" "bt_avail t = bt_avail t0"
    "\<forall>p \<in> set (opt_ids T). pg p = bt_pages t' p"
  shows "\<exists>h' \<le> h. represents (t'\<lparr>bt_pages := pg, bt_pins := ps, deleted_page_set := []\<rparr>) h' xs"
proof -
  let ?t = "t'\<lparr>bt_pages := pg, bt_pins := ps, deleted_page_set := []\<rparr>"
  have wf: "bt_wf ?t"
    using assms(1,3-8) by (simp add: bt_wf_def shrunk_def del_frame_def header_ok_def)
  show ?thesis
  proof (cases T)
    case None
    then have "represents ?t 0 xs"
      using assms(1,2) wf by (simp add: represents_def tree_ok_def shrunk_def)
    then show ?thesis by blast
  next
    case (Some T')
    then have "tree_in (t'\<lparr>bt_pages := pg\<rparr>) T'"
      using assms(1,9) by (intro tree_in_pages) (simp_all add: shrunk_def opt_ids_def)
    moreover obtain h' where h': "h' \<le> h" "bal h' T'"
      using assms(2) Some by (auto simp: tree_ok_def)
    moreover have "leaf_max_size t' = leaf_max_size t" "internal_max_size t' = internal_max_size t"
      using assms(1) by (simp_all add: shrunk_def del_frame_def)
    ultimately have "holds_tree ?t h' T'" "entries T' = xs" "xs \<noteq> []"
      using assms(2) Some by (simp_all add: holds_tree_def tree_in_def tree_ok_def)
    then have "represents ?t h' xs"
      using wf by (auto simp: represents_def)
    then show ?thesis using h'(1) by blast
  qed
qed

lemma Remove_present:
  assumes "represents t h xs" "h < fuel" "map_of xs key = Some w"
  shows "\<exists>t' h' xs'. BPlusTree_Remove True fuel key t = Inr t' \<and> keeps 0 t t' h' xs' \<and> h' \<le> h \<and>
    map_of xs' = (map_of xs)(key := None)"
proof -
  have ne: "xs \<noteq> []" using assms(3) by auto
  obtain c p n ys ps q where f:
    "FindLeaf fuel key DELETE False False (AddIntoPageSet None t) = Inr (p, t\<lparr>bt_pins := ps, page_set := q\<rparr>)"
    and a: "at_leaf t h xs key c p n ys ps q"
    by (rule descend [OF assms(1) ne assms(2), of DELETE key]) auto
  note d = at_leafD [OF a]
  have "map_of ys key = Some w" using d(10) assms(3) by (rule trans [OF sym])
  then obtain as v bs where ys: "ys = as @ (key, v) # bs"
    and rem: "RemoveAndDeleteRecord key (leaf_of t c p n ys) = (int (length ys) - 1, leaf_of t c p n (as @ bs))"
    using RemoveAndDeleteRecord_sorted [of "leaf_of t c p n ys" key] d(8) by auto
  define u where "u = put_page p (LEAF_PAGE (leaf_of t c p n (as @ bs))) (t\<lparr>bt_pins := ps, page_set := q\<rparr>)"
  have cl: "climbing (add_mset p (mset (bt_pins t))) 0 c (Lf p n (as @ bs)) u"
    unfolding u_def using remove_climbing [OF a [unfolded ys]] .
  have uf: "index_name u = index_name t" "leaf_max_size u = leaf_max_size t" "internal_max_size u = internal_max_size t"
    "bt_next u = bt_next t" "bt_avail u = bt_avail t" "deleted_page_set u = []"
    using d(6) by (simp_all add: u_def put_page_def bt_wf_def)
  obtain t1 T dd del where up: "del_up (leaf_max_size t) (internal_max_size t) c (Lf p n (as @ bs)) = (T, dd, del)"
    and co: "CoalesceOrRedistribute fuel p u = Inr (dd, t1)" and sh: "shrunk (add_mset p (mset (bt_pins t))) u T del t1"
    using CoalesceOrRedistribute_spec [OF cl, of fuel] d(3) assms(2) uf by auto
  let ?xs' = "ctx_left entries c @ (as @ bs) @ ctx_right entries c"
  have "rebuilt (leaf_max_size t) (internal_max_size t) 0 c (Lf p n (as @ bs)) (T, dd, del)"
    using del_up_rebuilt [of "leaf_max_size t" "internal_max_size t" 0 c "Lf p n (as @ bs)"] cl uf up by (simp add: climbing_def)
  then have ok: "tree_ok (leaf_max_size t) (internal_max_size t) h ?xs' T"
    and ms: "mset (opt_ids T) + mset del + (if dd then {#p#} else {#}) = mset (ids (plug c (Lf p n ys)))"
    using d(3) by (simp_all add: rebuilt_def plug_ids split: if_splits)
  define t2 where "t2 = UnpinPage p (if dd then AddIntoDeletedPageSet p t1 else t1)"
  have t2: "t2 = t1\<lparr>bt_pins := remove1 p (bt_pins t1), deleted_page_set := deleted_page_set t2\<rparr>"
    "set (deleted_page_set t2) = set del \<union> (if dd then {p} else {})"
    "bt_pages t2 = bt_pages t1"
    using sh uf(6) by (auto simp: t2_def UnpinPage_def AddIntoDeletedPageSet_def shrunk_def)
  obtain pg where pg: "fold DeletePage (deleted_page_set t2) t2 = t2\<lparr>bt_pages := pg\<rparr>"
    "\<forall>p. p \<notin> set (deleted_page_set t2) \<longrightarrow> pg p = bt_pages t2 p"
    using fold_DeletePage by blast
  let ?t' = "t1\<lparr>bt_pages := pg, bt_pins := remove1 p (bt_pins t1), deleted_page_set := []\<rparr>"
  have "BPlusTree_Remove True fuel key t = Inr ((t2\<lparr>bt_pages := pg\<rparr>)\<lparr>deleted_page_set := []\<rparr>)"
    using BPlusTree_Remove_unfold [OF d(12) f d(7) [folded leaf_of_def] rem, folded u_def] co pg(1)
    by (simp add: leaf_of_def Let_def t2_def [symmetric])
  also have "(t2\<lparr>bt_pages := pg\<rparr>)\<lparr>deleted_page_set := []\<rparr> = ?t'" by (subst t2(1)) simp
  finally have r: "BPlusTree_Remove True fuel key t = Inr ?t'" .
  have "distinct (ids (plug c (Lf p n ys)))" using d(1) by (simp add: holds_tree_def)
  then have "distinct (opt_ids T @ del @ (if dd then [p] else []))"
    using ms mset_eq_imp_distinct_iff [of "opt_ids T @ del @ (if dd then [p] else [])" "ids (plug c (Lf p n ys))"] by (simp split: if_splits)
  then have "\<forall>x \<in> set (opt_ids T). x \<notin> set (deleted_page_set t2)" by (auto simp: t2(2) split: if_splits)
  then have "\<forall>x \<in> set (opt_ids T). pg x = bt_pages t1 x" using pg(2) t2(3) by simp
  then obtain h' where h': "h' \<le> h" "represents ?t' h' ?xs'"
    using represents_shrunk [OF sh _ d(6) uf(1-5), of h ?xs' pg "remove1 p (bt_pins t1)"] ok uf by auto
  moreover have "map_of ?xs' = (map_of xs)(key := None)"
  proof -
    have "xs = (ctx_left entries c @ as) @ (key, v) # (bs @ ctx_right entries c)" using d(2) ys by (simp add: plug_entries)
    moreover have "distinct (map fst xs)" using represents_sorted [OF assms(1)] by (simp add: sorted_keys_distinct)
    ultimately show ?thesis using map_of_delete [of "ctx_left entries c @ as" key v "bs @ ctx_right entries c"] by simp
  qed
  moreover have "mset (bt_pins ?t') = mset (bt_pins t)" "bt_avail ?t' = bt_avail t"
    using sh uf by (simp_all add: shrunk_def del_frame_def)
  ultimately show ?thesis
    using r by (intro exI [of _ ?t'] exI [of _ h'] exI [of _ ?xs']) (simp add: keeps_def)
qed

theorem BPlusTree_Remove_spec:
  assumes "represents t h xs" "h < fuel"
  shows "\<exists>t' h' xs'. BPlusTree_Remove True fuel key t = Inr t' \<and> keeps 0 t t' h' xs' \<and> h' \<le> h \<and>
    map_of xs' = (map_of xs)(key := None)"
proof (cases "map_of xs key")
  case None
  then show ?thesis using Remove_absent [OF assms] by (metis fun_upd_triv order_refl)
next
  case (Some w)
  then show ?thesis using Remove_present [OF assms] by blast
qed

end
