(* ===== verification/BPlusTreeScan.thy ===== *)
theory BPlusTreeScan
  imports BPlusTreeFind
begin

text \<open>
  Iteration.  A loop over the iterator from \<^verbatim>\<open>Begin()\<close> until \<^verbatim>\<open>IsEnd()\<close> visits the
  bindings of the tree in key order, moves its pin from leaf to leaf, and ends.
\<close>

section \<open>The leaves of a tree\<close>

fun leaves :: "('k, 'v) btree \<Rightarrow> (page_id_t \<times> page_id_t \<times> ('k \<times> 'v) list) list" where
  "leaves (Lf p n xs) = [(p, n, xs)]"
| "leaves (Nd p cs) = concat (map (\<lambda>c. leaves (snd c)) cs)"

lemma leaves_Nd [simp]: "leaves (Nd p cs) = forest leaves cs"
  by (simp add: forest_def)

declare leaves.simps(2) [simp del]

lemma leaves_entries: "concat (map (\<lambda>l. snd (snd l)) (leaves T)) = entries T"
proof (induction T)
  case (Nd p cs)
  then have "\<forall>c \<in> set cs. concat (map (\<lambda>l. snd (snd l)) (leaves (snd c))) = entries (snd c)"
    by auto
  then have "concat (map (\<lambda>l. snd (snd l)) (forest leaves cs)) = forest entries cs"
    by (induction cs) auto
  then show ?case by simp
qed simp

lemma leaves_links: "map (\<lambda>l. (fst l, fst (snd l))) (leaves T) = leaf_links T"
proof (induction T)
  case (Nd p cs)
  then have "\<forall>c \<in> set cs. map (\<lambda>l. (fst l, fst (snd l))) (leaves (snd c)) = leaf_links (snd c)"
    by auto
  then have "map (\<lambda>l. (fst l, fst (snd l))) (forest leaves cs) = forest leaf_links cs"
    by (induction cs) auto
  then show ?case by simp
qed simp

lemma leaves_at:
  "tree_at pg lm im par T \<Longrightarrow> (p, n, xs) \<in> set (leaves T) \<Longrightarrow> \<exists>par. leaf_at pg lm par p n xs"
proof (induction T arbitrary: par)
  case (Nd q cs)
  then show ?case by (fastforce simp: forest_def)
qed auto

lemma leaves_nonempty:
  "sized lm im r T \<Longrightarrow> 2 \<le> lm \<Longrightarrow> (p, n, xs) \<in> set (leaves T) \<Longrightarrow> xs \<noteq> []"
proof (induction T arbitrary: r)
  case (Nd q cs)
  then show ?case by (fastforce simp: forest_def)
qed (auto split: if_splits)

lemma leaves_ids: "(p, n, xs) \<in> set (leaves T) \<Longrightarrow> p \<in> set (ids T)"
proof (induction T)
  case (Nd q cs)
  then show ?case by (fastforce simp: forest_def)
qed auto

lemma plug_leaves: "leaves (plug c t) = ctx_left leaves c @ leaves t @ ctx_right leaves c"
  by (induction c t rule: plug.induct) simp_all

section \<open>The loop\<close>

text \<open>\<^verbatim>\<open>for (; !it.IsEnd(); ++it) { ... *it ... }\<close>, collecting what is visited.\<close>

fun scan :: "nat \<Rightarrow> iterator \<Rightarrow> ('k, 'v) bplus_tree \<Rightarrow> (('k \<times> 'v) list \<times> iterator \<times> ('k, 'v) bplus_tree) result" where
  "scan 0 it t = Inl OutOfFuel"
| "scan (Suc fuel) it t =
     bind_result (IsEnd it t) (\<lambda>e.
       if e then Inr ([], it, t)
       else bind_result (Iterator_deref it t) (\<lambda>x.
            bind_result (Iterator_next it t) (\<lambda>(it, t).
            bind_result (scan fuel it t) (\<lambda>(xs, it, t). Inr (x # xs, it, t)))))"

definition scan_all :: "nat \<Rightarrow> ('k :: {linorder, zero}, 'v) bplus_tree \<Rightarrow> (('k \<times> 'v) list \<times> ('k, 'v) bplus_tree) result" where
  "scan_all fuel t =
     bind_result (Begin fuel t) (\<lambda>(it, t).
     bind_result (scan fuel it t) (\<lambda>(xs, it, t). Inr (xs, Iterator_delete it t)))"

text \<open>A run of leaves in the buffer pool, linked and not empty.\<close>

definition leaf_run :: "('k, 'v) bplus_tree \<Rightarrow> (page_id_t \<times> page_id_t \<times> ('k \<times> 'v) list) list \<Rightarrow> bool" where
  "leaf_run t ls \<longleftrightarrow> (\<forall>(p, n, xs) \<in> set ls. xs \<noteq> [] \<and> p \<noteq> INVALID_PAGE_ID \<and>
      (\<exists>leaf. get_leaf p t = Inr leaf \<and> next_page_id leaf = n \<and> leaf_array leaf = xs)) \<and>
     linked (map (\<lambda>l. (fst l, fst (snd l))) ls)"

lemma leaf_run_append: "leaf_run t (xs @ ys) \<Longrightarrow> leaf_run t ys"
  by (auto simp: leaf_run_def dest: linked_append)

lemma leaf_run_Cons:
  assumes "leaf_run t ((p, n, xs) # ls)"
  shows "leaf_run t ls" "xs \<noteq> []"
    "\<exists>leaf. get_leaf p t = Inr leaf \<and> next_page_id leaf = n \<and> leaf_array leaf = xs"
    "n = (case ls of [] \<Rightarrow> INVALID_PAGE_ID | l # _ \<Rightarrow> fst l)"
    "ls \<noteq> [] \<Longrightarrow> n \<noteq> INVALID_PAGE_ID"
  using assms leaf_run_append [of t "[(p, n, xs)]" ls] by (cases ls; force simp: leaf_run_def)+

lemma leaf_run_pins [simp]: "leaf_run (t\<lparr>bt_pins := ps\<rparr>) ls = leaf_run t ls"
  by (simp add: leaf_run_def get_leaf_def get_page_def)

lemma scan_leaves:
  assumes "leaf_run t ((p, n, xs) # ls)" "i \<le> length xs" "i = length xs \<longrightarrow> ls = []"
    "length (drop i xs) + length (concat (map (\<lambda>l. snd (snd l)) ls)) < fuel" "mset (bt_pins t) = add_mset p B"
  shows "\<exists>it q ps. scan fuel \<lparr>it_leaf = Some p, it_index = int i\<rparr> t =
      Inr (drop i xs @ concat (map (\<lambda>l. snd (snd l)) ls), it, t\<lparr>bt_pins := ps\<rparr>) \<and>
    it_leaf it = Some q \<and> mset ps = add_mset q B"
  using assms
proof (induction fuel arbitrary: p n xs ls i t)
  case (Suc fuel)
  let ?it = "\<lparr>it_leaf = Some p, it_index = int i\<rparr>"
  note run = leaf_run_Cons [OF Suc.prems(1)]
  obtain leaf where leaf: "get_leaf p t = Inr leaf" "next_page_id leaf = n" "leaf_array leaf = xs"
    using run(3) by blast
  show ?case
  proof (cases "i = length xs")
    case True
    then show ?thesis
      using leaf run(4) Suc.prems(3,5)
      by (intro exI [of _ ?it, OF exI [of _ p, OF exI [of _ "bt_pins t"]]]) (simp add: IsEnd_def)
  next
    case False
    then have i: "i < length xs" "drop i xs = xs ! i # drop (Suc i) xs"
      using Suc.prems(2) by (simp_all add: Cons_nth_drop_Suc)
    have step: "IsEnd ?it t = Inr False" "Iterator_deref ?it t = Inr (xs ! i)"
      using leaf i(1) by (simp_all add: IsEnd_def Iterator_deref_def Leaf_GetItem_def)
    show ?thesis
    proof (cases "Suc i = length xs \<and> ls \<noteq> []")
      case True
      then obtain n' ys ls' where ls: "ls = (n, n', ys) # ls'"
        using run(4) by (cases ls) auto
      let ?t = "t\<lparr>bt_pins := remove1 p (n # bt_pins t)\<rparr>"
      obtain leaf' where "get_leaf n t = Inr leaf'"
        using leaf_run_Cons(3) [OF run(1) [unfolded ls]] by blast
      then obtain page where "get_page n t = Inr page"
        by (auto simp: get_leaf_def bind_result_def split: sum.splits)
      then have nxt: "Iterator_next ?it t = Inr (\<lparr>it_leaf = Some n, it_index = 0\<rparr>, ?t)"
        using leaf True run(5) i(1)
        by (simp add: Iterator_next_def FetchPage_def UnpinPage_def pin_page_def nat_eq_iff2 of_nat_diff)
      have "\<exists>it q ps. scan fuel \<lparr>it_leaf = Some n, it_index = int 0\<rparr> ?t =
          Inr (drop 0 ys @ concat (map (\<lambda>l. snd (snd l)) ls'), it, ?t\<lparr>bt_pins := ps\<rparr>) \<and>
        it_leaf it = Some q \<and> mset ps = add_mset q B"
        using run(1) leaf_run_Cons(2) [OF run(1) [unfolded ls]] Suc.prems(4,5) i
        by (intro Suc.IH) (auto simp: ls)
      then show ?thesis
        using step nxt True i(2) by (auto simp: ls)
    next
      case False
      then have nxt: "Iterator_next ?it t = Inr (\<lparr>it_leaf = Some p, it_index = int (Suc i)\<rparr>, t)"
        using leaf i(1) run(4) by (auto simp: Iterator_next_def split: list.splits)
      have "\<exists>it q ps. scan fuel \<lparr>it_leaf = Some p, it_index = int (Suc i)\<rparr> t =
          Inr (drop (Suc i) xs @ concat (map (\<lambda>l. snd (snd l)) ls), it, t\<lparr>bt_pins := ps\<rparr>) \<and>
        it_leaf it = Some q \<and> mset ps = add_mset q B"
        using Suc.prems False i by (intro Suc.IH) auto
      then show ?thesis
        using step nxt i(2) by auto
    qed
  qed
qed simp

lemma holds_tree_run:
  assumes "holds_tree t h T" "2 \<le> leaf_max_size t"
  shows "leaf_run t (leaves T)"
proof -
  have "xs \<noteq> [] \<and> p \<noteq> INVALID_PAGE_ID \<and> (\<exists>leaf. get_leaf p t = Inr leaf \<and> next_page_id leaf = n \<and> leaf_array leaf = xs)"
    if l: "(p, n, xs) \<in> set (leaves T)" for p n xs
  proof -
    obtain par where "leaf_at (bt_pages t) (leaf_max_size t) par p n xs"
      using leaves_at [OF _ l] assms(1) unfolding holds_tree_def by blast
    moreover have "xs \<noteq> []"
      using leaves_nonempty [OF _ assms(2) l] assms(1) unfolding holds_tree_def by blast
    moreover have "p \<noteq> INVALID_PAGE_ID"
      using leaves_ids [OF l] assms(1) by (auto simp: holds_tree_def INVALID_PAGE_ID_def)
    ultimately show ?thesis
      by (auto simp: leaf_at_def get_leaf_def get_page_def)
  qed
  then show ?thesis
    using assms(1) by (auto simp: leaf_run_def leaves_links holds_tree_def)
qed

lemma leftmost_path: "path_ok key True rightMost c \<Longrightarrow> ctx_left f c = []"
  by (induction c) (auto simp: path_ok_def)

lemma rightmost_path: "path_ok key False True c \<Longrightarrow> ctx_right f c = []"
  by (induction c) (auto simp: path_ok_def)

lemma scan_all_spec:
  fixes t :: "('k :: {linorder, zero}, 'v) bplus_tree"
  assumes "represents t h xs" "h < fuel" "length xs < fuel"
  shows "\<exists>ps. scan_all fuel t = Inr (xs, t\<lparr>bt_pins := ps\<rparr>) \<and> mset ps = mset (bt_pins t)"
proof (cases "xs = []")
  case True
  then have "root_page_id t = INVALID_PAGE_ID" using assms(1) by (simp add: represents_def)
  moreover obtain f where "fuel = Suc f" using assms(2) by (cases fuel) auto
  ultimately show ?thesis
    using True by (intro exI [of _ "bt_pins t"]) (simp add: scan_all_def Begin_def IsEnd_def Iterator_delete_def)
next
  case False
  then obtain T where T: "holds_tree t h T" "entries T = xs" and wf: "page_set t = []" "2 \<le> leaf_max_size t"
    using assms(1) by (auto simp: represents_def bt_wf_def)
  obtain c p n ys ps where f: "FindLeaf fuel 0 SEARCH True False t = Inr (p, t\<lparr>bt_pins := ps\<rparr>)"
    "T = plug c (Lf p n ys)" "path_ok 0 True False c" "mset ps = add_mset p (mset (bt_pins t))"
    by (rule FindLeaf_search [OF T(1) assms(2) _ wf(1), of True False 0]) auto
  have lv: "leaves T = (p, n, ys) # ctx_right leaves c"
    using f(2) leftmost_path [OF f(3), of leaves] by (simp add: plug_leaves)
  let ?ls = "ctx_right leaves c"
  have e: "ys @ concat (map (\<lambda>l. snd (snd l)) ?ls) = xs"
    using leaves_entries [of T] T(2) unfolding lv by simp
  have run: "leaf_run (t\<lparr>bt_pins := ps\<rparr>) ((p, n, ys) # ?ls)"
    using holds_tree_run [OF T(1) wf(2)] unfolding lv by simp
  have "\<exists>it q ps'. scan fuel \<lparr>it_leaf = Some p, it_index = int 0\<rparr> (t\<lparr>bt_pins := ps\<rparr>) =
      Inr (drop 0 ys @ concat (map (\<lambda>l. snd (snd l)) ?ls), it, (t\<lparr>bt_pins := ps\<rparr>)\<lparr>bt_pins := ps'\<rparr>) \<and>
    it_leaf it = Some q \<and> mset ps' = add_mset q (mset (bt_pins t))"
    using leaf_run_Cons(2) [OF run] assms(3) e f(4) by (intro scan_leaves [OF run]) auto
  then obtain it q ps' where s: "scan fuel \<lparr>it_leaf = Some p, it_index = 0\<rparr> (t\<lparr>bt_pins := ps\<rparr>) = Inr (xs, it, t\<lparr>bt_pins := ps'\<rparr>)"
    "it_leaf it = Some q" "mset ps' = add_mset q (mset (bt_pins t))"
    using e by auto
  show ?thesis
    using holds_tree_root [OF T(1)] s
    by (intro exI [of _ "remove1 q ps'"]) (simp add: scan_all_def Begin_def f(1) Iterator_delete_def UnpinPage_def)
qed

section \<open>Range scans\<close>

definition scan_from :: "nat \<Rightarrow> 'k :: linorder \<Rightarrow> ('k, 'v) bplus_tree \<Rightarrow> (('k \<times> 'v) list \<times> ('k, 'v) bplus_tree) result" where
  "scan_from fuel key t =
     bind_result (Begin_at fuel key t) (\<lambda>(it, t).
     bind_result (scan fuel it t) (\<lambda>(xs, it, t). Inr (xs, Iterator_delete it t)))"

lemma dropWhile_middle:
  assumes "sorted_keys (ls @ as @ (key, v) # bs)"
  shows "dropWhile (\<lambda>x. fst x < key) (ls @ as @ (key, v) # bs) = (key, v) # bs"
    "takeWhile (\<lambda>x. fst x < key) (as @ (key, v) # bs) = as"
proof -
  have "\<forall>x \<in> set ls \<union> set as. fst x < key"
    using assms by (fastforce simp: sorted_keys_def sorted_wrt_append)
  then show "dropWhile (\<lambda>x. fst x < key) (ls @ as @ (key, v) # bs) = (key, v) # bs"
    "takeWhile (\<lambda>x. fst x < key) (as @ (key, v) # bs) = as"
    by (simp_all add: dropWhile_append2)
qed

lemma scan_from_spec:
  fixes t :: "('k :: linorder, 'v) bplus_tree"
  assumes "represents t h xs" "h < fuel" "length xs < fuel" "map_of xs key \<noteq> None"
  shows "\<exists>ps. scan_from fuel key t = Inr (dropWhile (\<lambda>x. fst x < key) xs, t\<lparr>bt_pins := ps\<rparr>) \<and> mset ps = mset (bt_pins t)"
proof -
  have "xs \<noteq> []" using assms(4) by auto
  then obtain T where T: "holds_tree t h T" "entries T = xs" and wf: "page_set t = []" "2 \<le> leaf_max_size t"
    using assms(1) by (auto simp: represents_def bt_wf_def)
  obtain c p n ys ps where f: "FindLeaf fuel key SEARCH False False t = Inr (p, t\<lparr>bt_pins := ps\<rparr>)"
    "T = plug c (Lf p n ys)" "path_ok key False False c" "mset ps = add_mset p (mset (bt_pins t))"
    by (rule FindLeaf_search [OF T(1) assms(2) _ wf(1), of False False key]) auto
  have o: "ordered None None T" "sorted_keys ys"
    using T(1) f(2) by (auto simp: holds_tree_def ordered_plug)
  have "map_of ys key \<noteq> None"
    using map_of_hole [of c p n ys key] o(1) f(2,3) T(2) assms(4) by simp
  then obtain v where "(key, v) \<in> set ys" by (auto dest: map_of_SomeD)
  then obtain as bs where ys: "ys = as @ (key, v) # bs" by (meson split_list)
  let ?ls = "ctx_right leaves c" and ?i = "length as"
  have lv: "leaves T = ctx_left leaves c @ (p, n, ys) # ?ls"
    using f(2) by (simp add: plug_leaves)
  have r: "xs = concat (map (\<lambda>l. snd (snd l)) (ctx_left leaves c)) @ as @ (key, v) # bs @ concat (map (\<lambda>l. snd (snd l)) ?ls)"
    using leaves_entries [of T] T(2) lv ys by simp
  have d: "dropWhile (\<lambda>x. fst x < key) xs = drop ?i ys @ concat (map (\<lambda>l. snd (snd l)) ?ls)"
    using dropWhile_middle(1) [OF represents_sorted [OF assms(1), unfolded r]] ys by (simp add: r)
  have i: "Leaf_KeyIndex key \<lparr>max_size = leaf_max_size t, parent_page_id = parent_of c, self_page_id = p, next_page_id = n, leaf_array = ys\<rparr> = ?i"
    using dropWhile_middle(2) [of "[]" as key v bs] o(2) ys by (simp add: Leaf_KeyIndex_sorted)
  have run: "leaf_run (t\<lparr>bt_pins := ps\<rparr>) ((p, n, ys) # ?ls)"
    using leaf_run_append [of t "ctx_left leaves c"] holds_tree_run [OF T(1) wf(2)] lv by simp
  have "length (drop ?i ys) + length (concat (map (\<lambda>l. snd (snd l)) ?ls)) \<le> length xs"
    using r ys by auto
  then have "\<exists>it q ps'. scan fuel \<lparr>it_leaf = Some p, it_index = int ?i\<rparr> (t\<lparr>bt_pins := ps\<rparr>) =
      Inr (drop ?i ys @ concat (map (\<lambda>l. snd (snd l)) ?ls), it, (t\<lparr>bt_pins := ps\<rparr>)\<lparr>bt_pins := ps'\<rparr>) \<and>
    it_leaf it = Some q \<and> mset ps' = add_mset q (mset (bt_pins t))"
    using assms(3) f(4) ys by (intro scan_leaves [OF run]) auto
  then obtain it q ps' where s: "scan fuel \<lparr>it_leaf = Some p, it_index = int ?i\<rparr> (t\<lparr>bt_pins := ps\<rparr>) =
      Inr (dropWhile (\<lambda>x. fst x < key) xs, it, t\<lparr>bt_pins := ps'\<rparr>)"
    "it_leaf it = Some q" "mset ps' = add_mset q (mset (bt_pins t))"
    unfolding d by auto
  have "get_leaf p (t\<lparr>bt_pins := ps\<rparr>) = Inr \<lparr>max_size = leaf_max_size t, parent_page_id = parent_of c,
    self_page_id = p, next_page_id = n, leaf_array = ys\<rparr>"
    using T(1) f(2) by (intro get_leaf_hole [where im = "internal_max_size t"]) (simp add: holds_tree_def)
  then show ?thesis
    using holds_tree_root [OF T(1)] s
    by (intro exI [of _ "remove1 q ps'"]) (simp add: scan_from_def Begin_at_def f(1) i Iterator_delete_def UnpinPage_def)
qed

end
