(* ===== verification/BPlusTreeSpec.thy ===== *)
theory BPlusTreeSpec
  imports BPlusTreeDelete BPlusTreeScan Interfaces
begin

text \<open>
  What the B+ tree promises its clients.  A tree that represents a list of bindings answers point
  queries from it, and insertion and removal lead to a tree that represents the updated map.  The
  height is logarithmic in the number of bindings, so fuel \<open>n\<close> is enough for every tree with
  fewer than \<open>2 ^ n\<close> bindings.  Together the operations implement the index interface: any
  sequence of requests is answered as a finite map answers it.
\<close>

section \<open>Height\<close>

lemma forest_length_ge:
  assumes "\<forall>c \<in> set cs. m \<le> length (entries (snd c))"
  shows "length cs * m \<le> length (forest entries cs)"
  using assms by (induction cs) auto

lemma entries_length:
  "sized lm im r T \<Longrightarrow> bal h T \<Longrightarrow> 2 \<le> lm \<Longrightarrow> 3 \<le> im \<Longrightarrow> 2 ^ h \<le> length (entries T)"
proof (induction T arbitrary: r h)
  case (Lf p n xs)
  then have "xs \<noteq> []" by (auto split: if_splits)
  then show ?case using Lf by (simp add: Suc_leI)
next
  case (Nd p cs)
  obtain g where h: "h = Suc g" using Nd.prems(2) by (cases h) auto
  have "2 ^ g \<le> length (entries (snd c))" if "c \<in> set cs" for c
    using Nd.IH [of c "snd c" False g] Nd.prems that h by (cases c) force
  then have "length cs * 2 ^ g \<le> length (forest entries cs)"
    by (intro forest_length_ge) blast
  moreover have "2 \<le> length cs"
    using Nd.prems by (auto split: if_splits)
  then have "2 * 2 ^ g \<le> length cs * (2 :: nat) ^ g"
    by (rule mult_le_mono1)
  ultimately have "2 * 2 ^ g \<le> length (forest entries cs)" by (rule le_trans [rotated])
  then show ?case using h by simp
qed

lemma represents_height: "represents t h xs \<Longrightarrow> xs \<noteq> [] \<Longrightarrow> 2 ^ h \<le> length xs"
  using entries_length by (fastforce simp: represents_def holds_tree_def bt_wf_def)

lemma represents_fuel:
  assumes "represents t h xs" "length xs < 2 ^ fuel" "0 < fuel"
  shows "h < fuel"
proof (cases "xs = []")
  case True
  then show ?thesis using assms by (simp add: represents_def)
next
  case False
  then have "(2 :: nat) ^ h < 2 ^ fuel"
    using represents_height [OF assms(1)] assms(2) by linarith
  then show ?thesis by simp
qed

lemma length_map_of: "sorted_keys xs \<Longrightarrow> length xs = card (dom (map_of xs))"
  by (metis dom_map_of_conv_image_fst distinct_card length_map list.set_map sorted_keys_distinct)

lemma dropWhile_sorted_keys:
  "sorted_keys xs \<Longrightarrow> dropWhile (\<lambda>x. fst x < key) xs = filter (\<lambda>x. key \<le> fst x) xs"
proof (induction xs)
  case (Cons x xs)
  then have s: "sorted_keys xs" "\<forall>y \<in> set xs. fst x < fst y" by (auto simp: sorted_keys_def)
  show ?case
  proof (cases "fst x < key")
    case False
    then have "\<forall>y \<in> set xs. key \<le> fst y" using s(2) by fastforce
    then show ?thesis using False by (simp add: filter_id_conv)
  qed (use Cons.IH s(1) in simp)
qed simp

section \<open>The tree as an index\<close>

definition bt_rep :: "nat \<Rightarrow> ('k :: linorder, 'v) bplus_tree \<Rightarrow> ('k \<rightharpoonup> 'v) \<Rightarrow> nat \<Rightarrow> bool" where
  "bt_rep fuel t m r \<longleftrightarrow> (\<exists>h xs. represents t h xs \<and> map_of xs = m \<and> length xs + r < 2 ^ fuel) \<and>
     r * (fuel + 1) \<le> bt_avail t \<and> 0 < fuel"

lemma bt_rep_insert:
  fixes t :: "('k :: {linorder, zero}, 'v) bplus_tree"
  assumes "bt_rep fuel t m (Suc r)"
  shows "\<exists>t'. BPlusTree_Insert fuel k v t = Inr (m k = None, t') \<and> bt_rep fuel t' (put_new k v m) r"
proof -
  obtain h xs where r: "represents t h xs" "map_of xs = m" "length xs + Suc r < 2 ^ fuel" "0 < fuel" "Suc r * (fuel + 1) \<le> bt_avail t"
    using assms by (auto simp: bt_rep_def)
  have h: "h < fuel" by (rule represents_fuel [OF r(1) _ r(4)]) (use r(3) in simp)
  moreover have "h + 1 < bt_avail t" using h r(5) by simp
  ultimately obtain t' h' xs' where i: "BPlusTree_Insert fuel k v t = Inr (m k = None, t')" "keeps (h + 2) t t' h' xs'"
    "map_of xs' = put_new k v m"
    using BPlusTree_Insert_spec [OF r(1), of fuel k v] r(2) by (auto simp: put_new_def)
  have "length xs' \<le> Suc (length xs)"
    using length_map_of [OF represents_sorted [OF r(1)]] length_map_of [of xs'] represents_sorted [of t' h' xs'] i(2,3) r(2)
      card_insert_le_m1 [of "Suc (card (dom m))" "dom m" k]
    by (auto simp: keeps_def put_new_def dom_fun_upd)
  moreover have "r * (fuel + 1) \<le> bt_avail t'" using i(2) h r(5) by (simp add: keeps_def)
  ultimately show ?thesis
    using i r(3,4) by (auto simp: bt_rep_def keeps_def intro!: exI [of _ h'] exI [of _ xs'])
qed

lemma bt_rep_remove:
  fixes t :: "('k :: linorder, 'v) bplus_tree"
  assumes "bt_rep fuel t m r"
  shows "\<exists>t'. BPlusTree_Remove True fuel k t = Inr t' \<and> bt_rep fuel t' (m(k := None)) r"
proof -
  obtain h xs where r: "represents t h xs" "map_of xs = m" "length xs + r < 2 ^ fuel" "0 < fuel" "r * (fuel + 1) \<le> bt_avail t"
    using assms by (auto simp: bt_rep_def)
  have h: "h < fuel" by (rule represents_fuel [OF r(1) _ r(4)]) (use r(3) in simp)
  obtain t' h' xs' where i: "BPlusTree_Remove True fuel k t = Inr t'" "keeps 0 t t' h' xs'" "map_of xs' = m(k := None)"
    using BPlusTree_Remove_spec [OF r(1) h, of k] r(2) by blast
  have "card (dom (m(k := None))) \<le> card (dom m)"
    using r(2) by (auto simp: finite_dom_map_of card_Diff1_le)
  then have "length xs' \<le> length xs"
    using length_map_of [OF represents_sorted [OF r(1)]] length_map_of [of xs'] represents_sorted [of t' h' xs'] i(2,3) r(2)
    by (simp add: keeps_def)
  moreover have "r * (fuel + 1) \<le> bt_avail t'" using i(2) r(5) by (simp add: keeps_def)
  ultimately show ?thesis
    using i r(3,4) by (auto simp: bt_rep_def keeps_def intro!: exI [of _ h'] exI [of _ xs'])
qed

lemma represents_pins [simp]: "represents (t\<lparr>bt_pins := ps\<rparr>) h xs = represents t h xs"
  by (simp add: represents_def bt_wf_def holds_tree_def)

lemma bt_rep_get:
  assumes "bt_rep fuel t m r" "m \<noteq> Map.empty"
  shows "\<exists>t'. GetValue fuel k t = Inr (m k, t') \<and> bt_rep fuel t' m r"
proof -
  obtain h xs where r: "represents t h xs" "map_of xs = m" "length xs + r < 2 ^ fuel" "0 < fuel" "r * (fuel + 1) \<le> bt_avail t"
    using assms by (auto simp: bt_rep_def)
  have h: "h < fuel" by (rule represents_fuel [OF r(1) _ r(4)]) (use r(3) in simp)
  have ne: "xs \<noteq> []" using assms(2) r(2) by auto
  obtain ps where "GetValue fuel k t = Inr (map_of xs k, t\<lparr>bt_pins := ps\<rparr>)"
    using GetValue_spec [OF r(1) ne h, of k] by blast
  then show ?thesis
    using r by (auto simp: bt_rep_def intro!: exI [of _ h] exI [of _ xs])
qed

lemma bt_rep_get_empty:
  assumes "bt_rep fuel t Map.empty r"
  shows "GetValue fuel k t = Inl AssertionFailure"
  using assms by (auto simp: bt_rep_def represents_def GetValue_def FindLeaf_def split: if_splits)

interpretation bt: map_index "bt_rep fuel" "BPlusTree_Insert fuel" "BPlusTree_Remove True fuel" "GetValue fuel"
  for fuel
  by unfold_locales (blast intro: bt_rep_insert bt_rep_remove bt_rep_get bt_rep_get_empty)+

lemma represents_init:
  "2 \<le> lm \<Longrightarrow> 3 \<le> im \<Longrightarrow> 0 < n \<Longrightarrow> n + int avail \<le> 2 ^ 31 \<Longrightarrow> good_name name \<Longrightarrow> holds header rs \<Longrightarrow>
    represents (BPlusTree_init name header n avail lm im) 0 []"
  by (auto simp: represents_def bt_wf_def BPlusTree_init_def)

lemma FindLeaf_reaches:
  assumes "represents t h xs" "xs \<noteq> []" "h < fuel"
  shows "\<exists>leaf t' node. FindLeaf fuel key op False False t = Inr (leaf, t') \<and> get_leaf leaf t' = Inr node"
proof -
  obtain T where T: "holds_tree t h T" using assms(1,2) by (auto simp: represents_def)
  have b: "pinned (mset (bt_pins t)) t" using assms(1) by (simp add: pinned_def represents_def bt_wf_def)
  obtain c p n ys ps q where "FindLeaf fuel key op False False t = Inr (p, t\<lparr>bt_pins := ps, page_set := q\<rparr>)"
    "T = plug c (Lf p n ys)"
    using FindLeaf_spec [OF T assms(3) _ b, of op False False key] by blast
  moreover from this T have "get_leaf p (t\<lparr>bt_pins := ps, page_set := q\<rparr>) = Inr \<lparr>max_size = leaf_max_size t,
      parent_page_id = parent_of c, self_page_id = p, next_page_id = n, leaf_array = ys\<rparr>"
    by (intro get_leaf_hole [where im = "internal_max_size t"]) (simp add: holds_tree_def)
  ultimately show ?thesis by blast
qed

section \<open>Properties\<close>

text \<open>
  C14. From an empty tree, any sequence of insertions, removals and point queries is answered as a
  finite map answers it, and the tree ends up representing that map.  The only failure is the
  assertion of a query while the map is empty.  The fuel \<open>fuel\<close> suffices while there are
  fewer than \<open>2 ^ fuel\<close> insertions, and the buffer pool must be able to hand out
  \<open>fuel + 1\<close> pages for each of them.
\<close>

theorem bplus_tree_refines_map:
  fixes ops :: "('k :: {linorder, zero}, 'v) index_op list"
  assumes "2 \<le> lm" "3 \<le> im" "0 < n" "n + int avail \<le> 2 ^ 31" "good_name name" "holds header rs"
    "0 < fuel" "insertions ops < 2 ^ fuel" "insertions ops * (fuel + 1) \<le> avail"
  shows "case index_spec ops Map.empty of
      Inl e \<Rightarrow> index_run (BPlusTree_Insert fuel) (BPlusTree_Remove True fuel) (GetValue fuel) ops
        (BPlusTree_init name header n avail lm im) = Inl e
    | Inr (outs, m) \<Rightarrow> \<exists>t' h xs. index_run (BPlusTree_Insert fuel) (BPlusTree_Remove True fuel) (GetValue fuel) ops
        (BPlusTree_init name header n avail lm im) = Inr (outs, t') \<and> represents t' h xs \<and> map_of xs = m"
proof -
  have "bt_rep fuel (BPlusTree_init name header n avail lm im) Map.empty (insertions ops + 0)"
    using represents_init [OF assms(1-6)] assms(7-9) by (auto simp: bt_rep_def BPlusTree_init_def)
  from bt.run_refines [OF this] show ?thesis
    by (auto simp: bt_rep_def split: sum.splits)
qed

theorem bplus_tree_refines_map_witness:
  "\<exists>t' h xs. index_run (BPlusTree_Insert 2) (BPlusTree_Remove True 2) (GetValue 2)
     [InsertEntry 5 50, InsertEntry 3 30, InsertEntry 5 51, ScanKey 5, DeleteEntry 5, ScanKey 5]
     (BPlusTree_init ''idx'' (replicate 4096 0) 1 9 2 3 :: (int, int) bplus_tree) =
   Inr ([Inserted True, Inserted True, Inserted False, Found (Some 50), Deleted, Found None], t') \<and>
   represents t' h xs \<and> map_of xs = [3 \<mapsto> 30]"
  using bplus_tree_refines_map [of 2 3 1 9 "''idx''" "replicate 4096 0" "[]" 2
    "[InsertEntry 5 50, InsertEntry 3 30, InsertEntry 5 51, ScanKey 5, DeleteEntry 5, ScanKey (5 :: int)] :: (int, int) index_op list"]
    holds_blank by (simp add: put_new_def good_name_def)

text \<open>A small tree for the examples: one leaf with two bindings.\<close>

definition sample_tree :: "(int, int) bplus_tree" where
  "sample_tree = (BPlusTree_init ''idx'' (replicate 4096 0) 2 100 3 3)\<lparr>root_page_id := 1,
     bt_pages := [1 \<mapsto> LEAF_PAGE \<lparr>max_size = 3, parent_page_id = INVALID_PAGE_ID, self_page_id = 1,
       next_page_id = INVALID_PAGE_ID, leaf_array = [(1, 10), (2, 20)]\<rparr>]\<rparr>"

lemma sample_represents: "represents sample_tree 0 [(1, 10), (2, 20)]"
proof -
  have "holds_tree sample_tree 0 (Lf 1 INVALID_PAGE_ID [(1, 10), (2, 20)])"
    by (simp add: holds_tree_def sample_tree_def BPlusTree_init_def leaf_at_def sorted_keys_def)
  moreover have "bt_wf sample_tree"
    using holds_blank by (auto simp: bt_wf_def sample_tree_def BPlusTree_init_def good_name_def)
  ultimately show ?thesis by (auto simp: represents_def)
qed

text \<open>
  C15. An insertion ends without an error, answers whether the key was new, and leads to a tree that
  represents the map with the new binding, or the old map when the key was there.  It grows the tree
  by at most one level, releases every pin it took, and allocates at most two pages more than the
  tree has levels below the root.
\<close>

theorem bplus_tree_insert:
  fixes t :: "('k :: {linorder, zero}, 'v) bplus_tree"
  assumes "represents t h xs" "h < fuel" "h + 1 < bt_avail t"
  shows "\<exists>t' h' xs'. BPlusTree_Insert fuel key v t = Inr (map_of xs key = None, t') \<and> represents t' h' xs' \<and>
    map_of xs' = put_new key v (map_of xs) \<and> h' \<le> h + 1 \<and> mset (bt_pins t') = mset (bt_pins t) \<and>
    bt_avail t \<le> bt_avail t' + (h + 2)"
  using BPlusTree_Insert_spec [OF assms, of key v] by (fastforce simp: keeps_def put_new_def)

theorem bplus_tree_insert_witness:
  "\<exists>t' h' xs'. BPlusTree_Insert 1 3 30 sample_tree = Inr (True, t') \<and> represents t' h' xs' \<and>
    map_of xs' = put_new 3 30 (map_of [(1, 10), (2, 20)]) \<and> h' \<le> 0 + 1 \<and> mset (bt_pins t') = mset (bt_pins sample_tree) \<and>
    bt_avail sample_tree \<le> bt_avail t' + (0 + 2)"
  using bplus_tree_insert [OF sample_represents, of 1 3 30] by (simp add: sample_tree_def BPlusTree_init_def)

text \<open>
  C16. A removal ends without an error and leads to a tree that represents the map without the key,
  balanced and with all nodes at least half full again.  It allocates nothing, releases every pin it
  took, and the tree does not grow.  The claim is for compilers that evaluate the size of the leaf
  before the removal in the comparison of the two.
\<close>

theorem bplus_tree_remove:
  assumes "represents t h xs" "h < fuel"
  shows "\<exists>t' h' xs'. BPlusTree_Remove True fuel key t = Inr t' \<and> represents t' h' xs' \<and>
    map_of xs' = (map_of xs)(key := None) \<and> h' \<le> h \<and> mset (bt_pins t') = mset (bt_pins t) \<and> bt_avail t \<le> bt_avail t'"
  using BPlusTree_Remove_spec [OF assms, of key] by (fastforce simp: keeps_def)

theorem bplus_tree_remove_witness:
  "\<exists>t' h' xs'. BPlusTree_Remove True 1 1 sample_tree = Inr t' \<and> represents t' h' xs' \<and>
    map_of xs' = (map_of [(1, 10), (2, 20)])(1 := None) \<and> h' \<le> 0 \<and> mset (bt_pins t') = mset (bt_pins sample_tree) \<and>
    bt_avail sample_tree \<le> bt_avail t'"
  using bplus_tree_remove [OF sample_represents, of 1 1] by simp

text \<open>
  C17. The descent from the root terminates: a tree of \<open>h + 1\<close> levels has at least
  \<open>2 ^ h\<close> bindings, so with fuel \<open>fuel\<close> every descent, for a search, an insertion or a
  removal, in a tree of fewer than \<open>2 ^ fuel\<close> bindings reaches a leaf, and a point query
  answers with the binding of the key.
\<close>

theorem bplus_tree_descent_terminates:
  assumes "represents t h xs" "xs \<noteq> []" "length xs < 2 ^ fuel"
  shows "2 ^ h \<le> length xs \<and>
    (\<exists>leaf t' node. FindLeaf fuel key op False False t = Inr (leaf, t') \<and> get_leaf leaf t' = Inr node) \<and>
    (\<exists>t'. GetValue fuel key t = Inr (map_of xs key, t') \<and> represents t' h xs \<and> mset (bt_pins t') = mset (bt_pins t))"
proof -
  have "fuel \<noteq> 0" using assms(2,3) by (cases fuel) auto
  then have h: "h < fuel" using represents_fuel [OF assms(1,3)] by simp
  obtain ps where "GetValue fuel key t = Inr (map_of xs key, t\<lparr>bt_pins := ps\<rparr>)" "mset ps = mset (bt_pins t)"
    using GetValue_spec [OF assms(1,2) h, of key] by blast
  then have "\<exists>t'. GetValue fuel key t = Inr (map_of xs key, t') \<and> represents t' h xs \<and> mset (bt_pins t') = mset (bt_pins t)"
    using assms(1) by (intro exI [of _ "t\<lparr>bt_pins := ps\<rparr>"]) simp
  then show ?thesis
    using represents_height [OF assms(1,2)] FindLeaf_reaches [OF assms(1,2) h] by blast
qed

theorem bplus_tree_descent_terminates_witness:
  "(\<exists>leaf t' node. FindLeaf 2 7 INSERT False False sample_tree = Inr (leaf, t') \<and> get_leaf leaf t' = Inr node) \<and>
   (\<exists>t'. GetValue 2 7 sample_tree = Inr (None, t') \<and> represents t' 0 [(1, 10), (2, 20)] \<and> mset (bt_pins t') = mset (bt_pins sample_tree))"
  using bplus_tree_descent_terminates [OF sample_represents, of 2 7 INSERT] by simp

text \<open>
  C18. Iterating from \<^verbatim>\<open>Begin()\<close> reaches the end and visits exactly the bindings of
  the tree, in ascending order of the keys; afterwards nothing more is pinned than before.
\<close>

theorem bplus_tree_iteration:
  fixes t :: "('k :: {linorder, zero}, 'v) bplus_tree"
  assumes "represents t h xs" "h < fuel" "length xs < fuel"
  shows "\<exists>t'. scan_all fuel t = Inr (xs, t') \<and> sorted_wrt (<) (map fst xs) \<and> represents t' h xs \<and>
    mset (bt_pins t') = mset (bt_pins t)"
proof -
  obtain ps where "scan_all fuel t = Inr (xs, t\<lparr>bt_pins := ps\<rparr>)" "mset ps = mset (bt_pins t)"
    using scan_all_spec [OF assms] by blast
  then show ?thesis
    using assms(1) represents_sorted [OF assms(1)] by (intro exI [of _ "t\<lparr>bt_pins := ps\<rparr>"]) (simp add: sorted_keys_def)
qed

theorem bplus_tree_iteration_witness:
  "\<exists>t'. scan_all 3 sample_tree = Inr ([(1, 10), (2, 20)], t') \<and> sorted_wrt (<) (map fst [(1 :: int, 10 :: int), (2, 20)]) \<and>
    represents t' 0 [(1, 10), (2, 20)] \<and> mset (bt_pins t') = mset (bt_pins sample_tree)"
  using bplus_tree_iteration [OF sample_represents, of 3] by simp

text \<open>
  C19. Iterating from \<^verbatim>\<open>Begin(key)\<close> with a key of the tree visits exactly the bindings
  whose keys are not below it, in ascending order, and ends.
\<close>

theorem bplus_tree_range_scan:
  assumes "represents t h xs" "h < fuel" "length xs < fuel" "map_of xs key = Some v"
  shows "\<exists>t'. scan_from fuel key t = Inr (filter (\<lambda>x. key \<le> fst x) xs, t') \<and> represents t' h xs \<and>
    mset (bt_pins t') = mset (bt_pins t)"
proof -
  obtain ps where "scan_from fuel key t = Inr (dropWhile (\<lambda>x. fst x < key) xs, t\<lparr>bt_pins := ps\<rparr>)"
    "mset ps = mset (bt_pins t)"
    using scan_from_spec [OF assms(1-3), of key] assms(4) by auto
  moreover have "dropWhile (\<lambda>x. fst x < key) xs = filter (\<lambda>x. key \<le> fst x) xs"
    by (rule dropWhile_sorted_keys [OF represents_sorted [OF assms(1)]])
  ultimately show ?thesis
    using assms(1) by (intro exI [of _ "t\<lparr>bt_pins := ps\<rparr>"]) simp
qed

theorem bplus_tree_range_scan_witness:
  "\<exists>t'. scan_from 3 2 sample_tree = Inr ([(2, 20)], t') \<and> represents t' 0 [(1, 10), (2, 20)] \<and>
    mset (bt_pins t') = mset (bt_pins sample_tree)"
  using bplus_tree_range_scan [OF sample_represents, of 3 2 20] by simp

text \<open>
  C20. The comparison in \<^verbatim>\<open>Remove\<close> relies on the order in which its two operands are
  evaluated, which the language leaves open.  When the removal is evaluated first, deleting the
  only key of a tree returns normally but leaves the root id on a leaf without entries, which
  represents no list of bindings; no other page changes.
\<close>

theorem bplus_tree_remove_operands_swapped:
  assumes "represents t 0 [(key, v)]" "0 < fuel"
  shows "\<exists>t' leaf. BPlusTree_Remove False fuel key t = Inr t' \<and>
    root_page_id t' = root_page_id t \<and> root_page_id t' \<noteq> INVALID_PAGE_ID \<and>
    bt_pages t' = (bt_pages t)(root_page_id t \<mapsto> LEAF_PAGE leaf) \<and> leaf_array leaf = [] \<and>
    (\<forall>h xs. \<not> represents t' h xs)"
proof -
  obtain c p n ys ps q where f:
    "FindLeaf fuel key DELETE False False (AddIntoPageSet None t) = Inr (p, t\<lparr>bt_pins := ps, page_set := q\<rparr>)"
    and a: "at_leaf t 0 [(key, v)] key c p n ys ps q"
    by (rule descend [OF assms(1) _ assms(2), of DELETE key]) auto
  note d = at_leafD [OF a]
  have c: "c = []" and ys: "ys = [(key, v)]" using d(2,3) by simp_all
  have root: "root_page_id t = p" "p \<noteq> INVALID_PAGE_ID"
    using d(1,12) by (simp_all add: holds_tree_def c)
  have rem: "RemoveAndDeleteRecord key (leaf_of t c p n ys) = (0, leaf_of t c p n [])"
    using RemoveAndDeleteRecord_sorted [of "leaf_of t c p n ys" key] d(8) by (auto simp: ys Cons_eq_append_conv)
  let ?t' = "UnpinPage p (ReleaseLatchFromQueue (put_page p (LEAF_PAGE (leaf_of t c p n [])) (t\<lparr>bt_pins := ps, page_set := q\<rparr>)))"
  have "BPlusTree_Remove False fuel key t = Inr ?t'"
    using f d(7,12) rem by (simp add: BPlusTree_Remove_def IsEmpty_def AddIntoPageSet_def Let_def leaf_of_def)
  moreover have pages: "root_page_id ?t' = p" "bt_pages ?t' = (bt_pages t)(p \<mapsto> LEAF_PAGE (leaf_of t c p n []))"
    using ReleaseLatchFromQueue_spec [of "put_page p (LEAF_PAGE (leaf_of t c p n [])) (t\<lparr>bt_pins := ps, page_set := q\<rparr>)"] root
    by (auto simp: UnpinPage_def put_page_def)
  moreover have "\<not> represents ?t' h xs" for h xs
  proof
    assume r: "represents ?t' h xs"
    have "xs \<noteq> []" using r root pages by (auto simp: represents_def)
    then obtain T where T: "holds_tree ?t' h T" using r by (auto simp: represents_def)
    then show False
      using pages by (cases T) (auto simp: holds_tree_def leaf_at_def internal_at_def leaf_of_def)
  qed
  moreover have "leaf_array (leaf_of t c p n []) = []" by (simp add: leaf_of_def)
  ultimately show ?thesis using root by metis
qed

theorem bplus_tree_remove_operands_swapped_witness:
  "\<exists>t' leaf. BPlusTree_Remove False 1 1 (sample_tree\<lparr>bt_pages := [1 \<mapsto> LEAF_PAGE \<lparr>max_size = 3,
      parent_page_id = INVALID_PAGE_ID, self_page_id = 1, next_page_id = INVALID_PAGE_ID, leaf_array = [(1, 10)]\<rparr>]\<rparr>) = Inr t' \<and>
    bt_pages t' 1 = Some (LEAF_PAGE leaf) \<and> leaf_array leaf = []"
proof -
  let ?t = "sample_tree\<lparr>bt_pages := [1 \<mapsto> LEAF_PAGE \<lparr>max_size = 3,
    parent_page_id = INVALID_PAGE_ID, self_page_id = 1, next_page_id = INVALID_PAGE_ID, leaf_array = [(1, 10)]\<rparr>]\<rparr>"
  have "holds_tree ?t 0 (Lf 1 INVALID_PAGE_ID [(1, 10)])"
    by (simp add: holds_tree_def sample_tree_def BPlusTree_init_def leaf_at_def sorted_keys_def)
  moreover have "bt_wf ?t" using sample_represents by (simp add: represents_def bt_wf_def)
  ultimately have "represents ?t 0 [(1, 10)]" by (auto simp: represents_def)
  moreover have "root_page_id ?t = 1" by (simp add: sample_tree_def)
  ultimately show ?thesis using bplus_tree_remove_operands_swapped [of ?t 1 10 1] by fastforce
qed

end
