(* ===== verification/LRUKReplacer.thy ===== *)
theory LRUKReplacer
  imports Interfaces
begin

text \<open>
  The LRU-K replacer of \<^verbatim>\<open>src/buffer/lru_k_replacer.cpp\<close>.  A
  \<^verbatim>\<open>std::list\<close> with iterators kept in a map is modelled node by node: a list of
  (node, element) pairs, an iterator being a node number, so that erasing through a missing or
  dangling iterator is visible as undefined behaviour.  The abstract specification keeps, for
  every frame, the time stamps of its recorded accesses; the refinement shows that the two
  lists of the implementation stay sorted by those time stamps and that no operation reaches
  undefined behaviour when \<^verbatim>\<open>k\<close> is at least two.
\<close>

section \<open>Linked lists with an iterator index\<close>

type_synonym 'a node_list = "(nat \<times> 'a) list"

text \<open>\<open>list.erase(it)\<close>; \<open>None\<close> is the singular iterator that \<open>operator[]\<close> creates.\<close>

definition list_erase :: "'a node_list \<Rightarrow> nat option \<Rightarrow> 'a node_list result" where
  "list_erase xs it =
     (case it of
        None \<Rightarrow> Inl UndefinedBehaviour
      | Some n \<Rightarrow>
          if n \<in> set (map fst xs) then Inr (filter (\<lambda>x. fst x \<noteq> n) xs)
          else Inl UndefinedBehaviour)"

section \<open>State\<close>

record lruk =
  curr_size :: nat
  replacer_size :: nat
  k_limit :: nat
  access_count :: "frame_id_t \<Rightarrow> nat"
  history_list :: "frame_id_t node_list"
  history_map :: "frame_id_t \<rightharpoonup> nat"
  cache_list :: "frame_id_t node_list"
  cache_map :: "frame_id_t \<rightharpoonup> nat"
  is_evictable :: "frame_id_t \<Rightarrow> bool"
  next_node :: nat

section \<open>Operations\<close>

definition LRUKReplacer_init :: "nat \<Rightarrow> nat \<Rightarrow> lruk" where
  "LRUKReplacer_init num_frames k =
     \<lparr>curr_size = 0, replacer_size = num_frames, k_limit = k, access_count = (\<lambda>_. 0),
      history_list = [], history_map = Map.empty, cache_list = [], cache_map = Map.empty,
      is_evictable = (\<lambda>_. False), next_node = 0\<rparr>"

definition LRUKReplacer_Evict :: "lruk \<Rightarrow> (frame_id_t option \<times> lruk) result" where
  "LRUKReplacer_Evict r =
     (if curr_size r = 0 then Inr (None, r)
      else
        case List.find (\<lambda>(n, f). is_evictable r f) (rev (history_list r)) of
          Some (n, frame) \<Rightarrow>
            bind_result (list_erase (history_list r) (history_map r frame))
              (\<lambda>l. Inr (Some frame,
                 r\<lparr>access_count := (access_count r)(frame := 0),
                   history_list := l,
                   history_map := (history_map r)(frame := None),
                   curr_size := size_dec (curr_size r),
                   is_evictable := (is_evictable r)(frame := False)\<rparr>))
        | None \<Rightarrow>
            (case List.find (\<lambda>(n, f). is_evictable r f) (rev (cache_list r)) of
               Some (n, frame) \<Rightarrow>
                 bind_result (list_erase (cache_list r) (cache_map r frame))
                   (\<lambda>l. Inr (Some frame,
                      r\<lparr>access_count := (access_count r)(frame := 0),
                        cache_list := l,
                        cache_map := (cache_map r)(frame := None),
                        curr_size := size_dec (curr_size r),
                        is_evictable := (is_evictable r)(frame := False)\<rparr>))
             | None \<Rightarrow> Inr (None, r)))"

text \<open>\<open>push_front\<close> followed by storing \<open>begin()\<close> in the index.\<close>

definition push_history :: "frame_id_t \<Rightarrow> lruk \<Rightarrow> lruk" where
  "push_history f r =
     r\<lparr>history_list := (next_node r, f) # history_list r,
       history_map := (history_map r)(f \<mapsto> next_node r),
       next_node := Suc (next_node r)\<rparr>"

definition push_cache :: "frame_id_t \<Rightarrow> lruk \<Rightarrow> lruk" where
  "push_cache f r =
     r\<lparr>cache_list := (next_node r, f) # cache_list r,
       cache_map := (cache_map r)(f \<mapsto> next_node r),
       next_node := Suc (next_node r)\<rparr>"

definition LRUKReplacer_RecordAccess :: "frame_id_t \<Rightarrow> lruk \<Rightarrow> lruk result" where
  "LRUKReplacer_RecordAccess f r =
     (if f > wrap32 (int (replacer_size r)) then Inl StdException
      else
        let r = r\<lparr>access_count := (access_count r)(f := access_count r f + 1)\<rparr>
        in if access_count r f = k_limit r then
             bind_result (list_erase (history_list r) (history_map r f))
               (\<lambda>l. Inr (push_cache f
                  (r\<lparr>history_list := l, history_map := (history_map r)(f := None)\<rparr>)))
           else if access_count r f > k_limit r then
             (if cache_map r f \<noteq> None then
                bind_result (list_erase (cache_list r) (cache_map r f))
                  (\<lambda>l. Inr (push_cache f (r\<lparr>cache_list := l\<rparr>)))
              else Inr (push_cache f r))
           else if history_map r f = None then Inr (push_history f r)
           else Inr r)"

definition LRUKReplacer_SetEvictable :: "frame_id_t \<Rightarrow> bool \<Rightarrow> lruk \<Rightarrow> lruk result" where
  "LRUKReplacer_SetEvictable f b r =
     (if f > wrap32 (int (replacer_size r)) then Inl StdException
      else if access_count r f = 0 then Inr r
      else
        let r1 = (if \<not> is_evictable r f \<and> b then r\<lparr>curr_size := curr_size r + 1\<rparr> else r);
            r2 = (if is_evictable r1 f \<and> \<not> b then r1\<lparr>curr_size := size_dec (curr_size r1)\<rparr> else r1)
        in Inr (r2\<lparr>is_evictable := (is_evictable r2)(f := b)\<rparr>))"

definition LRUKReplacer_Remove :: "frame_id_t \<Rightarrow> lruk \<Rightarrow> lruk result" where
  "LRUKReplacer_Remove f r =
     (if f > wrap32 (int (replacer_size r)) then Inl StdException
      else if access_count r f = 0 then Inr r
      else if \<not> is_evictable r f then Inl StdException
      else
        bind_result
          (if access_count r f < k_limit r then
             bind_result (list_erase (history_list r) (history_map r f))
               (\<lambda>l. Inr (r\<lparr>history_list := l, history_map := (history_map r)(f := None)\<rparr>))
           else
             bind_result (list_erase (cache_list r) (cache_map r f))
               (\<lambda>l. Inr (r\<lparr>cache_list := l, cache_map := (cache_map r)(f := None)\<rparr>)))
          (\<lambda>r. Inr (r\<lparr>curr_size := size_dec (curr_size r),
                      access_count := (access_count r)(f := 0),
                      is_evictable := (is_evictable r)(f := False)\<rparr>)))"

definition LRUKReplacer_Size :: "lruk \<Rightarrow> nat" where
  "LRUKReplacer_Size r = curr_size r"

section \<open>The abstract specification: access histories with time stamps\<close>

record lruk_spec =
  stamps :: "frame_id_t \<Rightarrow> nat list"
  evictable :: "frame_id_t \<Rightarrow> bool"
  clock :: nat

definition spec_init :: lruk_spec where
  "spec_init = \<lparr>stamps = (\<lambda>_. []), evictable = (\<lambda>_. False), clock = 0\<rparr>"

definition spec_record :: "frame_id_t \<Rightarrow> lruk_spec \<Rightarrow> lruk_spec" where
  "spec_record f a = a\<lparr>stamps := (stamps a)(f := clock a # stamps a f), clock := Suc (clock a)\<rparr>"

definition spec_set_evictable :: "frame_id_t \<Rightarrow> bool \<Rightarrow> lruk_spec \<Rightarrow> lruk_spec" where
  "spec_set_evictable f b a =
     (if stamps a f = [] then a else a\<lparr>evictable := (evictable a)(f := b)\<rparr>)"

definition spec_forget :: "frame_id_t \<Rightarrow> lruk_spec \<Rightarrow> lruk_spec" where
  "spec_forget f a = a\<lparr>stamps := (stamps a)(f := []), evictable := (evictable a)(f := False)\<rparr>"

text \<open>
  The victim: among the evictable frames with fewer than \<open>k\<close> accesses, the one whose first
  access is oldest; when there is none, the evictable frame whose last access is oldest.
\<close>

definition young :: "nat \<Rightarrow> lruk_spec \<Rightarrow> frame_id_t set" where
  "young k a = {f. evictable a f \<and> length (stamps a f) < k}"

definition mature :: "nat \<Rightarrow> lruk_spec \<Rightarrow> frame_id_t set" where
  "mature k a = {f. evictable a f \<and> k \<le> length (stamps a f)}"

definition is_victim :: "nat \<Rightarrow> lruk_spec \<Rightarrow> frame_id_t \<Rightarrow> bool" where
  "is_victim k a f \<longleftrightarrow>
     (if young k a \<noteq> {} then
        f \<in> young k a \<and> (\<forall>g \<in> young k a. last (stamps a f) \<le> last (stamps a g))
      else
        f \<in> mature k a \<and> (\<forall>g \<in> mature k a. hd (stamps a f) \<le> hd (stamps a g)))"

section \<open>The refinement relation\<close>

text \<open>
  \<open>tracks l m nx S w\<close>: the list \<open>l\<close> holds exactly the frames of \<open>S\<close>, newest
  weight \<open>w\<close> first, the index \<open>m\<close> points at the right nodes, and \<open>nx\<close> is fresh.
\<close>

definition indexed :: "'a node_list \<Rightarrow> ('a \<rightharpoonup> nat) \<Rightarrow> nat \<Rightarrow> bool" where
  "indexed l m nx \<longleftrightarrow>
     distinct (map fst l) \<and> distinct (map snd l) \<and>
     (\<forall>x n. m x = Some n \<longleftrightarrow> (n, x) \<in> set l) \<and> (\<forall>n x. (n, x) \<in> set l \<longrightarrow> n < nx)"

definition tracks :: "'a node_list \<Rightarrow> ('a \<rightharpoonup> nat) \<Rightarrow> nat \<Rightarrow> 'a set \<Rightarrow> ('a \<Rightarrow> nat) \<Rightarrow> bool" where
  "tracks l m nx S w \<longleftrightarrow>
     indexed l m nx \<and> snd ` set l = S \<and> sorted_wrt (\<lambda>x y. w (snd y) < w (snd x)) l"

definition spec_ok :: "lruk_spec \<Rightarrow> bool" where
  "spec_ok a \<longleftrightarrow>
     (\<forall>f. evictable a f \<longrightarrow> stamps a f \<noteq> []) \<and>
     (\<forall>f. \<forall>t \<in> set (stamps a f). t < clock a)"

definition lruk_rel :: "lruk \<Rightarrow> lruk_spec \<Rightarrow> bool" where
  "lruk_rel r a \<longleftrightarrow>
     2 \<le> k_limit r \<and> spec_ok a \<and>
     access_count r = (\<lambda>f. length (stamps a f)) \<and> is_evictable r = evictable a \<and>
     curr_size r = card {f. evictable a f} \<and>
     tracks (history_list r) (history_map r) (next_node r)
       {f. stamps a f \<noteq> [] \<and> length (stamps a f) < k_limit r} (\<lambda>f. last (stamps a f)) \<and>
     tracks (cache_list r) (cache_map r) (next_node r)
       {f. k_limit r \<le> length (stamps a f)} (\<lambda>f. hd (stamps a f))"

section \<open>Lemmas on indexed lists\<close>

lemma tracks_Nil [simp]: "tracks [] Map.empty n S w \<longleftrightarrow> S = {}"
  by (auto simp: tracks_def indexed_def)

lemma indexed_snd_inj:
  "indexed l m nx \<Longrightarrow> (n, x) \<in> set l \<Longrightarrow> (n', x') \<in> set l \<Longrightarrow> n = n' \<longleftrightarrow> x = x'"
  unfolding indexed_def by (metis option.inject fst_conv eq_key_imp_eq_value snd_conv)

lemma tracks_lookup:
  assumes "tracks l m nx S w"
  shows "m x = None \<longleftrightarrow> x \<notin> S"
proof -
  have "m x \<noteq> None \<longleftrightarrow> (\<exists>n. (n, x) \<in> set l)"
    using assms by (simp add: tracks_def indexed_def)
  also have "\<dots> \<longleftrightarrow> x \<in> S"
    using assms by (force simp: tracks_def)
  finally show ?thesis by blast
qed

lemma list_erase_indexed:
  assumes "indexed l m nx" and "x \<in> snd ` set l"
  shows "list_erase l (m x) = Inr (filter (\<lambda>y. snd y \<noteq> x) l)"
proof -
  obtain n where n: "(n, x) \<in> set l" using assms(2) by force
  then have m: "m x = Some n" using assms(1) by (simp add: indexed_def)
  have "\<And>y. y \<in> set l \<Longrightarrow> fst y \<noteq> n \<longleftrightarrow> snd y \<noteq> x"
    using indexed_snd_inj [OF assms(1) n] by (metis prod.collapse)
  then have "filter (\<lambda>y. fst y \<noteq> n) l = filter (\<lambda>y. snd y \<noteq> x) l"
    by (simp cong: filter_cong)
  with m n show ?thesis by (force simp: list_erase_def)
qed

lemma tracks_erase:
  assumes "tracks l m nx S w" and "x \<in> S"
  obtains l' where "list_erase l (m x) = Inr l'" "tracks l' (m(x := None)) nx (S - {x}) w"
proof
  show "list_erase l (m x) = Inr (filter (\<lambda>y. snd y \<noteq> x) l)"
    using assms by (auto simp: tracks_def intro: list_erase_indexed)
  show "tracks (filter (\<lambda>y. snd y \<noteq> x) l) (m(x := None)) nx (S - {x}) w"
    using assms by (auto simp: tracks_def indexed_def distinct_map_filter sorted_wrt_filter)
qed

lemma sorted_wrt_weight_cong:
  assumes "sorted_wrt (\<lambda>x y. w (snd y) < (w (snd x) :: nat)) l"
    and "\<And>y. y \<in> snd ` set l \<Longrightarrow> w' y = w y"
  shows "sorted_wrt (\<lambda>x y. w' (snd y) < (w' (snd x) :: nat)) l"
  by (rule sorted_wrt_mono_rel [OF _ assms(1)]) (use assms(2) in auto)

lemma indexed_push:
  "indexed l m nx \<Longrightarrow> x \<notin> snd ` set l \<Longrightarrow> indexed ((nx, x) # l) (m(x \<mapsto> nx)) (Suc nx)"
  unfolding indexed_def by (force simp: less_Suc_eq)

lemma indexed_mono: "indexed l m nx \<Longrightarrow> nx \<le> nx' \<Longrightarrow> indexed l m nx'"
  unfolding indexed_def by (meson less_le_trans)

lemma tracks_push:
  assumes t: "tracks l m nx S w" and x: "x \<notin> S" and w: "\<And>y. y \<in> S \<Longrightarrow> w y < v"
  shows "tracks ((nx, x) # l) (m(x \<mapsto> nx)) (Suc nx) (insert x S) (w(x := v))"
proof -
  have S: "snd ` set l = S" using t by (simp add: tracks_def)
  have "sorted_wrt (\<lambda>y z. (w(x := v)) (snd z) < (w(x := v)) (snd y)) l"
    by (rule sorted_wrt_weight_cong [of w]) (use t x S in \<open>auto simp: tracks_def\<close>)
  moreover have "\<forall>y \<in> set l. (w(x := v)) (snd y) < v"
    using S x w by auto
  ultimately show ?thesis
    using t x S by (simp add: tracks_def indexed_push)
qed

lemma tracks_cong:
  assumes "tracks l m nx S w" and "S = S'" and "nx \<le> nx'" and "\<And>y. y \<in> S \<Longrightarrow> w' y = w y"
  shows "tracks l m nx' S' w'"
proof -
  have "sorted_wrt (\<lambda>x y. w' (snd y) < w' (snd x)) l"
    by (rule sorted_wrt_weight_cong [of w]) (use assms in \<open>auto simp: tracks_def\<close>)
  moreover have "indexed l m nx'"
    using assms indexed_mono by (auto simp: tracks_def)
  ultimately show ?thesis
    using assms by (simp add: tracks_def)
qed

lemma find_rev_sorted:
  assumes "sorted_wrt (\<lambda>x y. (w y :: nat) < w x) l" and "List.find P (rev l) = Some x"
  shows "x \<in> set l \<and> P x \<and> (\<forall>y \<in> set l. P y \<longrightarrow> w x \<le> w y)"
  using assms
proof (induction l rule: rev_induct)
  case Nil
  then show ?case by simp
next
  case (snoc z l)
  show ?case
  proof (cases "P z")
    case True
    with snoc.prems show ?thesis by (force simp: sorted_wrt_append)
  next
    case False
    with snoc show ?thesis by (auto simp: sorted_wrt_append)
  qed
qed

lemma tracks_find_Some:
  assumes "tracks l m nx S w" and "List.find (\<lambda>(n, f). P f) (rev l) = Some (n, x)"
  shows "x \<in> S \<and> P x \<and> (\<forall>y \<in> S. P y \<longrightarrow> w x \<le> w y)"
  using assms find_rev_sorted [of "w \<circ> snd" l "\<lambda>(n, f). P f" "(n, x)"]
  by (force simp: tracks_def)

lemma tracks_find_None:
  assumes "tracks l m nx S w" and "List.find (\<lambda>(n, f). P f) (rev l) = None"
  shows "\<forall>x \<in> S. \<not> P x"
  using assms by (force simp: tracks_def find_None_iff)

section \<open>The operations refine the specification\<close>

lemma lruk_rel_init: "2 \<le> k \<Longrightarrow> lruk_rel (LRUKReplacer_init n k) spec_init"
  by (simp add: lruk_rel_def spec_ok_def LRUKReplacer_init_def spec_init_def)

lemma stamps_less_clock:
  assumes "spec_ok a" and "stamps a f \<noteq> []"
  shows "hd (stamps a f) < clock a" "last (stamps a f) < clock a"
proof -
  have "\<forall>t \<in> set (stamps a f). t < clock a" using assms(1) by (simp add: spec_ok_def)
  then show "hd (stamps a f) < clock a" "last (stamps a f) < clock a"
    using hd_in_set [OF assms(2)] last_in_set [OF assms(2)] by blast+
qed

lemma long_nonempty: "k \<le> length xs \<Longrightarrow> (2 :: nat) \<le> k \<Longrightarrow> xs \<noteq> []"
  by auto

lemma spec_ok_record: "spec_ok a \<Longrightarrow> spec_ok (spec_record f a)"
  by (fastforce simp: spec_ok_def spec_record_def less_Suc_eq)

lemma spec_ok_forget: "spec_ok a \<Longrightarrow> spec_ok (spec_forget f a)"
  by (simp add: spec_ok_def spec_forget_def)

lemma spec_ok_set_evictable: "spec_ok a \<Longrightarrow> spec_ok (spec_set_evictable f b a)"
  by (simp add: spec_ok_def spec_set_evictable_def)

lemma evictable_finite: "lruk_rel r a \<Longrightarrow> finite {f. evictable a f}"
proof -
  assume rel: "lruk_rel r a"
  have "{f. evictable a f} \<subseteq> snd ` set (history_list r) \<union> snd ` set (cache_list r)"
    using rel by (auto simp: lruk_rel_def tracks_def spec_ok_def)
  then show ?thesis by (rule finite_subset) simp
qed

text \<open>A first access, an access below the limit, the \<open>k\<close>-th access, and an access beyond it.\<close>

lemma RecordAccess_first:
  assumes rel: "lruk_rel r a" and f: "f \<le> wrap32 (int (replacer_size r))" and n: "stamps a f = []"
  shows "\<exists>r'. LRUKReplacer_RecordAccess f r = Inr r' \<and> lruk_rel r' (spec_record f a) \<and>
    replacer_size r' = replacer_size r \<and> k_limit r' = k_limit r"
proof -
  let ?S = "{g. stamps a g \<noteq> [] \<and> length (stamps a g) < k_limit r}"
  let ?r = "push_history f (r\<lparr>access_count := (access_count r)(f := access_count r f + 1)\<rparr>)"
  have k: "2 \<le> k_limit r" and hist: "tracks (history_list r) (history_map r) (next_node r) ?S
      (\<lambda>f. last (stamps a f))"
    and cache: "tracks (cache_list r) (cache_map r) (next_node r)
      {g. k_limit r \<le> length (stamps a g)} (\<lambda>f. hd (stamps a f))"
    and ok: "spec_ok a"
    using rel by (simp_all add: lruk_rel_def)
  have "history_map r f = None" using tracks_lookup [OF hist] n by simp
  then have run: "LRUKReplacer_RecordAccess f r = Inr ?r"
    using rel k f n by (simp add: LRUKReplacer_RecordAccess_def lruk_rel_def Let_def)
  have "tracks ((next_node r, f) # history_list r) ((history_map r)(f \<mapsto> next_node r))
      (Suc (next_node r)) (insert f ?S) ((\<lambda>f. last (stamps a f))(f := clock a))"
    by (rule tracks_push [OF hist]) (use n stamps_less_clock [OF ok] in auto)
  then have h: "tracks ((next_node r, f) # history_list r) ((history_map r)(f \<mapsto> next_node r))
      (Suc (next_node r)) {g. stamps (spec_record f a) g \<noteq> [] \<and>
        length (stamps (spec_record f a) g) < k_limit r} (\<lambda>g. last (stamps (spec_record f a) g))"
    by (rule tracks_cong) (use n k in \<open>auto simp: spec_record_def\<close>)
  have c: "tracks (cache_list r) (cache_map r) (Suc (next_node r))
      {g. k_limit r \<le> length (stamps (spec_record f a) g)} (\<lambda>g. hd (stamps (spec_record f a) g))"
    by (rule tracks_cong [OF cache]) (use n k in \<open>auto simp: spec_record_def\<close>)
  have "lruk_rel ?r (spec_record f a)"
    using rel h c spec_ok_record [OF ok, of f]
    by (auto simp: lruk_rel_def push_history_def spec_record_def)
  with run show ?thesis by (auto simp: push_history_def)
qed

lemma RecordAccess_below:
  assumes rel: "lruk_rel r a" and f: "f \<le> wrap32 (int (replacer_size r))"
    and n: "stamps a f \<noteq> []" "Suc (length (stamps a f)) < k_limit r"
  shows "\<exists>r'. LRUKReplacer_RecordAccess f r = Inr r' \<and> lruk_rel r' (spec_record f a) \<and>
    replacer_size r' = replacer_size r \<and> k_limit r' = k_limit r"
proof -
  let ?r = "r\<lparr>access_count := (access_count r)(f := access_count r f + 1)\<rparr>"
  have hist: "tracks (history_list r) (history_map r) (next_node r)
      {g. stamps a g \<noteq> [] \<and> length (stamps a g) < k_limit r} (\<lambda>f. last (stamps a f))"
    and cache: "tracks (cache_list r) (cache_map r) (next_node r)
      {g. k_limit r \<le> length (stamps a g)} (\<lambda>f. hd (stamps a f))"
    and ok: "spec_ok a"
    using rel by (simp_all add: lruk_rel_def)
  have "history_map r f \<noteq> None" using tracks_lookup [OF hist] n by simp
  then have run: "LRUKReplacer_RecordAccess f r = Inr ?r"
    using rel f n by (auto simp: LRUKReplacer_RecordAccess_def lruk_rel_def Let_def)
  have h: "tracks (history_list r) (history_map r) (next_node r)
      {g. stamps (spec_record f a) g \<noteq> [] \<and> length (stamps (spec_record f a) g) < k_limit r}
      (\<lambda>g. last (stamps (spec_record f a) g))"
    by (rule tracks_cong [OF hist]) (use n in \<open>auto simp: spec_record_def\<close>)
  have c: "tracks (cache_list r) (cache_map r) (next_node r)
      {g. k_limit r \<le> length (stamps (spec_record f a) g)} (\<lambda>g. hd (stamps (spec_record f a) g))"
    by (rule tracks_cong [OF cache]) (use n in \<open>auto simp: spec_record_def\<close>)
  have "lruk_rel ?r (spec_record f a)"
    using rel h c spec_ok_record [OF ok, of f] by (auto simp: lruk_rel_def spec_record_def)
  with run show ?thesis by auto
qed

lemma RecordAccess_kth:
  assumes rel: "lruk_rel r a" and f: "f \<le> wrap32 (int (replacer_size r))"
    and n: "Suc (length (stamps a f)) = k_limit r"
  shows "\<exists>r'. LRUKReplacer_RecordAccess f r = Inr r' \<and> lruk_rel r' (spec_record f a) \<and>
    replacer_size r' = replacer_size r \<and> k_limit r' = k_limit r"
proof -
  let ?S = "{g. stamps a g \<noteq> [] \<and> length (stamps a g) < k_limit r}"
  let ?T = "{g. k_limit r \<le> length (stamps a g)}"
  let ?b = "spec_record f a"
  have k: "2 \<le> k_limit r" and hist: "tracks (history_list r) (history_map r) (next_node r) ?S
      (\<lambda>f. last (stamps a f))"
    and cache: "tracks (cache_list r) (cache_map r) (next_node r) ?T (\<lambda>f. hd (stamps a f))"
    and ok: "spec_ok a"
    using rel by (simp_all add: lruk_rel_def)
  have "f \<in> ?S" using n k by auto
  then obtain l where l: "list_erase (history_list r) (history_map r f) = Inr l"
    and tl: "tracks l ((history_map r)(f := None)) (next_node r) (?S - {f}) (\<lambda>f. last (stamps a f))"
    by (rule tracks_erase [OF hist])
  let ?r = "push_cache f (r\<lparr>access_count := (access_count r)(f := access_count r f + 1),
      history_list := l, history_map := (history_map r)(f := None)\<rparr>)"
  have run: "LRUKReplacer_RecordAccess f r = Inr ?r"
    using rel f n l by (simp add: LRUKReplacer_RecordAccess_def lruk_rel_def Let_def)
  have h: "tracks l ((history_map r)(f := None)) (Suc (next_node r))
      {g. stamps ?b g \<noteq> [] \<and> length (stamps ?b g) < k_limit r} (\<lambda>g. last (stamps ?b g))"
    by (rule tracks_cong [OF tl]) (use n in \<open>auto simp: spec_record_def\<close>)
  have "tracks ((next_node r, f) # cache_list r) ((cache_map r)(f \<mapsto> next_node r))
      (Suc (next_node r)) (insert f ?T) ((\<lambda>f. hd (stamps a f))(f := clock a))"
    by (rule tracks_push [OF cache]) (use n k stamps_less_clock [OF ok] in \<open>auto dest: long_nonempty\<close>)
  then have c: "tracks ((next_node r, f) # cache_list r) ((cache_map r)(f \<mapsto> next_node r))
      (Suc (next_node r)) {g. k_limit r \<le> length (stamps ?b g)} (\<lambda>g. hd (stamps ?b g))"
    by (rule tracks_cong) (use n k in \<open>auto simp: spec_record_def\<close>)
  have "lruk_rel ?r ?b"
    using rel h c spec_ok_record [OF ok, of f]
    by (auto simp: lruk_rel_def push_cache_def spec_record_def)
  with run show ?thesis by (auto simp: push_cache_def)
qed

lemma RecordAccess_beyond:
  assumes rel: "lruk_rel r a" and f: "f \<le> wrap32 (int (replacer_size r))"
    and n: "k_limit r \<le> length (stamps a f)"
  shows "\<exists>r'. LRUKReplacer_RecordAccess f r = Inr r' \<and> lruk_rel r' (spec_record f a) \<and>
    replacer_size r' = replacer_size r \<and> k_limit r' = k_limit r"
proof -
  let ?T = "{g. k_limit r \<le> length (stamps a g)}"
  let ?b = "spec_record f a"
  have k: "2 \<le> k_limit r" and hist: "tracks (history_list r) (history_map r) (next_node r)
      {g. stamps a g \<noteq> [] \<and> length (stamps a g) < k_limit r} (\<lambda>f. last (stamps a f))"
    and cache: "tracks (cache_list r) (cache_map r) (next_node r) ?T (\<lambda>f. hd (stamps a f))"
    and ok: "spec_ok a"
    using rel by (simp_all add: lruk_rel_def)
  have "f \<in> ?T" using n by simp
  then obtain l where l: "list_erase (cache_list r) (cache_map r f) = Inr l"
    and tl: "tracks l ((cache_map r)(f := None)) (next_node r) (?T - {f}) (\<lambda>f. hd (stamps a f))"
    by (rule tracks_erase [OF cache])
  have m: "cache_map r f \<noteq> None" using tracks_lookup [OF cache] n by simp
  let ?r = "push_cache f (r\<lparr>access_count := (access_count r)(f := access_count r f + 1),
      cache_list := l\<rparr>)"
  have run: "LRUKReplacer_RecordAccess f r = Inr ?r"
    using rel f n l m by (auto simp: LRUKReplacer_RecordAccess_def lruk_rel_def Let_def)
  have h: "tracks (history_list r) (history_map r) (Suc (next_node r))
      {g. stamps ?b g \<noteq> [] \<and> length (stamps ?b g) < k_limit r} (\<lambda>g. last (stamps ?b g))"
    by (rule tracks_cong [OF hist]) (use n k in \<open>auto simp: spec_record_def\<close>)
  have "tracks ((next_node r, f) # l) (((cache_map r)(f := None))(f \<mapsto> next_node r))
      (Suc (next_node r)) (insert f (?T - {f})) ((\<lambda>f. hd (stamps a f))(f := clock a))"
    by (rule tracks_push [OF tl]) (use n k stamps_less_clock [OF ok] in \<open>auto dest: long_nonempty\<close>)
  then have "tracks ((next_node r, f) # l) ((cache_map r)(f \<mapsto> next_node r))
      (Suc (next_node r)) (insert f (?T - {f})) ((\<lambda>f. hd (stamps a f))(f := clock a))"
    by simp
  then have c: "tracks ((next_node r, f) # l) ((cache_map r)(f \<mapsto> next_node r))
      (Suc (next_node r)) {g. k_limit r \<le> length (stamps ?b g)} (\<lambda>g. hd (stamps ?b g))"
    by (rule tracks_cong) (use n in \<open>auto simp: spec_record_def\<close>)
  have "lruk_rel ?r ?b"
    using rel h c spec_ok_record [OF ok, of f]
    by (auto simp: lruk_rel_def push_cache_def spec_record_def)
  with run show ?thesis by (auto simp: push_cache_def)
qed

lemma RecordAccess_refines:
  assumes rel: "lruk_rel r a" and f: "f \<le> wrap32 (int (replacer_size r))"
  shows "\<exists>r'. LRUKReplacer_RecordAccess f r = Inr r' \<and> lruk_rel r' (spec_record f a) \<and>
    replacer_size r' = replacer_size r \<and> k_limit r' = k_limit r"
proof -
  consider "stamps a f = []" | "stamps a f \<noteq> []" "Suc (length (stamps a f)) < k_limit r"
    | "Suc (length (stamps a f)) = k_limit r" | "k_limit r \<le> length (stamps a f)"
    by linarith
  then show ?thesis
    by cases (use RecordAccess_first RecordAccess_below RecordAccess_kth RecordAccess_beyond assms
        in \<open>blast+\<close>)
qed

lemma SetEvictable_refines:
  assumes rel: "lruk_rel r a" and f: "f \<le> wrap32 (int (replacer_size r))"
  shows "\<exists>r'. LRUKReplacer_SetEvictable f b r = Inr r' \<and>
    lruk_rel r' (spec_set_evictable f b a) \<and>
    replacer_size r' = replacer_size r \<and> k_limit r' = k_limit r"
proof (cases "stamps a f = []")
  case True
  with rel f show ?thesis
    by (auto simp: LRUKReplacer_SetEvictable_def spec_set_evictable_def lruk_rel_def)
next
  case False
  let ?E = "{g. evictable a g}"
  define n where "n = card {g. ((evictable a)(f := b)) g}"
  have fin: "finite ?E" using evictable_finite [OF rel] .
  have E: "{g. ((evictable a)(f := b)) g} = (if b then insert f ?E else ?E - {f})"
    by auto
  have n: "n = (if \<not> evictable a f \<and> b then card ?E + 1
      else if evictable a f \<and> \<not> b then card ?E - 1 else card ?E)"
    using fin unfolding n_def E by (auto simp: insert_absorb)
  have pos: "evictable a f \<Longrightarrow> 0 < card ?E" using fin by (auto simp: card_gt_0_iff)
  let ?r = "r\<lparr>curr_size := n, is_evictable := (is_evictable r)(f := b)\<rparr>"
  have rels: "curr_size r = card ?E" "is_evictable r = evictable a" "access_count r f \<noteq> 0"
    using rel False by (auto simp: lruk_rel_def)
  have "LRUKReplacer_SetEvictable f b r = Inr ?r"
    using f pos rels by (auto simp: LRUKReplacer_SetEvictable_def Let_def n)
  moreover have "lruk_rel ?r (spec_set_evictable f b a)"
    using rel False spec_ok_set_evictable [of a f b] n_def
    by (auto simp: lruk_rel_def spec_set_evictable_def)
  ultimately show ?thesis by auto
qed

text \<open>Dropping a frame from the list it is on.\<close>

lemma forget_rel:
  assumes rel: "lruk_rel r a" and ev: "evictable a f"
    and r': "curr_size r' = size_dec (curr_size r)" "access_count r' = (access_count r)(f := 0)"
      "is_evictable r' = (is_evictable r)(f := False)" "k_limit r' = k_limit r" "next_node r' = next_node r"
    and h: "tracks (history_list r') (history_map r') (next_node r) ({g. stamps a g \<noteq> [] \<and> length (stamps a g) < k_limit r} - {f})
        (\<lambda>f. last (stamps a f))"
    and c: "tracks (cache_list r') (cache_map r') (next_node r)
        ({g. k_limit r \<le> length (stamps a g)} - {f}) (\<lambda>f. hd (stamps a f))"
  shows "lruk_rel r' (spec_forget f a)"
proof -
  let ?b = "spec_forget f a"
  have fin: "finite {g. evictable a g}" using evictable_finite [OF rel] .
  have k: "2 \<le> k_limit r" using rel by (simp add: lruk_rel_def)
  have "tracks (history_list r') (history_map r') (next_node r) {g. stamps ?b g \<noteq> [] \<and> length (stamps ?b g) < k_limit r}
      (\<lambda>f. last (stamps ?b f))"
    by (rule tracks_cong [OF h]) (auto simp: spec_forget_def)
  moreover have "tracks (cache_list r') (cache_map r') (next_node r) {g. k_limit r \<le> length (stamps ?b g)}
      (\<lambda>f. hd (stamps ?b f))"
    by (rule tracks_cong [OF c]) (use k in \<open>auto simp: spec_forget_def\<close>)
  moreover have "{g. evictable ?b g} = {g. evictable a g} - {f}"
    by (auto simp: spec_forget_def)
  then have "card {g. evictable ?b g} = card {g. evictable a g} - 1" and "0 < card {g. evictable a g}"
    using ev fin by (auto simp: card_gt_0_iff)
  ultimately show ?thesis
    using rel r' spec_ok_forget [of a f]
    by (auto simp: lruk_rel_def) (auto simp: spec_forget_def)
qed

lemma Remove_refines:
  assumes rel: "lruk_rel r a" and f: "f \<le> wrap32 (int (replacer_size r))"
    and ev: "stamps a f = [] \<or> evictable a f"
  shows "\<exists>r'. LRUKReplacer_Remove f r = Inr r' \<and> lruk_rel r' (spec_forget f a) \<and>
    replacer_size r' = replacer_size r \<and> k_limit r' = k_limit r"
proof (cases "stamps a f = []")
  case True
  then have "\<not> evictable a f" using rel by (auto simp: lruk_rel_def spec_ok_def)
  with True have "spec_forget f a = a" by (auto simp: spec_forget_def fun_upd_idem)
  with True rel f show ?thesis by (simp add: LRUKReplacer_Remove_def lruk_rel_def)
next
  case False
  with ev have e: "evictable a f" by simp
  let ?S = "{g. stamps a g \<noteq> [] \<and> length (stamps a g) < k_limit r}"
  let ?T = "{g. k_limit r \<le> length (stamps a g)}"
  have hist: "tracks (history_list r) (history_map r) (next_node r) ?S (\<lambda>f. last (stamps a f))"
    and cache: "tracks (cache_list r) (cache_map r) (next_node r) ?T (\<lambda>f. hd (stamps a f))"
    and facts: "access_count r f = length (stamps a f)" "is_evictable r f"
    using rel e by (simp_all add: lruk_rel_def)
  show ?thesis
  proof (cases "length (stamps a f) < k_limit r")
    case True
    with False have "f \<in> ?S" by simp
    then obtain l where l: "list_erase (history_list r) (history_map r f) = Inr l"
      and tl: "tracks l ((history_map r)(f := None)) (next_node r) (?S - {f}) (\<lambda>f. last (stamps a f))"
      by (rule tracks_erase [OF hist])
    have "tracks (cache_list r) (cache_map r) (next_node r) (?T - {f}) (\<lambda>f. hd (stamps a f))"
      by (rule tracks_cong [OF cache]) (use True in auto)
    then show ?thesis
      using False True f facts l tl
      by (auto simp: LRUKReplacer_Remove_def intro!: forget_rel [OF rel e])
  next
    case long: False
    then have "f \<in> ?T" by simp
    then obtain l where l: "list_erase (cache_list r) (cache_map r f) = Inr l"
      and tl: "tracks l ((cache_map r)(f := None)) (next_node r) (?T - {f}) (\<lambda>f. hd (stamps a f))"
      by (rule tracks_erase [OF cache])
    have "tracks (history_list r) (history_map r) (next_node r) (?S - {f}) (\<lambda>f. last (stamps a f))"
      by (rule tracks_cong [OF hist]) (use long in auto)
    then show ?thesis
      using False long f facts l tl
      by (auto simp: LRUKReplacer_Remove_def intro!: forget_rel [OF rel e])
  qed
qed

lemma Evict_refines:
  assumes rel: "lruk_rel r a"
  shows "(\<exists>f r'. is_victim (k_limit r) a f \<and> LRUKReplacer_Evict r = Inr (Some f, r') \<and>
           lruk_rel r' (spec_forget f a) \<and>
           replacer_size r' = replacer_size r \<and> k_limit r' = k_limit r) \<or>
         (\<forall>f. \<not> evictable a f) \<and> LRUKReplacer_Evict r = Inr (None, r)"
proof (cases "\<exists>f. evictable a f")
  case False
  with rel show ?thesis by (simp add: LRUKReplacer_Evict_def lruk_rel_def)
next
  case True
  let ?S = "{g. stamps a g \<noteq> [] \<and> length (stamps a g) < k_limit r}"
  let ?T = "{g. k_limit r \<le> length (stamps a g)}"
  let ?hist = "List.find (\<lambda>(n, f). is_evictable r f) (rev (history_list r))"
  let ?cache = "List.find (\<lambda>(n, f). is_evictable r f) (rev (cache_list r))"
  have hist: "tracks (history_list r) (history_map r) (next_node r) ?S (\<lambda>f. last (stamps a f))"
    and cache: "tracks (cache_list r) (cache_map r) (next_node r) ?T (\<lambda>f. hd (stamps a f))"
    and ev: "is_evictable r = evictable a" and ok: "spec_ok a"
    using rel by (simp_all add: lruk_rel_def)
  have pos: "curr_size r \<noteq> 0"
    using rel True evictable_finite [OF rel] by (auto simp: lruk_rel_def)
  have young: "young (k_limit r) a = {g \<in> ?S. evictable a g}"
    using ok by (auto simp: young_def spec_ok_def)
  show ?thesis
  proof (cases ?hist)
    case (Some p)
    then obtain n f where p: "?hist = Some (n, f)" by (cases p) auto
    from tracks_find_Some [OF hist p] have f: "f \<in> ?S" "evictable a f"
      "\<forall>g \<in> ?S. evictable a g \<longrightarrow> last (stamps a f) \<le> last (stamps a g)"
      by (auto simp: ev)
    then have "is_victim (k_limit r) a f" by (auto simp: is_victim_def young)
    moreover obtain l where l: "list_erase (history_list r) (history_map r f) = Inr l"
      and tl: "tracks l ((history_map r)(f := None)) (next_node r) (?S - {f}) (\<lambda>f. last (stamps a f))"
      by (rule tracks_erase [OF hist f(1)])
    have "tracks (cache_list r) (cache_map r) (next_node r) (?T - {f}) (\<lambda>f. hd (stamps a f))"
      by (rule tracks_cong [OF cache]) (use f in auto)
    ultimately show ?thesis
      using p l pos tl
      by (intro disjI1 exI [of _ f])
        (auto simp: LRUKReplacer_Evict_def intro!: forget_rel [OF rel f(2)])
  next
    case None
    then have none: "\<forall>g \<in> ?S. \<not> evictable a g" using tracks_find_None [OF hist] by (simp add: ev)
    then have young_empty: "young (k_limit r) a = {}" by (auto simp: young)
    obtain g where g: "evictable a g" using True by blast
    have "?cache \<noteq> None"
    proof
      assume "?cache = None"
      then have "\<forall>g \<in> ?T. \<not> evictable a g" using tracks_find_None [OF cache] by (simp add: ev)
      then show False
        using g none ok by (cases "length (stamps a g) < k_limit r") (auto simp: spec_ok_def)
    qed
    then obtain n f where p: "?cache = Some (n, f)" by auto
    from tracks_find_Some [OF cache p] have f: "f \<in> ?T" "evictable a f"
      "\<forall>g \<in> ?T. evictable a g \<longrightarrow> hd (stamps a f) \<le> hd (stamps a g)"
      by (auto simp: ev)
    then have "is_victim (k_limit r) a f" by (auto simp: is_victim_def young_empty mature_def)
    moreover obtain l where l: "list_erase (cache_list r) (cache_map r f) = Inr l"
      and tl: "tracks l ((cache_map r)(f := None)) (next_node r) (?T - {f}) (\<lambda>f. hd (stamps a f))"
      by (rule tracks_erase [OF cache f(1)])
    have "tracks (history_list r) (history_map r) (next_node r) (?S - {f}) (\<lambda>f. last (stamps a f))"
      by (rule tracks_cong [OF hist]) (use f in auto)
    ultimately show ?thesis
      using p l pos tl None
      by (intro disjI1 exI [of _ f])
        (auto simp: LRUKReplacer_Evict_def intro!: forget_rel [OF rel f(2)])
  qed
qed

section \<open>The replacer contract\<close>

definition lruk_inv :: "nat \<Rightarrow> lruk \<Rightarrow> bool" where
  "lruk_inv n r \<longleftrightarrow> replacer_size r = n \<and> n < 2 ^ 31 \<and> (\<exists>a. lruk_rel r a)"

definition lruk_tracked :: "lruk \<Rightarrow> frame_id_t set" where
  "lruk_tracked r = {f. access_count r f \<noteq> 0}"

definition lruk_evictable :: "lruk \<Rightarrow> frame_id_t set" where
  "lruk_evictable r = {f. is_evictable r f}"

lemma lruk_inv_init: "2 \<le> k \<Longrightarrow> n < 2 ^ 31 \<Longrightarrow> lruk_inv n (LRUKReplacer_init n k)"
  using lruk_rel_init [of k n] by (auto simp: lruk_inv_def LRUKReplacer_init_def)

lemma lruk_init_sets [simp]:
  "lruk_tracked (LRUKReplacer_init n k) = {}" "lruk_evictable (LRUKReplacer_init n k) = {}"
  by (simp_all add: lruk_tracked_def lruk_evictable_def LRUKReplacer_init_def)

lemma lruk_inv_frame: "lruk_inv n r \<Longrightarrow> f \<le> int n \<Longrightarrow> f \<le> wrap32 (int (replacer_size r))"
  by (simp add: lruk_inv_def wrap32_id)

lemma lruk_rel_sets:
  assumes "lruk_rel r a"
  shows "lruk_tracked r = {f. stamps a f \<noteq> []}" "lruk_evictable r = {f. evictable a f}"
  using assms by (auto simp: lruk_tracked_def lruk_evictable_def lruk_rel_def)

lemmas lruk_effects = lruk_rel_sets spec_record_def spec_set_evictable_def spec_forget_def

interpretation lruk: replacer lruk_inv lruk_tracked lruk_evictable LRUKReplacer_RecordAccess
  LRUKReplacer_SetEvictable LRUKReplacer_Remove LRUKReplacer_Evict
proof (unfold_locales, goal_cases)
  case (1 n r)
  then show ?case by (auto simp: lruk_inv_def lruk_effects lruk_rel_def spec_ok_def)
next
  case (2 n r f)
  then obtain a where rel: "lruk_rel r a" by (auto simp: lruk_inv_def)
  from RecordAccess_refines [OF rel lruk_inv_frame [OF 2]] 2 rel show ?case
    by (auto simp: lruk_inv_def lruk_effects)
next
  case (3 n r f b)
  then obtain a where rel: "lruk_rel r a" by (auto simp: lruk_inv_def)
  from SetEvictable_refines [OF rel lruk_inv_frame [OF 3(1,2)], of b] 3 rel show ?case
    by (fastforce simp: lruk_inv_def lruk_effects)
next
  case (4 n r f)
  then obtain a where rel: "lruk_rel r a" by (auto simp: lruk_inv_def)
  from Remove_refines [OF rel lruk_inv_frame [OF 4(1,2)]] 4 rel show ?case
    by (fastforce simp: lruk_inv_def lruk_effects)
next
  case (5 n r)
  then obtain a where rel: "lruk_rel r a" by (auto simp: lruk_inv_def)
  have "\<exists>f. evictable a f" using 5(2) rel by (auto simp: lruk_effects)
  then obtain f r' where v: "is_victim (k_limit r) a f" "LRUKReplacer_Evict r = Inr (Some f, r')"
    "lruk_rel r' (spec_forget f a)" "replacer_size r' = replacer_size r"
    using Evict_refines [OF rel] by blast
  then have "evictable a f" by (auto simp: is_victim_def young_def mature_def split: if_splits)
  with v 5(1) rel show ?case by (fastforce simp: lruk_inv_def lruk_effects)
qed

section \<open>Sequences of calls\<close>

datatype lruk_op =
    RecordOp frame_id_t
  | SetEvictableOp frame_id_t bool
  | RemoveOp frame_id_t
  | EvictOp

fun lruk_step :: "lruk_op \<Rightarrow> lruk \<Rightarrow> (frame_id_t option \<times> lruk) result" where
  "lruk_step (RecordOp f) r = map_sum id (Pair None) (LRUKReplacer_RecordAccess f r)"
| "lruk_step (SetEvictableOp f b) r = map_sum id (Pair None) (LRUKReplacer_SetEvictable f b r)"
| "lruk_step (RemoveOp f) r = map_sum id (Pair None) (LRUKReplacer_Remove f r)"
| "lruk_step EvictOp r = LRUKReplacer_Evict r"

fun lruk_run :: "lruk_op list \<Rightarrow> lruk \<Rightarrow> (frame_id_t option list \<times> lruk) result" where
  "lruk_run [] r = Inr ([], r)"
| "lruk_run (op # ops) r =
     bind_result (lruk_step op r)
       (\<lambda>(out, r). bind_result (lruk_run ops r) (\<lambda>(outs, r). Inr (out # outs, r)))"

text \<open>
  A step of the specification, for a replacer of \<open>n\<close> frames.  The calls that name a frame
  accept it up to \<open>n\<close>, and a frame with recorded accesses is removed only when it is evictable;
  \<open>spec_rejects\<close> lists the calls that throw.
\<close>

definition valid_frame :: "nat \<Rightarrow> frame_id_t \<Rightarrow> bool" where
  "valid_frame n f \<longleftrightarrow> f \<le> wrap32 (int n)"

inductive spec_step :: "nat \<Rightarrow> nat \<Rightarrow> lruk_op \<Rightarrow> lruk_spec \<Rightarrow> frame_id_t option \<Rightarrow> lruk_spec \<Rightarrow> bool" for n k where
  record_step: "valid_frame n f \<Longrightarrow> spec_step n k (RecordOp f) a None (spec_record f a)"
| set_step: "valid_frame n f \<Longrightarrow> spec_step n k (SetEvictableOp f b) a None (spec_set_evictable f b a)"
| remove_step: "valid_frame n f \<Longrightarrow> stamps a f = [] \<or> evictable a f \<Longrightarrow> spec_step n k (RemoveOp f) a None (spec_forget f a)"
| evict_step: "is_victim k a f \<Longrightarrow> spec_step n k EvictOp a (Some f) (spec_forget f a)"
| evict_none_step: "\<forall>f. \<not> evictable a f \<Longrightarrow> spec_step n k EvictOp a None a"

fun spec_rejects :: "nat \<Rightarrow> lruk_op \<Rightarrow> lruk_spec \<Rightarrow> bool" where
  "spec_rejects n (RecordOp f) a \<longleftrightarrow> \<not> valid_frame n f"
| "spec_rejects n (SetEvictableOp f b) a \<longleftrightarrow> \<not> valid_frame n f"
| "spec_rejects n (RemoveOp f) a \<longleftrightarrow> \<not> valid_frame n f \<or> stamps a f \<noteq> [] \<and> \<not> evictable a f"
| "spec_rejects n EvictOp a \<longleftrightarrow> False"

inductive spec_run :: "nat \<Rightarrow> nat \<Rightarrow> lruk_op list \<Rightarrow> lruk_spec \<Rightarrow> frame_id_t option list \<Rightarrow> lruk_spec \<Rightarrow> bool"
  for n k where
  run_nil: "spec_run n k [] a [] a"
| run_cons: "spec_step n k op a out b \<Longrightarrow> spec_run n k ops b outs c \<Longrightarrow>
    spec_run n k (op # ops) a (out # outs) c"

inductive_simps spec_run_nil_iff: "spec_run n k [] a outs c"

inductive_simps spec_run_cons_iff: "spec_run n k (op # ops) a outs c"

inductive_simps spec_record_iff: "spec_step n k (RecordOp f) a out b"

inductive_simps spec_set_iff: "spec_step n k (SetEvictableOp f e) a out b"

lemmas spec_run_simps = spec_run_nil_iff spec_run_cons_iff spec_record_iff spec_set_iff

text \<open>A call either follows the specification or is one that it rejects.\<close>

lemma lruk_step_simulates:
  assumes rel: "lruk_rel r a"
  shows "if spec_rejects (replacer_size r) op a then lruk_step op r = Inl StdException
    else \<exists>out r' a'. lruk_step op r = Inr (out, r') \<and> spec_step (replacer_size r) (k_limit r) op a out a' \<and>
       lruk_rel r' a' \<and> k_limit r' = k_limit r \<and> replacer_size r' = replacer_size r"
proof (cases op)
  case (RecordOp f)
  then show ?thesis
    using RecordAccess_refines [OF rel, of f] record_step
    by (cases "valid_frame (replacer_size r) f") (fastforce simp: LRUKReplacer_RecordAccess_def valid_frame_def)+
next
  case (SetEvictableOp f b)
  then show ?thesis
    using SetEvictable_refines [OF rel, of f b] set_step
    by (cases "valid_frame (replacer_size r) f") (fastforce simp: LRUKReplacer_SetEvictable_def valid_frame_def)+
next
  case (RemoveOp f)
  show ?thesis
  proof (cases "valid_frame (replacer_size r) f \<and> (stamps a f = [] \<or> evictable a f)")
    case True
    then obtain r' where "LRUKReplacer_Remove f r = Inr r'" "lruk_rel r' (spec_forget f a)"
      "k_limit r' = k_limit r" "replacer_size r' = replacer_size r"
      using Remove_refines [OF rel, of f] by (auto simp: valid_frame_def)
    with RemoveOp True show ?thesis by (auto intro!: exI remove_step)
  next
    case False
    with rel RemoveOp show ?thesis by (auto simp: LRUKReplacer_Remove_def lruk_rel_def valid_frame_def)
  qed
next
  case EvictOp
  with Evict_refines [OF rel] show ?thesis
    by simp (metis evict_step evict_none_step rel)
qed

lemma lruk_run_simulates:
  "lruk_rel r a \<Longrightarrow>
    (\<exists>pre op post outs a'. ops = pre @ op # post \<and> spec_run (replacer_size r) (k_limit r) pre a outs a' \<and>
       spec_rejects (replacer_size r) op a' \<and> lruk_run ops r = Inl StdException) \<or>
    (\<exists>outs r' a'. lruk_run ops r = Inr (outs, r') \<and> spec_run (replacer_size r) (k_limit r) ops a outs a' \<and>
       lruk_rel r' a' \<and> k_limit r' = k_limit r)"
proof (induction ops arbitrary: r a)
  case Nil
  then show ?case by (auto intro: run_nil)
next
  case (Cons op ops)
  show ?case
  proof (cases "spec_rejects (replacer_size r) op a")
    case True
    then have "lruk_run (op # ops) r = Inl StdException" using lruk_step_simulates [OF Cons.prems, of op] by simp
    then show ?thesis using True run_nil by blast
  next
    case False
    then obtain out r' a' where s: "lruk_step op r = Inr (out, r')" "spec_step (replacer_size r) (k_limit r) op a out a'"
        "lruk_rel r' a'" "k_limit r' = k_limit r" "replacer_size r' = replacer_size r"
      using lruk_step_simulates [OF Cons.prems, of op] by auto
    from Cons.IH [OF s(3)] show ?thesis
    proof (elim disjE exE conjE)
      fix pre op' post outs c assume "ops = pre @ op' # post" "spec_run (replacer_size r') (k_limit r') pre a' outs c"
        "spec_rejects (replacer_size r') op' c" "lruk_run ops r' = Inl StdException"
      then have "op # ops = (op # pre) @ op' # post" "spec_run (replacer_size r) (k_limit r) (op # pre) a (out # outs) c"
        "spec_rejects (replacer_size r) op' c" "lruk_run (op # ops) r = Inl StdException"
        using s by (simp_all add: run_cons)
      then show ?thesis by blast
    next
      fix outs r2 c assume "lruk_run ops r' = Inr (outs, r2)" "spec_run (replacer_size r') (k_limit r') ops a' outs c"
        "lruk_rel r2 c" "k_limit r2 = k_limit r'"
      then have "lruk_run (op # ops) r = Inr (out # outs, r2)" "spec_run (replacer_size r) (k_limit r) (op # ops) a (out # outs) c"
        using s by (simp_all add: run_cons)
      then show ?thesis using \<open>lruk_rel r2 c\<close> \<open>k_limit r2 = k_limit r'\<close> s(4) by auto
    qed
  qed
qed

text \<open>Unfolding the operations on concrete states.\<close>

lemmas lruk_eval = LRUKReplacer_init_def LRUKReplacer_RecordAccess_def push_history_def push_cache_def
  LRUKReplacer_SetEvictable_def LRUKReplacer_Evict_def LRUKReplacer_Remove_def list_erase_def
  wrap32_def Let_def

section \<open>Eviction after a sequence of accesses\<close>

text \<open>The position of the last occurrence of \<open>f\<close>; \<open>remdups\<close> keeps last occurrences.\<close>

fun last_pos :: "'a list \<Rightarrow> 'a \<Rightarrow> nat" where
  "last_pos [] f = 0"
| "last_pos (x # xs) f = (if f \<in> set xs then Suc (last_pos xs f) else 0)"

lemma remdups_last_pos: "sorted_wrt (\<lambda>f g. last_pos xs f < last_pos xs g) (remdups xs)"
proof (induction xs)
  case (Cons x xs)
  have "sorted_wrt (\<lambda>f g. last_pos (x # xs) f < last_pos (x # xs) g) (remdups xs)"
    by (rule sorted_wrt_mono_rel [OF _ Cons.IH]) auto
  then show ?case by auto
qed simp

lemma hd_filter_remdups:
  assumes "f \<in> S" "f \<in> set xs" "\<forall>g \<in> S. last_pos xs f \<le> last_pos xs g"
  shows "hd (filter (\<lambda>g. g \<in> S) (remdups xs)) = f"
proof -
  let ?ys = "filter (\<lambda>g. g \<in> S) (remdups xs)"
  have "f \<in> set ?ys" using assms by simp
  then obtain y ys where ys: "?ys = y # ys" by (cases ?ys) auto
  have "sorted_wrt (\<lambda>f g. last_pos xs f < last_pos xs g) (y # ys)"
    using sorted_wrt_filter [OF remdups_last_pos, of xs "\<lambda>g. g \<in> S"] ys by simp
  moreover have "y \<in> set ?ys" unfolding ys by simp
  then have "y \<in> S" by simp
  ultimately show ?thesis using \<open>f \<in> set ?ys\<close> assms(3) ys by fastforce
qed

lemma spec_run_records:
  "spec_run n k (map RecordOp accs @ ops) a outs c \<Longrightarrow>
    \<exists>b outs'. spec_run n k ops b outs' c \<and> evictable b = evictable a \<and>
      (\<forall>f. length (stamps b f) = count_list accs f + length (stamps a f)) \<and>
      (\<forall>f. f \<notin> set accs \<longrightarrow> stamps b f = stamps a f) \<and> (\<forall>f \<in> set accs. hd (stamps b f) = clock a + last_pos accs f)"
proof (induction accs arbitrary: a outs)
  case (Cons x accs)
  then obtain outs1 where "spec_run n k (map RecordOp accs @ ops) (spec_record x a) outs1 c"
    by (auto simp: spec_run_simps)
  from Cons.IH [OF this] obtain b outs' where b: "spec_run n k ops b outs' c" "evictable b = evictable (spec_record x a)"
    "\<forall>f. length (stamps b f) = count_list accs f + length (stamps (spec_record x a) f)"
    "\<forall>f. f \<notin> set accs \<longrightarrow> stamps b f = stamps (spec_record x a) f"
    "\<forall>f \<in> set accs. hd (stamps b f) = clock (spec_record x a) + last_pos accs f" by blast
  have "hd (stamps b f) = clock a + last_pos (x # accs) f" if "f \<in> set (x # accs)" for f
  proof (cases "f \<in> set accs")
    case False
    then show ?thesis using b(4) that by (simp add: spec_record_def)
  qed (use b(5) in \<open>simp add: spec_record_def\<close>)
  then show ?case using b by (auto simp: spec_record_def)
qed auto

lemma spec_run_evictables:
  "spec_run n k (map (\<lambda>f. SetEvictableOp f True) fs) a outs c \<Longrightarrow>
    stamps c = stamps a \<and> (\<forall>f. evictable c f \<longleftrightarrow> evictable a f \<or> f \<in> set fs \<and> stamps a f \<noteq> [])"
proof (induction fs arbitrary: a outs)
  case (Cons x fs)
  then obtain outs1 where "spec_run n k (map (\<lambda>f. SetEvictableOp f True) fs) (spec_set_evictable x True a) outs1 c"
    by (auto simp: spec_run_simps)
  from Cons.IH [OF this] show ?case by (auto simp: spec_set_evictable_def)
qed (simp add: spec_run_simps)

lemma valid_ops_run:
  assumes "2 \<le> k" "\<forall>f \<in> set accs. valid_frame n f" "\<forall>f \<in> set fs. valid_frame n f"
  obtains outs r a where "lruk_run (map RecordOp accs @ map (\<lambda>f. SetEvictableOp f True) fs) (LRUKReplacer_init n k) = Inr (outs, r)"
    "spec_run n k (map RecordOp accs @ map (\<lambda>f. SetEvictableOp f True) fs) spec_init outs a" "lruk_rel r a" "k_limit r = k"
proof -
  let ?ops = "map RecordOp accs @ map (\<lambda>f. SetEvictableOp f True) fs"
  have ok: "\<not> spec_rejects n op a" if "op \<in> set ?ops" for op a
    using that assms(2,3) by auto
  have init: "replacer_size (LRUKReplacer_init n k) = n" "k_limit (LRUKReplacer_init n k) = k"
    by (simp_all add: LRUKReplacer_init_def)
  from lruk_run_simulates [OF lruk_rel_init [OF assms(1), of n], of ?ops] show ?thesis
    unfolding init
  proof (elim disjE exE conjE)
    fix pre op post outs a assume "?ops = pre @ op # post" "spec_rejects n op a"
    then show ?thesis using ok [of op a] by simp
  qed (rule that)
qed

section \<open>Properties\<close>

text \<open>
  C1. Every sequence of calls on a fresh replacer of \<open>n\<close> frames with \<open>k\<close> at least two follows
  the time-stamp specification.  A run that returns gives exactly its outputs: each eviction returns
  an evictable frame, the one with the oldest first access among those with fewer than \<open>k\<close>
  accesses, or, when there is none, the one with the oldest last access; and the reported size is
  the number of evictable frames.  A run that does not return stops with the documented exception,
  at the first call that the specification rejects: a frame above \<open>n\<close>, or the removal of a frame
  with recorded accesses that is not evictable.  No run reaches undefined behaviour.
\<close>

theorem lruk_run_refines_spec:
  assumes "2 \<le> k"
  shows "case lruk_run ops (LRUKReplacer_init n k) of
      Inr (outs, r) \<Rightarrow> \<exists>a. spec_run n k ops spec_init outs a \<and> LRUKReplacer_Size r = card {f. evictable a f}
    | Inl e \<Rightarrow> e = StdException \<and> (\<exists>pre op post outs a. ops = pre @ op # post \<and>
        spec_run n k pre spec_init outs a \<and> spec_rejects n op a)"
  using lruk_run_simulates [OF lruk_rel_init [OF assms, of n], of ops]
  by (auto simp: LRUKReplacer_Size_def lruk_rel_def) (auto simp: LRUKReplacer_init_def)

abbreviation evict_demo :: "lruk_op list" where
  "evict_demo \<equiv> [RecordOp 1, RecordOp 2, RecordOp 2, SetEvictableOp 1 True, SetEvictableOp 2 True,
     EvictOp, EvictOp, EvictOp]"

theorem lruk_run_refines_spec_witness:
  "(2 :: nat) \<le> 2 \<and>
   (\<exists>r a. lruk_run evict_demo (LRUKReplacer_init 7 2) =
      Inr ([None, None, None, None, None, Some 1, Some 2, None], r) \<and>
     spec_run 7 2 evict_demo spec_init [None, None, None, None, None, Some 1, Some 2, None] a)"
proof -
  have run: "\<exists>r. lruk_run evict_demo (LRUKReplacer_init 7 2) =
      Inr ([None, None, None, None, None, Some 1, Some 2, None], r)"
    by (simp add: lruk_eval)
  then show ?thesis
    using lruk_run_refines_spec [of 2 evict_demo 7] by auto
qed

text \<open>
  C2. Among frames with at least \<open>k\<close> accesses the victim is chosen by the last access alone, not by
  the \<open>k\<close>-th most recent one.  After any sequence of accesses \<open>accs\<close> to valid frames, with the
  frames \<open>fs\<close> made evictable and each of them accessed at least \<open>k\<close> times, the replacer
  evicts the frame of \<open>fs\<close> whose last access comes first.
\<close>

theorem lruk_evict_ignores_kth_access:
  assumes "2 \<le> k" "\<forall>f \<in> set accs. valid_frame n f" "fs \<noteq> []" "\<forall>f \<in> set fs. k \<le> count_list accs f"
  shows "\<exists>outs r r'. lruk_run (map RecordOp accs @ map (\<lambda>f. SetEvictableOp f True) fs) (LRUKReplacer_init n k) = Inr (outs, r) \<and>
    LRUKReplacer_Evict r = Inr (Some (hd (filter (\<lambda>f. f \<in> set fs) (remdups accs))), r')"
proof -
  have fs: "set fs \<subseteq> set accs"
    using assms(1,4) count_notin by (metis le_zero_eq not_numeral_le_zero subsetI)
  obtain outs r a where run: "lruk_run (map RecordOp accs @ map (\<lambda>f. SetEvictableOp f True) fs) (LRUKReplacer_init n k) = Inr (outs, r)"
    and sp: "spec_run n k (map RecordOp accs @ map (\<lambda>f. SetEvictableOp f True) fs) spec_init outs a"
    and rel: "lruk_rel r a" "k_limit r = k"
    by (rule valid_ops_run [of k accs n fs]) (use assms fs in auto)
  obtain b outs' where b: "spec_run n k (map (\<lambda>f. SetEvictableOp f True) fs) b outs' a" "evictable b = evictable spec_init"
      "\<forall>f. length (stamps b f) = count_list accs f + length (stamps spec_init f)"
      "\<forall>f \<in> set accs. hd (stamps b f) = clock spec_init + last_pos accs f"
    using spec_run_records [OF sp] by blast
  have len: "length (stamps a f) = count_list accs f" for f
    using b(3) spec_run_evictables [OF b(1)] by (simp add: spec_init_def)
  have hd: "hd (stamps a f) = last_pos accs f" if "f \<in> set accs" for f
    using b(4) spec_run_evictables [OF b(1)] that by (simp add: spec_init_def)
  have "evictable a f \<longleftrightarrow> f \<in> set fs" for f
    using spec_run_evictables [OF b(1)] b(2) len [of f] assms(1,4) by (fastforce simp: spec_init_def)
  then have vs: "young k a = {}" "mature k a = set fs" "\<exists>f. evictable a f"
    using assms(3,4) by (auto simp: young_def mature_def len intro: hd_in_set)
  obtain f r' where v: "is_victim k a f" "LRUKReplacer_Evict r = Inr (Some f, r')"
    using Evict_refines [OF rel(1)] vs(3) rel(2) by auto
  then have f: "f \<in> set fs" "\<forall>g \<in> set fs. hd (stamps a f) \<le> hd (stamps a g)"
    by (auto simp: is_victim_def vs)
  then have "\<forall>g \<in> set fs. last_pos accs f \<le> last_pos accs g"
    using hd fs by (metis subsetD)
  then have "hd (filter (\<lambda>f. f \<in> set fs) (remdups accs)) = f"
    using hd_filter_remdups [of f "set fs" accs] fs f(1) by auto
  with run v(2) show ?thesis by auto
qed

theorem lruk_evict_ignores_kth_access_witness:
  "\<exists>outs r r'. lruk_run (map RecordOp [1, 2, 2, 1] @ map (\<lambda>f. SetEvictableOp f True) [1, 2]) (LRUKReplacer_init 7 2) = Inr (outs, r) \<and>
    LRUKReplacer_Evict r = Inr (Some 2, r')"
proof -
  have "hd (filter (\<lambda>f. f \<in> set [1, 2]) (remdups [1, 2, 2, 1])) = (2 :: int)" by simp
  moreover have "\<forall>f \<in> set [1, 2, 2, 1]. valid_frame 7 f" by (simp add: valid_frame_def wrap32_def)
  moreover have "\<forall>f \<in> set [1, 2]. 2 \<le> count_list [1, 2, 2, 1 :: int] f" by simp
  ultimately show ?thesis
    using lruk_evict_ignores_kth_access [of 2 "[1, 2, 2, 1]" 7 "[1, 2]"] by (metis list.distinct(1) order_refl)
qed

text \<open>
  C3. With \<open>k = 1\<close> the first recorded access of any valid frame erases through a singular
  iterator, which is undefined behaviour; the replacer needs \<open>k \<ge> 2\<close>.
\<close>

theorem lruk_k1_undefined:
  assumes "f \<le> wrap32 (int n)"
  shows "LRUKReplacer_RecordAccess f (LRUKReplacer_init n 1) = Inl UndefinedBehaviour"
  using assms by (simp add: LRUKReplacer_RecordAccess_def LRUKReplacer_init_def list_erase_def)

theorem lruk_k1_undefined_witness:
  "(3 :: int) \<le> wrap32 (int 7) \<and>
   LRUKReplacer_RecordAccess 3 (LRUKReplacer_init 7 1) = Inl UndefinedBehaviour"
  using lruk_k1_undefined [of 3 7] by (simp add: wrap32_def)

end
