(* ===== verification/ExtendibleHashTable.thy ===== *)
theory ExtendibleHashTable
  imports Interfaces "HOL-Library.AList"
begin

unbundle bit_operations_syntax

text \<open>
  The in-memory extendible hash table of
  \<^verbatim>\<open>src/container/hash/extendible_hash_table.cpp\<close>, which the buffer pool manager uses as its
  page table.  The directory is a vector of shared pointers: a bucket is an index into the list
  \<open>buckets\<close> of all buckets ever allocated, so pointer equality in the redirection loop is equality
  of indices.  The hash function is an argument; \<open>std_hash_int\<close> is the instance for page ids.
\<close>

section \<open>Buckets\<close>

record ('k, 'v) bucket =
  b_size :: nat
  b_depth :: nat
  b_list :: "('k \<times> 'v) list"

definition Bucket_init :: "nat \<Rightarrow> nat \<Rightarrow> ('k, 'v) bucket" where
  "Bucket_init array_size dep = \<lparr>b_size = array_size, b_depth = dep, b_list = []\<rparr>"

definition Bucket_IsFull :: "('k, 'v) bucket \<Rightarrow> bool" where
  "Bucket_IsFull b \<longleftrightarrow> length (b_list b) = b_size b"

text \<open>The first item with the key decides, as in \<open>std::any_of\<close>.\<close>

definition Bucket_Find :: "'k \<Rightarrow> ('k, 'v) bucket \<Rightarrow> 'v option" where
  "Bucket_Find key b = map_option snd (List.find (\<lambda>item. fst item = key) (b_list b))"

text \<open>\<open>list.remove(item)\<close> drops every element equal to the pair that was found.\<close>

definition Bucket_Remove :: "'k \<Rightarrow> ('k, 'v) bucket \<Rightarrow> bool \<times> ('k, 'v) bucket" where
  "Bucket_Remove key b =
     (case List.find (\<lambda>item. fst item = key) (b_list b) of
        None \<Rightarrow> (False, b)
      | Some item \<Rightarrow> (True, b\<lparr>b_list := filter (\<lambda>x. x \<noteq> item) (b_list b)\<rparr>))"

definition Bucket_Insert :: "'k \<Rightarrow> 'v \<Rightarrow> ('k, 'v) bucket \<Rightarrow> bool \<times> ('k, 'v) bucket" where
  "Bucket_Insert key v b =
     (if Bucket_IsFull b then (False, b) else (True, b\<lparr>b_list := b_list b @ [(key, v)]\<rparr>))"

section \<open>The table\<close>

record ('k, 'v) eht =
  global_depth :: nat
  bucket_size :: nat
  num_buckets :: nat
  dir :: "nat list"
  buckets :: "('k, 'v) bucket list"

definition ExtendibleHashTable_init :: "nat \<Rightarrow> ('k, 'v) eht" where
  "ExtendibleHashTable_init bsize =
     \<lparr>global_depth = 0, bucket_size = bsize, num_buckets = 1, dir = [0], buckets = [Bucket_init bsize 0]\<rparr>"

text \<open>
  \<open>(1 << global_depth) - 1\<close> is computed in \<open>int\<close>: from depth 31 on it overflows.
\<close>

definition IndexOf :: "('k \<Rightarrow> 64 word) \<Rightarrow> 'k \<Rightarrow> ('k, 'v) eht \<Rightarrow> nat result" where
  "IndexOf h key t =
     (if 31 \<le> global_depth t then Inl UndefinedBehaviour
      else Inr (unat (h key AND (push_bit (global_depth t) 1 - 1))))"

text \<open>\<open>dir_[IndexOf(key)]\<close>\<close>

definition target_bucket :: "('k \<Rightarrow> 64 word) \<Rightarrow> 'k \<Rightarrow> ('k, 'v) eht \<Rightarrow> nat result" where
  "target_bucket h key t =
     bind_result (IndexOf h key t)
       (\<lambda>i. if i < length (dir t) then Inr (dir t ! i) else Inl UndefinedBehaviour)"

definition GetGlobalDepth :: "('k, 'v) eht \<Rightarrow> nat" where
  "GetGlobalDepth t = global_depth t"

definition GetLocalDepth :: "('k, 'v) eht \<Rightarrow> nat \<Rightarrow> nat result" where
  "GetLocalDepth t i =
     (if i < length (dir t) then Inr (b_depth (buckets t ! (dir t ! i))) else Inl UndefinedBehaviour)"

definition GetNumBuckets :: "('k, 'v) eht \<Rightarrow> nat" where
  "GetNumBuckets t = num_buckets t"

definition ExtendibleHashTable_Find :: "('k \<Rightarrow> 64 word) \<Rightarrow> 'k \<Rightarrow> ('k, 'v) eht \<Rightarrow> 'v option result" where
  "ExtendibleHashTable_Find h key t =
     bind_result (target_bucket h key t) (\<lambda>a. Inr (Bucket_Find key (buckets t ! a)))"

definition ExtendibleHashTable_Remove ::
    "('k \<Rightarrow> 64 word) \<Rightarrow> 'k \<Rightarrow> ('k, 'v) eht \<Rightarrow> (bool \<times> ('k, 'v) eht) result" where
  "ExtendibleHashTable_Remove h key t =
     bind_result (target_bucket h key t)
       (\<lambda>a. let (found, b) = Bucket_Remove key (buckets t ! a)
             in Inr (found, t\<lparr>buckets := (buckets t)[a := b]\<rparr>))"

text \<open>
  Doubling the directory when the local depth has reached the global depth.  \<open>capacity << 1\<close> is
  computed in \<open>int\<close>: from a capacity of \<open>2 ^ 30\<close> it is negative, and the conversion to
  \<open>size_t\<close> asks \<open>resize\<close> for more elements than a vector can have.
\<close>

definition grow_directory :: "nat \<Rightarrow> ('k, 'v) eht \<Rightarrow> ('k, 'v) eht result" where
  "grow_directory a t =
     (if b_depth (buckets t ! a) = global_depth t then
        let capacity = wrap32 (int (length (dir t)))
        in if capacity < 0 then Inl UndefinedBehaviour
           else if wrap32 (2 * capacity) < 0 then Inl LengthError
           else Inr (t\<lparr>global_depth := global_depth t + 1,
             dir := take (nat capacity) (dir t) @ take (nat capacity) (dir t)\<rparr>)
      else Inr t)"

text \<open>The loop that distributes the items over the two new buckets.\<close>

fun redistribute ::
    "('k \<Rightarrow> 64 word) \<Rightarrow> nat \<Rightarrow> ('k \<times> 'v) list \<Rightarrow> ('k, 'v) bucket \<Rightarrow> ('k, 'v) bucket \<Rightarrow>
       ('k, 'v) bucket \<times> ('k, 'v) bucket" where
  "redistribute h d [] b0 b1 = (b0, b1)"
| "redistribute h d (item # items) b0 b1 =
     (if h (fst item) AND push_bit d 1 \<noteq> 0
      then redistribute h d items b0 (snd (Bucket_Insert (fst item) (snd item) b1))
      else redistribute h d items (snd (Bucket_Insert (fst item) (snd item) b0)) b1)"

text \<open>The loop that redirects the directory entries of the old bucket.\<close>

definition redirect :: "nat \<Rightarrow> nat \<Rightarrow> nat \<Rightarrow> nat \<Rightarrow> nat list \<Rightarrow> nat list" where
  "redirect d a a0 a1 ds =
     map (\<lambda>(i, x). if x = a then (if i AND push_bit d 1 \<noteq> 0 then a1 else a0) else x)
       (List.enumerate 0 ds)"

text \<open>The body of the loop behind the doubling.\<close>

definition split_items :: "('k \<Rightarrow> 64 word) \<Rightarrow> nat \<Rightarrow> ('k, 'v) eht \<Rightarrow> ('k, 'v) eht" where
  "split_items h a t =
     (let b = buckets t ! a;
          d = b_depth b;
          (b0, b1) = redistribute h d (b_list b)
             (Bucket_init (bucket_size t) (d + 1)) (Bucket_init (bucket_size t) (d + 1));
          a0 = length (buckets t);
          a1 = Suc a0
      in t\<lparr>num_buckets := num_buckets t + 1,
           buckets := buckets t @ [b0, b1],
           dir := redirect d a a0 a1 (dir t)\<rparr>)"

definition split_bucket :: "('k \<Rightarrow> 64 word) \<Rightarrow> nat \<Rightarrow> ('k, 'v) eht \<Rightarrow> ('k, 'v) eht result" where
  "split_bucket h a t = bind_result (grow_directory a t) (\<lambda>t. Inr (split_items h a t))"

text \<open>
  The \<open>while\<close> loop of \<open>Insert\<close>.  Every iteration raises the local depth of the key's bucket, and
  at depth 30 the doubling throws, so 32 rounds are enough.
\<close>

fun Insert_loop :: "nat \<Rightarrow> ('k \<Rightarrow> 64 word) \<Rightarrow> 'k \<Rightarrow> ('k, 'v) eht \<Rightarrow> ('k, 'v) eht result" where
  "Insert_loop 0 h key t = Inl OutOfFuel"
| "Insert_loop (Suc fuel) h key t =
     bind_result (target_bucket h key t)
       (\<lambda>a. if Bucket_IsFull (buckets t ! a) then bind_result (split_bucket h a t) (Insert_loop fuel h key)
             else Inr t)"

fun update_item :: "'k \<Rightarrow> 'v \<Rightarrow> ('k \<times> 'v) list \<Rightarrow> ('k \<times> 'v) list option" where
  "update_item key v [] = None"
| "update_item key v (item # items) =
     (if fst item = key then Some ((fst item, v) # items)
      else map_option (Cons item) (update_item key v items))"

definition ExtendibleHashTable_Insert ::
    "('k \<Rightarrow> 64 word) \<Rightarrow> 'k \<Rightarrow> 'v \<Rightarrow> ('k, 'v) eht \<Rightarrow> ('k, 'v) eht result" where
  "ExtendibleHashTable_Insert h key v t =
     bind_result (Insert_loop 32 h key t)
       (\<lambda>t. bind_result (target_bucket h key t)
         (\<lambda>a. let b = buckets t ! a;
                   b' = (case update_item key v (b_list b) of
                           Some items \<Rightarrow> b\<lparr>b_list := items\<rparr>
                         | None \<Rightarrow> snd (Bucket_Insert key v b))
               in Inr (t\<lparr>buckets := (buckets t)[a := b']\<rparr>)))"

text \<open>\<open>std::hash<int>\<close> of libstdc++ is the conversion to \<open>size_t\<close>.\<close>

definition std_hash_int :: "int \<Rightarrow> 64 word" where
  "std_hash_int x = word_of_int x"

section \<open>The invariant and the abstract map\<close>

abbreviation hash_bits :: "('k \<Rightarrow> 64 word) \<Rightarrow> nat \<Rightarrow> 'k \<Rightarrow> nat" where
  "hash_bits h d k \<equiv> take_bit d (unat (h k))"

abbreviation bucket_of :: "('k, 'v) eht \<Rightarrow> nat \<Rightarrow> ('k, 'v) bucket" where
  "bucket_of t i \<equiv> buckets t ! (dir t ! i)"

definition eht_map :: "('k \<Rightarrow> 64 word) \<Rightarrow> ('k, 'v) eht \<Rightarrow> 'k \<Rightarrow> 'v option" where
  "eht_map h t k = map_of (b_list (bucket_of t (hash_bits h (global_depth t) k))) k"

definition bucket_ok :: "('k \<Rightarrow> 64 word) \<Rightarrow> ('k, 'v) eht \<Rightarrow> nat \<Rightarrow> bool" where
  "bucket_ok h t i \<longleftrightarrow>
     dir t ! i < length (buckets t) \<and>
     b_size (bucket_of t i) = bucket_size t \<and>
     b_depth (bucket_of t i) \<le> global_depth t \<and>
     length (b_list (bucket_of t i)) \<le> bucket_size t \<and>
     distinct (map fst (b_list (bucket_of t i))) \<and>
     (\<forall>k \<in> fst ` set (b_list (bucket_of t i)).
        hash_bits h (b_depth (bucket_of t i)) k = take_bit (b_depth (bucket_of t i)) i)"

definition shares_ok :: "('k, 'v) eht \<Rightarrow> nat \<Rightarrow> nat \<Rightarrow> bool" where
  "shares_ok t i j \<longleftrightarrow>
     (dir t ! i = dir t ! j \<longleftrightarrow>
      take_bit (b_depth (bucket_of t i)) i = take_bit (b_depth (bucket_of t i)) j)"

definition eht_wf :: "('k \<Rightarrow> 64 word) \<Rightarrow> ('k, 'v) eht \<Rightarrow> bool" where
  "eht_wf h t \<longleftrightarrow>
     0 < bucket_size t \<and> length (dir t) = 2 ^ global_depth t \<and>
     (\<forall>i < 2 ^ global_depth t. bucket_ok h t i) \<and>
     (\<forall>i < 2 ^ global_depth t. \<forall>j < 2 ^ global_depth t. shares_ok t i j) \<and>
     num_buckets t = card (set (dir t))"

definition eht_inv :: "('k \<Rightarrow> 64 word) \<Rightarrow> ('k, 'v) eht \<Rightarrow> bool" where
  "eht_inv h t \<longleftrightarrow> global_depth t < 31 \<and> eht_wf h t"

section \<open>Lemmas on bits\<close>

lemma and_push_bit_word: "(w :: 64 word) AND push_bit d 1 \<noteq> 0 \<longleftrightarrow> bit (unat w) d"
proof -
  have "(w AND push_bit d 1 \<noteq> 0) \<longleftrightarrow> bit w d"
    by (simp add: push_bit_of_1 and_exp_eq_0_iff_not_bit)
  then show ?thesis by (auto simp: bit_unsigned_iff bit_imp_le_length)
qed

lemma unat_and_mask: "unat ((w :: 64 word) AND (2 ^ d - 1)) = take_bit d (unat w)"
  by (simp add: unsigned_take_bit_eq flip: mask_eq_exp_minus_1 take_bit_eq_mask)

lemma take_bit_Suc_eq_iff:
  "take_bit (Suc d) (i :: nat) = take_bit (Suc d) j \<longleftrightarrow>
   take_bit d i = take_bit d j \<and> (bit i d \<longleftrightarrow> bit j d)"
proof -
  have "take_bit d i < 2 ^ d" "take_bit d j < 2 ^ d" by simp_all
  then have "2 ^ d + take_bit d i \<noteq> take_bit d j" "take_bit d i \<noteq> 2 ^ d + take_bit d j" by linarith+
  then show ?thesis
    by (auto simp: take_bit_Suc_from_most)
qed

lemma take_bit_take_bit_le: "d \<le> e \<Longrightarrow> take_bit d (take_bit e (n :: nat)) = take_bit d n"
  by (simp add: min_absorb1)

section \<open>Lookup\<close>

lemma find_fst_eq_map_of: "map_option snd (List.find (\<lambda>item. fst item = key) xs) = map_of xs key"
  by (induction xs) auto

lemma Bucket_Find_eq: "Bucket_Find key b = map_of (b_list b) key"
  by (simp add: Bucket_Find_def find_fst_eq_map_of)

lemma eht_wfD:
  assumes "eht_wf h t" and "i < 2 ^ global_depth t"
  shows "bucket_ok h t i" and "j < 2 ^ global_depth t \<Longrightarrow> shares_ok t i j"
    and "i < length (dir t)"
  using assms by (simp_all add: eht_wf_def)

lemma target_bucket_eq:
  "eht_inv h t \<Longrightarrow> target_bucket h k t = Inr (dir t ! hash_bits h (global_depth t) k)"
  by (simp add: target_bucket_def IndexOf_def unat_and_mask eht_inv_def eht_wf_def)

lemma ExtendibleHashTable_Find_eq: "eht_inv h t \<Longrightarrow> ExtendibleHashTable_Find h k t = Inr (eht_map h t k)"
  by (simp add: ExtendibleHashTable_Find_def target_bucket_eq Bucket_Find_eq eht_map_def)

lemma eht_inv_init: "0 < n \<Longrightarrow> eht_inv h (ExtendibleHashTable_init n)"
  by (simp add: eht_inv_def eht_wf_def ExtendibleHashTable_init_def bucket_ok_def shares_ok_def
      Bucket_init_def)

lemma bucket_size_init [simp]: "bucket_size (ExtendibleHashTable_init n) = n"
  by (simp add: ExtendibleHashTable_init_def)

lemma eht_map_init: "eht_map h (ExtendibleHashTable_init n) = Map.empty"
  by (auto simp: eht_map_def ExtendibleHashTable_init_def Bucket_init_def)

section \<open>Replacing the contents of one bucket\<close>

lemma replace_bucket:
  assumes wf: "eht_wf h t" and i: "i < 2 ^ global_depth t"
    and b: "b_size b = bucket_size t" "b_depth b = b_depth (bucket_of t i)"
      "length (b_list b) \<le> bucket_size t" "distinct (map fst (b_list b))"
      "\<forall>k \<in> fst ` set (b_list b). hash_bits h (b_depth b) k = take_bit (b_depth b) i"
  shows "eht_wf h (t\<lparr>buckets := (buckets t)[dir t ! i := b]\<rparr>)"
proof -
  let ?t = "t\<lparr>buckets := (buckets t)[dir t ! i := b]\<rparr>"
  have dep: "b_depth (bucket_of ?t j) = b_depth (bucket_of t j)" if "j < 2 ^ global_depth t" for j
    using b(2) eht_wfD(1) [OF wf i] by (cases "dir t ! j = dir t ! i") (auto simp: bucket_ok_def)
  have "bucket_ok h ?t j" if j: "j < 2 ^ global_depth t" for j
  proof (cases "dir t ! j = dir t ! i")
    case True
    have "take_bit (b_depth b) i = take_bit (b_depth b) j"
      using eht_wfD(2) [OF wf i j] True b(2) by (simp add: shares_ok_def)
    with True b eht_wfD(1) [OF wf i] show ?thesis by (simp add: bucket_ok_def)
  next
    case False
    with eht_wfD(1) [OF wf j] show ?thesis by (simp add: bucket_ok_def)
  qed
  moreover have "shares_ok ?t j j'" if "j < 2 ^ global_depth t" "j' < 2 ^ global_depth t" for j j'
    using dep [OF that(1)] eht_wfD(2) [OF wf that] by (simp add: shares_ok_def)
  ultimately show ?thesis using wf by (simp add: eht_wf_def)
qed

lemma replace_bucket_map:
  assumes wf: "eht_wf h t" and i: "i < 2 ^ global_depth t"
  shows "eht_map h (t\<lparr>buckets := (buckets t)[dir t ! i := b]\<rparr>) k =
    (if dir t ! hash_bits h (global_depth t) k = dir t ! i then map_of (b_list b) k else eht_map h t k)"
  using eht_wfD(1) [OF wf i] by (simp add: eht_map_def bucket_ok_def)

lemma eht_map_key:
  assumes wf: "eht_wf h t" and i: "i < 2 ^ global_depth t" and k: "k \<in> fst ` set (b_list (bucket_of t i))"
  shows "dir t ! hash_bits h (global_depth t) k = dir t ! i"
proof -
  let ?d = "b_depth (bucket_of t i)"
  have "?d \<le> global_depth t" "hash_bits h ?d k = take_bit ?d i"
    using eht_wfD(1) [OF wf i] k by (auto simp: bucket_ok_def)
  then have "take_bit ?d i = take_bit ?d (hash_bits h (global_depth t) k)"
    by (simp add: take_bit_take_bit_le)
  then show ?thesis
    using eht_wfD(2) [OF wf i, of "hash_bits h (global_depth t) k"] by (simp add: shares_ok_def)
qed

section \<open>Removal\<close>

lemma map_of_filter_fst: "map_of (filter (\<lambda>x. fst x \<noteq> k) xs) = (map_of xs)(k := None)"
  by (induction xs) (auto simp: fun_eq_iff)

lemma filter_pair_neq:
  assumes "distinct (map fst xs)" and "x \<in> set xs"
  shows "filter (\<lambda>y. y \<noteq> x) xs = filter (\<lambda>y. fst y \<noteq> fst x) xs"
  using assms by (intro filter_cong) (auto simp: distinct_map inj_on_def)

lemma Bucket_Remove_eq:
  assumes "distinct (map fst (b_list b))"
  shows "Bucket_Remove k b =
    (k \<in> fst ` set (b_list b), b\<lparr>b_list := filter (\<lambda>x. fst x \<noteq> k) (b_list b)\<rparr>)"
proof (cases "List.find (\<lambda>item. fst item = k) (b_list b)")
  case None
  then have "k \<notin> fst ` set (b_list b)" by (auto simp: find_None_iff)
  then have "filter (\<lambda>x. fst x \<noteq> k) (b_list b) = b_list b"
    by (auto simp: filter_id_conv)
  with None \<open>k \<notin> _\<close> show ?thesis by (simp add: Bucket_Remove_def)
next
  case (Some item)
  then have item: "item \<in> set (b_list b)" "fst item = k" by (auto dest: find_SomeD)
  with Some show ?thesis
    using filter_pair_neq [OF assms item(1)] by (auto simp: Bucket_Remove_def)
qed

lemma ExtendibleHashTable_Remove_spec:
  assumes inv: "eht_inv h t"
  shows "\<exists>t'. ExtendibleHashTable_Remove h k t = Inr (eht_map h t k \<noteq> None, t') \<and> eht_inv h t' \<and>
    eht_map h t' = (eht_map h t)(k := None) \<and> bucket_size t' = bucket_size t"
proof -
  let ?i = "hash_bits h (global_depth t) k"
  let ?b = "bucket_of t ?i"
  let ?b' = "?b\<lparr>b_list := filter (\<lambda>x. fst x \<noteq> k) (b_list ?b)\<rparr>"
  let ?t = "t\<lparr>buckets := (buckets t)[dir t ! ?i := ?b']\<rparr>"
  have wf: "eht_wf h t" and i: "?i < 2 ^ global_depth t" using inv by (simp_all add: eht_inv_def)
  have ok: "bucket_ok h t ?i" by (rule eht_wfD(1) [OF wf i])
  have "eht_wf h ?t"
    using ok by (intro replace_bucket [OF wf i])
      (auto simp: bucket_ok_def distinct_map_filter intro: le_trans [OF length_filter_le])
  moreover have "eht_map h ?t = (eht_map h t)(k := None)"
    by (auto simp: replace_bucket_map [OF wf i] map_of_filter_fst fun_eq_iff) (simp_all add: eht_map_def)
  moreover have "ExtendibleHashTable_Remove h k t = Inr (eht_map h t k \<noteq> None, ?t)"
    using ok Bucket_Remove_eq [of ?b k]
    by (simp add: ExtendibleHashTable_Remove_def target_bucket_eq [OF inv] bucket_ok_def eht_map_def
        map_of_eq_None_iff)
  ultimately show ?thesis using inv by (auto simp: eht_inv_def)
qed

section \<open>Splitting a bucket\<close>

lemma redistribute_eq:
  "length (b_list b0) + length (filter (\<lambda>x. \<not> bit (unat (h (fst x))) d) xs) \<le> b_size b0 \<Longrightarrow>
   length (b_list b1) + length (filter (\<lambda>x. bit (unat (h (fst x))) d) xs) \<le> b_size b1 \<Longrightarrow>
   redistribute h d xs b0 b1 =
     (b0\<lparr>b_list := b_list b0 @ filter (\<lambda>x. \<not> bit (unat (h (fst x))) d) xs\<rparr>,
      b1\<lparr>b_list := b_list b1 @ filter (\<lambda>x. bit (unat (h (fst x))) d) xs\<rparr>)"
  by (induction h d xs b0 b1 rule: redistribute.induct)
    (auto simp: Bucket_Insert_def Bucket_IsFull_def and_push_bit_word simp del: push_bit_of_1)

lemma length_redirect [simp]: "length (redirect d a a0 a1 ds) = length ds"
  by (simp add: redirect_def)

lemma redirect_nth:
  "i < length ds \<Longrightarrow>
   redirect d a a0 a1 ds ! i = (if ds ! i = a then if bit i d then a1 else a0 else ds ! i)"
  by (simp add: redirect_def nth_enumerate_eq and_exp_eq_0_iff_not_bit del: neq0_conv)

text \<open>The table with its directory doubled when the bucket needs it.\<close>

definition grown :: "nat \<Rightarrow> ('k, 'v) eht \<Rightarrow> ('k, 'v) eht" where
  "grown a t =
     (if b_depth (buckets t ! a) = global_depth t then
        t\<lparr>global_depth := global_depth t + 1, dir := dir t @ dir t\<rparr>
      else t)"

abbreviation split_grown :: "('k \<Rightarrow> 64 word) \<Rightarrow> nat \<Rightarrow> ('k, 'v) eht \<Rightarrow> ('k, 'v) eht" where
  "split_grown h a t \<equiv> split_items h a (grown a t)"

lemma wrap32_small: "0 \<le> x \<Longrightarrow> x < 2 ^ 31 \<Longrightarrow> wrap32 x = x"
  by (simp add: wrap32_def)

lemma split_bucket_cases:
  assumes "eht_inv h t" and "b_depth (buckets t ! a) \<le> global_depth t"
  shows "split_bucket h a t = (if b_depth (buckets t ! a) = 30 then Inl LengthError else Inr (split_grown h a t))"
proof (cases "b_depth (buckets t ! a) = global_depth t")
  case True
  have len: "length (dir t) = 2 ^ global_depth t" and g: "global_depth t \<le> 30"
    using assms(1) by (auto simp: eht_inv_def eht_wf_def)
  then have cap: "wrap32 (int (length (dir t))) = 2 ^ global_depth t"
    using power_increasing [OF g, of "2 :: int"] by (simp add: wrap32_small)
  show ?thesis
  proof (cases "global_depth t = 30")
    case True
    then show ?thesis using cap \<open>b_depth _ = _\<close> by (simp add: split_bucket_def grow_directory_def wrap32_def)
  next
    case False
    then have "Suc (global_depth t) \<le> 30" using g by simp
    then have "(2 :: int) ^ Suc (global_depth t) \<le> 2 ^ 30" by (intro power_increasing) auto
    then have "wrap32 (2 * 2 ^ global_depth t) = 2 * 2 ^ global_depth t" by (intro wrap32_small) auto
    moreover have "nat (2 ^ global_depth t) = length (dir t)" using len by (simp add: nat_power_eq)
    ultimately show ?thesis
      using cap False \<open>b_depth _ = _\<close> by (simp add: split_bucket_def grow_directory_def grown_def)
  qed
next
  case False
  then show ?thesis
    using assms by (auto simp: split_bucket_def grow_directory_def grown_def eht_inv_def)
qed

lemma grown_simps [simp]:
  "buckets (grown a t) = buckets t" "bucket_size (grown a t) = bucket_size t"
  "num_buckets (grown a t) = num_buckets t"
  "set (dir (grown a t)) = set (dir t)"
  by (simp_all add: grown_def)

lemma double_nth:
  assumes "length xs = 2 ^ g" and "i < 2 ^ Suc g"
  shows "(xs @ xs) ! i = xs ! take_bit g i"
proof (cases "i < 2 ^ g")
  case True
  with assms show ?thesis by (simp add: nth_append take_bit_nat_eq_self)
next
  case False
  then have "take_bit g i = i - 2 ^ g"
    using assms(2) by (simp add: take_bit_eq_mod mod_if)
  with False assms show ?thesis by (simp add: nth_append)
qed

lemma grown_nth:
  assumes "eht_wf h t" and "i < 2 ^ global_depth (grown a t)"
  shows "dir (grown a t) ! i = dir t ! take_bit (global_depth t) i"
  using assms by (auto simp: grown_def eht_wf_def double_nth take_bit_nat_eq_self)

lemma grown_wf:
  assumes wf: "eht_wf h t"
  shows "eht_wf h (grown a t)"
proof -
  let ?t = "grown a t" and ?g = "global_depth t"
  have g: "?g \<le> global_depth ?t" "length (dir ?t) = 2 ^ global_depth ?t"
    using wf by (auto simp: grown_def eht_wf_def)
  have low: "take_bit ?g i < 2 ^ ?g" for i :: nat by simp
  have bits: "take_bit (b_depth (bucket_of t (take_bit ?g i))) (take_bit ?g j) =
      take_bit (b_depth (bucket_of t (take_bit ?g i))) j" for i j
    using eht_wfD(1) [OF wf low [of i]] by (simp add: bucket_ok_def take_bit_take_bit_le)
  have "bucket_ok h ?t i" if i: "i < 2 ^ global_depth ?t" for i
    using eht_wfD(1) [OF wf low [of i]] g(1) bits [of i i]
    by (auto simp: bucket_ok_def grown_nth [OF wf i])
  moreover have "shares_ok ?t i j" if i: "i < 2 ^ global_depth ?t" and j: "j < 2 ^ global_depth ?t" for i j
    using eht_wfD(2) [OF wf low [of i] low [of j]] bits [of i i] bits [of i j]
    by (simp add: shares_ok_def grown_nth [OF wf i] grown_nth [OF wf j])
  ultimately show ?thesis using wf g by (simp add: eht_wf_def)
qed

lemma grown_map:
  assumes wf: "eht_wf h t"
  shows "eht_map h (grown a t) = eht_map h t"
proof
  fix k
  let ?t = "grown a t"
  have "global_depth t \<le> global_depth ?t" by (simp add: grown_def)
  then have "dir ?t ! hash_bits h (global_depth ?t) k = dir t ! hash_bits h (global_depth t) k"
    by (simp add: grown_nth [OF wf] take_bit_take_bit_le)
  then show "eht_map h ?t k = eht_map h t k" by (simp add: eht_map_def)
qed

lemma grown_depth:
  assumes "bucket_ok h t i" and "a = dir t ! i"
  shows "b_depth (buckets t ! a) < global_depth (grown a t)"
  using assms by (auto simp: grown_def bucket_ok_def)

text \<open>The state after a split, once the directory is large enough.\<close>

definition split_state :: "('k \<Rightarrow> 64 word) \<Rightarrow> nat \<Rightarrow> ('k, 'v) eht \<Rightarrow> ('k, 'v) eht" where
  "split_state h a t =
     (let b = buckets t ! a; d = b_depth b;
          part = (\<lambda>c. \<lparr>b_size = bucket_size t, b_depth = Suc d,
            b_list = filter (\<lambda>x. bit (unat (h (fst x))) d = c) (b_list b)\<rparr>)
      in t\<lparr>num_buckets := num_buckets t + 1,
           buckets := buckets t @ [part False, part True],
           dir := redirect d a (length (buckets t)) (Suc (length (buckets t))) (dir t)\<rparr>)"

lemma split_grown_eq:
  assumes "length (b_list (buckets t ! a)) \<le> bucket_size t"
  shows "split_grown h a t = split_state h a (grown a t)"
proof -
  let ?b = "buckets t ! a"
  have "length (filter P (b_list ?b)) \<le> bucket_size t" for P
    using assms by (rule le_trans [OF length_filter_le])
  then show ?thesis
    by (simp add: split_items_def split_state_def Let_def redistribute_eq Bucket_init_def)
qed

text \<open>
  In the following lemmas \<open>i0\<close> is a directory index of the split bucket, whose local depth \<open>d\<close> is
  below the global depth.
\<close>

lemma split_state_simps:
  "global_depth (split_state h a t) = global_depth t" "bucket_size (split_state h a t) = bucket_size t"
  "num_buckets (split_state h a t) = Suc (num_buckets t)"
  "dir (split_state h a t) = redirect (b_depth (buckets t ! a)) a (length (buckets t))
     (Suc (length (buckets t))) (dir t)"
  "length (buckets (split_state h a t)) = Suc (Suc (length (buckets t)))"
  by (simp_all add: split_state_def Let_def)

lemma split_state_bucket:
  assumes wf: "eht_wf h t" and i: "i < 2 ^ global_depth t"
  shows "bucket_of (split_state h a t) i =
    (if dir t ! i = a then
       \<lparr>b_size = bucket_size t, b_depth = Suc (b_depth (buckets t ! a)),
        b_list = filter (\<lambda>x. bit (unat (h (fst x))) (b_depth (buckets t ! a)) =
           bit i (b_depth (buckets t ! a))) (b_list (buckets t ! a))\<rparr>
     else bucket_of t i)"
proof -
  have "i < length (dir t)" "dir t ! i < length (buckets t)"
    using eht_wfD [OF wf i] by (auto simp: bucket_ok_def)
  then show ?thesis
    by (auto simp: split_state_def Let_def redirect_nth nth_append)
qed

lemma split_state_bucket_ok:
  assumes wf: "eht_wf h t" and i0: "i0 < 2 ^ global_depth t" and a: "a = dir t ! i0"
    and d: "b_depth (buckets t ! a) < global_depth t" and i: "i < 2 ^ global_depth t"
  shows "bucket_ok h (split_state h a t) i"
proof (cases "dir t ! i = a")
  case True
  let ?d = "b_depth (buckets t ! a)"
  have "take_bit (Suc ?d) (unat (h k)) = take_bit (Suc ?d) i"
    if "k \<in> fst ` set (b_list (buckets t ! a))" "bit (unat (h k)) ?d = bit i ?d" for k
    using that eht_wfD(1) [OF wf i] True by (auto simp: take_bit_Suc_eq_iff bucket_ok_def)
  moreover have "dir (split_state h a t) ! i < length (buckets (split_state h a t))"
    using eht_wfD(3) [OF wf i] True by (simp add: split_state_simps redirect_nth)
  ultimately show ?thesis
    using eht_wfD(1) [OF wf i] True d
    by (auto simp: bucket_ok_def split_state_bucket [OF wf i] split_state_simps(1,2)
        distinct_map_filter intro: le_trans [OF length_filter_le])
next
  case False
  have dir_eq: "dir (split_state h a t) ! i = dir t ! i"
    using eht_wfD(3) [OF wf i] False by (simp add: split_state_simps redirect_nth)
  have bucket_eq: "buckets (split_state h a t) ! (dir t ! i) = bucket_of t i"
    using split_state_bucket [OF wf i, of a] False by (simp add: dir_eq)
  show ?thesis
    using eht_wfD(1) [OF wf i]
    by (simp add: bucket_ok_def dir_eq bucket_eq split_state_simps(1,2,5))
qed

lemma split_state_shares_ok:
  assumes wf: "eht_wf h t" and i: "i < 2 ^ global_depth t" and j: "j < 2 ^ global_depth t"
  shows "shares_ok (split_state h a t) i j"
proof -
  let ?n = "length (buckets t)"
  have lt: "dir t ! i < ?n" "dir t ! j < ?n"
    using eht_wfD(1) [OF wf i] eht_wfD(1) [OF wf j] by (simp_all add: bucket_ok_def)
  have sh: "dir t ! i = dir t ! j \<longleftrightarrow>
      take_bit (b_depth (bucket_of t i)) i = take_bit (b_depth (bucket_of t i)) j"
    using eht_wfD(2) [OF wf i j] by (simp add: shares_ok_def)
  have dirs: "dir (split_state h a t) ! l =
      (if dir t ! l = a then if bit l (b_depth (buckets t ! a)) then Suc ?n else ?n else dir t ! l)"
    if "l < 2 ^ global_depth t" for l
    using eht_wfD(3) [OF wf that] by (simp add: split_state_simps redirect_nth)
  show ?thesis
  proof (cases "dir t ! i = a")
    case True
    then show ?thesis
      unfolding shares_ok_def split_state_bucket [OF wf i]
      unfolding dirs [OF i] dirs [OF j]
      using lt sh by (cases "dir t ! j = a") (simp_all add: take_bit_Suc_eq_iff)
  next
    case False
    then show ?thesis
      unfolding shares_ok_def split_state_bucket [OF wf i]
      unfolding dirs [OF i] dirs [OF j]
      using lt sh by (cases "dir t ! j = a") auto
  qed
qed

lemma split_state_directory_set:
  assumes wf: "eht_wf h t" and i0: "i0 < 2 ^ global_depth t" and a: "a = dir t ! i0"
    and d: "b_depth (buckets t ! a) < global_depth t"
  shows "set (dir (split_state h a t)) =
    set (dir t) - {a} \<union> {length (buckets t), Suc (length (buckets t))}"
proof -
  let ?d = "b_depth (buckets t ! a)" and ?n = "length (buckets t)"
  let ?g = "global_depth t"
  let ?l = "take_bit ?d i0" and ?r = "2 ^ ?d + take_bit ?d i0"
  have len: "length (dir t) = 2 ^ ?g" using wf by (simp add: eht_wf_def)
  have "take_bit ?d i0 < 2 ^ ?d" by simp
  moreover have "(2 :: nat) ^ Suc ?d \<le> 2 ^ ?g" using d by (intro power_increasing) auto
  ultimately have lr: "?l < 2 ^ ?g" "?r < 2 ^ ?g" unfolding power_Suc by linarith+
  have "take_bit ?d ?l = take_bit ?d i0" "take_bit ?d ?r = take_bit ?d i0"
    by (simp_all add: take_bit_eq_mod)
  then have same: "dir t ! ?l = a" "dir t ! ?r = a"
    using eht_wfD(2) [OF wf i0 lr(1)] eht_wfD(2) [OF wf i0 lr(2)] a by (auto simp: shares_ok_def)
  have "?r div 2 ^ ?d = 1" by (simp add: div_add_self1)
  then have bits: "\<not> bit ?l ?d" "bit ?r ?d"
    by (simp_all add: bit_take_bit_iff bit_iff_odd)
  have nth: "redirect ?d a ?n (Suc ?n) (dir t) ! i =
      (if dir t ! i = a then if bit i ?d then Suc ?n else ?n else dir t ! i)" if "i < 2 ^ ?g" for i
    using that len by (simp add: redirect_nth)
  have in_set: "?n \<in> set (redirect ?d a ?n (Suc ?n) (dir t))"
    "Suc ?n \<in> set (redirect ?d a ?n (Suc ?n) (dir t))"
    using lr same bits nth [OF lr(1)] nth [OF lr(2)] len
      nth_mem [of ?l "redirect ?d a ?n (Suc ?n) (dir t)"] nth_mem [of ?r "redirect ?d a ?n (Suc ?n) (dir t)"]
    by simp_all
  show ?thesis
    unfolding split_state_simps
  proof (intro equalityI subsetI)
    fix x assume "x \<in> set (redirect ?d a ?n (Suc ?n) (dir t))"
    then obtain i where "i < 2 ^ ?g" "x = redirect ?d a ?n (Suc ?n) (dir t) ! i"
      using len by (auto simp: set_conv_nth)
    then show "x \<in> set (dir t) - {a} \<union> {?n, Suc ?n}"
      using nth len by (auto split: if_splits)
  next
    fix x assume x: "x \<in> set (dir t) - {a} \<union> {?n, Suc ?n}"
    show "x \<in> set (redirect ?d a ?n (Suc ?n) (dir t))"
    proof (cases "x = ?n \<or> x = Suc ?n")
      case True
      with in_set show ?thesis by auto
    next
      case False
      with x obtain i where "i < 2 ^ ?g" "x = dir t ! i" "x \<noteq> a" using len by (auto simp: in_set_conv_nth)
      with nth [of i] len show ?thesis by (auto simp: set_conv_nth intro!: exI [of _ i])
    qed
  qed
qed

lemma split_state_wf:
  assumes wf: "eht_wf h t" and i0: "i0 < 2 ^ global_depth t" and a: "a = dir t ! i0"
    and d: "b_depth (buckets t ! a) < global_depth t"
  shows "eht_wf h (split_state h a t)"
proof -
  let ?n = "length (buckets t)"
  have old: "\<forall>x \<in> set (dir t). x < ?n"
    using wf eht_wfD(1) [OF wf] by (auto simp: eht_wf_def in_set_conv_nth bucket_ok_def)
  have "a \<in> set (dir t)" using a eht_wfD(3) [OF wf i0] by simp
  moreover have "?n \<notin> set (dir t) - {a}" "Suc ?n \<notin> set (dir t) - {a}" using old by auto
  moreover have "0 < card (set (dir t))" using \<open>a \<in> set (dir t)\<close> by (auto simp: card_gt_0_iff)
  ultimately have "card (set (dir (split_state h a t))) = Suc (card (set (dir t)))"
    unfolding split_state_directory_set [OF assms] by simp
  then show ?thesis
    using wf split_state_bucket_ok [OF assms] split_state_shares_ok [OF wf]
    by (simp add: eht_wf_def split_state_simps(1,2,3)) (simp add: split_state_simps(4))
qed

lemma map_of_filter_key: "P k \<Longrightarrow> map_of (filter (\<lambda>x. P (fst x)) xs) k = map_of xs k"
  by (induction xs) auto

lemma split_state_map:
  assumes wf: "eht_wf h t" and d: "b_depth (buckets t ! a) < global_depth t"
  shows "eht_map h (split_state h a t) = eht_map h t"
proof
  fix k
  let ?d = "b_depth (buckets t ! a)" and ?i = "hash_bits h (global_depth t) k"
  have i: "?i < 2 ^ global_depth t" by simp
  have "bit ?i ?d = bit (unat (h k)) ?d" using d by (simp add: bit_take_bit_iff)
  then show "eht_map h (split_state h a t) k = eht_map h t k"
    by (simp add: eht_map_def split_state_simps(1) split_state_bucket [OF wf i]
        map_of_filter_key [of "\<lambda>k'. bit (unat (h k')) ?d = bit (unat (h k)) ?d" k])
qed

lemma split_grown_spec:
  assumes wf: "eht_wf h t" and i: "i < 2 ^ global_depth t" and a: "a = dir t ! i"
  shows "eht_wf h (split_grown h a t)" "eht_map h (split_grown h a t) = eht_map h t"
    "bucket_size (split_grown h a t) = bucket_size t"
    "global_depth (split_grown h a t) \<le> max (global_depth t) (Suc (b_depth (buckets t ! a)))"
proof -
  let ?t = "grown a t"
  have ok: "bucket_ok h t i" by (rule eht_wfD(1) [OF wf i])
  have wf': "eht_wf h ?t" by (rule grown_wf [OF wf])
  have d: "b_depth (buckets ?t ! a) < global_depth ?t"
    using grown_depth [OF ok a] by simp
  have i': "i < 2 ^ global_depth ?t" and a': "a = dir ?t ! i"
    using i a wf by (auto simp: grown_def eht_wf_def nth_append)
  have eq: "split_grown h a t = split_state h a ?t"
    using ok a by (intro split_grown_eq) (simp add: bucket_ok_def)
  show "eht_wf h (split_grown h a t)" "eht_map h (split_grown h a t) = eht_map h t"
    unfolding eq using split_state_wf [OF wf' i' a' d] split_state_map [OF wf' d]
    by (simp_all add: grown_map [OF wf])
  show "bucket_size (split_grown h a t) = bucket_size t"
    "global_depth (split_grown h a t) \<le> max (global_depth t) (Suc (b_depth (buckets t ! a)))"
    unfolding eq by (simp_all add: split_state_simps grown_def)
qed

text \<open>The local depth of the bucket that a key of the split bucket falls into grows by one.\<close>

lemma split_grown_depth:
  assumes wf: "eht_wf h t" and a: "a = dir t ! hash_bits h (global_depth t) k"
  shows "b_depth (bucket_of (split_grown h a t)
      (hash_bits h (global_depth (split_grown h a t)) k)) = Suc (b_depth (buckets t ! a))"
proof -
  let ?t = "grown a t"
  have i: "hash_bits h (global_depth t) k < 2 ^ global_depth t" by simp
  have ok: "bucket_ok h t (hash_bits h (global_depth t) k)" by (rule eht_wfD(1) [OF wf i])
  have wf': "eht_wf h ?t" by (rule grown_wf [OF wf])
  have eq: "split_grown h a t = split_state h a ?t"
    using ok a by (intro split_grown_eq) (simp add: bucket_ok_def)
  have "global_depth t \<le> global_depth ?t" by (simp add: grown_def)
  then have "dir ?t ! hash_bits h (global_depth ?t) k = a"
    by (simp add: grown_nth [OF wf] take_bit_take_bit_le a)
  then show ?thesis
    by (simp add: eq split_state_simps(1) split_state_bucket [OF wf'])
qed

section \<open>Insertion\<close>

text \<open>
  \<open>crowd h m k d\<close> counts the stored keys that agree with \<open>k\<close> on the low \<open>d\<close> bits of the hash; a
  bucket of local depth \<open>d\<close> holds exactly these keys.
\<close>

definition crowd :: "('k \<Rightarrow> 64 word) \<Rightarrow> ('k \<Rightarrow> 'v option) \<Rightarrow> 'k \<Rightarrow> nat \<Rightarrow> nat" where
  "crowd h m k d = card {k' \<in> dom m. hash_bits h d k' = hash_bits h d k}"

abbreviation key_bucket :: "('k \<Rightarrow> 64 word) \<Rightarrow> ('k, 'v) eht \<Rightarrow> 'k \<Rightarrow> ('k, 'v) bucket" where
  "key_bucket h t k \<equiv> bucket_of t (hash_bits h (global_depth t) k)"

lemma key_bucket_keys:
  assumes wf: "eht_wf h t"
  shows "fst ` set (b_list (key_bucket h t k)) =
    {k' \<in> dom (eht_map h t). hash_bits h (b_depth (key_bucket h t k)) k' = hash_bits h (b_depth (key_bucket h t k)) k}"
    (is "?K = ?C")
proof (intro equalityI subsetI)
  let ?i = "hash_bits h (global_depth t) k" and ?d = "b_depth (key_bucket h t k)"
  have i: "?i < 2 ^ global_depth t" by simp
  have d: "?d \<le> global_depth t" using eht_wfD(1) [OF wf i] by (simp add: bucket_ok_def)
  {
    fix k' assume k': "k' \<in> ?K"
    have "hash_bits h ?d k' = hash_bits h ?d k"
      using eht_wfD(1) [OF wf i] k' d by (auto simp: bucket_ok_def take_bit_take_bit_le)
    moreover have "k' \<in> dom (eht_map h t)"
      using eht_map_key [OF wf i k'] k' by (simp add: eht_map_def dom_def map_of_eq_None_iff)
    ultimately show "k' \<in> ?C" by simp
  next
    fix k' assume "k' \<in> ?C"
    then have k': "k' \<in> dom (eht_map h t)" and bits: "hash_bits h ?d k = hash_bits h ?d k'" by auto
    from bits have "dir t ! ?i = dir t ! hash_bits h (global_depth t) k'"
      using eht_wfD(2) [OF wf i, of "hash_bits h (global_depth t) k'"] d
      by (simp add: shares_ok_def take_bit_take_bit_le)
    with k' show "k' \<in> ?K" by (simp add: eht_map_def dom_def map_of_eq_None_iff)
  }
qed

lemma full_iff_crowd:
  assumes wf: "eht_wf h t"
  shows "Bucket_IsFull (key_bucket h t k) \<longleftrightarrow>
    bucket_size t \<le> crowd h (eht_map h t) k (b_depth (key_bucket h t k))"
proof -
  have i: "hash_bits h (global_depth t) k < 2 ^ global_depth t" by simp
  have "card (fst ` set (b_list (key_bucket h t k))) = length (b_list (key_bucket h t k))"
    using eht_wfD(1) [OF wf i] distinct_card [of "map fst (b_list (key_bucket h t k))"]
    by (simp add: bucket_ok_def)
  then show ?thesis
    using eht_wfD(1) [OF wf i]
    by (auto simp: crowd_def Bucket_IsFull_def bucket_ok_def simp flip: key_bucket_keys [OF wf])
qed

lemma finite_dom_eht_map:
  assumes wf: "eht_wf h t"
  shows "finite (dom (eht_map h t))"
proof (rule finite_subset)
  show "dom (eht_map h t) \<subseteq> (\<Union>b \<in> set (buckets t). fst ` set (b_list b))"
  proof
    fix k assume "k \<in> dom (eht_map h t)"
    moreover have "bucket_ok h t (hash_bits h (global_depth t) k)" by (rule eht_wfD(1) [OF wf]) simp
    ultimately show "k \<in> (\<Union>b \<in> set (buckets t). fst ` set (b_list b))"
      by (auto simp: eht_map_def bucket_ok_def dest!: map_of_SomeD intro!: bexI [OF _ nth_mem] image_eqI)
  qed
qed simp

lemma crowd_antimono:
  assumes "finite (dom m)" and "d \<le> e"
  shows "crowd h m k e \<le> crowd h m k d"
  unfolding crowd_def
proof (rule card_mono)
  show "{k' \<in> dom m. hash_bits h e k' = hash_bits h e k} \<subseteq> {k' \<in> dom m. hash_bits h d k' = hash_bits h d k}"
    using assms(2) by (auto simp: min_absorb1 dest!: arg_cong [of "hash_bits h e _" _ "take_bit d"])
qed (use assms(1) in simp)

text \<open>The loop ends in a bucket with room, unless the doubling throws first; it never runs out of fuel.\<close>

definition has_room :: "('k \<Rightarrow> 64 word) \<Rightarrow> ('k \<Rightarrow> 'v option) \<Rightarrow> nat \<Rightarrow> 'k \<Rightarrow> bool" where
  "has_room h m n k \<longleftrightarrow> crowd h m k 30 < n"

lemma Insert_loop_spec:
  assumes "eht_inv h t" and "0 < fuel" and "32 \<le> fuel + b_depth (key_bucket h t k)"
  shows "if has_room h (eht_map h t) (bucket_size t) k
    then \<exists>t'. Insert_loop fuel h k t = Inr t' \<and> eht_inv h t' \<and> eht_map h t' = eht_map h t \<and>
      bucket_size t' = bucket_size t \<and> \<not> Bucket_IsFull (key_bucket h t' k)
    else Insert_loop fuel h k t = Inl LengthError"
  using assms
proof (induction fuel arbitrary: t)
  case (Suc fuel)
  let ?i = "hash_bits h (global_depth t) k"
  let ?t = "split_grown h (dir t ! ?i) t" and ?d = "b_depth (key_bucket h t k)"
  note inv = \<open>eht_inv h t\<close>
  have wf: "eht_wf h t" and g: "global_depth t < 31" using inv by (simp_all add: eht_inv_def)
  have i: "?i < 2 ^ global_depth t" by simp
  have d: "?d \<le> global_depth t" using eht_wfD(1) [OF wf i] by (simp add: bucket_ok_def)
  note split = split_grown_spec [OF wf i refl] split_grown_depth [OF wf refl]
  show ?case
  proof (cases "Bucket_IsFull (key_bucket h t k)")
    case full: True
    show ?thesis
    proof (cases "?d = 30")
      case True
      then show ?thesis
        using full full_iff_crowd [OF wf, of k] split_bucket_cases [OF inv d]
        by (simp add: target_bucket_eq [OF inv] has_room_def)
    next
      case False
      then have "eht_inv h ?t" using split(1,4) g d by (simp add: eht_inv_def)
      from Suc.IH [OF this, unfolded split(2,3)] show ?thesis
        using False full Suc.prems(3) split(5) g d split_bucket_cases [OF inv d]
        by (simp add: target_bucket_eq [OF inv] split: if_splits)
    qed
  next
    case False
    then have "crowd h (eht_map h t) k ?d < bucket_size t" using full_iff_crowd [OF wf, of k] by simp
    moreover have "crowd h (eht_map h t) k 30 \<le> crowd h (eht_map h t) k ?d"
      using g d by (intro crowd_antimono finite_dom_eht_map [OF wf]) simp
    ultimately show ?thesis
      using False inv by (simp add: target_bucket_eq [OF inv] has_room_def)
  qed
qed simp

lemma update_item_spec:
  "update_item k v xs = (if k \<in> fst ` set xs then Some (AList.update k v xs) else None)"
  by (induction xs) auto

lemma alist_update_new: "k \<notin> fst ` set xs \<Longrightarrow> AList.update k v xs = xs @ [(k, v)]"
  by (induction xs) auto

lemma length_alist_update: "length (AList.update k v xs) \<le> Suc (length xs)"
  by (induction xs) auto

lemma ExtendibleHashTable_Insert_spec:
  assumes inv: "eht_inv h t"
  shows "if has_room h (eht_map h t) (bucket_size t) k
    then \<exists>t'. ExtendibleHashTable_Insert h k v t = Inr t' \<and> eht_inv h t' \<and>
      eht_map h t' = (eht_map h t)(k \<mapsto> v) \<and> bucket_size t' = bucket_size t
    else ExtendibleHashTable_Insert h k v t = Inl LengthError"
proof (cases "has_room h (eht_map h t) (bucket_size t) k")
  case False
  then show ?thesis
    using Insert_loop_spec [OF inv, of 32 k] by (simp add: ExtendibleHashTable_Insert_def)
next
  case True
  then obtain s where s: "Insert_loop 32 h k t = Inr s" "eht_inv h s" "eht_map h s = eht_map h t"
      "bucket_size s = bucket_size t" "\<not> Bucket_IsFull (key_bucket h s k)"
    using Insert_loop_spec [OF inv, of 32 k] by auto
  let ?i = "hash_bits h (global_depth s) k"
  let ?b = "bucket_of s ?i"
  let ?b' = "?b\<lparr>b_list := AList.update k v (b_list ?b)\<rparr>"
  let ?s = "s\<lparr>buckets := (buckets s)[dir s ! ?i := ?b']\<rparr>"
  have i: "?i < 2 ^ global_depth s" by simp
  have wf: "eht_wf h s" using s(2) by (simp add: eht_inv_def)
  have ok: "bucket_ok h s ?i" by (rule eht_wfD(1) [OF wf i])
  have eq: "ExtendibleHashTable_Insert h k v t = Inr ?s"
    using s(5) by (simp add: ExtendibleHashTable_Insert_def s(1) target_bucket_eq [OF s(2)] update_item_spec
        Let_def Bucket_Insert_def alist_update_new)
  have "length (AList.update k v (b_list ?b)) \<le> bucket_size s"
    using s(5) ok length_alist_update [of k v "b_list ?b"] by (simp add: bucket_ok_def Bucket_IsFull_def)
  then have "eht_wf h ?s"
    using ok by (intro replace_bucket [OF wf i])
      (simp_all add: bucket_ok_def distinct_update dom_update take_bit_take_bit_le)
  moreover have "eht_map h ?s = (eht_map h s)(k \<mapsto> v)"
    by (rule ext, simp only: replace_bucket_map [OF wf i]) (auto simp: update_conv' eht_map_def)
  ultimately show ?thesis
    using True eq s(2,3,4) by (simp add: eht_inv_def)
qed

section \<open>The page table\<close>

text \<open>
  For page ids below \<open>2 ^ 30\<close> the low thirty bits of the hash are the page id, so no two of them
  collide there and a bucket size of two is enough for every insertion to succeed.
\<close>

definition page_ids :: "page_id_t set" where
  "page_ids = {0..<2 ^ 30}"

definition page_table_inv :: "(page_id_t, 'v) eht \<Rightarrow> bool" where
  "page_table_inv t \<longleftrightarrow> eht_inv std_hash_int t \<and> 2 \<le> bucket_size t"

lemma std_hash_int_bits: "p \<in> page_ids \<Longrightarrow> hash_bits std_hash_int 30 p = nat p"
  by (simp add: page_ids_def std_hash_int_def unat_eq_nat_uint uint_word_of_int_eq
      take_bit_int_eq_self take_bit_nat_eq_self nat_less_iff)

lemma crowd_page_ids:
  assumes "insert p (dom m) \<subseteq> page_ids"
  shows "crowd std_hash_int m p 30 \<le> 1"
proof -
  have "{q \<in> dom m. hash_bits std_hash_int 30 q = hash_bits std_hash_int 30 p} \<subseteq> {p}"
    using assms std_hash_int_bits by (auto simp: page_ids_def eq_nat_nat_iff)
  then have "card {q \<in> dom m. hash_bits std_hash_int 30 q = hash_bits std_hash_int 30 p} \<le> card {p}"
    by (rule card_mono [rotated]) simp
  then show ?thesis by (simp add: crowd_def)
qed

interpretation eht: page_table page_table_inv "eht_map std_hash_int" page_ids
  "ExtendibleHashTable_Find std_hash_int" "ExtendibleHashTable_Insert std_hash_int"
  "ExtendibleHashTable_Remove std_hash_int"
proof unfold_locales
  fix t :: "(page_id_t, 'v) eht" and k v
  assume t: "page_table_inv t"
  then show "ExtendibleHashTable_Find std_hash_int k t = Inr (eht_map std_hash_int t k)"
    by (simp add: page_table_inv_def ExtendibleHashTable_Find_eq)
  show "\<exists>t'. ExtendibleHashTable_Remove std_hash_int k t = Inr (eht_map std_hash_int t k \<noteq> None, t') \<and>
      page_table_inv t' \<and> eht_map std_hash_int t' = (eht_map std_hash_int t)(k := None)"
    using t ExtendibleHashTable_Remove_spec [of std_hash_int t k] by (auto simp: page_table_inv_def)
  assume "insert k (dom (eht_map std_hash_int t)) \<subseteq> page_ids"
  then have "has_room std_hash_int (eht_map std_hash_int t) (bucket_size t) k"
    using t crowd_page_ids [of k "eht_map std_hash_int t"] by (simp add: has_room_def page_table_inv_def)
  then show "\<exists>t'. ExtendibleHashTable_Insert std_hash_int k v t = Inr t' \<and> page_table_inv t' \<and>
      eht_map std_hash_int t' = (eht_map std_hash_int t)(k \<mapsto> v)"
    using t ExtendibleHashTable_Insert_spec [of std_hash_int t k v] by (auto simp: page_table_inv_def)
qed

section \<open>Runs of the table\<close>

datatype ('k, 'v) eht_op = OpInsert 'k 'v | OpRemove 'k | OpFind 'k

datatype 'v eht_out = Inserted | Removed bool | Found "'v option"

fun op_key :: "('k, 'v) eht_op \<Rightarrow> 'k" where
  "op_key (OpInsert k v) = k"
| "op_key (OpRemove k) = k"
| "op_key (OpFind k) = k"

fun eht_step :: "('k \<Rightarrow> 64 word) \<Rightarrow> ('k, 'v) eht_op \<Rightarrow> ('k, 'v) eht \<Rightarrow> ('v eht_out \<times> ('k, 'v) eht) result" where
  "eht_step h (OpInsert k v) t = bind_result (ExtendibleHashTable_Insert h k v t) (\<lambda>t'. Inr (Inserted, t'))"
| "eht_step h (OpRemove k) t =
     bind_result (ExtendibleHashTable_Remove h k t) (\<lambda>(found, t'). Inr (Removed found, t'))"
| "eht_step h (OpFind k) t = bind_result (ExtendibleHashTable_Find h k t) (\<lambda>r. Inr (Found r, t))"

fun eht_run ::
    "('k \<Rightarrow> 64 word) \<Rightarrow> ('k, 'v) eht_op list \<Rightarrow> ('k, 'v) eht \<Rightarrow> ('v eht_out list \<times> ('k, 'v) eht) result" where
  "eht_run h [] t = Inr ([], t)"
| "eht_run h (op # ops) t =
     bind_result (eht_step h op t)
       (\<lambda>(out, t). bind_result (eht_run h ops t) (\<lambda>(outs, t). Inr (out # outs, t)))"

text \<open>The same operations on a finite map.\<close>

fun map_step :: "('k, 'v) eht_op \<Rightarrow> ('k \<Rightarrow> 'v option) \<Rightarrow> 'v eht_out \<times> ('k \<Rightarrow> 'v option)" where
  "map_step (OpInsert k v) m = (Inserted, m(k \<mapsto> v))"
| "map_step (OpRemove k) m = (Removed (m k \<noteq> None), m(k := None))"
| "map_step (OpFind k) m = (Found (m k), m)"

fun map_run :: "('k, 'v) eht_op list \<Rightarrow> ('k \<Rightarrow> 'v option) \<Rightarrow> 'v eht_out list \<times> ('k \<Rightarrow> 'v option)" where
  "map_run [] m = ([], m)"
| "map_run (op # ops) m = (let (out, m) = map_step op m; (outs, m) = map_run ops m in (out # outs, m))"

lemma eht_step_refines:
  assumes "page_table_inv t" and "insert (op_key op) (dom (eht_map std_hash_int t)) \<subseteq> page_ids"
  shows "\<exists>t'. eht_step std_hash_int op t = Inr (fst (map_step op (eht_map std_hash_int t)), t') \<and>
    page_table_inv t' \<and> eht_map std_hash_int t' = snd (map_step op (eht_map std_hash_int t))"
proof (cases op)
  case (OpInsert k v)
  then show ?thesis using eht.insert_law [of t k v] assms by auto
next
  case (OpRemove k)
  then show ?thesis using eht.remove_law [OF assms(1), of k] by auto
next
  case (OpFind k)
  then show ?thesis using eht.find_law [OF assms(1), of k] assms by auto
qed

lemma map_step_dom: "insert (op_key op) (dom m) \<subseteq> K \<Longrightarrow> dom (snd (map_step op m)) \<subseteq> K"
  by (cases op) auto

lemma eht_run_refines:
  assumes "page_table_inv t" and "dom (eht_map std_hash_int t) \<subseteq> page_ids" and "op_key ` set ops \<subseteq> page_ids"
  shows "\<exists>t'. eht_run std_hash_int ops t = Inr (fst (map_run ops (eht_map std_hash_int t)), t') \<and>
    page_table_inv t' \<and> eht_map std_hash_int t' = snd (map_run ops (eht_map std_hash_int t))"
  using assms
proof (induction ops arbitrary: t)
  case (Cons op ops)
  let ?m = "eht_map std_hash_int t"
  have dom: "insert (op_key op) (dom ?m) \<subseteq> page_ids" using Cons.prems(2,3) by auto
  obtain t1 where t1: "eht_step std_hash_int op t = Inr (fst (map_step op ?m), t1)" "page_table_inv t1"
      "eht_map std_hash_int t1 = snd (map_step op ?m)"
    using eht_step_refines [OF Cons.prems(1) dom] by blast
  obtain t2 where "eht_run std_hash_int ops t1 = Inr (fst (map_run ops (eht_map std_hash_int t1)), t2)"
      "page_table_inv t2" "eht_map std_hash_int t2 = snd (map_run ops (eht_map std_hash_int t1))"
    using Cons.IH [OF t1(2)] map_step_dom [OF dom] Cons.prems(3) t1(3) by auto
  with t1 show ?case by (auto simp: split_beta)
qed simp

text \<open>A call that returns keeps the structure, for any hash function.\<close>

lemma eht_step_inv: "eht_inv h t \<Longrightarrow> eht_step h op t = Inr (out, t') \<Longrightarrow> eht_inv h t'"
proof (cases op)
  case (OpInsert k v)
  assume "eht_inv h t" "eht_step h op t = Inr (out, t')"
  then show ?thesis
    using ExtendibleHashTable_Insert_spec [of h t k v] OpInsert by (auto split: if_splits)
next
  case (OpRemove k)
  assume "eht_inv h t" "eht_step h op t = Inr (out, t')"
  then show ?thesis using ExtendibleHashTable_Remove_spec [of h t k] OpRemove by auto
next
  case (OpFind k)
  assume "eht_inv h t" "eht_step h op t = Inr (out, t')"
  then show ?thesis using ExtendibleHashTable_Find_eq [of h t k] OpFind by auto
qed

lemma eht_run_inv: "eht_inv h t \<Longrightarrow> eht_run h ops t = Inr (outs, t') \<Longrightarrow> eht_inv h t'"
proof (induction ops arbitrary: t outs)
  case (Cons op ops)
  obtain out t1 where s: "eht_step h op t = Inr (out, t1)"
    using Cons.prems(2) by (cases "eht_step h op t") auto
  then obtain outs1 where "eht_run h ops t1 = Inr (outs1, t')"
    using Cons.prems(2) by (cases "eht_run h ops t1") auto
  then show ?case using Cons.IH [OF eht_step_inv [OF Cons.prems(1) s]] by blast
qed simp

lemma card_take_bit_class:
  assumes "d \<le> g" and "c < 2 ^ d"
  shows "card {j. j < 2 ^ g \<and> take_bit d j = (c :: nat)} = 2 ^ (g - d)"
proof -
  have "bij_betw (\<lambda>m. m * 2 ^ d + c) {..<2 ^ (g - d)} {j. j < 2 ^ g \<and> take_bit d j = c}"
  proof (rule bij_betw_byWitness [where f' = "\<lambda>j. j div 2 ^ d"])
    have pow: "(2 :: nat) ^ g = 2 ^ (g - d) * 2 ^ d" using assms(1) by (simp flip: power_add)
    show "(\<lambda>m. m * 2 ^ d + c) ` {..<2 ^ (g - d)} \<subseteq> {j. j < 2 ^ g \<and> take_bit d j = c}"
    proof (rule image_subsetI)
      fix m :: nat assume "m \<in> {..<2 ^ (g - d)}"
      then have "Suc m * 2 ^ d \<le> 2 ^ (g - d) * 2 ^ d" by (intro mult_le_mono1) auto
      then show "m * 2 ^ d + c \<in> {j. j < 2 ^ g \<and> take_bit d j = c}"
        using assms(2) pow by (simp add: take_bit_eq_mod)
    qed
    show "(\<lambda>j. j div 2 ^ d) ` {j. j < 2 ^ g \<and> take_bit d j = c} \<subseteq> {..<2 ^ (g - d)}"
      using pow by (auto simp: less_mult_imp_div_less)
    show "\<forall>j \<in> {j. j < 2 ^ g \<and> take_bit d j = c}. j div 2 ^ d * 2 ^ d + c = j"
      by (auto simp: take_bit_eq_mod) (rule div_mult_mod_eq)
  qed (use assms(2) in simp)
  from bij_betw_same_card [OF this] show ?thesis by simp
qed

section \<open>Properties\<close>

text \<open>
  C4. Inserting into a table whose structure is intact either stores the binding, leaves every
  other key alone and keeps the structure (directory of \<open>2 ^ global_depth\<close> slots, buckets within
  their size, items in the bucket their hash selects, \<open>num_buckets_\<close> exact), or it throws
  \<^verbatim>\<open>std::length_error\<close>; the latter happens exactly when a full bucket's worth of stored keys
  agrees with the new key on thirty hash bits, so that a directory of \<open>2 ^ 30\<close> slots would have to be
  doubled.
\<close>

theorem eht_insert_correct:
  assumes "eht_inv h t"
  shows "if has_room h (eht_map h t) (bucket_size t) k
    then \<exists>t'. ExtendibleHashTable_Insert h k v t = Inr t' \<and> eht_inv h t' \<and>
      eht_map h t' = (eht_map h t)(k \<mapsto> v) \<and> bucket_size t' = bucket_size t
    else ExtendibleHashTable_Insert h k v t = Inl LengthError"
  using assms by (rule ExtendibleHashTable_Insert_spec)

theorem eht_insert_correct_witness:
  "eht_inv std_hash_int (ExtendibleHashTable_init 2) \<and>
   (\<exists>t'. ExtendibleHashTable_Insert std_hash_int 7 (1 :: int) (ExtendibleHashTable_init 2) = Inr t' \<and>
     eht_inv std_hash_int t' \<and> eht_map std_hash_int t' = [7 \<mapsto> 1])"
  using eht_insert_correct [OF eht_inv_init [of 2 std_hash_int], of 7 1]
  by (auto simp: eht_inv_init has_room_def crowd_def eht_map_init)

text \<open>
  C5. Any sequence of insertions, removals and lookups of page ids below \<open>2 ^ 30\<close> on a new table
  of bucket size at least two runs without error, and every answer is the one a finite map gives.
\<close>

theorem eht_run_is_map:
  assumes "2 \<le> n" and "op_key ` set ops \<subseteq> page_ids"
  shows "\<exists>t. eht_run std_hash_int ops (ExtendibleHashTable_init n) = Inr (fst (map_run ops Map.empty), t) \<and>
    eht_inv std_hash_int t \<and> eht_map std_hash_int t = snd (map_run ops Map.empty)"
proof -
  have "page_table_inv (ExtendibleHashTable_init n :: (page_id_t, 'a) eht)"
    using assms(1) by (simp add: page_table_inv_def eht_inv_init)
  from eht_run_refines [OF this _ assms(2)] show ?thesis
    by (auto simp: eht_map_init page_table_inv_def)
qed

theorem eht_run_is_map_witness:
  "\<exists>t. eht_run std_hash_int [OpInsert 0 10, OpInsert 4 14, OpInsert 8 18, OpInsert 4 24, OpFind 4, OpRemove 0, OpFind 0]
        (ExtendibleHashTable_init 2) =
      Inr ([Inserted, Inserted, Inserted, Inserted, Found (Some (24 :: int)), Removed True, Found None], t) \<and>
    eht_inv std_hash_int t"
  using eht_run_is_map [of 2 "[OpInsert 0 10, OpInsert 4 14, OpInsert 8 18, OpInsert 4 24, OpFind 4, OpRemove 0, OpFind 0]"]
  by (auto simp: page_ids_def simp del: eht_run.simps)

text \<open>
  C6. The shape of the directory after any sequence of insertions, removals and lookups that returns,
  on a new table with any positive bucket size and any hash function: the directory has
  \<open>2 ^ GetGlobalDepth\<close> slots, a bucket of local depth \<open>d\<close> is referenced by exactly
  \<open>2 ^ (GetGlobalDepth - d)\<close> of them, and \<open>GetNumBuckets\<close> is the number of different buckets in
  the directory.
\<close>

theorem eht_directory_shape:
  assumes "0 < n" and "eht_run h ops (ExtendibleHashTable_init n) = Inr (outs, t)" and "i < length (dir t)"
  shows "length (dir t) = 2 ^ GetGlobalDepth t \<and> GetGlobalDepth t \<le> 30 \<and> GetNumBuckets t = card (set (dir t)) \<and>
    (\<exists>d. GetLocalDepth t i = Inr d \<and> d \<le> GetGlobalDepth t \<and>
      card {j. j < length (dir t) \<and> dir t ! j = dir t ! i} = 2 ^ (GetGlobalDepth t - d))"
proof -
  let ?d = "b_depth (bucket_of t i)" and ?g = "global_depth t"
  have inv: "eht_inv h t" using eht_run_inv [OF eht_inv_init assms(2)] assms(1) .
  have wf: "eht_wf h t" and len: "length (dir t) = 2 ^ ?g" and i: "i < 2 ^ ?g"
    using inv assms(3) by (auto simp: eht_inv_def eht_wf_def)
  have "dir t ! j = dir t ! i \<longleftrightarrow> take_bit ?d j = take_bit ?d i" if "j < 2 ^ ?g" for j
    using eht_wfD(2) [OF wf i that] by (auto simp: shares_ok_def)
  then have "{j. j < 2 ^ ?g \<and> dir t ! j = dir t ! i} = {j. j < 2 ^ ?g \<and> take_bit ?d j = take_bit ?d i}"
    by auto
  moreover have "?d \<le> ?g" using eht_wfD(1) [OF wf i] by (simp add: bucket_ok_def)
  moreover have "num_buckets t = card (set (dir t))" "?g \<le> 30" using inv by (auto simp: eht_inv_def eht_wf_def)
  ultimately show ?thesis
    using card_take_bit_class [of ?d ?g "take_bit ?d i"] i
    by (simp add: GetLocalDepth_def GetGlobalDepth_def GetNumBuckets_def len)
qed

theorem eht_directory_shape_witness:
  "\<exists>outs t. eht_run std_hash_int [OpInsert 0 10, OpInsert 4 14, OpInsert 8 (18 :: int)] (ExtendibleHashTable_init 2) = Inr (outs, t) \<and>
    GetNumBuckets t = card (set (dir t)) \<and>
    (\<exists>d. GetLocalDepth t 0 = Inr d \<and> card {j. j < length (dir t) \<and> dir t ! j = dir t ! 0} = 2 ^ (GetGlobalDepth t - d))"
proof -
  let ?ops = "[OpInsert 0 10, OpInsert 4 14, OpInsert 8 (18 :: int)]"
  have "page_table_inv (ExtendibleHashTable_init 2 :: (page_id_t, int) eht)" by (simp add: page_table_inv_def eht_inv_init)
  moreover have "dom (eht_map std_hash_int (ExtendibleHashTable_init 2 :: (page_id_t, int) eht)) \<subseteq> page_ids" "op_key ` set ?ops \<subseteq> page_ids"
    by (simp_all add: page_ids_def eht_map_init)
  ultimately obtain outs t where t: "eht_run std_hash_int ?ops (ExtendibleHashTable_init 2) = Inr (outs, t)" "page_table_inv t"
    using eht_run_refines [of "ExtendibleHashTable_init 2" ?ops] by blast
  have "0 < length (dir t)" using t(2) by (auto simp: page_table_inv_def eht_inv_def eht_wf_def)
  from eht_directory_shape [OF _ t(1) this] show ?thesis
    by (intro exI [of _ outs] exI [of _ t] conjI t(1)) auto
qed

end
