(* ===== verification/DiskManager.thy ===== *)
theory DiskManager
  imports Interfaces "HOL-Library.More_List"
begin

text \<open>
  The disk managers of \<^verbatim>\<open>src/storage/disk\<close>: the file based \<open>DiskManager\<close>, the fixed
  \<open>DiskManagerMemory\<close> and \<open>DiskManagerUnlimitedMemory\<close>, and the virtual dispatch between them.  A file
  is the list of its bytes; writing behind its end fills the gap with zeros, as the file system does.
  A stream carries its fail bit: a failed seek makes the following transfers no-ops until
  \<open>clear\<close>.  The device itself never fails (\<open>bad()\<close> is false), the database and log files can be
  opened, and the counters \<open>num_writes_\<close> and \<open>num_flushes_\<close> are unbounded.
\<close>

section \<open>The file based disk manager\<close>

text \<open>
  \<open>log_buffer\<close> is the address of the last log buffer written, the file static \<open>buffer_used\<close>;
  \<open>flush_log_future\<close> says whether the future is set, and if so whether waiting for it succeeds.
\<close>

record file_disk =
  db_io :: "byte list"
  db_fail :: bool
  log_io :: "byte list"
  log_fail :: bool
  num_writes :: int
  num_flushes :: int
  flush_log :: bool
  flush_log_future :: "bool option"
  log_buffer :: "nat option"

definition DiskManager_init :: "byte list \<Rightarrow> byte list \<Rightarrow> file_disk" where
  "DiskManager_init db log =
     \<lparr>db_io = db, db_fail = False, log_io = log, log_fail = False, num_writes = 0, num_flushes = 0,
      flush_log = False, flush_log_future = None, log_buffer = None\<rparr>"

definition GetFileSize :: "byte list \<Rightarrow> int" where
  "GetFileSize file = wrap32 (int (length file))"

definition overwrite :: "nat \<Rightarrow> byte list \<Rightarrow> byte list \<Rightarrow> byte list" where
  "overwrite off xs file =
     take off file @ replicate (off - length file) 0 @ xs @ drop (off + length xs) file"

text \<open>
  \<open>static_cast<size_t>(page_id) * BUSTUB_PAGE_SIZE\<close>; for a negative page id the offset is negative
  as a stream position and the seek fails.
\<close>

definition DiskManager_WritePage :: "page_id_t \<Rightarrow> byte list \<Rightarrow> file_disk \<Rightarrow> file_disk" where
  "DiskManager_WritePage page_id page_data d =
     (let d = d\<lparr>num_writes := num_writes d + 1\<rparr> in
      if db_fail d then d
      else if page_id < 0 then d\<lparr>db_fail := True\<rparr>
      else d\<lparr>db_io := overwrite (nat page_id * BUSTUB_PAGE_SIZE) (take BUSTUB_PAGE_SIZE page_data) (db_io d)\<rparr>)"

text \<open>
  \<open>int offset = page_id * BUSTUB_PAGE_SIZE\<close> is a product of two \<open>int\<close>s.  The result is the buffer
  after the call.
\<close>

definition DiskManager_ReadPage :: "page_id_t \<Rightarrow> byte list \<Rightarrow> file_disk \<Rightarrow> (byte list \<times> file_disk) result" where
  "DiskManager_ReadPage page_id page_data d =
     (let offset = page_id * int BUSTUB_PAGE_SIZE in
      if offset < - (2 ^ 31) \<or> 2 ^ 31 \<le> offset then Inl UndefinedBehaviour
      else if GetFileSize (db_io d) < offset then Inr (page_data, d)
      else
        let got = (if db_fail d \<or> offset < 0 then [] else take BUSTUB_PAGE_SIZE (drop (nat offset) (db_io d)))
        in if length got < BUSTUB_PAGE_SIZE
           then Inr (got @ replicate (BUSTUB_PAGE_SIZE - length got) 0 @ drop BUSTUB_PAGE_SIZE page_data,
                     d\<lparr>db_fail := False\<rparr>)
           else Inr (got @ drop BUSTUB_PAGE_SIZE page_data, d))"

text \<open>The log buffer is passed by address; \<open>bytes\<close> is what it holds.\<close>

definition WriteLog :: "nat \<Rightarrow> byte list \<Rightarrow> int \<Rightarrow> file_disk \<Rightarrow> file_disk result" where
  "WriteLog log_data bytes n d =
     (if log_buffer d = Some log_data then Inl AssertionFailure
      else
        let d = d\<lparr>log_buffer := Some log_data\<rparr> in
        if n = 0 then Inr d
        else if flush_log_future d = Some False then Inl AssertionFailure
        else if n < 0 \<or> int (length bytes) < n then Inl UndefinedBehaviour
        else Inr (d\<lparr>num_flushes := num_flushes d + 1,
                    log_io := (if log_fail d then log_io d else log_io d @ take (nat n) bytes),
                    flush_log := False\<rparr>))"

definition ReadLog :: "byte list \<Rightarrow> int \<Rightarrow> int \<Rightarrow> file_disk \<Rightarrow> bool \<times> byte list \<times> file_disk" where
  "ReadLog log_data n offset d =
     (if GetFileSize (log_io d) \<le> offset then (False, log_data, d)
      else
        let got = (if log_fail d \<or> offset < 0 then [] else take (nat n) (drop (nat offset) (log_io d)));
            fail = (log_fail d \<or> offset < 0 \<or> int (length got) \<noteq> n)
        in if int (length got) < n
           then (True, got @ replicate (nat n - length got) 0 @ drop (nat n) log_data, d\<lparr>log_fail := False\<rparr>)
           else (True, got @ drop (length got) log_data, d\<lparr>log_fail := fail\<rparr>))"

definition SetFlushLogFuture :: "bool option \<Rightarrow> file_disk \<Rightarrow> file_disk" where
  "SetFlushLogFuture f d = d\<lparr>flush_log_future := f\<rparr>"

section \<open>The memory based disk managers\<close>

text \<open>\<open>new char[...]\<close> is not initialised: the contents are an argument.\<close>

record mem_disk =
  mem_bytes :: "byte list"
  mem_writes :: int

definition DiskManagerMemory_init :: "byte list \<Rightarrow> mem_disk" where
  "DiskManagerMemory_init contents = \<lparr>mem_bytes = contents, mem_writes = 0\<rparr>"

definition DiskManagerMemory_WritePage :: "page_id_t \<Rightarrow> byte list \<Rightarrow> mem_disk \<Rightarrow> mem_disk result" where
  "DiskManagerMemory_WritePage page_id page_data d =
     (let offset = page_id * int BUSTUB_PAGE_SIZE in
      if offset < 0 \<or> int (length (mem_bytes d)) < offset + int BUSTUB_PAGE_SIZE then Inl UndefinedBehaviour
      else Inr \<lparr>mem_bytes = overwrite (nat offset) (take BUSTUB_PAGE_SIZE page_data) (mem_bytes d),
                 mem_writes = mem_writes d + 1\<rparr>)"

definition DiskManagerMemory_ReadPage :: "page_id_t \<Rightarrow> byte list \<Rightarrow> mem_disk \<Rightarrow> byte list result" where
  "DiskManagerMemory_ReadPage page_id page_data d =
     (let offset = page_id * int BUSTUB_PAGE_SIZE in
      if offset < 0 \<or> int (length (mem_bytes d)) < offset + int BUSTUB_PAGE_SIZE then Inl UndefinedBehaviour
      else Inr (take BUSTUB_PAGE_SIZE (drop (nat offset) (mem_bytes d)) @ drop BUSTUB_PAGE_SIZE page_data))"

text \<open>The vector of shared pointers; a null pointer is \<open>None\<close>.\<close>

type_synonym unlimited_disk = "byte list option list"

definition UnlimitedMemory_WritePage :: "page_id_t \<Rightarrow> byte list \<Rightarrow> unlimited_disk \<Rightarrow> unlimited_disk result" where
  "UnlimitedMemory_WritePage page_id page_data d =
     (if page_id < 0 \<or> page_id = 2 ^ 31 - 1 then Inl UndefinedBehaviour
      else
        let d = (if int (length d) \<le> page_id then d @ replicate (nat page_id + 1 - length d) None else d)
        in Inr (d[nat page_id := Some (take BUSTUB_PAGE_SIZE page_data)]))"

definition UnlimitedMemory_ReadPage :: "page_id_t \<Rightarrow> byte list \<Rightarrow> unlimited_disk \<Rightarrow> byte list" where
  "UnlimitedMemory_ReadPage page_id page_data d =
     (if int (length d) \<le> page_id \<or> page_id < 0 then page_data
      else case d ! nat page_id of None \<Rightarrow> page_data
        | Some bytes \<Rightarrow> bytes @ drop BUSTUB_PAGE_SIZE page_data)"

section \<open>The virtual calls\<close>

datatype disk_manager = FileDisk file_disk | MemoryDisk mem_disk | UnlimitedDisk unlimited_disk

fun WritePage :: "page_id_t \<Rightarrow> byte list \<Rightarrow> disk_manager \<Rightarrow> disk_manager result" where
  "WritePage p xs (FileDisk d) = Inr (FileDisk (DiskManager_WritePage p xs d))"
| "WritePage p xs (MemoryDisk d) = bind_result (DiskManagerMemory_WritePage p xs d) (\<lambda>d. Inr (MemoryDisk d))"
| "WritePage p xs (UnlimitedDisk d) = bind_result (UnlimitedMemory_WritePage p xs d) (\<lambda>d. Inr (UnlimitedDisk d))"

fun ReadPage :: "page_id_t \<Rightarrow> byte list \<Rightarrow> disk_manager \<Rightarrow> (byte list \<times> disk_manager) result" where
  "ReadPage p xs (FileDisk d) = bind_result (DiskManager_ReadPage p xs d) (\<lambda>(ys, d). Inr (ys, FileDisk d))"
| "ReadPage p xs (MemoryDisk d) = bind_result (DiskManagerMemory_ReadPage p xs d) (\<lambda>ys. Inr (ys, MemoryDisk d))"
| "ReadPage p xs (UnlimitedDisk d) = Inr (UnlimitedMemory_ReadPage p xs d, UnlimitedDisk d)"

section \<open>Bytes of a file\<close>

abbreviation zero_page :: "byte list" where
  "zero_page \<equiv> replicate BUSTUB_PAGE_SIZE 0"

definition page_image :: "byte list \<Rightarrow> page_id_t \<Rightarrow> byte list" where
  "page_image file p = map (\<lambda>i. nth_default 0 file (nat p * BUSTUB_PAGE_SIZE + i)) [0..<BUSTUB_PAGE_SIZE]"

lemma length_page_image [simp]: "length (page_image file p) = BUSTUB_PAGE_SIZE"
  by (simp add: page_image_def)

lemma BUSTUB_PAGE_SIZE_pos [simp]: "0 < BUSTUB_PAGE_SIZE"
  by (simp add: BUSTUB_PAGE_SIZE_def)

lemma nth_default_overwrite:
  "nth_default 0 (overwrite off xs file) i =
    (if off \<le> i \<and> i < off + length xs then xs ! (i - off) else nth_default 0 file i)"
  by (auto simp: overwrite_def nth_default_def nth_append min_def not_less)

lemma length_overwrite: "length (overwrite off xs file) = max (length file) (off + length xs)"
  by (auto simp: overwrite_def)

lemma page_image_overwrite:
  assumes "0 \<le> p" and "0 \<le> q" and "length xs = BUSTUB_PAGE_SIZE"
  shows "page_image (overwrite (nat p * BUSTUB_PAGE_SIZE) xs file) q = (if q = p then xs else page_image file q)"
proof (cases "q = p")
  case True
  then show ?thesis
    using assms(3) by (auto simp: page_image_def nth_default_overwrite intro: nth_equalityI)
next
  case False
  have "\<not> (nat p * BUSTUB_PAGE_SIZE \<le> nat q * BUSTUB_PAGE_SIZE + i \<and>
      nat q * BUSTUB_PAGE_SIZE + i < nat p * BUSTUB_PAGE_SIZE + BUSTUB_PAGE_SIZE)" if "i < BUSTUB_PAGE_SIZE" for i
  proof
    assume *: "nat p * BUSTUB_PAGE_SIZE \<le> nat q * BUSTUB_PAGE_SIZE + i \<and>
      nat q * BUSTUB_PAGE_SIZE + i < nat p * BUSTUB_PAGE_SIZE + BUSTUB_PAGE_SIZE"
    then have "(nat q * BUSTUB_PAGE_SIZE + i) div BUSTUB_PAGE_SIZE = nat p"
      by (intro div_nat_eqI) (auto simp: mult.commute)
    with that have "nat q = nat p" by simp
    with assms False show False by (simp add: eq_nat_nat_iff)
  qed
  with False assms(3) show ?thesis by (auto simp: page_image_def nth_default_overwrite)
qed

lemma page_image_past_end:
  "length file \<le> nat p * BUSTUB_PAGE_SIZE \<Longrightarrow> page_image file p = zero_page"
  by (auto simp: page_image_def nth_default_def intro: nth_equalityI)

text \<open>What a read transfers, padded with zeros, is the image of the page.\<close>

lemma transfer_eq_image:
  "take BUSTUB_PAGE_SIZE (drop (nat p * BUSTUB_PAGE_SIZE) file) @
    replicate (BUSTUB_PAGE_SIZE - length (take BUSTUB_PAGE_SIZE (drop (nat p * BUSTUB_PAGE_SIZE) file))) 0 =
   page_image file p"
  by (rule nth_equalityI) (auto simp: page_image_def nth_append nth_default_def)

section \<open>The contract\<close>

text \<open>
  The file based manager stores pages \<open>0\<close> to \<open>524286\<close>: behind that the file reaches \<open>2 ^ 31\<close>
  bytes, which neither \<open>GetFileSize\<close> nor the offset in \<open>ReadPage\<close> can represent.
\<close>

definition file_pages :: nat where
  "file_pages = 524287"

fun disk_inv :: "disk_manager \<Rightarrow> bool" where
  "disk_inv (FileDisk d) \<longleftrightarrow> \<not> db_fail d \<and> length (db_io d) \<le> file_pages * BUSTUB_PAGE_SIZE"
| "disk_inv (MemoryDisk d) \<longleftrightarrow> True"
| "disk_inv (UnlimitedDisk d) \<longleftrightarrow> (\<forall>xs. Some xs \<in> set d \<longrightarrow> length xs = BUSTUB_PAGE_SIZE)"

fun disk_capacity :: "disk_manager \<Rightarrow> int" where
  "disk_capacity (FileDisk d) = int file_pages"
| "disk_capacity (MemoryDisk d) = int (length (mem_bytes d) div BUSTUB_PAGE_SIZE)"
| "disk_capacity (UnlimitedDisk d) = 2 ^ 31 - 1"

fun disk_image :: "disk_manager \<Rightarrow> page_id_t \<Rightarrow> byte list" where
  "disk_image (FileDisk d) p = page_image (db_io d) p"
| "disk_image (MemoryDisk d) p = page_image (mem_bytes d) p"
| "disk_image (UnlimitedDisk d) p = (case nth_default None d (nat p) of None \<Rightarrow> zero_page | Some xs \<Rightarrow> xs)"

lemma file_offset:
  assumes "0 \<le> p" and "p < int file_pages"
  shows "(nat p + 1) * BUSTUB_PAGE_SIZE \<le> file_pages * BUSTUB_PAGE_SIZE"
    and "nat (p * int BUSTUB_PAGE_SIZE) = nat p * BUSTUB_PAGE_SIZE"
    and "0 \<le> p * int BUSTUB_PAGE_SIZE" and "p * int BUSTUB_PAGE_SIZE < 2 ^ 31"
  using assms by (auto simp: nat_mult_distrib file_pages_def BUSTUB_PAGE_SIZE_def)

lemma GetFileSize_small:
  "length file \<le> file_pages * BUSTUB_PAGE_SIZE \<Longrightarrow> GetFileSize file = int (length file)"
  unfolding GetFileSize_def by (rule wrap32_id) (simp_all add: file_pages_def BUSTUB_PAGE_SIZE_def)

lemma DiskManager_ReadPage_eq:
  assumes inv: "disk_inv (FileDisk d)" and p: "0 \<le> p" "p < int file_pages"
  shows "DiskManager_ReadPage p zero_page d = Inr (page_image (db_io d) p, d)"
proof (cases "int (length (db_io d)) < p * int BUSTUB_PAGE_SIZE")
  case True
  then have "length (db_io d) \<le> nat p * BUSTUB_PAGE_SIZE" using file_offset(2) [OF p] by linarith
  with True inv show ?thesis
    using file_offset [OF p]
    by (simp add: DiskManager_ReadPage_def GetFileSize_small page_image_past_end)
next
  case False
  have "length (take BUSTUB_PAGE_SIZE (drop (nat p * BUSTUB_PAGE_SIZE) (db_io d))) \<le> BUSTUB_PAGE_SIZE" by simp
  moreover have "d\<lparr>db_fail := False\<rparr> = d" using inv by simp
  ultimately show ?thesis
    using False inv file_offset [OF p] transfer_eq_image [of p "db_io d"]
    by (auto simp: DiskManager_ReadPage_def GetFileSize_small Let_def not_less)
qed

lemma mem_offset:
  assumes "0 \<le> p" and "p < int (n div BUSTUB_PAGE_SIZE)"
  shows "p * int BUSTUB_PAGE_SIZE + int BUSTUB_PAGE_SIZE \<le> int n"
    and "nat (p * int BUSTUB_PAGE_SIZE) = nat p * BUSTUB_PAGE_SIZE" and "0 \<le> p * int BUSTUB_PAGE_SIZE"
    and "nat p * BUSTUB_PAGE_SIZE + BUSTUB_PAGE_SIZE \<le> n"
proof -
  have "Suc (nat p) * BUSTUB_PAGE_SIZE \<le> n div BUSTUB_PAGE_SIZE * BUSTUB_PAGE_SIZE"
    using assms by (intro mult_le_mono1) simp
  also have "\<dots> \<le> n" by simp
  finally have le: "Suc (nat p) * BUSTUB_PAGE_SIZE \<le> n" .
  then show "nat p * BUSTUB_PAGE_SIZE + BUSTUB_PAGE_SIZE \<le> n" by simp
  from le have "int (Suc (nat p) * BUSTUB_PAGE_SIZE) \<le> int n" by (simp only: of_nat_le_iff)
  with assms(1) show "p * int BUSTUB_PAGE_SIZE + int BUSTUB_PAGE_SIZE \<le> int n"
    by (simp add: distrib_right)
  show "nat (p * int BUSTUB_PAGE_SIZE) = nat p * BUSTUB_PAGE_SIZE" "0 \<le> p * int BUSTUB_PAGE_SIZE"
    using assms(1) by (simp_all add: nat_mult_distrib)
qed

lemma disk_image_length: "disk_inv d \<Longrightarrow> length (disk_image d p) = BUSTUB_PAGE_SIZE"
  by (cases d) (auto simp: nth_default_def split: option.split dest: nth_mem)

lemma ReadPage_eq:
  assumes "disk_inv d" and "0 \<le> p" and "p < disk_capacity d"
  shows "ReadPage p zero_page d = Inr (disk_image d p, d)"
proof (cases d)
  case (FileDisk f)
  with assms DiskManager_ReadPage_eq [of f p] show ?thesis by simp
next
  case (MemoryDisk m)
  have "length (take BUSTUB_PAGE_SIZE (drop (nat p * BUSTUB_PAGE_SIZE) (mem_bytes m))) = BUSTUB_PAGE_SIZE"
    using mem_offset [of p "length (mem_bytes m)"] assms MemoryDisk by auto
  with MemoryDisk assms show ?thesis
    using mem_offset [of p "length (mem_bytes m)"] transfer_eq_image [of p "mem_bytes m"]
    by (auto simp: DiskManagerMemory_ReadPage_def Let_def)
next
  case (UnlimitedDisk u)
  with assms show ?thesis
    by (auto simp: UnlimitedMemory_ReadPage_def nth_default_def split: option.split)
qed

lemma UnlimitedMemory_WritePage_eq:
  assumes "disk_inv (UnlimitedDisk u)" and "0 \<le> p" and "p < 2 ^ 31 - 1" and "length xs = BUSTUB_PAGE_SIZE"
  obtains u' where "UnlimitedMemory_WritePage p xs u = Inr u'" and "disk_inv (UnlimitedDisk u')"
    and "\<And>q. 0 \<le> q \<Longrightarrow> disk_image (UnlimitedDisk u') q = (if q = p then xs else disk_image (UnlimitedDisk u) q)"
proof
  let ?u = "if int (length u) \<le> p then u @ replicate (nat p + 1 - length u) None else u"
  let ?u' = "?u[nat p := Some xs]"
  show "UnlimitedMemory_WritePage p xs u = Inr ?u'"
    using assms by (simp add: UnlimitedMemory_WritePage_def)
  have "set ?u' \<subseteq> insert (Some xs) (set ?u)" by (rule set_update_subset_insert)
  also have "\<dots> \<subseteq> {Some xs, None} \<union> set u" by auto
  finally show "disk_inv (UnlimitedDisk ?u')" using assms(1,4) by auto
  show "disk_image (UnlimitedDisk ?u') q = (if q = p then xs else disk_image (UnlimitedDisk u) q)" if "0 \<le> q" for q
  proof -
    have "nth_default None ?u' (nat q) = (if q = p then Some xs else nth_default None u (nat q))"
      using assms(2) that
      by (auto simp: nth_default_def nth_append nth_list_update eq_nat_nat_iff)
    then show ?thesis by simp
  qed
qed

lemma WritePage_eq:
  assumes "disk_inv d" and "0 \<le> p" and "p < disk_capacity d" and "length xs = BUSTUB_PAGE_SIZE"
  shows "\<exists>d'. WritePage p xs d = Inr d' \<and> disk_inv d' \<and> disk_capacity d' = disk_capacity d \<and>
    (\<forall>q. 0 \<le> q \<longrightarrow> q < disk_capacity d \<longrightarrow> disk_image d' q = (if q = p then xs else disk_image d q))"
proof (cases d)
  case (FileDisk f)
  with assms file_offset(1) [of p] show ?thesis
    by (simp add: DiskManager_WritePage_def Let_def length_overwrite page_image_overwrite)
next
  case (MemoryDisk m)
  have "nat p * BUSTUB_PAGE_SIZE + BUSTUB_PAGE_SIZE \<le> length (mem_bytes m)"
    using mem_offset [of p "length (mem_bytes m)"] assms MemoryDisk by auto
  with MemoryDisk assms show ?thesis
    using mem_offset [of p "length (mem_bytes m)"]
    by (simp add: DiskManagerMemory_WritePage_def Let_def length_overwrite page_image_overwrite max_absorb1
        mult_less_0_iff)
next
  case (UnlimitedDisk u)
  with assms show ?thesis
    using UnlimitedMemory_WritePage_eq [of u p xs] by (metis WritePage.simps(3) bind_result_simps(2) disk_capacity.simps(3))
qed

interpretation dm: disk disk_inv disk_capacity disk_image ReadPage WritePage
  by unfold_locales (simp_all add: disk_image_length ReadPage_eq WritePage_eq)

section \<open>Properties\<close>

text \<open>
  C7. Every disk manager returns for a page within its capacity the bytes last written to that
  page, and a write changes no other page.
\<close>

theorem disk_read_after_write:
  assumes "disk_inv d" and "0 \<le> p" and "p < disk_capacity d" and "length xs = BUSTUB_PAGE_SIZE"
    and "0 \<le> q" and "q < disk_capacity d"
  shows "\<exists>d'. WritePage p xs d = Inr d' \<and> disk_inv d' \<and>
    ReadPage q zero_page d' = Inr (if q = p then xs else disk_image d q, d')"
  using dm.write_law [OF assms(1-4)] dm.read_law [of _ q] assms(5,6) by force

theorem disk_read_after_write_witness:
  "\<exists>d'. WritePage 3 (replicate BUSTUB_PAGE_SIZE 7) (FileDisk (DiskManager_init [] [])) = Inr d' \<and> disk_inv d' \<and>
    ReadPage 2 zero_page d' = Inr (zero_page, d')"
  using disk_read_after_write [of "FileDisk (DiskManager_init [] [])" 3 "replicate BUSTUB_PAGE_SIZE 7" 2]
  by (simp add: DiskManager_init_def file_pages_def page_image_past_end del: WritePage.simps ReadPage.simps)

text \<open>
  C8. Once page \<open>524287\<close> has been written the database file is \<open>2 ^ 31\<close> bytes long, \<open>GetFileSize\<close>
  wraps to a negative number, and every later \<open>ReadPage\<close> of a page that was stored leaves the
  caller's buffer unchanged.
\<close>

theorem disk_last_page_blinds_reads:
  assumes "\<not> db_fail d" and "length (db_io d) \<le> file_pages * BUSTUB_PAGE_SIZE"
    and "length xs = BUSTUB_PAGE_SIZE" and "0 \<le> p" and "p < 2 ^ 19"
  shows "DiskManager_ReadPage p buf (DiskManager_WritePage (2 ^ 19 - 1) xs d) =
    Inr (buf, DiskManager_WritePage (2 ^ 19 - 1) xs d)"
proof -
  have "length (db_io (DiskManager_WritePage (2 ^ 19 - 1) xs d)) = 2 ^ 31"
    using assms(1-3) by (simp add: DiskManager_WritePage_def Let_def length_overwrite file_pages_def BUSTUB_PAGE_SIZE_def)
  then have "GetFileSize (db_io (DiskManager_WritePage (2 ^ 19 - 1) xs d)) = - (2 ^ 31)"
    by (simp add: GetFileSize_def wrap32_def)
  then show ?thesis using assms(4,5) by (simp add: DiskManager_ReadPage_def BUSTUB_PAGE_SIZE_def)
qed

theorem disk_last_page_blinds_reads_witness:
  "DiskManager_ReadPage 0 [1] (DiskManager_WritePage (2 ^ 19 - 1) zero_page (DiskManager_init [] [])) =
    Inr ([1], DiskManager_WritePage (2 ^ 19 - 1) zero_page (DiskManager_init [] []))"
  by (rule disk_last_page_blinds_reads) (simp_all add: DiskManager_init_def)

text \<open>
  C9. A log record is read back as written from the offset at which the log ended, as long as the
  log stays below \<open>2 ^ 31\<close> bytes, and earlier records keep their bytes.
\<close>

theorem log_read_after_write:
  assumes "\<not> log_fail d" and "0 < length bytes" and "length (log_io d) + length bytes < 2 ^ 31"
    and "log_buffer d \<noteq> Some a" and "flush_log_future d \<noteq> Some False" and "length buf = length bytes"
  shows "\<exists>d'. WriteLog a bytes (int (length bytes)) d = Inr d' \<and>
    ReadLog buf (int (length bytes)) (int (length (log_io d))) d' = (True, bytes, d') \<and>
    take (length (log_io d)) (log_io d') = log_io d \<and> num_flushes d' = num_flushes d + 1"
proof -
  have "GetFileSize (log_io d @ bytes) = int (length (log_io d) + length bytes)"
    unfolding GetFileSize_def by (subst wrap32_id) (use assms(3) in auto)
  then show ?thesis using assms by (auto simp: WriteLog_def ReadLog_def)
qed

theorem log_read_after_write_witness:
  "\<exists>d'. WriteLog 1 [5, 6] 2 (DiskManager_init [] [9]) = Inr d' \<and> ReadLog [0, 0] 2 1 d' = (True, [5, 6], d')"
  using log_read_after_write [of "DiskManager_init [] [9]" "[5, 6]" 1 "[0, 0]"]
  by (auto simp: DiskManager_init_def)

end
