(* ===== verification/BufferPool.thy ===== *)
theory BufferPool
  imports LRUKReplacer ExtendibleHashTable DiskManager
begin

text \<open>
  The buffer pool manager of \<^verbatim>\<open>src/buffer/buffer_pool_manager_instance.cpp\<close>.  The state is
  the pool of frames, the page table, the replacer, the free list, the page id counter and the disk
  manager behind it; a \<open>Page *\<close> is the number of its frame.  Every public operation runs under
  \<open>latch_\<close> (except \<open>FlushPgImp\<close>, whose steps are modelled as if it did), so a concurrent execution
  is a sequence of these operations.
\<close>

section \<open>Pages\<close>

record page =
  pg_data :: "byte list"
  pg_id :: page_id_t
  pin_count :: int
  is_dirty :: bool

definition ResetMemory :: "page \<Rightarrow> page" where
  "ResetMemory p = p\<lparr>pg_data := replicate BUSTUB_PAGE_SIZE 0\<rparr>"

definition Page_init :: page where
  "Page_init = \<lparr>pg_data = replicate BUSTUB_PAGE_SIZE 0, pg_id = INVALID_PAGE_ID, pin_count = 0, is_dirty = False\<rparr>"

section \<open>The manager\<close>

record bpm =
  pool_size :: nat
  next_page_id :: page_id_t
  pages :: "page list"
  disk_mgr :: disk_manager
  ptable :: "(page_id_t, frame_id_t) eht"
  rep :: lruk
  free_list :: "frame_id_t list"

definition bpm_init :: "nat \<Rightarrow> disk_manager \<Rightarrow> nat \<Rightarrow> bpm" where
  "bpm_init n d k =
     \<lparr>pool_size = n, next_page_id = 0, pages = replicate n Page_init, disk_mgr = d,
      ptable = ExtendibleHashTable_init 4, rep = LRUKReplacer_init n k, free_list = map int [0..<n]\<rparr>"

definition page_at :: "frame_id_t \<Rightarrow> bpm \<Rightarrow> page result" where
  "page_at f b = (if 0 \<le> f \<and> nat f < length (pages b) then Inr (pages b ! nat f) else Inl UndefinedBehaviour)"

definition set_page :: "frame_id_t \<Rightarrow> page \<Rightarrow> bpm \<Rightarrow> bpm" where
  "set_page f p b = b\<lparr>pages := (pages b)[nat f := p]\<rparr>"

definition AllocatePage :: "bpm \<Rightarrow> page_id_t \<times> bpm" where
  "AllocatePage b = (next_page_id b, b\<lparr>next_page_id := wrap32 (next_page_id b + 1)\<rparr>)"

definition DeallocatePage :: "page_id_t \<Rightarrow> bpm \<Rightarrow> bpm" where
  "DeallocatePage p b = b"

definition is_free_page :: "bpm \<Rightarrow> bool" where
  "is_free_page b \<longleftrightarrow> list_ex (\<lambda>p. pin_count p = 0) (pages b)"

text \<open>
  The part shared by \<open>NewPgImp\<close> and \<open>FetchPgImp\<close>: a frame from the free list, or an evicted one
  whose dirty page is written back.  The result of \<open>Evict\<close> is not checked, so without a victim
  \<open>frame_id\<close> is read uninitialised.
\<close>

definition evict_frame :: "bpm \<Rightarrow> (frame_id_t \<times> bpm) result" where
  "evict_frame b =
     bind_result (LRUKReplacer_Evict (rep b)) (\<lambda>(victim, r).
       case victim of None \<Rightarrow> Inl UndefinedBehaviour
       | Some f \<Rightarrow>
           bind_result (page_at f b) (\<lambda>p.
           bind_result (if is_dirty p then WritePage (pg_id p) (pg_data p) (disk_mgr b) else Inr (disk_mgr b)) (\<lambda>d.
           bind_result (ExtendibleHashTable_Remove std_hash_int (pg_id p) (ptable b)) (\<lambda>(_, t).
           Inr (f, (set_page f (ResetMemory (p\<lparr>is_dirty := False\<rparr>)) b)\<lparr>disk_mgr := d, ptable := t, rep := r\<rparr>)))))"

definition take_frame :: "bpm \<Rightarrow> (frame_id_t \<times> bpm) result" where
  "take_frame b =
     (case free_list b of f # fs \<Rightarrow> Inr (f, b\<lparr>free_list := fs\<rparr>) | [] \<Rightarrow> evict_frame b)"

text \<open>\<open>RecordAccess\<close> followed by \<open>SetEvictable(frame_id, false)\<close>.\<close>

definition record_pin :: "frame_id_t \<Rightarrow> bpm \<Rightarrow> bpm result" where
  "record_pin f b =
     bind_result (bind_result (LRUKReplacer_RecordAccess f (rep b)) (LRUKReplacer_SetEvictable f False))
       (\<lambda>r. Inr (b\<lparr>rep := r\<rparr>))"

definition NewPgImp :: "bpm \<Rightarrow> ((page_id_t \<times> frame_id_t) option \<times> bpm) result" where
  "NewPgImp b =
     (if \<not> is_free_page b then Inr (None, b)
      else
        let (page_id, b) = AllocatePage b in
        bind_result (take_frame b) (\<lambda>(f, b).
        bind_result (ExtendibleHashTable_Insert std_hash_int page_id f (ptable b)) (\<lambda>t.
        bind_result (page_at f b) (\<lambda>p.
        bind_result (record_pin f (set_page f (p\<lparr>pg_id := page_id, pin_count := 1\<rparr>) (b\<lparr>ptable := t\<rparr>))) (\<lambda>b.
        Inr (Some (page_id, f), b))))))"

definition FetchPgImp :: "page_id_t \<Rightarrow> bpm \<Rightarrow> (frame_id_t option \<times> bpm) result" where
  "FetchPgImp page_id b =
     bind_result (ExtendibleHashTable_Find std_hash_int page_id (ptable b)) (\<lambda>found.
       case found of
         Some f \<Rightarrow>
           bind_result (page_at f b) (\<lambda>p.
           if pin_count p = 2 ^ 31 - 1 then Inl UndefinedBehaviour
           else bind_result (record_pin f (set_page f (p\<lparr>pin_count := pin_count p + 1\<rparr>) b)) (\<lambda>b. Inr (Some f, b)))
       | None \<Rightarrow>
           if \<not> is_free_page b then Inr (None, b)
           else
             bind_result (take_frame b) (\<lambda>(f, b).
             bind_result (ExtendibleHashTable_Insert std_hash_int page_id f (ptable b)) (\<lambda>t.
             bind_result (page_at f b) (\<lambda>p.
             bind_result (ReadPage page_id (pg_data p) (disk_mgr b)) (\<lambda>(xs, d).
             bind_result (record_pin f (set_page f (p\<lparr>pg_id := page_id, pin_count := 1, pg_data := xs\<rparr>)
               (b\<lparr>ptable := t, disk_mgr := d\<rparr>))) (\<lambda>b.
             Inr (Some f, b)))))))"

definition UnpinPgImp :: "page_id_t \<Rightarrow> bool \<Rightarrow> bpm \<Rightarrow> (bool \<times> bpm) result" where
  "UnpinPgImp page_id dirty b =
     bind_result (ExtendibleHashTable_Find std_hash_int page_id (ptable b)) (\<lambda>found.
       case found of
         None \<Rightarrow> Inr (False, b)
       | Some f \<Rightarrow>
           bind_result (page_at f b) (\<lambda>p.
           if pin_count p \<le> 0 then Inr (False, b)
           else
             let p = (if dirty then p\<lparr>is_dirty := dirty\<rparr> else p);
                 p = p\<lparr>pin_count := pin_count p - 1\<rparr>;
                 b = set_page f p b
             in if pin_count p = 0
                then bind_result (LRUKReplacer_SetEvictable f True (rep b)) (\<lambda>r. Inr (True, b\<lparr>rep := r\<rparr>))
                else Inr (True, b)))"

definition FlushPgImp :: "page_id_t \<Rightarrow> bpm \<Rightarrow> (bool \<times> bpm) result" where
  "FlushPgImp page_id b =
     (if page_id = INVALID_PAGE_ID then Inr (False, b)
      else
        bind_result (ExtendibleHashTable_Find std_hash_int page_id (ptable b)) (\<lambda>found.
          case found of
            None \<Rightarrow> Inr (False, b)
          | Some f \<Rightarrow>
              bind_result (page_at f b) (\<lambda>p.
              bind_result (WritePage page_id (pg_data p) (disk_mgr b)) (\<lambda>d.
              Inr (True, b\<lparr>disk_mgr := d\<rparr>)))))"

fun FlushAll_loop :: "page list \<Rightarrow> bpm \<Rightarrow> bpm result" where
  "FlushAll_loop [] b = Inr b"
| "FlushAll_loop (p # ps) b = bind_result (FlushPgImp (pg_id p) b) (\<lambda>(_, b). FlushAll_loop ps b)"

definition FlushAllPgsImp :: "bpm \<Rightarrow> bpm result" where
  "FlushAllPgsImp b = FlushAll_loop (pages b) b"

definition DeletePgImp :: "page_id_t \<Rightarrow> bpm \<Rightarrow> (bool \<times> bpm) result" where
  "DeletePgImp page_id b =
     bind_result (ExtendibleHashTable_Find std_hash_int page_id (ptable b)) (\<lambda>found.
       case found of
         None \<Rightarrow> Inr (True, b)
       | Some f \<Rightarrow>
           bind_result (page_at f b) (\<lambda>p.
           if pin_count p > 0 then Inr (False, b)
           else
             bind_result (LRUKReplacer_Remove f (rep b)) (\<lambda>r.
             let p = (ResetMemory p)\<lparr>pg_id := INVALID_PAGE_ID, pin_count := 0, is_dirty := False\<rparr> in
             bind_result (ExtendibleHashTable_Remove std_hash_int page_id (ptable b)) (\<lambda>(_, t).
             Inr (True, DeallocatePage page_id
               ((set_page f p b)\<lparr>rep := r, ptable := t, free_list := free_list b @ [f]\<rparr>))))))"

section \<open>The invariant\<close>

text \<open>
  \<open>X\<close> is the set of frames in transit: taken from the free list or evicted, and not yet installed.
  Between operations it is empty.
\<close>

abbreviation frames :: "bpm \<Rightarrow> frame_id_t set" where
  "frames b \<equiv> {0..<int (pool_size b)}"

definition used :: "frame_id_t set \<Rightarrow> bpm \<Rightarrow> frame_id_t set" where
  "used X b = frames b - set (free_list b) - X"

abbreviation frame :: "bpm \<Rightarrow> frame_id_t \<Rightarrow> page" where
  "frame b f \<equiv> pages b ! nat f"

abbreviation resident :: "bpm \<Rightarrow> page_id_t \<Rightarrow> frame_id_t option" where
  "resident b \<equiv> eht_map std_hash_int (ptable b)"

definition free_ok :: "frame_id_t set \<Rightarrow> bpm \<Rightarrow> bool" where
  "free_ok X b \<longleftrightarrow> length (pages b) = pool_size b \<and> distinct (free_list b) \<and>
     set (free_list b) \<subseteq> frames b - X \<and> (\<forall>f \<in> set (free_list b). frame b f = Page_init)"

definition rep_ok :: "frame_id_t set \<Rightarrow> bpm \<Rightarrow> bool" where
  "rep_ok X b \<longleftrightarrow> lruk_inv (pool_size b) (rep b) \<and> lruk_tracked (rep b) = used X b \<and>
     lruk_evictable (rep b) = {f \<in> used X b. pin_count (frame b f) = 0}"

definition table_ok :: "frame_id_t set \<Rightarrow> bpm \<Rightarrow> bool" where
  "table_ok X b \<longleftrightarrow> page_table_inv (ptable b) \<and>
     (\<forall>p f. resident b p = Some f \<longleftrightarrow> f \<in> used X b \<and> pg_id (frame b f) = p)"

definition page_ok :: "page_id_t \<Rightarrow> page \<Rightarrow> bool" where
  "page_ok n p \<longleftrightarrow> 0 \<le> pg_id p \<and> pg_id p < n \<and> 0 \<le> pin_count p \<and> length (pg_data p) = BUSTUB_PAGE_SIZE"

definition disk_ok :: "bpm \<Rightarrow> bool" where
  "disk_ok b \<longleftrightarrow> disk_inv (disk_mgr b) \<and> 0 \<le> next_page_id b \<and>
     next_page_id b \<le> disk_capacity (disk_mgr b) \<and> next_page_id b \<le> 2 ^ 30"

definition bpm_inv :: "frame_id_t set \<Rightarrow> bpm \<Rightarrow> bool" where
  "bpm_inv X b \<longleftrightarrow> free_ok X b \<and> rep_ok X b \<and> table_ok X b \<and> disk_ok b \<and>
     (\<forall>f \<in> used X b. page_ok (next_page_id b) (frame b f))"

text \<open>
  What a page holds, whether it is in the pool or on disk.  \<open>M\<close> is the set of pages that clients
  have modified without having marked them dirty yet; they are pinned.  Every other page that is not
  dirty equals its image on disk.
\<close>

definition content :: "bpm \<Rightarrow> page_id_t \<Rightarrow> byte list" where
  "content b p = (case resident b p of Some f \<Rightarrow> pg_data (frame b f) | None \<Rightarrow> disk_image (disk_mgr b) p)"

definition synced :: "page_id_t set \<Rightarrow> (page_id_t \<Rightarrow> byte list) \<Rightarrow> page \<Rightarrow> bool" where
  "synced M img p \<longleftrightarrow> (pg_id p \<in> M \<longrightarrow> 0 < pin_count p) \<and>
     (pg_id p \<notin> M \<and> \<not> is_dirty p \<longrightarrow> pg_data p = img (pg_id p))"

definition coherent :: "page_id_t set \<Rightarrow> frame_id_t set \<Rightarrow> bpm \<Rightarrow> bool" where
  "coherent M X b \<longleftrightarrow> (\<forall>f \<in> used X b. synced M (disk_image (disk_mgr b)) (frame b f))"

section \<open>Consequences of the invariant\<close>

lemma set_page_simps [simp]:
  "pool_size (set_page f p b) = pool_size b" "next_page_id (set_page f p b) = next_page_id b"
  "pages (set_page f p b) = (pages b)[nat f := p]" "disk_mgr (set_page f p b) = disk_mgr b"
  "ptable (set_page f p b) = ptable b" "rep (set_page f p b) = rep b"
  "free_list (set_page f p b) = free_list b"
  by (simp_all add: set_page_def)

lemma frame_update:
  assumes "f \<in> {0..<int n}" and "g \<in> {0..<int n}" and "length ps = n"
  shows "ps[nat f := p] ! nat g = (if g = f then p else ps ! nat g)"
  using assms by (auto simp: nth_list_update eq_nat_nat_iff)

lemma used_cong: "pool_size b' = pool_size b \<Longrightarrow> free_list b' = free_list b \<Longrightarrow> used X b' = used X b"
  by (simp add: used_def)

lemma used_frames: "f \<in> used X b \<Longrightarrow> f \<in> frames b"
  by (simp add: used_def)

lemma frame_int_le: "f \<in> frames b \<Longrightarrow> f \<le> int (pool_size b)"
  by simp

lemma page_at_frame:
  assumes "free_ok X b" and "f \<in> frames b"
  shows "page_at f b = Inr (frame b f)"
  using assms by (auto simp: page_at_def free_ok_def)

lemma bpm_invD:
  assumes "bpm_inv X b"
  shows "free_ok X b" "rep_ok X b" "table_ok X b" "disk_ok b" "page_table_inv (ptable b)"
    "disk_inv (disk_mgr b)" "length (pages b) = pool_size b"
    and "f \<in> used X b \<Longrightarrow> page_ok (next_page_id b) (frame b f)"
  using assms by (auto simp: bpm_inv_def table_ok_def disk_ok_def free_ok_def)

lemma residentD:
  assumes "bpm_inv X b" and "resident b p = Some f"
  shows "f \<in> used X b" "f \<in> frames b" "pg_id (frame b f) = p" "page_at f b = Inr (frame b f)"
    "0 \<le> p" "p < next_page_id b" "page_ok (next_page_id b) (frame b f)"
proof -
  show f: "f \<in> used X b" and p: "pg_id (frame b f) = p"
    using bpm_invD(3) [OF assms(1)] assms(2) unfolding table_ok_def by blast+
  then show "f \<in> frames b" by (simp add: used_def)
  then show "page_at f b = Inr (frame b f)" using page_at_frame [OF bpm_invD(1) [OF assms(1)]] by blast
  show "page_ok (next_page_id b) (frame b f)" by (rule bpm_invD(8) [OF assms(1) f])
  with p show "0 \<le> p" "p < next_page_id b" by (auto simp: page_ok_def)
qed

lemma residentI: "bpm_inv X b \<Longrightarrow> f \<in> used X b \<Longrightarrow> resident b (pg_id (frame b f)) = Some f"
  using bpm_invD(3) unfolding table_ok_def by blast

lemma used_inj:
  assumes "bpm_inv X b" and "f \<in> used X b" and "g \<in> used X b" and "pg_id (frame b f) = pg_id (frame b g)"
  shows "f = g"
  using residentI [OF assms(1,2), unfolded assms(4) residentI [OF assms(1,3)]] by (simp only: option.inject)

lemma resident_keys:
  assumes "bpm_inv X b" and "0 \<le> p" and "p < 2 ^ 30"
  shows "insert p (dom (resident b)) \<subseteq> page_ids"
proof -
  have "q \<in> page_ids" if "resident b q = Some f" for q f
    using residentD(5,6) [OF assms(1) that] bpm_invD(4) [OF assms(1)] by (simp add: disk_ok_def page_ids_def)
  then show ?thesis using assms(2,3) by (auto simp: page_ids_def)
qed

section \<open>Obtaining a frame\<close>

text \<open>
  \<open>taken b f b'\<close>: the frame \<open>f\<close>, free or unpinned in \<open>b\<close>, is empty and in transit in \<open>b'\<close>, and
  nothing else that a client can observe has changed.
\<close>

definition taken :: "bpm \<Rightarrow> frame_id_t \<Rightarrow> bpm \<Rightarrow> bool" where
  "taken b f b' \<longleftrightarrow> bpm_inv {f} b' \<and> f \<in> frames b \<and> f \<notin> set (free_list b') \<and>
     pool_size b' = pool_size b \<and> next_page_id b' = next_page_id b \<and>
     pin_count (frame b f) = 0 \<and>
     pg_data (frame b' f) = zero_page \<and> \<not> is_dirty (frame b' f) \<and>
     (\<forall>g \<in> frames b. g \<noteq> f \<longrightarrow> frame b' g = frame b g) \<and>
     (\<forall>p. resident b' p = (if resident b p = Some f then None else resident b p)) \<and>
     disk_capacity (disk_mgr b') = disk_capacity (disk_mgr b) \<and>
     (\<forall>p. resident b p = None \<and> 0 \<le> p \<and> p < disk_capacity (disk_mgr b) \<longrightarrow>
        disk_image (disk_mgr b') p = disk_image (disk_mgr b) p) \<and>
     (\<forall>M. coherent M {} b \<longrightarrow> coherent M {f} b' \<and>
        (\<forall>p. 0 \<le> p \<and> p < next_page_id b \<longrightarrow> content b' p = content b p))"

lemma take_frame_free:
  assumes inv: "bpm_inv {} b" and fl: "free_list b = f # fs"
  shows "taken b f (b\<lparr>free_list := fs\<rparr>)"
proof -
  let ?b = "b\<lparr>free_list := fs\<rparr>"
  have free: "f \<in> frames b" "f \<notin> set fs" "frame b f = Page_init" "set fs \<subseteq> frames b - {f}"
    using bpm_invD(1) [OF inv] fl by (auto simp: free_ok_def)
  have used: "used {f} ?b = used {} b" using fl by (auto simp: used_def)
  have "bpm_inv {f} ?b"
    using inv free fl used by (simp add: bpm_inv_def free_ok_def rep_ok_def table_ok_def disk_ok_def)
  moreover have "resident b p \<noteq> Some f" for p
    using residentD(1) [OF inv, of p f] fl by (auto simp: used_def)
  moreover have "coherent M {} b \<longrightarrow> coherent M {f} ?b" for M by (simp add: coherent_def used)
  moreover have "content ?b p = content b p" for p by (simp add: content_def split: option.split)
  ultimately show ?thesis using free by (simp add: taken_def Page_init_def)
qed

lemma evictable_exists:
  assumes inv: "bpm_inv {} b" and free: "is_free_page b" and fl: "free_list b = []"
  shows "lruk_evictable (rep b) \<noteq> {}"
proof -
  obtain i where i: "i < length (pages b)" "pin_count (pages b ! i) = 0"
    using free by (auto simp: is_free_page_def list_ex_iff in_set_conv_nth)
  have "int i \<in> {f \<in> used {} b. pin_count (frame b f) = 0}"
    using i bpm_invD(7) [OF inv] fl by (simp add: used_def)
  then show ?thesis using bpm_invD(2) [OF inv] by (auto simp: rep_ok_def)
qed

text \<open>Writing back the page of a frame when it is dirty.\<close>

lemma write_back:
  assumes inv: "bpm_inv X b" and f: "f \<in> used X b"
  obtains d where "(if is_dirty (frame b f) then WritePage (pg_id (frame b f)) (pg_data (frame b f)) (disk_mgr b)
      else Inr (disk_mgr b)) = Inr d"
    and "disk_inv d" and "disk_capacity d = disk_capacity (disk_mgr b)"
    and "\<forall>q. 0 \<le> q \<longrightarrow> q < disk_capacity (disk_mgr b) \<longrightarrow> disk_image d q =
      (if is_dirty (frame b f) \<and> q = pg_id (frame b f) then pg_data (frame b f) else disk_image (disk_mgr b) q)"
proof (cases "is_dirty (frame b f)")
  case True
  have "0 \<le> pg_id (frame b f)" "pg_id (frame b f) < disk_capacity (disk_mgr b)"
      "length (pg_data (frame b f)) = BUSTUB_PAGE_SIZE"
    using bpm_invD(8) [OF inv f] bpm_invD(4) [OF inv] by (auto simp: page_ok_def disk_ok_def)
  from dm.write_law [OF bpm_invD(6) [OF inv] this] True show ?thesis using that by auto
next
  case False
  then show ?thesis using that bpm_invD(6) [OF inv] by simp
qed

text \<open>The state after the page of frame \<open>f\<close> has been written back, reset and forgotten.\<close>

lemma evicted_taken:
  assumes inv: "bpm_inv {} b" and f: "f \<in> used {} b" "pin_count (frame b f) = 0"
    and d: "disk_inv d" "disk_capacity d = disk_capacity (disk_mgr b)"
      "\<And>q. 0 \<le> q \<Longrightarrow> q < disk_capacity (disk_mgr b) \<Longrightarrow> disk_image d q =
        (if is_dirty (frame b f) \<and> q = pg_id (frame b f) then pg_data (frame b f) else disk_image (disk_mgr b) q)"
    and t: "page_table_inv t" "eht_map std_hash_int t = (resident b)(pg_id (frame b f) := None)"
    and r: "lruk_inv (pool_size b) r" "lruk_tracked r = lruk_tracked (rep b) - {f}"
      "lruk_evictable r = lruk_evictable (rep b) - {f}"
  shows "taken b f ((set_page f (ResetMemory ((frame b f)\<lparr>is_dirty := False\<rparr>)) b)\<lparr>disk_mgr := d, ptable := t, rep := r\<rparr>)"
    (is "taken b f ?b")
proof -
  have fr: "f \<in> frames b" using f(1) by (rule used_frames)
  have nth: "frame ?b g = (if g = f then ResetMemory ((frame b f)\<lparr>is_dirty := False\<rparr>) else frame b g)"
    if "g \<in> frames b" for g
    using frame_update [OF fr that bpm_invD(7) [OF inv]] by simp
  have used: "used {f} ?b = used {} b - {f}" by (auto simp: used_def)
  have nth_used: "frame ?b g = frame b g" if "g \<in> used {} b - {f}" for g
    using nth [of g] that used_frames [of g "{}" b] by simp
  have ffree: "f \<notin> set (free_list b)" using f(1) by (simp add: used_def)
  have res: "eht_map std_hash_int t p = (if resident b p = Some f then None else resident b p)" for p
  proof (cases "p = pg_id (frame b f)")
    case True
    then show ?thesis using residentI [OF inv f(1)] by (simp add: t(2))
  next
    case False
    then have "resident b p \<noteq> Some f" using residentD(3) [OF inv, of p f] by blast
    with False show ?thesis by (simp add: t(2))
  qed
  have free: "free_ok {f} ?b"
  proof -
    have "frame ?b g = Page_init" if "g \<in> set (free_list b)" for g
      using bpm_invD(1) [OF inv] that ffree nth [of g] by (auto simp: free_ok_def)
    then show ?thesis using bpm_invD(1) [OF inv] ffree by (auto simp: free_ok_def)
  qed
  have rep: "rep_ok {f} ?b"
    using bpm_invD(2) [OF inv] r nth_used by (auto simp: rep_ok_def used)
  have table: "table_ok {f} ?b"
    unfolding table_ok_def
  proof (intro conjI allI)
    show "page_table_inv (ptable ?b)" using t(1) by simp
    fix p g
    have "resident ?b p = Some g \<longleftrightarrow> g \<noteq> f \<and> resident b p = Some g" by (auto simp: res)
    also have "\<dots> \<longleftrightarrow> g \<in> used {} b - {f} \<and> pg_id (frame b g) = p"
      using bpm_invD(3) [OF inv] by (auto simp: table_ok_def)
    also have "\<dots> \<longleftrightarrow> g \<in> used {f} ?b \<and> pg_id (frame ?b g) = p"
      using nth_used [of g] unfolding used by auto
    finally show "resident ?b p = Some g \<longleftrightarrow> g \<in> used {f} ?b \<and> pg_id (frame ?b g) = p" .
  qed
  have "\<forall>g \<in> used {f} ?b. page_ok (next_page_id ?b) (frame ?b g)"
    unfolding used using bpm_invD(8) [OF inv] nth_used by simp
  then have binv: "bpm_inv {f} ?b"
    using free rep table bpm_invD(4) [OF inv] d(1,2) by (simp add: bpm_inv_def disk_ok_def)
  have cap: "p < disk_capacity (disk_mgr b)" if "p < next_page_id b" for p
    using bpm_invD(4) [OF inv] that by (simp add: disk_ok_def)
  have coh: "coherent M {f} ?b" if "coherent M {} b" for M
    unfolding coherent_def used
  proof
    fix g assume g: "g \<in> used {} b - {f}"
    have "pg_id (frame b g) \<noteq> pg_id (frame b f)" using used_inj [OF inv, of g f] g f(1) by auto
    moreover have "0 \<le> pg_id (frame b g)" "pg_id (frame b g) < next_page_id b"
      using bpm_invD(8) [OF inv, of g] g by (simp_all add: page_ok_def)
    moreover have "synced M (disk_image (disk_mgr b)) (frame b g)"
      using that g by (simp add: coherent_def)
    ultimately show "synced M (disk_image (disk_mgr ?b)) (frame ?b g)"
      unfolding nth_used [OF g] using d(3) [of "pg_id (frame b g)"] cap by (simp add: synced_def)
  qed
  have cont: "content ?b p = content b p" if c: "coherent M {} b" and p: "0 \<le> p" "p < next_page_id b" for M p
  proof (cases "resident b p")
    case None
    moreover from None have "p \<noteq> pg_id (frame b f)" using residentI [OF inv f(1)] by auto
    ultimately show ?thesis using d(3) [OF p(1) cap [OF p(2)]] by (simp add: content_def res)
  next
    case (Some g)
    note g = residentD [OF inv Some]
    show ?thesis
    proof (cases "g = f")
      case True
      have "synced M (disk_image (disk_mgr b)) (frame b f)" using c f(1) by (simp add: coherent_def)
      with f(2) have "\<not> is_dirty (frame b f) \<longrightarrow> pg_data (frame b f) = disk_image (disk_mgr b) (pg_id (frame b f))"
        by (simp add: synced_def)
      then show ?thesis using d(3) [OF p(1) cap [OF p(2)]] Some True g(3) by (simp add: content_def res)
    next
      case False
      then show ?thesis using Some nth [OF g(2)] by (simp add: content_def res)
    qed
  qed
  have "disk_image d p = disk_image (disk_mgr b) p"
    if "resident b p = None" "0 \<le> p" "p < disk_capacity (disk_mgr b)" for p
  proof -
    have "p \<noteq> pg_id (frame b f)" using residentI [OF inv f(1)] that(1) by auto
    then show ?thesis using d(3) [OF that(2,3)] by simp
  qed
  then show ?thesis
    unfolding taken_def using binv fr ffree f(2) nth [OF fr] nth res coh cont d(2)
    by (simp add: ResetMemory_def)
qed

lemma take_frame_spec:
  assumes inv: "bpm_inv {} b" and free: "is_free_page b"
  obtains f b' where "take_frame b = Inr (f, b')" and "taken b f b'"
proof (cases "free_list b")
  case (Cons f fs)
  then show ?thesis using that take_frame_free [OF inv Cons] by (simp add: take_frame_def)
next
  case Nil
  obtain f r where r: "LRUKReplacer_Evict (rep b) = Inr (Some f, r)" "f \<in> lruk_evictable (rep b)"
      "lruk_inv (pool_size b) r" "lruk_tracked r = lruk_tracked (rep b) - {f}"
      "lruk_evictable r = lruk_evictable (rep b) - {f}"
    using lruk.evict_law [of "pool_size b" "rep b"] evictable_exists [OF inv free Nil] bpm_invD(2) [OF inv]
    by (auto simp: rep_ok_def)
  have f: "f \<in> used {} b" "pin_count (frame b f) = 0"
    using r(2) bpm_invD(2) [OF inv] by (simp_all add: rep_ok_def)
  obtain d where d: "(if is_dirty (frame b f) then WritePage (pg_id (frame b f)) (pg_data (frame b f)) (disk_mgr b)
      else Inr (disk_mgr b)) = Inr d"
    "disk_inv d" "disk_capacity d = disk_capacity (disk_mgr b)"
    "\<forall>q. 0 \<le> q \<longrightarrow> q < disk_capacity (disk_mgr b) \<longrightarrow> disk_image d q =
      (if is_dirty (frame b f) \<and> q = pg_id (frame b f) then pg_data (frame b f) else disk_image (disk_mgr b) q)"
    by (rule write_back [OF inv f(1)])
  obtain t where t: "ExtendibleHashTable_Remove std_hash_int (pg_id (frame b f)) (ptable b) =
      Inr (resident b (pg_id (frame b f)) \<noteq> None, t)" "page_table_inv t"
      "eht_map std_hash_int t = (resident b)(pg_id (frame b f) := None)"
    using eht.remove_law [OF bpm_invD(5) [OF inv]] by blast
  show ?thesis
    using that [OF _ evicted_taken [OF inv f d(2,3) d(4) [rule_format] t(2,3) r(3-5)]] Nil
    by (simp add: take_frame_def evict_frame_def r(1) page_at_frame [OF bpm_invD(1) [OF inv] used_frames [OF f(1)]] d(1) t(1))
qed

section \<open>Installing a page\<close>

lemma install:
  assumes inv: "bpm_inv {f} b" and f: "f \<in> frames b" "f \<notin> set (free_list b)"
    and q: "page_ok (next_page_id b) q" "0 < pin_count q" and new: "resident b (pg_id q) = None"
    and t: "page_table_inv t" "eht_map std_hash_int t = (resident b)(pg_id q \<mapsto> f)"
    and r: "lruk_inv (pool_size b) r" "lruk_tracked r = insert f (lruk_tracked (rep b))"
      "lruk_evictable r = lruk_evictable (rep b) - {f}"
    and b': "pool_size b' = pool_size b" "next_page_id b' = next_page_id b" "pages b' = (pages b)[nat f := q]"
      "disk_mgr b' = disk_mgr b" "ptable b' = t" "rep b' = r" "free_list b' = free_list b"
  shows "bpm_inv {} b'"
    and "coherent M {f} b \<Longrightarrow> synced M (disk_image (disk_mgr b)) q \<Longrightarrow> coherent M {} b'"
    and "content b' p = (if p = pg_id q then pg_data q else content b p)"
    and "g \<in> frames b \<Longrightarrow> frame b' g = (if g = f then q else frame b g)"
proof -
  show nth: "frame b' g = (if g = f then q else frame b g)" if "g \<in> frames b" for g
    unfolding b'(3) by (rule frame_update [OF f(1) that bpm_invD(7) [OF inv]])
  have used: "used {} b' = insert f (used {f} b)" using f by (auto simp: used_def b'(1,7))
  have fnew: "f \<notin> used {f} b" by (simp add: used_def)
  have ff: "frame b' f = q" using nth [OF f(1)] by simp
  have nth_used: "frame b' g = frame b g" if "g \<in> used {f} b" for g
    using nth [OF used_frames [OF that]] that fnew by auto
  have "free_ok {} b'"
  proof -
    have "frame b' g = Page_init" if "g \<in> set (free_list b)" for g
    proof -
      have "g \<in> frames b" "frame b g = Page_init" "g \<noteq> f"
        using bpm_invD(1) [OF inv] that by (auto simp: free_ok_def)
      then show ?thesis using nth by simp
    qed
    then show ?thesis using bpm_invD(1) [OF inv] by (auto simp: free_ok_def b')
  qed
  moreover have "rep_ok {} b'"
  proof -
    have "{g \<in> used {} b'. pin_count (frame b' g) = 0} = {g \<in> used {f} b. pin_count (frame b g) = 0}"
      using nth_used ff q(2) by (auto simp: used)
    moreover have "lruk_evictable r = {g \<in> used {f} b. pin_count (frame b g) = 0}"
      using bpm_invD(2) [OF inv] fnew by (auto simp: rep_ok_def r(3))
    moreover have "lruk_tracked r = used {} b'"
      using bpm_invD(2) [OF inv] by (simp add: rep_ok_def r(2) used)
    ultimately show ?thesis by (simp add: rep_ok_def b'(1,6) r(1))
  qed
  moreover have "table_ok {} b'"
    unfolding table_ok_def
  proof (intro conjI allI)
    show "page_table_inv (ptable b')" by (simp add: b'(5) t(1))
    fix p g
    show "resident b' p = Some g \<longleftrightarrow> g \<in> used {} b' \<and> pg_id (frame b' g) = p"
    proof (cases "g = f")
      case True
      have "resident b p \<noteq> Some f" using residentD(1) [OF inv, of p f] fnew by blast
      then show ?thesis using True ff by (auto simp: b'(5) t(2) used)
    next
      case False
      have "resident b p = Some g \<longleftrightarrow> g \<in> used {f} b \<and> pg_id (frame b g) = p"
        using bpm_invD(3) [OF inv] by (simp add: table_ok_def)
      then show ?thesis using False nth_used [of g] new by (auto simp: b'(5) t(2) used)
    qed
  qed
  moreover have "disk_ok b'" using bpm_invD(4) [OF inv] by (simp add: disk_ok_def b')
  moreover have "\<forall>g \<in> used {} b'. page_ok (next_page_id b') (frame b' g)"
    unfolding used b'(2) using bpm_invD(8) [OF inv] nth_used ff q(1) by simp
  ultimately show "bpm_inv {} b'" by (simp add: bpm_inv_def)
  show "coherent M {} b'" if "coherent M {f} b" "synced M (disk_image (disk_mgr b)) q"
    using that nth_used ff by (simp add: coherent_def used b'(4))
  show "content b' p = (if p = pg_id q then pg_data q else content b p)"
  proof (cases "p = pg_id q")
    case True
    then show ?thesis using ff by (simp add: content_def b'(5) t(2))
  next
    case False
    then show ?thesis
      using nth_used residentD(1) [OF inv, of p]
      by (simp add: content_def b'(4,5) t(2) split: option.split)
  qed
qed

lemma record_pin_spec:
  assumes "lruk_inv (pool_size b) (rep b)" and "f \<in> frames b"
  obtains r where "record_pin f b = Inr (b\<lparr>rep := r\<rparr>)" and "lruk_inv (pool_size b) r"
    and "lruk_tracked r = insert f (lruk_tracked (rep b))" and "lruk_evictable r = lruk_evictable (rep b) - {f}"
proof (rule lruk.pin_law [OF assms(1) frame_int_le [OF assms(2)]])
  fix r
  assume "bind_result (LRUKReplacer_RecordAccess f (rep b)) (LRUKReplacer_SetEvictable f False) = Inr r"
    "lruk_inv (pool_size b) r" "lruk_tracked r = insert f (lruk_tracked (rep b))"
    "lruk_evictable r = lruk_evictable (rep b) - {f}"
  then show ?thesis by (intro that [of r]) (simp_all add: record_pin_def)
qed

text \<open>
  \<open>loaded b f q b'\<close>: the formerly unpinned frame \<open>f\<close> now holds the page \<open>q\<close>, and every other frame
  and every other page is as before.
\<close>

definition loaded :: "bpm \<Rightarrow> frame_id_t \<Rightarrow> page \<Rightarrow> bpm \<Rightarrow> bool" where
  "loaded b f q b' \<longleftrightarrow> bpm_inv {} b' \<and> f \<in> frames b \<and> pin_count (frame b f) = 0 \<and>
     pool_size b' = pool_size b \<and> next_page_id b' = next_page_id b \<and>
     (\<forall>g \<in> frames b. frame b' g = (if g = f then q else frame b g)) \<and>
     disk_capacity (disk_mgr b') = disk_capacity (disk_mgr b) \<and>
     (\<forall>p. resident b' p = (if p = pg_id q then Some f else if resident b p = Some f then None else resident b p)) \<and>
     (\<forall>p. resident b p = None \<and> 0 \<le> p \<and> p < disk_capacity (disk_mgr b) \<longrightarrow>
        disk_image (disk_mgr b') p = disk_image (disk_mgr b) p) \<and>
     (\<forall>M. coherent M {} b \<and> synced M (disk_image (disk_mgr b')) q \<longrightarrow> coherent M {} b' \<and>
        (\<forall>p. 0 \<le> p \<and> p < next_page_id b \<longrightarrow> content b' p = (if p = pg_id q then pg_data q else content b p)))"

lemma takenD:
  assumes "taken b f b'"
  shows "bpm_inv {f} b'" "f \<in> frames b" "f \<notin> set (free_list b')" "pool_size b' = pool_size b"
    "next_page_id b' = next_page_id b" "pin_count (frame b f) = 0" "pg_data (frame b' f) = zero_page"
    "\<not> is_dirty (frame b' f)" "g \<in> frames b \<Longrightarrow> g \<noteq> f \<Longrightarrow> frame b' g = frame b g"
    "resident b p = None \<Longrightarrow> resident b' p = None" "disk_capacity (disk_mgr b') = disk_capacity (disk_mgr b)"
    "resident b p = None \<Longrightarrow> 0 \<le> p \<Longrightarrow> p < disk_capacity (disk_mgr b) \<Longrightarrow>
      disk_image (disk_mgr b') p = disk_image (disk_mgr b) p"
    "coherent M {} b \<Longrightarrow> coherent M {f} b'"
    "coherent M {} b \<Longrightarrow> 0 \<le> p \<Longrightarrow> p < next_page_id b \<Longrightarrow> content b' p = content b p"
    "resident b' p = (if resident b p = Some f then None else resident b p)"
  using assms by (simp_all add: taken_def)

lemma load_page:
  assumes inv: "bpm_inv {} b" and tk: "taken b f b1" and new: "resident b p = None"
    and q: "page_ok (next_page_id b) q" "0 < pin_count q" and p: "pg_id q = p"
  obtains t b' where "ExtendibleHashTable_Insert std_hash_int p f (ptable b1) = Inr t"
    and "record_pin f (set_page f q (b1\<lparr>ptable := t\<rparr>)) = Inr b'" and "loaded b f q b'"
    and "disk_mgr b' = disk_mgr b1"
proof -
  note tk' = takenD [OF tk]
  have f: "f \<in> frames b1" using tk'(2,4) by simp
  have "0 \<le> pg_id q" "pg_id q < 2 ^ 30"
    using q(1) bpm_invD(4) [OF inv] by (simp_all add: page_ok_def disk_ok_def)
  then obtain t where t: "ExtendibleHashTable_Insert std_hash_int (pg_id q) f (ptable b1) = Inr t" "page_table_inv t"
      "eht_map std_hash_int t = (resident b1)(pg_id q \<mapsto> f)"
    using eht.insert_law [OF bpm_invD(5) [OF tk'(1)] resident_keys [OF tk'(1)]] by blast
  let ?b = "set_page f q (b1\<lparr>ptable := t\<rparr>)"
  obtain r where r: "record_pin f ?b = Inr (?b\<lparr>rep := r\<rparr>)" "lruk_inv (pool_size ?b) r"
      "lruk_tracked r = insert f (lruk_tracked (rep ?b))" "lruk_evictable r = lruk_evictable (rep ?b) - {f}"
    using record_pin_spec [of ?b f] f bpm_invD(2) [OF tk'(1)] by (auto simp: rep_ok_def)
  have q': "page_ok (next_page_id b1) q" using q(1) tk'(5) by simp
  have new': "resident b1 (pg_id q) = None" using tk'(10) [OF new] p by simp
  note ins = install [OF tk'(1) f tk'(3) q' q(2) new' t(2,3), where b' = "?b\<lparr>rep := r\<rparr>" and r = r]
  have "loaded b f q (?b\<lparr>rep := r\<rparr>)"
    unfolding loaded_def
  proof (intro conjI allI impI ballI)
    show "bpm_inv {} (?b\<lparr>rep := r\<rparr>)" using ins(1) r(2-4) by simp
    show "frame (?b\<lparr>rep := r\<rparr>) g = (if g = f then q else frame b g)" if "g \<in> frames b" for g
      using ins(4) [of g] r(2-4) that tk'(4,9) by simp
    show "resident (?b\<lparr>rep := r\<rparr>) p = (if p = pg_id q then Some f else if resident b p = Some f then None else resident b p)" for p
      using tk'(15) [of p] by (simp add: t(3))
    fix M assume *: "coherent M {} b \<and> synced M (disk_image (disk_mgr (?b\<lparr>rep := r\<rparr>))) q"
    then show "coherent M {} (?b\<lparr>rep := r\<rparr>)" using ins(2) [of M] r(2-4) tk'(13) [of M] by simp
    show "content (?b\<lparr>rep := r\<rparr>) p = (if p = pg_id q then pg_data q else content b p)"
      if "0 \<le> p \<and> p < next_page_id b" for p
      using ins(3) [of p] r(2-4) tk'(14) [of M p] * that by simp
  qed (use tk' in simp_all)
  with t(1) r(1) p show ?thesis by (intro that [of t "?b\<lparr>rep := r\<rparr>"]) simp_all
qed

section \<open>New pages\<close>

lemma alloc_inv:
  assumes inv: "bpm_inv {} b" and n: "next_page_id b < disk_capacity (disk_mgr b)" "next_page_id b < 2 ^ 30"
  shows "bpm_inv {} (b\<lparr>next_page_id := next_page_id b + 1\<rparr>)"
    and "coherent M {} (b\<lparr>next_page_id := next_page_id b + 1\<rparr>) \<longleftrightarrow> coherent M {} b"
    and "content (b\<lparr>next_page_id := next_page_id b + 1\<rparr>) p = content b p"
    and "AllocatePage b = (next_page_id b, b\<lparr>next_page_id := next_page_id b + 1\<rparr>)"
proof -
  have used: "used {} (b\<lparr>next_page_id := next_page_id b + 1\<rparr>) = used {} b" by (simp add: used_def)
  have "page_ok (next_page_id b + 1) (frame b f)" if "f \<in> used {} b" for f
    using bpm_invD(8) [OF inv that] by (simp add: page_ok_def)
  then show "bpm_inv {} (b\<lparr>next_page_id := next_page_id b + 1\<rparr>)"
    using inv n by (simp add: bpm_inv_def free_ok_def rep_ok_def table_ok_def disk_ok_def used)
  show "coherent M {} (b\<lparr>next_page_id := next_page_id b + 1\<rparr>) \<longleftrightarrow> coherent M {} b"
    by (simp add: coherent_def used)
  show "content (b\<lparr>next_page_id := next_page_id b + 1\<rparr>) p = content b p"
    by (simp add: content_def split: option.split)
  show "AllocatePage b = (next_page_id b, b\<lparr>next_page_id := next_page_id b + 1\<rparr>)"
    using n(2) bpm_invD(4) [OF inv] by (simp add: AllocatePage_def wrap32_id disk_ok_def)
qed

lemma NewPgImp_full: "\<not> is_free_page b \<Longrightarrow> NewPgImp b = Inr (None, b)"
  by (simp add: NewPgImp_def)

lemma is_free_page_next [simp]: "is_free_page (b\<lparr>next_page_id := n\<rparr>) = is_free_page b"
  by (simp add: is_free_page_def)

lemma NewPgImp_spec:
  assumes inv: "bpm_inv {} b" and n: "next_page_id b < disk_capacity (disk_mgr b)" "next_page_id b < 2 ^ 30"
    and free: "is_free_page b"
  obtains f b' where "NewPgImp b = Inr (Some (next_page_id b, f), b')"
    and "loaded (b\<lparr>next_page_id := next_page_id b + 1\<rparr>) f
      \<lparr>pg_data = zero_page, pg_id = next_page_id b, pin_count = 1, is_dirty = False\<rparr> b'"
proof -
  let ?b = "b\<lparr>next_page_id := next_page_id b + 1\<rparr>"
  let ?q = "\<lparr>pg_data = zero_page, pg_id = next_page_id b, pin_count = 1, is_dirty = False\<rparr>"
  have inv': "bpm_inv {} ?b" by (rule alloc_inv(1) [OF inv n])
  obtain f b1 where tf: "take_frame ?b = Inr (f, b1)" and tk: "taken ?b f b1"
    using take_frame_spec [OF inv'] free by auto
  have new: "resident ?b (next_page_id b) = None"
    using residentD(6) [OF inv, of "next_page_id b"] by (cases "resident b (next_page_id b)") auto
  have q: "page_ok (next_page_id ?b) ?q" using bpm_invD(4) [OF inv] by (simp add: page_ok_def disk_ok_def)
  obtain t b' where t: "ExtendibleHashTable_Insert std_hash_int (next_page_id b) f (ptable b1) = Inr t"
      "record_pin f (set_page f ?q (b1\<lparr>ptable := t\<rparr>)) = Inr b'" "loaded ?b f ?q b'"
    using load_page [OF inv' tk new q] by (metis page.select_convs(2,3) zero_less_one)
  have at: "page_at f b1 = Inr (frame b1 f)"
    using page_at_frame [OF bpm_invD(1) [OF takenD(1) [OF tk]]] takenD(2,4) [OF tk] by simp
  have "(frame b1 f)\<lparr>pg_id := next_page_id b, pin_count := 1\<rparr> = ?q"
    using takenD(7,8) [OF tk] by (cases "frame b1 f") simp
  then have "NewPgImp b = Inr (Some (next_page_id b, f), b')"
    using free tf t(1,2) at by (simp add: NewPgImp_def alloc_inv(4) [OF inv n])
  with t(3) show ?thesis using that by blast
qed

section \<open>Fetching\<close>

lemma FetchPgImp_miss:
  assumes inv: "bpm_inv {} b" and p: "0 \<le> p" "p < next_page_id b" and free: "is_free_page b"
    and miss: "resident b p = None"
  obtains f b' where "FetchPgImp p b = Inr (Some f, b')"
    and "loaded b f \<lparr>pg_data = disk_image (disk_mgr b') p, pg_id = p, pin_count = 1, is_dirty = False\<rparr> b'"
proof -
  obtain f b1 where tf: "take_frame b = Inr (f, b1)" and tk: "taken b f b1"
    using take_frame_spec [OF inv free] by blast
  note tk' = takenD [OF tk]
  let ?q = "\<lparr>pg_data = disk_image (disk_mgr b1) p, pg_id = p, pin_count = 1, is_dirty = False\<rparr>"
  have cap: "p < disk_capacity (disk_mgr b1)"
    using p(2) bpm_invD(4) [OF inv] tk'(11) by (simp add: disk_ok_def)
  have dinv: "disk_inv (disk_mgr b1)" by (rule bpm_invD(6) [OF tk'(1)])
  have q: "page_ok (next_page_id b) ?q" using p dm.image_length [OF dinv p(1) cap] by (simp add: page_ok_def)
  obtain t b' where t: "ExtendibleHashTable_Insert std_hash_int p f (ptable b1) = Inr t"
      "record_pin f (set_page f ?q (b1\<lparr>ptable := t\<rparr>)) = Inr b'" "loaded b f ?q b'" "disk_mgr b' = disk_mgr b1"
    using load_page [OF inv tk miss q] by (metis page.select_convs(2,3) zero_less_one)
  have at: "page_at f b1 = Inr (frame b1 f)"
    using page_at_frame [OF bpm_invD(1) [OF tk'(1)]] tk'(2,4) by simp
  have "(frame b1 f)\<lparr>pg_id := p, pin_count := 1, pg_data := disk_image (disk_mgr b1) p\<rparr> = ?q"
    using tk'(8) by (cases "frame b1 f") simp
  moreover have "b1\<lparr>ptable := t, disk_mgr := disk_mgr b1\<rparr> = b1\<lparr>ptable := t\<rparr>" by simp
  ultimately have "FetchPgImp p b = Inr (Some f, b')"
    using free tf t(1,2) at miss dm.read_law [OF dinv p(1) cap] tk'(7)
    by (simp add: FetchPgImp_def eht.find_law [OF bpm_invD(5) [OF inv]])
  with t(3,4) show ?thesis using that [of f b'] by simp
qed

section \<open>Changing a resident page in place\<close>

lemma touch:
  assumes inv: "bpm_inv {} b" and f: "f \<in> used {} b"
    and q: "page_ok (next_page_id b) q" "pg_id q = pg_id (frame b f)"
    and r: "lruk_inv (pool_size b) r" "lruk_tracked r = lruk_tracked (rep b)"
      "lruk_evictable r = (if pin_count q = 0 then insert f (lruk_evictable (rep b)) else lruk_evictable (rep b) - {f})"
  defines "b' \<equiv> (set_page f q b)\<lparr>rep := r\<rparr>"
  shows "bpm_inv {} b'"
    and "coherent M {} b \<Longrightarrow> M - {pg_id q} = N - {pg_id q} \<Longrightarrow> synced N (disk_image (disk_mgr b)) q \<Longrightarrow> coherent N {} b'"
    and "content b' p = (if p = pg_id q then pg_data q else content b p)"
    and "g \<in> frames b \<Longrightarrow> frame b' g = (if g = f then q else frame b g)"
proof -
  have fr: "f \<in> frames b" by (rule used_frames [OF f])
  show nth: "frame b' g = (if g = f then q else frame b g)" if "g \<in> frames b" for g
    using frame_update [OF fr that bpm_invD(7) [OF inv]] by (simp add: b'_def)
  have used: "used {} b' = used {} b" by (simp add: used_def b'_def)
  have nth_used: "frame b' g = (if g = f then q else frame b g)" if "g \<in> used {} b" for g
    by (rule nth [OF used_frames [OF that]])
  have sel: "resident b' = resident b" "disk_mgr b' = disk_mgr b" "next_page_id b' = next_page_id b"
    "ptable b' = ptable b" by (simp_all add: b'_def)
  have "free_ok {} b'"
  proof -
    have "frame b' g = Page_init" if "g \<in> set (free_list b)" for g
    proof -
      have "g \<in> frames b" "frame b g = Page_init" "g \<noteq> f"
        using bpm_invD(1) [OF inv] that f by (auto simp: free_ok_def used_def)
      then show ?thesis using nth by simp
    qed
    then show ?thesis using bpm_invD(1) [OF inv] by (simp add: free_ok_def) (simp add: b'_def)
  qed
  moreover have "rep_ok {} b'"
  proof -
    have "{g \<in> used {} b. pin_count (frame b' g) = 0} =
        (if pin_count q = 0 then insert f {g \<in> used {} b. pin_count (frame b g) = 0}
         else {g \<in> used {} b. pin_count (frame b g) = 0} - {f})"
      using nth_used f by (auto split: if_splits)
    then show ?thesis
      using bpm_invD(2) [OF inv] r by (simp add: rep_ok_def used) (simp add: b'_def)
  qed
  moreover have "table_ok {} b'"
    unfolding table_ok_def sel used
  proof (intro conjI allI)
    show "page_table_inv (ptable b)" by (rule bpm_invD(5) [OF inv])
    fix p g
    have "g \<in> used {} b \<longrightarrow> pg_id (frame b' g) = pg_id (frame b g)" using nth_used [of g] q(2) by simp
    moreover have "resident b p = Some g \<longleftrightarrow> g \<in> used {} b \<and> pg_id (frame b g) = p"
      using bpm_invD(3) [OF inv] unfolding table_ok_def by blast
    ultimately show "resident b p = Some g \<longleftrightarrow> g \<in> used {} b \<and> pg_id (frame b' g) = p" by metis
  qed
  moreover have "disk_ok b'" using bpm_invD(4) [OF inv] by (simp add: disk_ok_def b'_def)
  moreover have "\<forall>g \<in> used {} b'. page_ok (next_page_id b') (frame b' g)"
    unfolding used sel using bpm_invD(8) [OF inv] nth_used q(1) by simp
  ultimately show "bpm_inv {} b'" by (simp add: bpm_inv_def)
  show "coherent N {} b'" if c: "coherent M {} b" and MN: "M - {pg_id q} = N - {pg_id q}"
      and s: "synced N (disk_image (disk_mgr b)) q"
    unfolding coherent_def used sel
  proof
    fix g assume g: "g \<in> used {} b"
    show "synced N (disk_image (disk_mgr b)) (frame b' g)"
    proof (cases "g = f")
      case True
      with s nth_used [OF g] show ?thesis by simp
    next
      case False
      then have "pg_id (frame b g) \<noteq> pg_id q" using used_inj [OF inv g f] q(2) by auto
      then have "pg_id (frame b g) \<in> M \<longleftrightarrow> pg_id (frame b g) \<in> N" using MN by blast
      with c g False nth_used [OF g] show ?thesis by (simp add: coherent_def synced_def)
    qed
  qed
  show "content b' p = (if p = pg_id q then pg_data q else content b p)"
  proof (cases "resident b p")
    case None
    then have "p \<noteq> pg_id q" using residentI [OF inv f] q(2) by auto
    with None show ?thesis by (simp add: content_def sel)
  next
    case (Some g)
    note g = residentD [OF inv Some]
    have "g = f \<longleftrightarrow> p = pg_id q" using used_inj [OF inv g(1) f] g(3) q(2) by metis
    with Some nth_used [OF g(1)] show ?thesis by (simp add: content_def sel)
  qed
qed

lemma FetchPgImp_hit:
  assumes inv: "bpm_inv {} b" and res: "resident b p = Some f" and pins: "pin_count (frame b f) < 2 ^ 31 - 1"
  defines "q \<equiv> (frame b f)\<lparr>pin_count := pin_count (frame b f) + 1\<rparr>"
  obtains b' where "FetchPgImp p b = Inr (Some f, b')" and "bpm_inv {} b'"
    and "\<And>M. coherent M {} b \<Longrightarrow> coherent M {} b'" and "content b' = content b"
    and "\<And>g. g \<in> frames b \<Longrightarrow> frame b' g = (if g = f then q else frame b g)"
    and "disk_mgr b' = disk_mgr b" and "next_page_id b' = next_page_id b" and "pool_size b' = pool_size b"
    and "resident b' = resident b"
proof -
  note f = residentD [OF inv res]
  have q: "page_ok (next_page_id b) q" "pg_id q = pg_id (frame b f)" "pin_count q \<noteq> 0"
    using f(7) by (simp_all add: page_ok_def q_def)
  obtain r where r: "record_pin f (set_page f q b) = Inr ((set_page f q b)\<lparr>rep := r\<rparr>)"
      "lruk_inv (pool_size b) r" "lruk_tracked r = insert f (lruk_tracked (rep b))"
      "lruk_evictable r = lruk_evictable (rep b) - {f}"
    using record_pin_spec [of "set_page f q b" f] f(2) bpm_invD(2) [OF inv] by (auto simp: rep_ok_def)
  have "lruk_tracked r = lruk_tracked (rep b)"
    using r(3) f(1) bpm_invD(2) [OF inv] by (auto simp: rep_ok_def)
  note t = touch [OF inv f(1) q(1,2) r(2) this, simplified q(3) if_False, OF r(4)]
  have sync: "synced M (disk_image (disk_mgr b)) q" if "coherent M {} b" for M
  proof -
    have "synced M (disk_image (disk_mgr b)) (frame b f)" using that f(1) by (simp add: coherent_def)
    then show ?thesis using f(7) by (auto simp: synced_def q_def page_ok_def)
  qed
  have "content ((set_page f q b)\<lparr>rep := r\<rparr>) = content b"
    using t(3) res f(3) by (auto simp: fun_eq_iff q_def content_def)
  moreover have "FetchPgImp p b = Inr (Some f, (set_page f q b)\<lparr>rep := r\<rparr>)"
    using res pins f(4) r(1) by (simp add: FetchPgImp_def eht.find_law [OF bpm_invD(5) [OF inv]] q_def)
  ultimately show ?thesis
    using t(1) t(2) [OF _ refl sync] t(4) by (intro that [of "(set_page f q b)\<lparr>rep := r\<rparr>"]) simp_all
qed

section \<open>Unpinning\<close>

lemma UnpinPgImp_false:
  assumes inv: "bpm_inv {} b" and "\<And>f. resident b p = Some f \<Longrightarrow> pin_count (frame b f) = 0"
  shows "UnpinPgImp p dirty b = Inr (False, b)"
proof (cases "resident b p")
  case None
  then show ?thesis by (simp add: UnpinPgImp_def eht.find_law [OF bpm_invD(5) [OF inv]])
next
  case (Some f)
  then show ?thesis
    using assms(2) [OF Some] residentD(4) [OF inv Some]
    by (simp add: UnpinPgImp_def eht.find_law [OF bpm_invD(5) [OF inv]])
qed

text \<open>The replacer after the pin count of a used frame has dropped to \<open>n\<close>.\<close>

lemma release_rep:
  assumes inv: "bpm_inv {} b" and f: "f \<in> used {} b" and pin: "pin_count (frame b f) \<noteq> 0"
  obtains r where "(if n = (0 :: int) then LRUKReplacer_SetEvictable f True (rep b) else Inr (rep b)) = Inr r"
    and "lruk_inv (pool_size b) r" and "lruk_tracked r = lruk_tracked (rep b)"
    and "lruk_evictable r = (if n = 0 then insert f (lruk_evictable (rep b)) else lruk_evictable (rep b) - {f})"
proof (cases "n = 0")
  case True
  have "lruk_inv (pool_size b) (rep b)" "f \<in> lruk_tracked (rep b)"
    using bpm_invD(2) [OF inv] f by (simp_all add: rep_ok_def)
  from lruk.set_evictable_law [OF this(1) frame_int_le [OF used_frames [OF f]] this(2), of True] True that
  show ?thesis by auto
next
  case False
  then show ?thesis using that [of "rep b"] bpm_invD(2) [OF inv] pin by (auto simp: rep_ok_def)
qed

lemma UnpinPgImp_true:
  fixes dirty :: bool
  assumes inv: "bpm_inv {} b" and res: "resident b p = Some f" and pins: "0 < pin_count (frame b f)"
  defines "q \<equiv> (frame b f)\<lparr>is_dirty := dirty \<or> is_dirty (frame b f), pin_count := pin_count (frame b f) - 1\<rparr>"
  obtains b' where "UnpinPgImp p dirty b = Inr (True, b')" and "bpm_inv {} b'"
    and "\<And>M. coherent M {} b \<Longrightarrow> dirty \<or> p \<notin> M \<or> 1 < pin_count (frame b f) \<Longrightarrow>
      coherent (if dirty then M - {p} else M) {} b'"
    and "content b' = content b"
    and "\<And>g. g \<in> frames b \<Longrightarrow> frame b' g = (if g = f then q else frame b g)"
    and "disk_mgr b' = disk_mgr b" and "next_page_id b' = next_page_id b" and "pool_size b' = pool_size b"
    and "resident b' = resident b"
proof -
  note f = residentD [OF inv res]
  have q: "page_ok (next_page_id b) q" "pg_id q = pg_id (frame b f)"
    using f(7) pins by (simp_all add: page_ok_def q_def)
  have qid: "pg_id q = p" using q(2) f(3) by simp
  obtain r where r: "(if pin_count q = 0 then LRUKReplacer_SetEvictable f True (rep b) else Inr (rep b)) = Inr r"
      "lruk_inv (pool_size b) r" "lruk_tracked r = lruk_tracked (rep b)"
      "lruk_evictable r = (if pin_count q = 0 then insert f (lruk_evictable (rep b)) else lruk_evictable (rep b) - {f})"
    by (rule release_rep [OF inv f(1), of "pin_count q"]) (use pins in auto)
  note t = touch [OF inv f(1) q r(2-4)]
  let ?b = "(set_page f q b)\<lparr>rep := r\<rparr>"
  have coh: "coherent (if dirty then M - {p} else M) {} ?b"
    if c: "coherent M {} b" and d: "dirty \<or> p \<notin> M \<or> 1 < pin_count (frame b f)" for M
  proof (rule t(2) [OF c])
    show "M - {pg_id q} = (if dirty then M - {p} else M) - {pg_id q}" by (simp add: qid)
    have "synced M (disk_image (disk_mgr b)) (frame b f)" using c f(1) by (simp add: coherent_def)
    then show "synced (if dirty then M - {p} else M) (disk_image (disk_mgr b)) q"
      using d f(3) pins by (auto simp: synced_def q_def)
  qed
  have "content ?b = content b"
    using t(3) res qid by (auto simp: fun_eq_iff q_def content_def)
  moreover have "UnpinPgImp p dirty b = Inr (True, ?b)"
  proof -
    have eq: "(if dirty then (frame b f)\<lparr>is_dirty := dirty\<rparr> else frame b f)
        \<lparr>pin_count := pin_count (if dirty then (frame b f)\<lparr>is_dirty := dirty\<rparr> else frame b f) - 1\<rparr> = q"
      by (cases "frame b f") (simp add: q_def)
    have pos: "(pin_count (frame b f) \<le> 0) = False" using pins by simp
    have "UnpinPgImp p dirty b =
        (if pin_count q = 0
         then bind_result (LRUKReplacer_SetEvictable f True (rep (set_page f q b)))
           (\<lambda>r. Inr (True, (set_page f q b)\<lparr>rep := r\<rparr>))
         else Inr (True, set_page f q b))"
      unfolding UnpinPgImp_def eht.find_law [OF bpm_invD(5) [OF inv]] res
      by (simp only: bind_result_simps option.case f(4) Let_def eq pos if_False)
    then show ?thesis using r(1) by (auto simp: set_page_def split: if_splits)
  qed
  ultimately show ?thesis using t(1) coh t(4) by (intro that [of ?b]) simp_all
qed

section \<open>Flushing\<close>

lemma FlushPgImp_miss:
  "bpm_inv {} b \<Longrightarrow> resident b p = None \<Longrightarrow> FlushPgImp p b = Inr (False, b)"
  by (simp add: FlushPgImp_def eht.find_law [OF bpm_invD(5)])

lemma FlushPgImp_hit:
  assumes inv: "bpm_inv {} b" and res: "resident b p = Some f"
  obtains d where "FlushPgImp p b = Inr (True, b\<lparr>disk_mgr := d\<rparr>)" and "bpm_inv {} (b\<lparr>disk_mgr := d\<rparr>)"
    and "disk_capacity d = disk_capacity (disk_mgr b)"
    and "\<And>q. 0 \<le> q \<Longrightarrow> q < disk_capacity (disk_mgr b) \<Longrightarrow>
      disk_image d q = (if q = p then pg_data (frame b f) else disk_image (disk_mgr b) q)"
    and "\<And>M. coherent M {} b \<Longrightarrow> coherent M {} (b\<lparr>disk_mgr := d\<rparr>)"
    and "\<And>q. 0 \<le> q \<Longrightarrow> q < next_page_id b \<Longrightarrow> content (b\<lparr>disk_mgr := d\<rparr>) q = content b q"
proof -
  note f = residentD [OF inv res]
  have cap: "q < disk_capacity (disk_mgr b)" if "q < next_page_id b" for q
    using bpm_invD(4) [OF inv] that by (simp add: disk_ok_def)
  obtain d where d: "WritePage p (pg_data (frame b f)) (disk_mgr b) = Inr d" "disk_inv d"
      "disk_capacity d = disk_capacity (disk_mgr b)"
      "\<forall>q. 0 \<le> q \<longrightarrow> q < disk_capacity (disk_mgr b) \<longrightarrow>
        disk_image d q = (if q = p then pg_data (frame b f) else disk_image (disk_mgr b) q)"
    using dm.write_law [OF bpm_invD(6) [OF inv] f(5) cap [OF f(6)]] f(7) by (auto simp: page_ok_def)
  let ?b = "b\<lparr>disk_mgr := d\<rparr>"
  have used: "used {} ?b = used {} b" by (simp add: used_def)
  have "p \<noteq> INVALID_PAGE_ID" using f(5) by (simp add: INVALID_PAGE_ID_def)
  then have "FlushPgImp p b = Inr (True, ?b)"
    using res f(4) d(1) by (simp add: FlushPgImp_def eht.find_law [OF bpm_invD(5) [OF inv]])
  moreover have "bpm_inv {} ?b"
    using inv d(2,3) by (simp add: bpm_inv_def free_ok_def rep_ok_def table_ok_def disk_ok_def used)
  moreover have "coherent M {} ?b" if c: "coherent M {} b" for M
    unfolding coherent_def used
  proof
    fix g assume g: "g \<in> used {} b"
    have "0 \<le> pg_id (frame b g)" "pg_id (frame b g) < next_page_id b"
      using bpm_invD(8) [OF inv g] by (simp_all add: page_ok_def)
    moreover have "pg_id (frame b g) = p \<Longrightarrow> g = f" using used_inj [OF inv g f(1)] f(3) by simp
    ultimately show "synced M (disk_image (disk_mgr ?b)) (frame ?b g)"
      using c g d(4) cap [of "pg_id (frame b g)"] by (auto simp: coherent_def synced_def)
  qed
  moreover have "content ?b q = content b q" if "0 \<le> q" "q < next_page_id b" for q
    using d(4) cap [OF that(2)] that(1) res by (auto simp: content_def split: option.split)
  ultimately show ?thesis using that [of d] d(3,4) by blast
qed

text \<open>
  \<open>flushed b qs d\<close>: the disk \<open>d\<close> is the one of \<open>b\<close> with the resident pages among \<open>qs\<close> written.
\<close>

definition flushed :: "bpm \<Rightarrow> page_id_t set \<Rightarrow> disk_manager \<Rightarrow> bool" where
  "flushed b qs d \<longleftrightarrow> bpm_inv {} (b\<lparr>disk_mgr := d\<rparr>) \<and> disk_capacity d = disk_capacity (disk_mgr b) \<and>
     (\<forall>M. coherent M {} b \<longrightarrow> coherent M {} (b\<lparr>disk_mgr := d\<rparr>)) \<and>
     (\<forall>q. 0 \<le> q \<and> q < next_page_id b \<longrightarrow> content (b\<lparr>disk_mgr := d\<rparr>) q = content b q) \<and>
     (\<forall>q. 0 \<le> q \<and> q < disk_capacity (disk_mgr b) \<longrightarrow> disk_image d q =
        (case resident b q of Some f \<Rightarrow> if q \<in> qs then pg_data (frame b f) else disk_image (disk_mgr b) q
         | None \<Rightarrow> disk_image (disk_mgr b) q))"

lemma FlushPgImp_spec:
  assumes inv: "bpm_inv {} b"
  obtains d where "FlushPgImp p b = Inr (resident b p \<noteq> None, b\<lparr>disk_mgr := d\<rparr>)" and "flushed b {p} d"
proof (cases "resident b p")
  case None
  have "flushed b {p} (disk_mgr b)" using inv None by (auto simp: flushed_def split: option.split)
  then show ?thesis using that [of "disk_mgr b"] FlushPgImp_miss [OF inv None] None by simp
next
  case (Some f)
  obtain d where d: "FlushPgImp p b = Inr (True, b\<lparr>disk_mgr := d\<rparr>)" "bpm_inv {} (b\<lparr>disk_mgr := d\<rparr>)"
      "disk_capacity d = disk_capacity (disk_mgr b)"
      "\<And>q. 0 \<le> q \<Longrightarrow> q < disk_capacity (disk_mgr b) \<Longrightarrow>
        disk_image d q = (if q = p then pg_data (frame b f) else disk_image (disk_mgr b) q)"
      "\<And>M. coherent M {} b \<Longrightarrow> coherent M {} (b\<lparr>disk_mgr := d\<rparr>)"
      "\<And>q. 0 \<le> q \<Longrightarrow> q < next_page_id b \<Longrightarrow> content (b\<lparr>disk_mgr := d\<rparr>) q = content b q"
    by (rule FlushPgImp_hit [OF inv Some]) blast
  then have "flushed b {p} d" using Some by (auto simp: flushed_def split: option.split)
  with d(1) Some show ?thesis using that by simp
qed

lemma flushed_trans:
  assumes "flushed b P d" and "flushed (b\<lparr>disk_mgr := d\<rparr>) Q e"
  shows "flushed b (P \<union> Q) e"
  using assms unfolding flushed_def by (auto split: option.splits)

lemma FlushAll_loop_spec:
  "bpm_inv {} b \<Longrightarrow> \<exists>d. FlushAll_loop ps b = Inr (b\<lparr>disk_mgr := d\<rparr>) \<and> flushed b (pg_id ` set ps) d"
proof (induction ps arbitrary: b)
  case Nil
  then have "flushed b {} (disk_mgr b)" by (auto simp: flushed_def split: option.split)
  then show ?case by (auto intro!: exI [of _ "disk_mgr b"])
next
  case (Cons p ps)
  obtain d where d: "FlushPgImp (pg_id p) b = Inr (resident b (pg_id p) \<noteq> None, b\<lparr>disk_mgr := d\<rparr>)"
      "flushed b {pg_id p} d"
    using FlushPgImp_spec [OF Cons.prems] by blast
  obtain e where "FlushAll_loop ps (b\<lparr>disk_mgr := d\<rparr>) = Inr (b\<lparr>disk_mgr := d\<rparr>\<lparr>disk_mgr := e\<rparr>)"
      "flushed (b\<lparr>disk_mgr := d\<rparr>) (pg_id ` set ps) e"
    using Cons.IH [of "b\<lparr>disk_mgr := d\<rparr>"] d(2) by (auto simp: flushed_def)
  then show ?case using d flushed_trans [OF d(2)] by (auto intro!: exI [of _ e])
qed

lemma FlushAllPgsImp_spec:
  assumes inv: "bpm_inv {} b"
  obtains d where "FlushAllPgsImp b = Inr (b\<lparr>disk_mgr := d\<rparr>)" and "flushed b UNIV d"
proof -
  obtain d where d: "FlushAllPgsImp b = Inr (b\<lparr>disk_mgr := d\<rparr>)" "flushed b (pg_id ` set (pages b)) d"
    using FlushAll_loop_spec [OF inv, of "pages b"] by (auto simp: FlushAllPgsImp_def)
  have "q \<in> pg_id ` set (pages b)" if "resident b q = Some f" for q f
  proof -
    have "nat f < length (pages b)" using residentD(2) [OF inv that] bpm_invD(7) [OF inv] by auto
    then have "pg_id (frame b f) \<in> pg_id ` set (pages b)" by simp
    then show ?thesis using residentD(3) [OF inv that] by simp
  qed
  then have "flushed b UNIV d" using d(2) by (auto simp: flushed_def split: option.splits)
  with d(1) show ?thesis by (rule that)
qed

section \<open>Deleting\<close>

lemma DeletePgImp_miss: "bpm_inv {} b \<Longrightarrow> resident b p = None \<Longrightarrow> DeletePgImp p b = Inr (True, b)"
  by (simp add: DeletePgImp_def eht.find_law [OF bpm_invD(5)])

lemma DeletePgImp_pinned:
  assumes "bpm_inv {} b" and "resident b p = Some f" and "0 < pin_count (frame b f)"
  shows "DeletePgImp p b = Inr (False, b)"
  using assms residentD(4) [OF assms(1,2)] by (simp add: DeletePgImp_def eht.find_law [OF bpm_invD(5)])

lemma forget_frame:
  assumes inv: "bpm_inv {} b" and f: "f \<in> used {} b"
    and t: "page_table_inv t" "eht_map std_hash_int t = (resident b)(pg_id (frame b f) := None)"
    and r: "lruk_inv (pool_size b) r" "lruk_tracked r = lruk_tracked (rep b) - {f}"
      "lruk_evictable r = lruk_evictable (rep b) - {f}"
  defines "b' \<equiv> (set_page f Page_init b)\<lparr>rep := r, ptable := t, free_list := free_list b @ [f]\<rparr>"
  shows "bpm_inv {} b'"
    and "coherent M {} b \<Longrightarrow> coherent M {} b'"
    and "p \<noteq> pg_id (frame b f) \<Longrightarrow> content b' p = content b p"
    and "g \<in> frames b \<Longrightarrow> frame b' g = (if g = f then Page_init else frame b g)"
proof -
  have fr: "f \<in> frames b" by (rule used_frames [OF f])
  show nth: "frame b' g = (if g = f then Page_init else frame b g)" if "g \<in> frames b" for g
    using frame_update [OF fr that bpm_invD(7) [OF inv]] by (simp add: b'_def)
  have used: "used {} b' = used {} b - {f}" by (auto simp: used_def b'_def)
  have nth_used: "frame b' g = frame b g" if "g \<in> used {} b - {f}" for g
    using nth [of g] that used_frames [of g "{}" b] by simp
  have ffree: "f \<notin> set (free_list b)" using f by (simp add: used_def)
  have "free_ok {} b'"
  proof -
    have "frame b' g = Page_init" if "g \<in> set (free_list b) \<union> {f}" for g
      using bpm_invD(1) [OF inv] that fr nth [of g] by (auto simp: free_ok_def)
    then show ?thesis
      using bpm_invD(1) [OF inv] ffree fr unfolding free_ok_def by (auto simp: b'_def)
  qed
  moreover have "rep_ok {} b'"
  proof -
    have "{g \<in> used {} b - {f}. pin_count (frame b' g) = 0} = {g \<in> used {} b. pin_count (frame b g) = 0} - {f}"
      using nth_used by auto
    then show ?thesis
      using bpm_invD(2) [OF inv] r by (simp add: rep_ok_def used) (simp add: b'_def)
  qed
  moreover have "table_ok {} b'"
    unfolding table_ok_def used
  proof (intro conjI allI)
    show "page_table_inv (ptable b')" using t(1) by (simp add: b'_def)
    fix p g
    have iff: "resident b p = Some g \<longleftrightarrow> g \<in> used {} b \<and> pg_id (frame b g) = p"
      using bpm_invD(3) [OF inv] unfolding table_ok_def by blast
    have "resident b' p = Some g \<longleftrightarrow> p \<noteq> pg_id (frame b f) \<and> resident b p = Some g"
      by (simp add: b'_def t(2))
    also have "\<dots> \<longleftrightarrow> g \<in> used {} b - {f} \<and> pg_id (frame b g) = p"
      unfolding iff using used_inj [OF inv, of g f] f by auto
    finally show "resident b' p = Some g \<longleftrightarrow> g \<in> used {} b - {f} \<and> pg_id (frame b' g) = p"
      using nth_used [of g] by metis
  qed
  moreover have "disk_ok b'" using bpm_invD(4) [OF inv] by (simp add: disk_ok_def b'_def)
  moreover have "\<forall>g \<in> used {} b'. page_ok (next_page_id b') (frame b' g)"
    unfolding used using bpm_invD(8) [OF inv] nth_used by (simp add: b'_def)
  ultimately show "bpm_inv {} b'" by (simp add: bpm_inv_def)
  show "coherent M {} b'" if "coherent M {} b"
    using that nth_used unfolding coherent_def used by (simp add: b'_def)
  show "content b' p = content b p" if "p \<noteq> pg_id (frame b f)"
  proof (cases "resident b p")
    case None
    then show ?thesis using that by (simp add: content_def b'_def t(2))
  next
    case (Some g)
    note g = residentD [OF inv Some]
    have "g \<noteq> f" using that g(3) by auto
    then show ?thesis using that Some nth [OF g(2)] by (simp add: content_def b'_def t(2))
  qed
qed

lemma DeletePgImp_unpinned:
  assumes inv: "bpm_inv {} b" and res: "resident b p = Some f" and pin: "pin_count (frame b f) = 0"
  obtains b' where "DeletePgImp p b = Inr (True, b')" and "bpm_inv {} b'"
    and "\<And>M. coherent M {} b \<Longrightarrow> coherent M {} b'" and "\<And>q. q \<noteq> p \<Longrightarrow> content b' q = content b q"
    and "\<And>g. g \<in> frames b \<Longrightarrow> frame b' g = (if g = f then Page_init else frame b g)"
    and "disk_mgr b' = disk_mgr b" and "next_page_id b' = next_page_id b" and "pool_size b' = pool_size b"
    and "resident b' = (resident b)(p := None)"
proof -
  note f = residentD [OF inv res]
  have "f \<in> lruk_evictable (rep b)" using bpm_invD(2) [OF inv] f(1) pin by (simp add: rep_ok_def)
  then obtain r where r: "LRUKReplacer_Remove f (rep b) = Inr r" "lruk_inv (pool_size b) r"
      "lruk_tracked r = lruk_tracked (rep b) - {f}" "lruk_evictable r = lruk_evictable (rep b) - {f}"
    using lruk.remove_law [of "pool_size b" "rep b" f] frame_int_le [OF f(2)] bpm_invD(2) [OF inv]
    by (auto simp: rep_ok_def)
  obtain t where t: "ExtendibleHashTable_Remove std_hash_int p (ptable b) = Inr (resident b p \<noteq> None, t)"
      "page_table_inv t" "eht_map std_hash_int t = (resident b)(pg_id (frame b f) := None)"
    using eht.remove_law [OF bpm_invD(5) [OF inv], of p] f(3) by auto
  have "(ResetMemory (frame b f))\<lparr>pg_id := INVALID_PAGE_ID, pin_count := 0, is_dirty := False\<rparr> = Page_init"
    by (cases "frame b f") (simp add: ResetMemory_def Page_init_def)
  then have "DeletePgImp p b =
      Inr (True, (set_page f Page_init b)\<lparr>rep := r, ptable := t, free_list := free_list b @ [f]\<rparr>)"
    using res pin f(4) r(1) t(1)
    by (simp add: DeletePgImp_def eht.find_law [OF bpm_invD(5) [OF inv]] DeallocatePage_def)
  with forget_frame [OF inv f(1) t(2,3) r(2-4)] f(3) show ?thesis
    by (intro that [of "(set_page f Page_init b)\<lparr>rep := r, ptable := t, free_list := free_list b @ [f]\<rparr>"])
      (simp_all add: t(3))
qed

end
