(* ===== verification/BufferPoolSpec.thy ===== *)
theory BufferPoolSpec
  imports BufferPool
begin

text \<open>
  What the buffer pool manager promises its clients, and that
  \<^verbatim>\<open>BufferPoolManagerInstance\<close> keeps the promise.  The abstract pool knows the contents and the pin
  count of every allocated page and nothing about frames, the page table, the replacer or the disk.
\<close>

section \<open>The abstract pool\<close>

text \<open>
  \<open>ps_cap\<close> is the number of pages the disk can hold; \<open>ps_mod\<close> holds the pages that a client has modified through its pointer and not yet unpinned as
  dirty.
\<close>

record pool_spec =
  ps_size :: nat
  ps_cap :: int
  ps_next :: page_id_t
  ps_content :: "page_id_t \<Rightarrow> byte list"
  ps_pins :: "page_id_t \<Rightarrow> int"
  ps_mod :: "page_id_t set"

datatype bpm_op = NewPage | FetchPage page_id_t | WriteData page_id_t "byte list" | UnpinPage page_id_t bool
  | FlushPage page_id_t | FlushAllPages | DeletePage page_id_t

datatype bpm_out = PageOut "(page_id_t \<times> byte list) option" | BoolOut bool | NoOut

definition ps_full :: "pool_spec \<Rightarrow> bool" where
  "ps_full a \<longleftrightarrow> card {p. 0 < ps_pins a p} = ps_size a"

inductive pool_step :: "bpm_op \<Rightarrow> pool_spec \<Rightarrow> bpm_out \<Rightarrow> pool_spec \<Rightarrow> bool" where
  new_none: "ps_full a \<Longrightarrow> pool_step NewPage a (PageOut None) a"
| new_some: "\<not> ps_full a \<Longrightarrow> p = ps_next a \<Longrightarrow>
    pool_step NewPage a (PageOut (Some (p, zero_page)))
      (a\<lparr>ps_next := p + 1, ps_content := (ps_content a)(p := zero_page), ps_pins := (ps_pins a)(p := 1)\<rparr>)"
| fetch_none: "ps_full a \<Longrightarrow> ps_pins a p = 0 \<Longrightarrow> pool_step (FetchPage p) a (PageOut None) a"
| fetch_some: "\<not> ps_full a \<or> 0 < ps_pins a p \<Longrightarrow>
    pool_step (FetchPage p) a (PageOut (Some (p, ps_content a p)))
      (a\<lparr>ps_pins := (ps_pins a)(p := ps_pins a p + 1)\<rparr>)"
| write_data: "pool_step (WriteData p xs) a NoOut
    (a\<lparr>ps_content := (ps_content a)(p := xs), ps_mod := insert p (ps_mod a)\<rparr>)"
| unpin_false: "ps_pins a p = 0 \<Longrightarrow> pool_step (UnpinPage p d) a (BoolOut False) a"
| unpin_true: "0 < ps_pins a p \<Longrightarrow>
    pool_step (UnpinPage p d) a (BoolOut True)
      (a\<lparr>ps_pins := (ps_pins a)(p := ps_pins a p - 1), ps_mod := (if d then ps_mod a - {p} else ps_mod a)\<rparr>)"
| flush: "0 < ps_pins a p \<longrightarrow> found \<Longrightarrow> pool_step (FlushPage p) a (BoolOut found) a"
| flush_all: "pool_step FlushAllPages a NoOut a"
| delete_false: "0 < ps_pins a p \<Longrightarrow> pool_step (DeletePage p) a (BoolOut False) a"
| delete_true: "ps_pins a p = 0 \<Longrightarrow>
    pool_step (DeletePage p) a (BoolOut True) (a\<lparr>ps_content := (ps_content a)(p := xs)\<rparr>)"

text \<open>
  What the clients owe: page ids stay within the capacity of the disk, only allocated pages are
  fetched, a page is written only while it is pinned, and the last unpin of a modified page says so.
\<close>

fun allowed :: "bpm_op \<Rightarrow> pool_spec \<Rightarrow> bool" where
  "allowed NewPage a \<longleftrightarrow> ps_next a < ps_cap a \<and> ps_next a < 2 ^ 30"
| "allowed (FetchPage p) a \<longleftrightarrow> 0 \<le> p \<and> p < ps_next a \<and> ps_pins a p < 2 ^ 31 - 1"
| "allowed (WriteData p xs) a \<longleftrightarrow> 0 < ps_pins a p \<and> length xs = BUSTUB_PAGE_SIZE"
| "allowed (UnpinPage p d) a \<longleftrightarrow> d \<or> p \<notin> ps_mod a \<or> ps_pins a p \<noteq> 1"
| "allowed (FlushPage p) a \<longleftrightarrow> True"
| "allowed FlushAllPages a \<longleftrightarrow> True"
| "allowed (DeletePage p) a \<longleftrightarrow> True"

text \<open>
  The step of the implementation; \<open>WriteData\<close> is the client storing through the pointer it holds.
\<close>

fun bpm_step :: "bpm_op \<Rightarrow> bpm \<Rightarrow> (bpm_out \<times> bpm) result" where
  "bpm_step NewPage b =
     bind_result (NewPgImp b) (\<lambda>(r, b'). Inr (PageOut (map_option (\<lambda>(p, f). (p, pg_data (frame b' f))) r), b'))"
| "bpm_step (FetchPage p) b =
     bind_result (FetchPgImp p b)
       (\<lambda>(r, b'). Inr (PageOut (map_option (\<lambda>f. (pg_id (frame b' f), pg_data (frame b' f))) r), b'))"
| "bpm_step (WriteData p xs) b =
     bind_result (ExtendibleHashTable_Find std_hash_int p (ptable b)) (\<lambda>found.
       case found of None \<Rightarrow> Inl UndefinedBehaviour
       | Some f \<Rightarrow> bind_result (page_at f b) (\<lambda>q. Inr (NoOut, set_page f (q\<lparr>pg_data := xs\<rparr>) b)))"
| "bpm_step (UnpinPage p d) b = bind_result (UnpinPgImp p d b) (\<lambda>(r, b'). Inr (BoolOut r, b'))"
| "bpm_step (FlushPage p) b = bind_result (FlushPgImp p b) (\<lambda>(r, b'). Inr (BoolOut r, b'))"
| "bpm_step FlushAllPages b = bind_result (FlushAllPgsImp b) (\<lambda>b'. Inr (NoOut, b'))"
| "bpm_step (DeletePage p) b = bind_result (DeletePgImp p b) (\<lambda>(r, b'). Inr (BoolOut r, b'))"

section \<open>The simulation relation\<close>

definition pins :: "bpm \<Rightarrow> page_id_t \<Rightarrow> int" where
  "pins b p = (case resident b p of Some f \<Rightarrow> pin_count (frame b f) | None \<Rightarrow> 0)"

definition blank :: "bpm \<Rightarrow> bool" where
  "blank b \<longleftrightarrow> (\<forall>p. next_page_id b \<le> p \<and> p < disk_capacity (disk_mgr b) \<longrightarrow> disk_image (disk_mgr b) p = zero_page)"

definition pool_rel :: "pool_spec \<Rightarrow> bpm \<Rightarrow> bool" where
  "pool_rel a b \<longleftrightarrow> bpm_inv {} b \<and> coherent (ps_mod a) {} b \<and> blank b \<and> ps_size a = pool_size b \<and>
     ps_cap a = disk_capacity (disk_mgr b) \<and> ps_next a = next_page_id b \<and> ps_pins a = pins b \<and> (\<forall>p \<in> ps_mod a. 0 < pins b p) \<and>
     (\<forall>p. 0 \<le> p \<and> p < next_page_id b \<longrightarrow> ps_content a p = content b p)"

lemma pool_relD:
  assumes "pool_rel a b"
  shows "bpm_inv {} b" "coherent (ps_mod a) {} b" "blank b" "ps_size a = pool_size b"
    "ps_next a = next_page_id b" "ps_pins a = pins b" "p \<in> ps_mod a \<Longrightarrow> 0 < pins b p"
    "0 \<le> p \<Longrightarrow> p < next_page_id b \<Longrightarrow> ps_content a p = content b p"
    "ps_cap a = disk_capacity (disk_mgr b)"
  using assms unfolding pool_rel_def by blast+

lemma pins_nonneg: "bpm_inv {} b \<Longrightarrow> 0 \<le> pins b p"
  using residentD(7) [of "{}" b p] by (auto simp: pins_def page_ok_def split: option.split)

lemma pins_posD:
  assumes "bpm_inv {} b" and "0 < pins b p"
  obtains f where "resident b p = Some f" and "0 < pin_count (frame b f)" and "0 \<le> p" and "p < next_page_id b"
  using assms residentD(5,6) [OF assms(1)] by (auto simp: pins_def split: option.splits)

lemma pinned_card:
  assumes inv: "bpm_inv {} b"
  shows "card {p. 0 < pins b p} = card {f \<in> used {} b. 0 < pin_count (frame b f)}"
proof -
  have "{p. 0 < pins b p} = (\<lambda>f. pg_id (frame b f)) ` {f \<in> used {} b. 0 < pin_count (frame b f)}"
  proof (intro equalityI subsetI)
    fix p assume "p \<in> {p. 0 < pins b p}"
    then obtain f where "resident b p = Some f" "0 < pin_count (frame b f)" using pins_posD [OF inv, of p] by auto
    then show "p \<in> (\<lambda>f. pg_id (frame b f)) ` {f \<in> used {} b. 0 < pin_count (frame b f)}"
      using residentD(1,3) [OF inv, of p f] by force
  next
    fix p assume "p \<in> (\<lambda>f. pg_id (frame b f)) ` {f \<in> used {} b. 0 < pin_count (frame b f)}"
    then obtain f where "f \<in> used {} b" "0 < pin_count (frame b f)" "p = pg_id (frame b f)" by blast
    then show "p \<in> {p. 0 < pins b p}" using residentI [OF inv] by (simp add: pins_def)
  qed
  moreover have "inj_on (\<lambda>f. pg_id (frame b f)) {f \<in> used {} b. 0 < pin_count (frame b f)}"
    by (rule inj_onI) (use used_inj [OF inv] in auto)
  ultimately show ?thesis by (simp add: card_image)
qed

lemma unpinned_frame_iff:
  assumes inv: "bpm_inv {} b"
  shows "(\<forall>f \<in> frames b. pin_count (frame b f) \<noteq> 0) \<longleftrightarrow> \<not> is_free_page b"
proof -
  have "(\<forall>f \<in> frames b. pin_count (frame b f) \<noteq> 0) \<longleftrightarrow> (\<forall>i < pool_size b. pin_count (pages b ! i) \<noteq> 0)"
  proof (intro iffI ballI allI impI)
    fix i assume "\<forall>f \<in> frames b. pin_count (frame b f) \<noteq> 0" "i < pool_size b"
    then show "pin_count (pages b ! i) \<noteq> 0" by (auto dest: bspec [of _ _ "int i"])
  next
    fix f assume "\<forall>i < pool_size b. pin_count (pages b ! i) \<noteq> 0" "f \<in> frames b"
    moreover from this have "nat f < pool_size b" by auto
    ultimately show "pin_count (frame b f) \<noteq> 0" by blast
  qed
  moreover have "is_free_page b \<longleftrightarrow> (\<exists>i < pool_size b. pin_count (pages b ! i) = 0)"
    using bpm_invD(7) [OF inv] by (simp add: is_free_page_def list_ex_length)
  ultimately show ?thesis by blast
qed

lemma full_iff:
  assumes inv: "bpm_inv {} b"
  shows "card {p. 0 < pins b p} = pool_size b \<longleftrightarrow> \<not> is_free_page b"
proof -
  let ?P = "{f \<in> used {} b. 0 < pin_count (frame b f)}"
  have sub: "?P \<subseteq> frames b" using used_frames by blast
  have "card {p. 0 < pins b p} = pool_size b \<longleftrightarrow> ?P = frames b"
    using card_subset_eq [OF _ sub] by (auto simp: pinned_card [OF inv])
  also have "\<dots> \<longleftrightarrow> (\<forall>f \<in> frames b. pin_count (frame b f) \<noteq> 0)"
  proof
    assume P: "?P = frames b"
    show "\<forall>f \<in> frames b. pin_count (frame b f) \<noteq> 0" unfolding P [symmetric] by simp
  next
    assume *: "\<forall>f \<in> frames b. pin_count (frame b f) \<noteq> 0"
    have "f \<in> ?P" if f: "f \<in> frames b" for f
    proof -
      have "f \<notin> set (free_list b)"
      proof
        assume "f \<in> set (free_list b)"
        then have "pin_count (frame b f) = 0" using bpm_invD(1) [OF inv] by (simp add: free_ok_def Page_init_def)
        then show False using * f by blast
      qed
      then have u: "f \<in> used {} b" using f by (simp add: used_def)
      then show ?thesis using * f bpm_invD(8) [OF inv u] by (simp add: page_ok_def less_le)
    qed
    then show "?P = frames b" using sub by blast
  qed
  finally show ?thesis by (simp only: unpinned_frame_iff [OF inv])
qed

lemma ps_full_iff: "pool_rel a b \<Longrightarrow> ps_full a \<longleftrightarrow> \<not> is_free_page b"
  by (simp add: ps_full_def pool_relD(4,6) full_iff [OF pool_relD(1)])

lemma resident_inj:
  assumes "bpm_inv {} b" and "resident b x = Some f" and "resident b p = Some f"
  shows "x = p"
  using residentD(3) [OF assms(1,2), symmetric] residentD(3) [OF assms(1,3)] by (rule HOL.trans)

lemma pins_touch:
  assumes inv: "bpm_inv {} b" and res: "resident b p = Some f" and same: "resident b' = resident b"
    and frames: "\<And>g. g \<in> frames b \<Longrightarrow> frame b' g = (if g = f then q else frame b g)"
  shows "pins b' = (pins b)(p := pin_count q)"
proof
  fix x
  show "pins b' x = ((pins b)(p := pin_count q)) x"
  proof (cases "resident b x")
    case None
    then show ?thesis using res by (auto simp: pins_def same)
  next
    case (Some g)
    have "x = p" if "g = f" using resident_inj [OF inv Some [unfolded that] res] .
    moreover have "g = f" if "x = p" using Some res that by simp
    ultimately have "g = f \<longleftrightarrow> x = p" by blast
    then show ?thesis using Some frames [OF residentD(2) [OF inv Some]] by (simp add: pins_def same)
  qed
qed

section \<open>Simulation of the single operations\<close>

lemma loaded_pins:
  assumes inv: "bpm_inv {} b" and l: "loaded b f q b'"
  shows "pins b' = (pins b)(pg_id q := pin_count q)"
proof
  fix p
  have f: "f \<in> frames b" "pin_count (frame b f) = 0"
    and frames: "\<And>g. g \<in> frames b \<Longrightarrow> frame b' g = (if g = f then q else frame b g)"
    and res: "resident b' p = (if p = pg_id q then Some f else if resident b p = Some f then None else resident b p)"
    using l by (simp_all add: loaded_def)
  show "pins b' p = ((pins b)(pg_id q := pin_count q)) p"
  proof (cases "resident b p")
    case None
    then show ?thesis using res frames [OF f(1)] by (simp add: pins_def)
  next
    case (Some g)
    then show ?thesis
      using res f(2) frames [OF f(1)] frames [OF residentD(2) [OF inv Some]] by (simp add: pins_def)
  qed
qed

lemma loaded_rel:
  assumes inv: "bpm_inv {} b" and l: "loaded b f q b'" and sync: "synced M (disk_image (disk_mgr b')) q"
    and coh: "coherent M {} b" and blank: "blank b"
  shows "coherent M {} b'" "blank b'" "bpm_inv {} b'" "pool_size b' = pool_size b" "next_page_id b' = next_page_id b"
    "0 \<le> p \<Longrightarrow> p < next_page_id b \<Longrightarrow> content b' p = (if p = pg_id q then pg_data q else content b p)"
    "frame b' f = q" "disk_capacity (disk_mgr b') = disk_capacity (disk_mgr b)"
proof -
  have old: "resident b p = None" if "next_page_id b \<le> p" for p
    using residentD(6) [OF inv, of p] that by (cases "resident b p") auto
  have "0 \<le> next_page_id b" using bpm_invD(4) [OF inv] by (simp add: disk_ok_def)
  then show "blank b'" using l old blank by (simp add: blank_def loaded_def)
  show "coherent M {} b'" "bpm_inv {} b'" "pool_size b' = pool_size b" "next_page_id b' = next_page_id b" "frame b' f = q"
    "disk_capacity (disk_mgr b') = disk_capacity (disk_mgr b)"
    using l coh sync by (simp_all add: loaded_def)
  show "content b' p = (if p = pg_id q then pg_data q else content b p)" if "0 \<le> p" "p < next_page_id b"
    using l coh sync that by (simp add: loaded_def)
qed

lemma blank_image:
  assumes "bpm_inv {} b" and "blank b" and "next_page_id b < disk_capacity (disk_mgr b)"
    and "loaded (b\<lparr>next_page_id := next_page_id b + 1\<rparr>) f q b'"
  shows "disk_image (disk_mgr b') (next_page_id b) = zero_page"
proof -
  have "resident b (next_page_id b) = None"
    using residentD(6) [OF assms(1), of "next_page_id b"] by (cases "resident b (next_page_id b)") auto
  moreover have "0 \<le> next_page_id b" using bpm_invD(4) [OF assms(1)] by (simp add: disk_ok_def)
  ultimately have "disk_image (disk_mgr b') (next_page_id b) = disk_image (disk_mgr b) (next_page_id b)"
    using assms(3,4) by (simp add: loaded_def)
  then show ?thesis using assms(2,3) by (simp add: blank_def)
qed

lemma sim_new:
  assumes R: "pool_rel a b" and ok: "allowed NewPage a"
  shows "\<exists>out a' b'. bpm_step NewPage b = Inr (out, b') \<and> pool_step NewPage a out a' \<and> pool_rel a' b'"
proof (cases "is_free_page b")
  case False
  then show ?thesis using R ps_full_iff [OF R] NewPgImp_full [OF False] by (auto intro: new_none)
next
  case True
  note inv = pool_relD(1) [OF R]
  let ?n = "next_page_id b"
  let ?b = "b\<lparr>next_page_id := ?n + 1\<rparr>"
  let ?q = "\<lparr>pg_data = zero_page, pg_id = ?n, pin_count = 1, is_dirty = False\<rparr>"
  have n: "?n < disk_capacity (disk_mgr b)" "?n < 2 ^ 30" using ok pool_relD(5,9) [OF R] by simp_all
  obtain f b' where new: "NewPgImp b = Inr (Some (?n, f), b')" and l: "loaded ?b f ?q b'"
    using NewPgImp_spec [OF inv n True] by blast
  note alloc = alloc_inv [OF inv n]
  have "?n \<notin> ps_mod a"
    using pool_relD(6,7) [OF R] pins_posD [OF inv, of ?n] by (metis less_irrefl)
  then have sync: "synced (ps_mod a) (disk_image (disk_mgr b')) ?q"
    using blank_image [OF inv pool_relD(3) [OF R] n(1) l] by (simp add: synced_def)
  have coh: "coherent (ps_mod a) {} ?b" using alloc(2) pool_relD(2) [OF R] by simp
  have bl: "blank ?b" using pool_relD(3) [OF R] by (simp add: blank_def)
  note rel = loaded_rel [OF alloc(1) l sync coh bl]
  let ?a = "a\<lparr>ps_next := ?n + 1, ps_content := (ps_content a)(?n := zero_page), ps_pins := (ps_pins a)(?n := 1)\<rparr>"
  have pins: "pins b' = (pins b)(?n := 1)"
    using loaded_pins [OF alloc(1) l] by (auto simp: pins_def fun_eq_iff split: option.split)
  have "ps_content ?a p = content b' p" if p: "0 \<le> p" "p < ?n + 1" for p
    using rel(6) [of p] alloc(3) [of p] pool_relD(8) [OF R, of p] p by auto
  moreover have "0 < pins b' p" if "p \<in> ps_mod a" for p
    using pool_relD(6,7) [OF R] that by (auto simp: pins)
  ultimately have "pool_rel ?a b'"
    using rel(1-5,8) pool_relD(4,6,9) [OF R] by (simp add: pool_rel_def pins)
  moreover have "pool_step NewPage a (PageOut (Some (?n, zero_page))) ?a"
    using new_some [of a ?n] True ps_full_iff [OF R] pool_relD(5) [OF R] by simp
  moreover have "bpm_step NewPage b = Inr (PageOut (Some (?n, zero_page)), b')"
    using new rel(7) by simp
  ultimately show ?thesis by blast
qed

text \<open>The effect of a successful fetch, shared by the hit and the miss.\<close>

lemma fetched_step:
  assumes R: "pool_rel a b" and p: "0 \<le> p" "p < next_page_id b"
    and b': "bpm_inv {} b'" "coherent (ps_mod a) {} b'" "blank b'" "pool_size b' = pool_size b"
      "next_page_id b' = next_page_id b" "pins b' = (pins b)(p := pins b p + 1)"
      "\<And>q. 0 \<le> q \<Longrightarrow> q < next_page_id b \<Longrightarrow> content b' q = content b q"
    and cap: "disk_capacity (disk_mgr b') = disk_capacity (disk_mgr b)"
    and free: "is_free_page b \<or> 0 < pins b p"
    and step: "bpm_step (FetchPage p) b = Inr (PageOut (Some (p, content b p)), b')"
  shows "\<exists>out a' b'. bpm_step (FetchPage p) b = Inr (out, b') \<and> pool_step (FetchPage p) a out a' \<and> pool_rel a' b'"
proof -
  let ?a = "a\<lparr>ps_pins := (ps_pins a)(p := ps_pins a p + 1)\<rparr>"
  have "0 < pins b' q" if "q \<in> ps_mod a" for q
    using pool_relD(7) [OF R that] pool_relD(6) [OF R] b'(6) by auto
  then have "pool_rel ?a b'"
    using b' cap pool_relD(4,5,6,8,9) [OF R] by (simp add: pool_rel_def)
  moreover have "pool_step (FetchPage p) a (PageOut (Some (p, content b p))) ?a"
    using fetch_some [of a p] free ps_full_iff [OF R] pool_relD(6) [OF R] pool_relD(8) [OF R p] by auto
  ultimately show ?thesis using step by blast
qed

lemma sim_fetch_hit:
  assumes R: "pool_rel a b" and ok: "allowed (FetchPage p) a"
    and Some: "resident b p = Some f"
  shows "\<exists>out a' b'. bpm_step (FetchPage p) b = Inr (out, b') \<and> pool_step (FetchPage p) a out a' \<and> pool_rel a' b'"
proof -
  note inv = pool_relD(1) [OF R]
  note f = residentD [OF inv Some]
  have "pin_count (frame b f) < 2 ^ 31 - 1" using ok pool_relD(6) [OF R] Some by (simp add: pins_def)
  then obtain b' where b': "FetchPgImp p b = Inr (Some f, b')" "bpm_inv {} b'"
      "\<And>M. coherent M {} b \<Longrightarrow> coherent M {} b'" "content b' = content b"
      "\<And>g. g \<in> frames b \<Longrightarrow> frame b' g =
        (if g = f then (frame b f)\<lparr>pin_count := pin_count (frame b f) + 1\<rparr> else frame b g)"
      "disk_mgr b' = disk_mgr b" "next_page_id b' = next_page_id b" "pool_size b' = pool_size b"
      "resident b' = resident b"
    by (rule FetchPgImp_hit [OF inv Some]) blast
  have pins: "pins b' = (pins b)(p := pins b p + 1)"
    using pins_touch [OF inv Some b'(9) b'(5)] Some by (simp add: pins_def)
  have free: "is_free_page b \<or> 0 < pins b p"
  proof (cases "0 < pins b p")
    case False
    then have "pin_count (frame b f) = 0" using Some f(7) by (simp add: pins_def page_ok_def)
    then show ?thesis
      using f(2) bpm_invD(7) [OF inv] by (auto simp: is_free_page_def list_ex_iff intro!: bexI [of _ "frame b f"])
  qed simp
  have "blank b'" using pool_relD(3) [OF R] by (simp add: blank_def b'(6,7))
  moreover have "bpm_step (FetchPage p) b = Inr (PageOut (Some (p, content b p)), b')"
    using b'(1) b'(5) [OF f(2)] f(3) Some by (simp add: content_def)
  ultimately show ?thesis
    using fetched_step [OF R f(5,6) b'(2) b'(3) [OF pool_relD(2) [OF R]] _ b'(8,7) pins _ _ free] b'(4,6) by simp
qed

lemma sim_fetch_miss:
  assumes R: "pool_rel a b" and p: "0 \<le> p" "p < next_page_id b"
    and None: "resident b p = None" and free: "is_free_page b"
  shows "\<exists>out a' b'. bpm_step (FetchPage p) b = Inr (out, b') \<and> pool_step (FetchPage p) a out a' \<and> pool_rel a' b'"
proof -
  note inv = pool_relD(1) [OF R]
  obtain f b' where fetch: "FetchPgImp p b = Inr (Some f, b')"
    and l: "loaded b f \<lparr>pg_data = disk_image (disk_mgr b') p, pg_id = p, pin_count = 1, is_dirty = False\<rparr> b'"
      (is "loaded b f ?q b'")
    using FetchPgImp_miss [OF inv p free None] by blast
  have p0: "pins b p = 0" using None by (simp add: pins_def)
  then have "p \<notin> ps_mod a" using pool_relD(6) [OF R] pool_relD(7) [OF R, of p] by auto
  then have sync: "synced (ps_mod a) (disk_image (disk_mgr b')) ?q" by (simp add: synced_def)
  note rel = loaded_rel [OF inv l sync pool_relD(2,3) [OF R]]
  have "p < disk_capacity (disk_mgr b)" using p(2) bpm_invD(4) [OF inv] by (simp add: disk_ok_def)
  then have img: "disk_image (disk_mgr b') p = content b p"
    using l None p(1) by (simp add: loaded_def content_def)
  have "content b' q = content b q" if "0 \<le> q" "q < next_page_id b" for q
    using rel(6) [OF that] img by simp
  moreover have "pins b' = (pins b)(p := pins b p + 1)" using loaded_pins [OF inv l] p0 by simp
  moreover have "bpm_step (FetchPage p) b = Inr (PageOut (Some (p, content b p)), b')"
    using fetch rel(7) img by simp
  ultimately show ?thesis using fetched_step [OF R p rel(3,1,2,4,5)] rel(8) free by simp
qed

lemma sim_fetch:
  assumes R: "pool_rel a b" and ok: "allowed (FetchPage p) a"
  shows "\<exists>out a' b'. bpm_step (FetchPage p) b = Inr (out, b') \<and> pool_step (FetchPage p) a out a' \<and> pool_rel a' b'"
proof (cases "resident b p")
  case (Some f)
  then show ?thesis by (rule sim_fetch_hit [OF assms])
next
  case None
  note inv = pool_relD(1) [OF R]
  have p: "0 \<le> p" "p < next_page_id b" using ok pool_relD(5) [OF R] by simp_all
  show ?thesis
  proof (cases "is_free_page b")
    case False
    then have "FetchPgImp p b = Inr (None, b)"
      using None by (simp add: FetchPgImp_def eht.find_law [OF bpm_invD(5) [OF inv]])
    moreover have "pool_step (FetchPage p) a (PageOut None) a"
      using False ps_full_iff [OF R] None pool_relD(6) [OF R] by (intro fetch_none) (simp_all add: pins_def)
    ultimately show ?thesis using R by auto
  qed (rule sim_fetch_miss [OF R p None])
qed

lemma sim_write:
  assumes R: "pool_rel a b" and ok: "allowed (WriteData p xs) a"
  shows "\<exists>out a' b'. bpm_step (WriteData p xs) b = Inr (out, b') \<and> pool_step (WriteData p xs) a out a' \<and> pool_rel a' b'"
proof -
  note inv = pool_relD(1) [OF R]
  have ok': "0 < pins b p" "length xs = BUSTUB_PAGE_SIZE" using ok pool_relD(6) [OF R] by simp_all
  obtain f where res: "resident b p = Some f" and pin: "0 < pin_count (frame b f)"
    using pins_posD [OF inv ok'(1)] by blast
  note f = residentD [OF inv res]
  let ?q = "(frame b f)\<lparr>pg_data := xs\<rparr>" and ?M = "insert p (ps_mod a)"
  let ?b = "(set_page f ?q b)\<lparr>rep := rep b\<rparr>"
  have q: "page_ok (next_page_id b) ?q" "pg_id ?q = pg_id (frame b f)"
    using f(7) ok'(2) by (simp_all add: page_ok_def)
  have r: "lruk_inv (pool_size b) (rep b)" "lruk_evictable (rep b) =
      (if pin_count ?q = 0 then insert f (lruk_evictable (rep b)) else lruk_evictable (rep b) - {f})"
    using bpm_invD(2) [OF inv] pin by (auto simp: rep_ok_def)
  note t = touch [OF inv f(1) q r(1) refl r(2)]
  have "coherent ?M {} ?b"
    using f(3) pin by (intro t(2) [OF pool_relD(2) [OF R]]) (auto simp: synced_def)
  moreover have "pins b p = pin_count (frame b f)" using res by (simp add: pins_def)
  then have "pins ?b = pins b" using pins_touch [OF inv res _ t(4)] by (simp add: fun_upd_idem)
  moreover have "blank ?b" using pool_relD(3) [OF R] by (simp add: blank_def)
  moreover have "0 < pins b x" if "x \<in> ps_mod a" for x
    using pool_relD(7) [OF R that] pool_relD(6) [OF R] by simp
  ultimately have "pool_rel (a\<lparr>ps_content := (ps_content a)(p := xs), ps_mod := ?M\<rparr>) ?b"
    using t(1,3) f(3) ok'(1) R by (simp add: pool_rel_def)
  moreover have "bpm_step (WriteData p xs) b = Inr (NoOut, ?b)"
    using res f(4) by (simp add: eht.find_law [OF bpm_invD(5) [OF inv]] set_page_def)
  ultimately show ?thesis using write_data by blast
qed

lemma sim_unpin:
  assumes R: "pool_rel a b" and ok: "allowed (UnpinPage p d) a"
  shows "\<exists>out a' b'. bpm_step (UnpinPage p d) b = Inr (out, b') \<and> pool_step (UnpinPage p d) a out a' \<and> pool_rel a' b'"
proof (cases "0 < pins b p")
  case False
  note inv = pool_relD(1) [OF R]
  have p0: "pins b p = 0" using False pins_nonneg [OF inv, of p] by simp
  then have "UnpinPgImp p d b = Inr (False, b)" by (intro UnpinPgImp_false [OF inv]) (simp add: pins_def)
  then show ?thesis using R p0 unpin_false [of a p d] pool_relD(6) [OF R] by auto
next
  case True
  note inv = pool_relD(1) [OF R]
  obtain f where res: "resident b p = Some f" and pin: "0 < pin_count (frame b f)"
    using pins_posD [OF inv True] by blast
  note f = residentD [OF inv res]
  let ?M = "if d then ps_mod a - {p} else ps_mod a"
  obtain b' where b': "UnpinPgImp p d b = Inr (True, b')" "bpm_inv {} b'"
      "\<And>M. coherent M {} b \<Longrightarrow> d \<or> p \<notin> M \<or> 1 < pin_count (frame b f) \<Longrightarrow>
        coherent (if d then M - {p} else M) {} b'" "content b' = content b"
      "\<And>g. g \<in> frames b \<Longrightarrow> frame b' g = (if g = f then (frame b f)\<lparr>is_dirty := d \<or> is_dirty (frame b f),
         pin_count := pin_count (frame b f) - 1\<rparr> else frame b g)"
      "disk_mgr b' = disk_mgr b" "next_page_id b' = next_page_id b" "pool_size b' = pool_size b"
      "resident b' = resident b"
    by (rule UnpinPgImp_true [OF inv res pin, of d]) blast
  have ok': "d \<or> p \<notin> ps_mod a \<or> 1 < pin_count (frame b f)"
    using ok pool_relD(6) [OF R] res pin by (auto simp: pins_def)
  have pins: "pins b' = (pins b)(p := pins b p - 1)"
    using pins_touch [OF inv res b'(9) b'(5)] res by (simp add: pins_def)
  have "0 < pins b' q" if "q \<in> ?M" for q
  proof -
    have "q \<in> ps_mod a" using that by (simp split: if_splits)
    then show ?thesis using pool_relD(6,7) [OF R] ok' that res by (auto simp: pins pins_def split: if_splits)
  qed
  moreover have "blank b'" using pool_relD(3) [OF R] by (simp add: blank_def b'(6,7))
  ultimately have "pool_rel (a\<lparr>ps_pins := (ps_pins a)(p := ps_pins a p - 1), ps_mod := ?M\<rparr>) b'"
    using b'(2) b'(3) [OF pool_relD(2) [OF R] ok'] b'(4,6,7,8) pins R by (simp add: pool_rel_def)
  moreover have "pool_step (UnpinPage p d) a (BoolOut True)
      (a\<lparr>ps_pins := (ps_pins a)(p := ps_pins a p - 1), ps_mod := ?M\<rparr>)"
    using unpin_true [of a p d] True pool_relD(6) [OF R] by simp
  ultimately show ?thesis using b'(1) by auto
qed

lemma flushed_rel:
  assumes R: "pool_rel a b" and fl: "flushed b qs d"
  shows "pool_rel a (b\<lparr>disk_mgr := d\<rparr>)"
proof -
  note inv = pool_relD(1) [OF R]
  have "resident b p = None" if "next_page_id b \<le> p" for p
    using residentD(6) [OF inv, of p] that by (cases "resident b p") auto
  moreover have "0 \<le> next_page_id b" using bpm_invD(4) [OF inv] by (simp add: disk_ok_def)
  ultimately have "blank (b\<lparr>disk_mgr := d\<rparr>)"
    using fl pool_relD(3) [OF R] by (simp add: flushed_def blank_def)
  moreover have "pins (b\<lparr>disk_mgr := d\<rparr>) = pins b" by (simp add: pins_def fun_eq_iff split: option.split)
  moreover have "coherent (ps_mod a) {} (b\<lparr>disk_mgr := d\<rparr>)" "bpm_inv {} (b\<lparr>disk_mgr := d\<rparr>)"
    using fl pool_relD(2) [OF R] by (simp_all add: flushed_def)
  moreover have "content (b\<lparr>disk_mgr := d\<rparr>) p = content b p" if "0 \<le> p" "p < next_page_id b" for p
    using fl that by (simp add: flushed_def)
  moreover have "disk_capacity d = disk_capacity (disk_mgr b)" using fl by (simp add: flushed_def)
  ultimately show ?thesis using R by (simp add: pool_rel_def)
qed

lemma sim_flush:
  assumes R: "pool_rel a b"
  shows "\<exists>out a' b'. bpm_step (FlushPage p) b = Inr (out, b') \<and> pool_step (FlushPage p) a out a' \<and> pool_rel a' b'"
proof -
  obtain d where d: "FlushPgImp p b = Inr (resident b p \<noteq> None, b\<lparr>disk_mgr := d\<rparr>)" "flushed b {p} d"
    using FlushPgImp_spec [OF pool_relD(1) [OF R]] by blast
  have "0 < ps_pins a p \<longrightarrow> resident b p \<noteq> None" using pool_relD(6) [OF R] by (simp add: pins_def split: option.split)
  then have "pool_step (FlushPage p) a (BoolOut (resident b p \<noteq> None)) a" by (rule flush)
  with d(1) flushed_rel [OF R d(2)] show ?thesis by auto
qed

lemma sim_flush_all:
  assumes R: "pool_rel a b"
  shows "\<exists>out a' b'. bpm_step FlushAllPages b = Inr (out, b') \<and> pool_step FlushAllPages a out a' \<and> pool_rel a' b'"
proof -
  obtain d where "FlushAllPgsImp b = Inr (b\<lparr>disk_mgr := d\<rparr>)" "flushed b UNIV d"
    using FlushAllPgsImp_spec [OF pool_relD(1) [OF R]] by blast
  with flushed_rel [OF R] flush_all [of a] show ?thesis by auto
qed

lemma sim_delete:
  assumes R: "pool_rel a b"
  shows "\<exists>out a' b'. bpm_step (DeletePage p) b = Inr (out, b') \<and> pool_step (DeletePage p) a out a' \<and> pool_rel a' b'"
proof (cases "resident b p")
  case None
  have "pins b p = 0" using None by (simp add: pins_def)
  then have "pool_step (DeletePage p) a (BoolOut True) (a\<lparr>ps_content := (ps_content a)(p := ps_content a p)\<rparr>)"
    using pool_relD(6) [OF R] by (intro delete_true) simp
  then show ?thesis using DeletePgImp_miss [OF pool_relD(1) [OF R] None] R by auto
next
  case (Some f)
  note inv = pool_relD(1) [OF R]
  have pin: "pins b p = pin_count (frame b f)" using Some by (simp add: pins_def)
  show ?thesis
  proof (cases "0 < pins b p")
    case True
    then show ?thesis
      using DeletePgImp_pinned [OF inv Some] pin delete_false [of a p] pool_relD(6) [OF R] R by auto
  next
    case False
    then have p0: "pins b p = 0" using pins_nonneg [OF inv, of p] by simp
    then have "pin_count (frame b f) = 0" using pin by simp
    then obtain b' where b': "DeletePgImp p b = Inr (True, b')" "bpm_inv {} b'"
        "\<And>M. coherent M {} b \<Longrightarrow> coherent M {} b'" "\<And>q. q \<noteq> p \<Longrightarrow> content b' q = content b q"
        "\<And>g. g \<in> frames b \<Longrightarrow> frame b' g = (if g = f then Page_init else frame b g)"
        "disk_mgr b' = disk_mgr b" "next_page_id b' = next_page_id b" "pool_size b' = pool_size b"
        "resident b' = (resident b)(p := None)"
      by (rule DeletePgImp_unpinned [OF inv Some]) blast
    have pins: "pins b' = pins b"
    proof
      fix x
      show "pins b' x = pins b x"
      proof (cases "x = p \<or> resident b x = None")
        case True
        then show ?thesis using p0 by (auto simp: b'(9) pins_def)
      next
        case x: False
        then obtain g where g: "resident b x = Some g" by auto
        have "g \<noteq> f" using resident_inj [OF inv g, of p] Some x by blast
        then show ?thesis using g x b'(5) [OF residentD(2) [OF inv g]] by (simp add: b'(9) pins_def)
      qed
    qed
    let ?a = "a\<lparr>ps_content := (ps_content a)(p := content b' p)\<rparr>"
    have "blank b'" using pool_relD(3) [OF R] by (simp add: blank_def b'(6,7))
    moreover have "ps_content ?a x = content b' x" if "0 \<le> x" "x < next_page_id b'" for x
      using b'(4) [of x] pool_relD(8) [OF R that(1)] that(2) b'(7) by simp
    ultimately have "pool_rel ?a b'"
      using b'(2) b'(3) [OF pool_relD(2) [OF R]] b'(6,7,8) pins pool_relD(4-7,9) [OF R] by (simp add: pool_rel_def)
    moreover have "pool_step (DeletePage p) a (BoolOut True) ?a"
      using p0 pool_relD(6) [OF R] by (intro delete_true) simp
    ultimately show ?thesis using b'(1) by auto
  qed
qed

lemma pool_simulation:
  assumes "pool_rel a b" and "allowed op a"
  shows "\<exists>out a' b'. bpm_step op b = Inr (out, b') \<and> pool_step op a out a' \<and> pool_rel a' b'"
proof (cases op)
  case NewPage
  show ?thesis unfolding NewPage by (rule sim_new [OF assms [unfolded NewPage]])
next
  case (FetchPage p)
  show ?thesis unfolding FetchPage by (rule sim_fetch [OF assms [unfolded FetchPage]])
next
  case (WriteData p xs)
  show ?thesis unfolding WriteData by (rule sim_write [OF assms [unfolded WriteData]])
next
  case (UnpinPage p d)
  show ?thesis unfolding UnpinPage by (rule sim_unpin [OF assms [unfolded UnpinPage]])
next
  case (FlushPage p)
  show ?thesis unfolding FlushPage by (rule sim_flush [OF assms(1)])
next
  case FlushAllPages
  show ?thesis unfolding FlushAllPages by (rule sim_flush_all [OF assms(1)])
next
  case (DeletePage p)
  show ?thesis unfolding DeletePage by (rule sim_delete [OF assms(1)])
qed

section \<open>Runs\<close>

fun bpm_run :: "bpm_op list \<Rightarrow> bpm \<Rightarrow> (bpm_out list \<times> bpm) result" where
  "bpm_run [] b = Inr ([], b)"
| "bpm_run (op # ops) b =
     bind_result (bpm_step op b) (\<lambda>(out, b). bind_result (bpm_run ops b) (\<lambda>(outs, b). Inr (out # outs, b)))"

inductive pool_run :: "bpm_op list \<Rightarrow> pool_spec \<Rightarrow> bpm_out list \<Rightarrow> pool_spec \<Rightarrow> bool" where
  run_nil: "pool_run [] a [] a"
| run_cons: "pool_step op a out a1 \<Longrightarrow> pool_run ops a1 outs a2 \<Longrightarrow> pool_run (op # ops) a (out # outs) a2"

fun disciplined :: "bpm_op list \<Rightarrow> pool_spec \<Rightarrow> bool" where
  "disciplined [] a \<longleftrightarrow> True"
| "disciplined (op # ops) a \<longleftrightarrow> allowed op a \<and> (\<forall>out a'. pool_step op a out a' \<longrightarrow> disciplined ops a')"

definition pool_spec_init :: "nat \<Rightarrow> int \<Rightarrow> pool_spec" where
  "pool_spec_init n cap =
     \<lparr>ps_size = n, ps_cap = cap, ps_next = 0, ps_content = (\<lambda>_. zero_page), ps_pins = (\<lambda>_. 0), ps_mod = {}\<rparr>"

lemma bpm_run_refines:
  assumes "pool_rel a b" and "disciplined ops a"
  shows "\<exists>outs a' b'. bpm_run ops b = Inr (outs, b') \<and> pool_run ops a outs a' \<and> pool_rel a' b'"
  using assms
proof (induction ops arbitrary: a b)
  case Nil
  then show ?case by (auto intro: run_nil)
next
  case (Cons op ops)
  obtain out a1 b1 where 1: "bpm_step op b = Inr (out, b1)" "pool_step op a out a1" "pool_rel a1 b1"
    using pool_simulation [OF Cons.prems(1), of op] Cons.prems(2) by auto
  obtain outs a2 b2 where 2: "bpm_run ops b1 = Inr (outs, b2)" "pool_run ops a1 outs a2" "pool_rel a2 b2"
    using Cons.IH [OF 1(3)] Cons.prems(2) 1(2) by auto
  show ?case using 1(1) 2(1,3) run_cons [OF 1(2) 2(2)] by auto
qed

lemma disk_capacity_nonneg: "0 \<le> disk_capacity d"
  by (cases d) simp_all

lemma pool_rel_init:
  assumes k: "2 \<le> k" and n: "n < 2 ^ 31" and d: "disk_inv d"
    and zero: "\<And>p. 0 \<le> p \<Longrightarrow> p < disk_capacity d \<Longrightarrow> disk_image d p = zero_page"
  shows "pool_rel (pool_spec_init n (disk_capacity d)) (bpm_init n d k)"
proof -
  let ?b = "bpm_init n d k"
  have sel: "free_list ?b = map int [0..<n]" "pool_size ?b = n" "pages ?b = replicate n Page_init"
    "rep ?b = LRUKReplacer_init n k" "ptable ?b = ExtendibleHashTable_init 4" "next_page_id ?b = 0" "disk_mgr ?b = d"
    by (simp_all add: bpm_init_def)
  have all: "set (map int [0..<n]) = frames ?b" by (auto simp: sel image_iff intro!: bexI [of _ "nat _"])
  have used: "used {} ?b = {}" by (simp add: used_def sel(1) all del: set_map)
  have res: "resident ?b = Map.empty" by (simp add: sel(5) eht_map_init)
  have "free_ok {} ?b" unfolding free_ok_def sel(1) all by (auto simp: sel distinct_map)
  moreover have "rep_ok {} ?b" using lruk_inv_init [OF k n] by (simp add: rep_ok_def used) (simp add: sel)
  moreover have "table_ok {} ?b"
    unfolding table_ok_def res used by (simp add: sel(5) page_table_inv_def eht_inv_init)
  moreover have "disk_ok ?b" using d disk_capacity_nonneg by (simp add: disk_ok_def sel)
  ultimately have "bpm_inv {} ?b" by (simp add: bpm_inv_def used)
  moreover have "pins ?b = (\<lambda>_. 0)" by (simp add: pins_def fun_eq_iff res)
  moreover have "coherent {} {} ?b" by (simp add: coherent_def used)
  moreover have "blank ?b" using zero by (simp add: blank_def sel(6,7))
  ultimately show ?thesis by (auto simp: pool_rel_def pool_spec_init_def sel)
qed

lemma bpm_init_inv: "bpm_inv {} (bpm_init 3 (UnlimitedDisk []) 10)"
  by (rule pool_relD(1) [OF pool_rel_init]) (simp_all add: nth_default_def)

lemma bpm_resident_example:
  obtains f b where "bpm_inv {} b" and "resident b 0 = Some f" and "pin_count (frame b f) = 1"
proof -
  let ?b = "bpm_init 3 (UnlimitedDisk []) 10"
  have sel: "next_page_id ?b = 0" "disk_capacity (disk_mgr ?b) = 2 ^ 31 - 1" "is_free_page ?b"
    by (simp_all add: bpm_init_def is_free_page_def Page_init_def list_ex_iff)
  obtain f b' where "loaded (?b\<lparr>next_page_id := next_page_id ?b + 1\<rparr>) f
      \<lparr>pg_data = zero_page, pg_id = next_page_id ?b, pin_count = 1, is_dirty = False\<rparr> b'"
    by (rule NewPgImp_spec [OF bpm_init_inv _ _ sel(3)]) (simp_all add: sel)
  then show ?thesis using sel(1) by (intro that [of b' f]) (simp_all add: loaded_def)
qed

section \<open>Properties\<close>

inductive_simps pool_step_simps:
  "pool_step NewPage a out a'" "pool_step (UnpinPage p d) a out a'" "pool_step (WriteData p xs) a out a'"
  "pool_step (FetchPage p) a out a'"

text \<open>
  C10. The buffer pool manager is transparent: started on a blank disk, any sequence of new, fetch,
  write, unpin, flush, flush-all and delete calls that keeps the client discipline runs without
  error, and every answer is one that the abstract pool of page contents and pin counts allows.  In
  particular a fetched page always holds the bytes last written to it, however often it was evicted,
  and a page is refused exactly when every frame is pinned.
\<close>

theorem bpm_refines_pool:
  assumes "2 \<le> k" and "n < 2 ^ 31" and "disk_inv d"
    and "\<And>p. 0 \<le> p \<Longrightarrow> p < disk_capacity d \<Longrightarrow> disk_image d p = zero_page"
    and "disciplined ops (pool_spec_init n (disk_capacity d))"
  shows "\<exists>outs a b. bpm_run ops (bpm_init n d k) = Inr (outs, b) \<and>
    pool_run ops (pool_spec_init n (disk_capacity d)) outs a \<and> pool_rel a b"
  by (rule bpm_run_refines [OF pool_rel_init [OF assms(1-3) assms(4)] assms(5)])

theorem bpm_refines_pool_witness:
  "\<exists>outs a b. bpm_run [NewPage, WriteData 0 (replicate BUSTUB_PAGE_SIZE 7), UnpinPage 0 True]
      (bpm_init 2 (UnlimitedDisk []) 10) = Inr (outs, b) \<and>
    pool_run [NewPage, WriteData 0 (replicate BUSTUB_PAGE_SIZE 7), UnpinPage 0 True]
      (pool_spec_init 2 (2 ^ 31 - 1)) outs a \<and> pool_rel a b"
  using bpm_refines_pool [of 10 2 "UnlimitedDisk []"
      "[NewPage, WriteData 0 (replicate BUSTUB_PAGE_SIZE 7), UnpinPage 0 True]"]
  by (simp add: pool_spec_init_def pool_step_simps ps_full_def nth_default_def
      del: bpm_run.simps BUSTUB_PAGE_SIZE_pos)

text \<open>
  C11. \<open>NewPgImp\<close> on a consistent pool fails exactly when every frame is pinned, and then changes
  nothing.  Otherwise it hands out the next page id in a frame that was unpinned, zeroed, clean and
  pinned once; every other frame is untouched and the pool stays consistent.
\<close>

theorem bpm_new_page:
  assumes "bpm_inv {} b" and "next_page_id b < disk_capacity (disk_mgr b)" and "next_page_id b < 2 ^ 30"
  shows "if \<forall>f \<in> frames b. pin_count (frame b f) \<noteq> 0 then NewPgImp b = Inr (None, b)
    else \<exists>f b'. NewPgImp b = Inr (Some (next_page_id b, f), b') \<and> bpm_inv {} b' \<and>
      next_page_id b' = next_page_id b + 1 \<and> f \<in> frames b \<and> pin_count (frame b f) = 0 \<and>
      frame b' f = \<lparr>pg_data = zero_page, pg_id = next_page_id b, pin_count = 1, is_dirty = False\<rparr> \<and>
      (\<forall>g \<in> frames b. g \<noteq> f \<longrightarrow> frame b' g = frame b g)"
proof (cases "is_free_page b")
  case False
  then show ?thesis using unpinned_frame_iff [OF assms(1)] NewPgImp_full [OF False] by simp
next
  case True
  obtain f b' where "NewPgImp b = Inr (Some (next_page_id b, f), b')"
    and "loaded (b\<lparr>next_page_id := next_page_id b + 1\<rparr>) f
      \<lparr>pg_data = zero_page, pg_id = next_page_id b, pin_count = 1, is_dirty = False\<rparr> b'"
    using NewPgImp_spec [OF assms True] by blast
  then show ?thesis using unpinned_frame_iff [OF assms(1)] True by (auto simp: loaded_def)
qed

theorem bpm_new_page_witness:
  "bpm_inv {} (bpm_init 3 (UnlimitedDisk []) 10) \<and>
   (\<exists>f b'. NewPgImp (bpm_init 3 (UnlimitedDisk []) 10) = Inr (Some (0, f), b') \<and> next_page_id b' = 1)"
proof
  let ?b = "bpm_init 3 (UnlimitedDisk []) 10"
  show inv: "bpm_inv {} ?b" by (rule bpm_init_inv)
  have "pin_count (frame ?b 0) = 0" "0 \<in> frames ?b" by (simp_all add: bpm_init_def Page_init_def)
  then have unpinned: "\<not> (\<forall>f \<in> frames ?b. pin_count (frame ?b f) \<noteq> 0)" by blast
  have sel: "next_page_id ?b = 0" "disk_capacity (disk_mgr ?b) = 2 ^ 31 - 1" by (simp_all add: bpm_init_def)
  have "next_page_id ?b < disk_capacity (disk_mgr ?b)" "next_page_id ?b < 2 ^ 30" by (simp_all add: sel)
  from bpm_new_page [OF inv this, unfolded if_not_P [OF unpinned] sel(1)]
  show "\<exists>f b'. NewPgImp ?b = Inr (Some (0, f), b') \<and> next_page_id b' = 1" by auto
qed

text \<open>
  C12. Flushing writes every resident page to disk and changes neither the frames nor what a client
  reads; but it does not clear the dirty flag that the interface says it unsets.
\<close>

theorem bpm_flush_all:
  assumes "bpm_inv {} b"
  shows "\<exists>b'. FlushAllPgsImp b = Inr b' \<and> bpm_inv {} b' \<and> pages b' = pages b \<and>
    (\<forall>f \<in> used {} b. disk_image (disk_mgr b') (pg_id (frame b f)) = pg_data (frame b f) \<and>
       is_dirty (frame b' f) = is_dirty (frame b f))"
proof -
  obtain d where d: "FlushAllPgsImp b = Inr (b\<lparr>disk_mgr := d\<rparr>)" "flushed b UNIV d"
    using FlushAllPgsImp_spec [OF assms] by blast
  have "disk_image d (pg_id (frame b f)) = pg_data (frame b f)" if f: "f \<in> used {} b" for f
  proof -
    have "0 \<le> pg_id (frame b f)" "pg_id (frame b f) < disk_capacity (disk_mgr b)"
      using bpm_invD(8) [OF assms f] bpm_invD(4) [OF assms] by (simp_all add: page_ok_def disk_ok_def)
    then show ?thesis using d(2) residentI [OF assms f] by (simp add: flushed_def)
  qed
  with d show ?thesis by (auto simp: flushed_def)
qed

theorem bpm_flush_all_witness:
  "\<exists>b f b'. resident b 0 = Some f \<and> FlushAllPgsImp b = Inr b' \<and> disk_image (disk_mgr b') 0 = pg_data (frame b f)"
proof (rule bpm_resident_example)
  fix b f assume b: "bpm_inv {} b" "resident b 0 = Some f"
  note f = residentD [OF b]
  from bpm_flush_all [OF b(1)] f(1,3) b(2) show ?thesis by metis
qed

text \<open>
  C13. Deleting a page that is pinned is refused without any effect; deleting an unpinned resident
  page empties its frame, appends the frame to the free list and forgets the page, leaving the other
  frames and the contents of the other pages alone.
\<close>

theorem bpm_delete_page:
  assumes "bpm_inv {} b" and "resident b p = Some f"
  shows "if 0 < pin_count (frame b f) then DeletePgImp p b = Inr (False, b)
    else \<exists>b'. DeletePgImp p b = Inr (True, b') \<and> bpm_inv {} b' \<and> resident b' = (resident b)(p := None) \<and>
      frame b' f = Page_init \<and> (\<forall>g \<in> frames b. g \<noteq> f \<longrightarrow> frame b' g = frame b g) \<and>
      (\<forall>q. q \<noteq> p \<longrightarrow> content b' q = content b q)"
proof (cases "0 < pin_count (frame b f)")
  case True
  then show ?thesis using DeletePgImp_pinned [OF assms] by simp
next
  case False
  then have "pin_count (frame b f) = 0" using residentD(7) [OF assms] by (simp add: page_ok_def)
  then obtain b' where "DeletePgImp p b = Inr (True, b')" "bpm_inv {} b'"
      "\<And>M. coherent M {} b \<Longrightarrow> coherent M {} b'" "\<And>q. q \<noteq> p \<Longrightarrow> content b' q = content b q"
      "\<And>g. g \<in> frames b \<Longrightarrow> frame b' g = (if g = f then Page_init else frame b g)"
      "disk_mgr b' = disk_mgr b" "next_page_id b' = next_page_id b" "pool_size b' = pool_size b"
      "resident b' = (resident b)(p := None)"
    by (rule DeletePgImp_unpinned [OF assms]) blast
  then show ?thesis using False residentD(2) [OF assms] by auto
qed

theorem bpm_delete_page_witness:
  "\<exists>b f b1 b2. resident b 0 = Some f \<and> DeletePgImp 0 b = Inr (False, b) \<and>
    UnpinPgImp 0 False b = Inr (True, b1) \<and> DeletePgImp 0 b1 = Inr (True, b2) \<and> resident b2 0 = None"
proof (rule bpm_resident_example)
  fix b f assume b: "bpm_inv {} b" "resident b 0 = Some f" "pin_count (frame b f) = 1"
  have pinned: "DeletePgImp 0 b = Inr (False, b)" using bpm_delete_page [OF b(1,2)] b(3) by simp
  obtain b1 where b1: "UnpinPgImp 0 False b = Inr (True, b1)" "bpm_inv {} b1" "resident b1 = resident b"
      "\<And>g. g \<in> frames b \<Longrightarrow> frame b1 g = (if g = f then (frame b f)\<lparr>is_dirty := False \<or> is_dirty (frame b f),
        pin_count := pin_count (frame b f) - 1\<rparr> else frame b g)"
    by (rule UnpinPgImp_true [OF b(1,2), of False]) (use b(3) in auto)
  have "pin_count (frame b1 f) = 0" using b1(4) residentD(2) [OF b(1,2)] b(3) by simp
  then obtain b2 where "DeletePgImp 0 b1 = Inr (True, b2)" "resident b2 = (resident b1)(0 := None)"
    using bpm_delete_page [OF b1(2), of 0 f] b1(3) b(2) by auto
  then show ?thesis using b(2) pinned b1(1) by auto
qed

end
