(* ===== verification/Records.thy ===== *)
theory Records
  imports HeaderPage
begin

unbundle bit_operations_syntax

text \<open>
  Record identifiers, tuples as byte arrays, and checked access to the bytes of a page:
  \<^verbatim>\<open>src/include/common/rid.h\<close> and the members of
  \<^verbatim>\<open>src/include/storage/table/tuple.h\<close> that do not need a schema.  An access outside the
  array it goes to has no defined meaning.
\<close>

section \<open>Record identifiers\<close>

record RID =
  rid_page_id :: page_id_t
  rid_slot_num :: int

definition RID_default :: RID where
  "RID_default = \<lparr>rid_page_id = INVALID_PAGE_ID, rid_slot_num = 0\<rparr>"

definition RID_of_int64 :: "int \<Rightarrow> RID" where
  "RID_of_int64 i = \<lparr>rid_page_id = scast 32 (drop_bit 32 i), rid_slot_num = i mod 2 ^ 32\<rparr>"

definition RID_Get :: "RID \<Rightarrow> int" where
  "RID_Get r = push_bit 32 (rid_page_id r) OR rid_slot_num r"

definition RID_ToString :: "RID \<Rightarrow> string" where
  "RID_ToString r =
     ''page_id: '' @ to_string (rid_page_id r) @ '' slot_num: '' @ to_string (rid_slot_num r) @ [CHR 0x0A]"

definition RID_eq :: "RID \<Rightarrow> RID \<Rightarrow> bool" where
  "RID_eq r other \<longleftrightarrow> rid_page_id r = rid_page_id other \<and> rid_slot_num r = rid_slot_num other"

definition wf_RID :: "RID \<Rightarrow> bool" where
  "wf_RID r \<longleftrightarrow> in_sint 32 (rid_page_id r) \<and> 0 \<le> rid_slot_num r \<and> rid_slot_num r < 2 ^ 32"

lemma RID_Get_add:
  assumes "wf_RID r"
  shows "RID_Get r = rid_page_id r * 2 ^ 32 + rid_slot_num r"
proof -
  have "take_bit 32 (rid_slot_num r) = rid_slot_num r"
    using assms by (simp add: wf_RID_def take_bit_int_eq_self_iff)
  then have low: "bit (rid_slot_num r) n \<Longrightarrow> n < 32" for n
    by (metis bit_take_bit_iff)
  have "push_bit 32 (rid_page_id r) AND rid_slot_num r = 0"
    by (rule bit_eqI) (auto simp: bit_and_iff bit_push_bit_iff dest: low)
  then have "push_bit 32 (rid_page_id r) OR rid_slot_num r = push_bit 32 (rid_page_id r) + rid_slot_num r"
    by (simp add: disjunctive_add_eq_or)
  then show ?thesis by (simp add: RID_Get_def push_bit_eq_mult)
qed

lemma RID_round_trip: "wf_RID r \<Longrightarrow> RID_of_int64 (RID_Get r) = r"
  by (cases r) (simp add: RID_Get_add RID_of_int64_def drop_bit_eq_div wf_RID_def scast_id)

section \<open>Tuples\<close>

text \<open>
  A tuple owns the bytes it points to; \<^verbatim>\<open>size_\<close> is their number.  A tuple that was not
  given any data has none.
\<close>

record Tuple =
  t_allocated :: bool
  t_rid :: RID
  t_data :: "byte list"

definition Tuple_default :: Tuple where
  "Tuple_default = \<lparr>t_allocated = False, t_rid = RID_default, t_data = []\<rparr>"

definition Tuple_of_rid :: "RID \<Rightarrow> Tuple" where
  "Tuple_of_rid r = \<lparr>t_allocated = False, t_rid = r, t_data = []\<rparr>"

definition t_size :: "Tuple \<Rightarrow> int" where
  "t_size t = int (length (t_data t))"

definition Tuple_SerializeTo :: "Tuple \<Rightarrow> byte list \<Rightarrow> byte list result" where
  "Tuple_SerializeTo t storage = store_bytes (le_bytes 4 (t_size t) @ t_data t) storage"

definition Tuple_DeserializeFrom :: "byte list \<Rightarrow> Tuple \<Rightarrow> Tuple result" where
  "Tuple_DeserializeFrom storage t =
     bind_result (load_bytes 4 storage) (\<lambda>bs.
     bind_result (load_bytes (nat (le_uint bs)) (drop 4 storage)) (\<lambda>data.
       Inr (t\<lparr>t_data := data, t_allocated := True\<rparr>)))"

lemma Tuple_serialize_round_trip:
  assumes "length (t_data t) < 2 ^ 32" "4 + length (t_data t) \<le> length storage"
  shows "bind_result (Tuple_SerializeTo t storage) (\<lambda>st. Tuple_DeserializeFrom st u) =
    Inr (u\<lparr>t_data := t_data t, t_allocated := True\<rparr>)"
proof -
  have "le_uint (le_bytes 4 (int (length (t_data t)))) = int (length (t_data t))"
    using assms(1) by (simp add: le_uint_le_bytes)
  then show ?thesis
    using assms(2) by (simp add: Tuple_SerializeTo_def Tuple_DeserializeFrom_def store_bytes_def load_bytes_def t_size_def)
qed

section \<open>Checked access\<close>

definition load_u32 :: "int \<Rightarrow> byte list \<Rightarrow> int result" where
  "load_u32 off d =
     (if 0 \<le> off \<and> off + 4 \<le> int (length d) then Inr (le_uint (peek (nat off) 4 d))
      else Inl UndefinedBehaviour)"

definition load_region :: "int \<Rightarrow> int \<Rightarrow> byte list \<Rightarrow> byte list result" where
  "load_region off n d =
     (if 0 \<le> off \<and> 0 \<le> n \<and> off + n \<le> int (length d) then Inr (peek (nat off) (nat n) d)
      else Inl UndefinedBehaviour)"

definition memmove :: "int \<Rightarrow> int \<Rightarrow> int \<Rightarrow> byte list \<Rightarrow> byte list result" where
  "memmove dst src n d = bind_result (load_region src n d) (\<lambda>bs. poke_checked dst bs d)"

definition u32 :: "int \<Rightarrow> int" where
  "u32 x = x mod 2 ^ 32"

lemma u32_id: "0 \<le> x \<Longrightarrow> x < 2 ^ 32 \<Longrightarrow> u32 x = x"
  by (simp add: u32_def)

end
