(* ===== verification/TablePage.thy ===== *)
theory TablePage
  imports Records
begin

unbundle bit_operations_syntax

text \<open>
  The slotted page of \<^verbatim>\<open>src/storage/page/table_page.cpp\<close> and
  \<^verbatim>\<open>src/include/storage/page/table_page.h\<close>, on the bytes of the page.  The header has 24
  bytes; then one offset and one size of 32 bits each per slot; the tuples fill the page from its
  end down to the free space pointer.  A size with the top bit set marks a deleted tuple, a size of
  zero a slot that can be reused.  \<open>uint32_t\<close> arithmetic wraps.

  \<open>enable_logging\<close> is an argument.  Where the code sets the state of the transaction to
  \<^verbatim>\<open>ABORTED\<close>, the result says so; \<^verbatim>\<open>AppendLogRecord\<close> always returns
  \<^verbatim>\<open>INVALID_LSN\<close>.  The specification is a list of slots, each empty, live or marked as
  deleted.
\<close>

section \<open>Fields of the page\<close>

definition DELETE_MASK :: int where
  "DELETE_MASK = push_bit 31 1"

definition SIZE_TABLE_PAGE_HEADER :: int where "SIZE_TABLE_PAGE_HEADER = 24"
definition SIZE_TUPLE :: int where "SIZE_TUPLE = 8"
definition OFFSET_LSN :: nat where "OFFSET_LSN = 4"
definition OFFSET_PREV_PAGE_ID :: nat where "OFFSET_PREV_PAGE_ID = 8"
definition OFFSET_NEXT_PAGE_ID :: nat where "OFFSET_NEXT_PAGE_ID = 12"
definition OFFSET_FREE_SPACE :: nat where "OFFSET_FREE_SPACE = 16"
definition OFFSET_TUPLE_COUNT :: nat where "OFFSET_TUPLE_COUNT = 20"
definition OFFSET_TUPLE_OFFSET :: int where "OFFSET_TUPLE_OFFSET = 24"
definition OFFSET_TUPLE_SIZE :: int where "OFFSET_TUPLE_SIZE = 28"
definition INVALID_LSN :: int where "INVALID_LSN = -1"

definition GetTablePageId :: "byte list \<Rightarrow> page_id_t" where
  "GetTablePageId d = le_sint (peek 0 4 d)"

definition GetPrevPageId :: "byte list \<Rightarrow> page_id_t" where
  "GetPrevPageId d = le_sint (peek OFFSET_PREV_PAGE_ID 4 d)"

definition GetNextPageId :: "byte list \<Rightarrow> page_id_t" where
  "GetNextPageId d = le_sint (peek OFFSET_NEXT_PAGE_ID 4 d)"

definition SetPrevPageId :: "page_id_t \<Rightarrow> byte list \<Rightarrow> byte list" where
  "SetPrevPageId p d = poke OFFSET_PREV_PAGE_ID (le_bytes 4 p) d"

definition SetNextPageId :: "page_id_t \<Rightarrow> byte list \<Rightarrow> byte list" where
  "SetNextPageId p d = poke OFFSET_NEXT_PAGE_ID (le_bytes 4 p) d"

definition SetLSN :: "int \<Rightarrow> byte list \<Rightarrow> byte list" where
  "SetLSN lsn d = poke OFFSET_LSN (le_bytes 4 lsn) d"

definition GetFreeSpacePointer :: "byte list \<Rightarrow> int" where
  "GetFreeSpacePointer d = le_uint (peek OFFSET_FREE_SPACE 4 d)"

definition SetFreeSpacePointer :: "int \<Rightarrow> byte list \<Rightarrow> byte list" where
  "SetFreeSpacePointer p d = poke OFFSET_FREE_SPACE (le_bytes 4 p) d"

definition GetTupleCount :: "byte list \<Rightarrow> int" where
  "GetTupleCount d = le_uint (peek OFFSET_TUPLE_COUNT 4 d)"

definition SetTupleCount :: "int \<Rightarrow> byte list \<Rightarrow> byte list" where
  "SetTupleCount n d = poke OFFSET_TUPLE_COUNT (le_bytes 4 n) d"

definition GetFreeSpaceRemaining :: "byte list \<Rightarrow> int" where
  "GetFreeSpaceRemaining d =
     u32 (GetFreeSpacePointer d - SIZE_TABLE_PAGE_HEADER - SIZE_TUPLE * GetTupleCount d)"

definition GetTupleOffsetAtSlot :: "int \<Rightarrow> byte list \<Rightarrow> int result" where
  "GetTupleOffsetAtSlot slot_num d = load_u32 (OFFSET_TUPLE_OFFSET + SIZE_TUPLE * slot_num) d"

definition SetTupleOffsetAtSlot :: "int \<Rightarrow> int \<Rightarrow> byte list \<Rightarrow> byte list result" where
  "SetTupleOffsetAtSlot slot_num off d =
     poke_checked (OFFSET_TUPLE_OFFSET + SIZE_TUPLE * slot_num) (le_bytes 4 off) d"

definition GetTupleSize :: "int \<Rightarrow> byte list \<Rightarrow> int result" where
  "GetTupleSize slot_num d = load_u32 (OFFSET_TUPLE_SIZE + SIZE_TUPLE * slot_num) d"

definition SetTupleSize :: "int \<Rightarrow> int \<Rightarrow> byte list \<Rightarrow> byte list result" where
  "SetTupleSize slot_num sz d =
     poke_checked (OFFSET_TUPLE_SIZE + SIZE_TUPLE * slot_num) (le_bytes 4 sz) d"

definition IsDeleted :: "int \<Rightarrow> bool" where
  "IsDeleted tuple_size \<longleftrightarrow> tuple_size AND DELETE_MASK \<noteq> 0 \<or> tuple_size = 0"

definition SetDeletedFlag :: "int \<Rightarrow> int" where
  "SetDeletedFlag tuple_size = u32 (tuple_size OR DELETE_MASK)"

definition UnsetDeletedFlag :: "int \<Rightarrow> int" where
  "UnsetDeletedFlag tuple_size = u32 (tuple_size AND NOT DELETE_MASK)"

section \<open>Operations\<close>

definition TablePage_Init :: "bool \<Rightarrow> page_id_t \<Rightarrow> int \<Rightarrow> page_id_t \<Rightarrow> byte list \<Rightarrow> byte list" where
  "TablePage_Init enable_logging page_id page_size prev_page_id d =
     (let d = poke 0 (le_bytes 4 page_id) d;
          d = (if enable_logging then SetLSN INVALID_LSN d else d);
          d = SetPrevPageId prev_page_id d;
          d = SetNextPageId INVALID_PAGE_ID d;
          d = SetFreeSpacePointer page_size d
      in SetTupleCount 0 d)"

text \<open>The search for a slot of size zero, from slot \<open>i\<close> on with \<open>n\<close> slots left.\<close>

fun find_free_slot :: "nat \<Rightarrow> int \<Rightarrow> byte list \<Rightarrow> int result" where
  "find_free_slot 0 i d = Inr i"
| "find_free_slot (Suc n) i d =
     bind_result (GetTupleSize i d) (\<lambda>sz. if sz = 0 then Inr i else find_free_slot n (i + 1) d)"

definition TablePage_InsertTuple :: "Tuple \<Rightarrow> byte list \<Rightarrow> (RID option \<times> byte list) result" where
  "TablePage_InsertTuple tuple d =
     (if \<not> t_size tuple > 0 then Inl AssertionFailure
      else if GetFreeSpaceRemaining d < t_size tuple + SIZE_TUPLE then Inr (None, d)
      else
        bind_result (find_free_slot (nat (GetTupleCount d)) 0 d) (\<lambda>i.
        if i = GetTupleCount d \<and> GetFreeSpaceRemaining d < t_size tuple + SIZE_TUPLE then Inr (None, d)
        else
          let d = SetFreeSpacePointer (u32 (GetFreeSpacePointer d - t_size tuple)) d
          in bind_result (poke_checked (GetFreeSpacePointer d) (t_data tuple) d) (\<lambda>d.
             bind_result (SetTupleOffsetAtSlot i (GetFreeSpacePointer d) d) (\<lambda>d.
             bind_result (SetTupleSize i (t_size tuple) d) (\<lambda>d.
               let rid = \<lparr>rid_page_id = GetTablePageId d, rid_slot_num = i\<rparr>;
                   d = (if i = GetTupleCount d then SetTupleCount (u32 (GetTupleCount d + 1)) d else d)
               in Inr (Some rid, d))))))"

text \<open>
  The remaining operations that can fail return whether they succeeded, whether they aborted the
  transaction, and the page.
\<close>

definition TablePage_MarkDelete :: "bool \<Rightarrow> RID \<Rightarrow> byte list \<Rightarrow> (bool \<times> bool \<times> byte list) result" where
  "TablePage_MarkDelete enable_logging rid d =
     (let slot_num = rid_slot_num rid
      in if slot_num \<ge> GetTupleCount d then Inr (False, enable_logging, d)
         else bind_result (GetTupleSize slot_num d) (\<lambda>tuple_size.
           if IsDeleted tuple_size then Inr (False, enable_logging, d)
           else if tuple_size > 0 then
             bind_result (SetTupleSize slot_num (SetDeletedFlag tuple_size) d) (\<lambda>d. Inr (True, False, d))
           else Inr (True, False, d)))"

text \<open>
  The loop that moves the offsets of the tuples below \<open>bound\<close> by \<open>delta\<close>, over the
  \<open>n\<close> slots from \<open>i\<close> on.
\<close>

fun shift_offsets :: "nat \<Rightarrow> int \<Rightarrow> int \<Rightarrow> int \<Rightarrow> byte list \<Rightarrow> byte list result" where
  "shift_offsets 0 i bound delta d = Inr d"
| "shift_offsets (Suc n) i bound delta d =
     bind_result (GetTupleOffsetAtSlot i d) (\<lambda>tuple_offset_i.
     bind_result (GetTupleSize i d) (\<lambda>sz.
     bind_result (if sz > 0 \<and> tuple_offset_i < bound then SetTupleOffsetAtSlot i (u32 (tuple_offset_i + delta)) d
                  else Inr d) (\<lambda>d.
       shift_offsets n (i + 1) bound delta d)))"

definition TablePage_UpdateTuple ::
  "bool \<Rightarrow> Tuple \<Rightarrow> Tuple \<Rightarrow> RID \<Rightarrow> byte list \<Rightarrow> (bool \<times> bool \<times> Tuple \<times> byte list) result" where
  "TablePage_UpdateTuple enable_logging new_tuple old_tuple rid d =
     (if \<not> t_size new_tuple > 0 then Inl AssertionFailure
      else
        let slot_num = rid_slot_num rid
        in if slot_num \<ge> GetTupleCount d then Inr (False, enable_logging, old_tuple, d)
           else bind_result (GetTupleSize slot_num d) (\<lambda>tuple_size.
             if IsDeleted tuple_size then Inr (False, enable_logging, old_tuple, d)
             else if u32 (GetFreeSpaceRemaining d + tuple_size) < t_size new_tuple then Inr (False, False, old_tuple, d)
             else
               bind_result (GetTupleOffsetAtSlot slot_num d) (\<lambda>tuple_offset.
               bind_result (load_region tuple_offset tuple_size d) (\<lambda>old_data.
               let old_tuple = \<lparr>t_allocated = True, t_rid = rid, t_data = old_data\<rparr>;
                   free_space_pointer = GetFreeSpacePointer d
               in if \<not> tuple_offset \<ge> free_space_pointer then Inl AssertionFailure
                  else
                    bind_result (memmove (free_space_pointer + tuple_size - t_size new_tuple) free_space_pointer
                        (tuple_offset - free_space_pointer) d) (\<lambda>d.
                    let d = SetFreeSpacePointer (u32 (free_space_pointer + tuple_size - t_size new_tuple)) d
                    in bind_result (poke_checked (tuple_offset + tuple_size - t_size new_tuple) (t_data new_tuple) d) (\<lambda>d.
                       bind_result (SetTupleSize slot_num (t_size new_tuple) d) (\<lambda>d.
                       bind_result (shift_offsets (nat (GetTupleCount d)) 0 (u32 (tuple_offset + tuple_size))
                           (tuple_size - t_size new_tuple) d) (\<lambda>d.
                         Inr (True, False, old_tuple, d)))))))))"

definition TablePage_ApplyDelete :: "RID \<Rightarrow> byte list \<Rightarrow> byte list result" where
  "TablePage_ApplyDelete rid d =
     (let slot_num = rid_slot_num rid
      in if \<not> slot_num < GetTupleCount d then Inl AssertionFailure
         else
           bind_result (GetTupleOffsetAtSlot slot_num d) (\<lambda>tuple_offset.
           bind_result (GetTupleSize slot_num d) (\<lambda>sz.
           let tuple_size = (if IsDeleted sz then UnsetDeletedFlag sz else sz);
               free_space_pointer = GetFreeSpacePointer d
           in bind_result (load_region tuple_offset tuple_size d) (\<lambda>delete_tuple.
              if \<not> tuple_offset \<ge> free_space_pointer then Inl AssertionFailure
              else
                bind_result (memmove (free_space_pointer + tuple_size) free_space_pointer
                    (tuple_offset - free_space_pointer) d) (\<lambda>d.
                let d = SetFreeSpacePointer (u32 (free_space_pointer + tuple_size)) d
                in bind_result (SetTupleSize slot_num 0 d) (\<lambda>d.
                   bind_result (SetTupleOffsetAtSlot slot_num 0 d) (\<lambda>d.
                     shift_offsets (nat (GetTupleCount d)) 0 tuple_offset tuple_size d)))))))"

definition TablePage_RollbackDelete :: "RID \<Rightarrow> byte list \<Rightarrow> byte list result" where
  "TablePage_RollbackDelete rid d =
     (let slot_num = rid_slot_num rid
      in if \<not> slot_num < GetTupleCount d then Inl AssertionFailure
         else bind_result (GetTupleSize slot_num d) (\<lambda>tuple_size.
           if IsDeleted tuple_size then SetTupleSize slot_num (UnsetDeletedFlag tuple_size) d else Inr d))"

definition TablePage_GetTuple :: "bool \<Rightarrow> RID \<Rightarrow> Tuple \<Rightarrow> byte list \<Rightarrow> (bool \<times> bool \<times> Tuple) result" where
  "TablePage_GetTuple enable_logging rid tuple d =
     (let slot_num = rid_slot_num rid
      in if slot_num \<ge> GetTupleCount d then Inr (False, enable_logging, tuple)
         else bind_result (GetTupleSize slot_num d) (\<lambda>tuple_size.
           if IsDeleted tuple_size then Inr (False, enable_logging, tuple)
           else
             bind_result (GetTupleOffsetAtSlot slot_num d) (\<lambda>tuple_offset.
             bind_result (load_region tuple_offset tuple_size d) (\<lambda>data.
               Inr (True, False, \<lparr>t_allocated = True, t_rid = rid, t_data = data\<rparr>)))))"

text \<open>The loops of the two iterators: the first slot from \<open>i\<close> on that is not deleted.\<close>

fun find_tuple :: "nat \<Rightarrow> int \<Rightarrow> byte list \<Rightarrow> int option result" where
  "find_tuple 0 i d = Inr None"
| "find_tuple (Suc n) i d =
     bind_result (GetTupleSize i d) (\<lambda>sz. if \<not> IsDeleted sz then Inr (Some i) else find_tuple n (i + 1) d)"

definition rid_of_slot :: "int option \<Rightarrow> byte list \<Rightarrow> bool \<times> RID" where
  "rid_of_slot i d =
     (case i of
        Some i \<Rightarrow> (True, \<lparr>rid_page_id = GetTablePageId d, rid_slot_num = i\<rparr>)
      | None \<Rightarrow> (False, \<lparr>rid_page_id = INVALID_PAGE_ID, rid_slot_num = 0\<rparr>))"

definition GetFirstTupleRid :: "byte list \<Rightarrow> (bool \<times> RID) result" where
  "GetFirstTupleRid d =
     bind_result (find_tuple (nat (GetTupleCount d)) 0 d) (\<lambda>i. Inr (rid_of_slot i d))"

definition GetNextTupleRid :: "RID \<Rightarrow> byte list \<Rightarrow> (bool \<times> RID) result" where
  "GetNextTupleRid cur_rid d =
     (if rid_page_id cur_rid \<noteq> GetTablePageId d then Inl AssertionFailure
      else
        let i = u32 (rid_slot_num cur_rid + 1)
        in bind_result (find_tuple (nat (GetTupleCount d - i)) i d) (\<lambda>i. Inr (rid_of_slot i d)))"

end
