(* ===== verification/TableHeap.thy ===== *)
theory TableHeap
  imports TablePage BufferPool
begin

text \<open>
  The table heap of \<^verbatim>\<open>src/storage/table/table_heap.cpp\<close>, its iterator of
  \<^verbatim>\<open>src/storage/table/table_iterator.cpp\<close> and the transaction manager of
  \<^verbatim>\<open>src/concurrency/transaction_manager.cpp\<close>, on the buffer pool manager itself: a table
  is a list of slotted pages, linked by page ids, that the operations fetch into frames, change
  there and unpin.  A \<open>Page *\<close> is the number of its frame.  Using the null pointer of a failed
  fetch has no defined meaning.

  The loops along the list of pages take a number of rounds; \<open>OutOfFuel\<close> never appears when it
  is larger than the number of pages.  The latches are not part of the sequential model.
\<close>

section \<open>Transactions\<close>

datatype TransactionState = GROWING | SHRINKING | COMMITTED | ABORTED

datatype IsolationLevel = READ_UNCOMMITTED | REPEATABLE_READ | READ_COMMITTED

datatype WType = WT_INSERT | WT_DELETE | WT_UPDATE

record TableHeap =
  th_first_page_id :: page_id_t

record TableWriteRecord =
  wr_rid :: RID
  wr_wtype :: WType
  wr_tuple :: Tuple
  wr_table :: TableHeap

text \<open>
  The lock manager grants every request without recording it, so the lock sets of a transaction stay
  empty; they are left out, and so is the index write set, to which nothing is ever appended.
\<close>

record transaction =
  tx_id :: int
  tx_isolation_level :: IsolationLevel
  tx_state :: TransactionState
  tx_prev_lsn :: int
  tx_write_set :: "TableWriteRecord list"

definition Transaction_init :: "int \<Rightarrow> IsolationLevel \<Rightarrow> transaction" where
  "Transaction_init txn_id isolation_level =
     \<lparr>tx_id = txn_id, tx_isolation_level = isolation_level, tx_state = GROWING,
      tx_prev_lsn = INVALID_LSN, tx_write_set = []\<rparr>"

definition SetState :: "TransactionState \<Rightarrow> transaction \<Rightarrow> transaction" where
  "SetState state txn = txn\<lparr>tx_state := state\<rparr>"

definition abort_if :: "bool \<Rightarrow> transaction \<Rightarrow> transaction" where
  "abort_if aborted txn = (if aborted then SetState ABORTED txn else txn)"

definition AppendTableWriteRecord :: "TableWriteRecord \<Rightarrow> transaction \<Rightarrow> transaction" where
  "AppendTableWriteRecord r txn = txn\<lparr>tx_write_set := tx_write_set txn @ [r]\<rparr>"

section \<open>Access to the page in a frame\<close>

definition page_data :: "frame_id_t \<Rightarrow> bpm \<Rightarrow> byte list result" where
  "page_data f b = bind_result (page_at f b) (\<lambda>p. Inr (pg_data p))"

definition store_data :: "frame_id_t \<Rightarrow> byte list \<Rightarrow> bpm \<Rightarrow> bpm result" where
  "store_data f d b = bind_result (page_at f b) (\<lambda>p. Inr (set_page f (p\<lparr>pg_data := d\<rparr>) b))"

text \<open>A call of a member function of the page in frame \<open>f\<close> that changes its bytes.\<close>

definition on_page :: "frame_id_t \<Rightarrow> (byte list \<Rightarrow> ('r \<times> byte list) result) \<Rightarrow> bpm \<Rightarrow> ('r \<times> bpm) result" where
  "on_page f g b =
     bind_result (page_data f b) (\<lambda>d.
     bind_result (g d) (\<lambda>(r, d).
     bind_result (store_data f d b) (\<lambda>b. Inr (r, b))))"

text \<open>\<^verbatim>\<open>UnpinPage(page->GetTablePageId(), is_dirty)\<close>.\<close>

definition unpin_page :: "frame_id_t \<Rightarrow> bool \<Rightarrow> bpm \<Rightarrow> bpm result" where
  "unpin_page f dirty b =
     bind_result (page_data f b) (\<lambda>d.
     bind_result (UnpinPgImp (GetTablePageId d) dirty b) (\<lambda>(_, b). Inr b))"

section \<open>The heap\<close>

definition TableHeap_open :: "page_id_t \<Rightarrow> TableHeap" where
  "TableHeap_open first_page_id = \<lparr>th_first_page_id = first_page_id\<rparr>"

definition TableHeap_create :: "bool \<Rightarrow> bpm \<Rightarrow> (TableHeap \<times> bpm) result" where
  "TableHeap_create enable_logging b =
     bind_result (NewPgImp b) (\<lambda>(first_page, b).
       case first_page of
         None \<Rightarrow> Inl AssertionFailure
       | Some (first_page_id, f) \<Rightarrow>
           bind_result (on_page f (\<lambda>d.
             Inr ((), TablePage_Init enable_logging first_page_id (int BUSTUB_PAGE_SIZE) INVALID_LSN d)) b) (\<lambda>(_, b).
           bind_result (UnpinPgImp first_page_id True b) (\<lambda>(_, b).
             Inr (\<lparr>th_first_page_id = first_page_id\<rparr>, b))))"

text \<open>
  The loop of \<^verbatim>\<open>InsertTuple\<close>: the tuple goes to the first page with room, or to a new
  page at the end.  The result is the frame it ended in and the RID, or nothing when no page could
  be created.
\<close>

fun InsertTuple_loop ::
  "nat \<Rightarrow> bool \<Rightarrow> Tuple \<Rightarrow> frame_id_t \<Rightarrow> bpm \<Rightarrow> ((frame_id_t \<times> RID) option \<times> bpm) result" where
  "InsertTuple_loop 0 enable_logging tuple cur_page b = Inl OutOfFuel"
| "InsertTuple_loop (Suc n) enable_logging tuple cur_page b =
     bind_result (on_page cur_page (TablePage_InsertTuple tuple) b) (\<lambda>(rid, b).
       case rid of
         Some rid \<Rightarrow> Inr (Some (cur_page, rid), b)
       | None \<Rightarrow>
           bind_result (page_data cur_page b) (\<lambda>d.
           if GetNextPageId d \<noteq> INVALID_PAGE_ID then
             bind_result (FetchPgImp (GetNextPageId d) b) (\<lambda>(next_page, b).
               case next_page of
                 None \<Rightarrow> Inl UndefinedBehaviour
               | Some next_page \<Rightarrow>
                   bind_result (unpin_page cur_page False b) (\<lambda>b.
                     InsertTuple_loop n enable_logging tuple next_page b))
           else
             bind_result (NewPgImp b) (\<lambda>(new_page, b).
               case new_page of
                 None \<Rightarrow> bind_result (unpin_page cur_page False b) (\<lambda>b. Inr (None, b))
               | Some (next_id, new_page) \<Rightarrow>
                   bind_result (on_page cur_page (\<lambda>d. Inr ((), SetNextPageId next_id d)) b) (\<lambda>(_, b).
                   bind_result (page_data cur_page b) (\<lambda>cur.
                   bind_result (on_page new_page (\<lambda>d.
                     Inr ((), TablePage_Init enable_logging next_id (int BUSTUB_PAGE_SIZE) (GetTablePageId cur) d)) b) (\<lambda>(_, b).
                   bind_result (unpin_page cur_page True b) (\<lambda>b.
                     InsertTuple_loop n enable_logging tuple new_page b)))))))"

definition TableHeap_InsertTuple ::
  "nat \<Rightarrow> bool \<Rightarrow> Tuple \<Rightarrow> TableHeap \<Rightarrow> transaction \<Rightarrow> bpm \<Rightarrow> (RID option \<times> transaction \<times> bpm) result" where
  "TableHeap_InsertTuple n enable_logging tuple h txn b =
     (if u32 (t_size tuple + 32) > int BUSTUB_PAGE_SIZE then Inr (None, SetState ABORTED txn, b)
      else
        bind_result (FetchPgImp (th_first_page_id h) b) (\<lambda>(cur_page, b).
          case cur_page of
            None \<Rightarrow> Inr (None, SetState ABORTED txn, b)
          | Some cur_page \<Rightarrow>
              bind_result (InsertTuple_loop n enable_logging tuple cur_page b) (\<lambda>(done, b).
                case done of
                  None \<Rightarrow> Inr (None, SetState ABORTED txn, b)
                | Some (cur_page, rid) \<Rightarrow>
                    bind_result (unpin_page cur_page True b) (\<lambda>b.
                      Inr (Some rid,
                        AppendTableWriteRecord
                          \<lparr>wr_rid = rid, wr_wtype = WT_INSERT, wr_tuple = Tuple_default, wr_table = h\<rparr> txn, b)))))"

definition TableHeap_MarkDelete ::
  "bool \<Rightarrow> RID \<Rightarrow> TableHeap \<Rightarrow> transaction \<Rightarrow> bpm \<Rightarrow> (bool \<times> transaction \<times> bpm) result" where
  "TableHeap_MarkDelete enable_logging rid h txn b =
     bind_result (FetchPgImp (rid_page_id rid) b) (\<lambda>(page, b).
       case page of
         None \<Rightarrow> Inr (False, SetState ABORTED txn, b)
       | Some page \<Rightarrow>
           bind_result (on_page page (\<lambda>d.
             bind_result (TablePage_MarkDelete enable_logging rid d) (\<lambda>(ok, aborted, d). Inr ((ok, aborted), d))) b)
             (\<lambda>((_, aborted), b).
           bind_result (unpin_page page True b) (\<lambda>b.
             Inr (True,
               AppendTableWriteRecord \<lparr>wr_rid = rid, wr_wtype = WT_DELETE, wr_tuple = Tuple_default, wr_table = h\<rparr>
                 (abort_if aborted txn), b))))"

definition TableHeap_UpdateTuple ::
  "bool \<Rightarrow> Tuple \<Rightarrow> RID \<Rightarrow> TableHeap \<Rightarrow> transaction \<Rightarrow> bpm \<Rightarrow> (bool \<times> transaction \<times> bpm) result" where
  "TableHeap_UpdateTuple enable_logging tuple rid h txn b =
     bind_result (FetchPgImp (rid_page_id rid) b) (\<lambda>(page, b).
       case page of
         None \<Rightarrow> Inr (False, SetState ABORTED txn, b)
       | Some page \<Rightarrow>
           bind_result (on_page page (\<lambda>d.
             bind_result (TablePage_UpdateTuple enable_logging tuple Tuple_default rid d)
               (\<lambda>(ok, aborted, old, d). Inr ((ok, aborted, old), d))) b) (\<lambda>((is_updated, aborted, old_tuple), b).
           bind_result (unpin_page page is_updated b) (\<lambda>b.
           let txn = abort_if aborted txn
           in Inr (is_updated,
                (if is_updated \<and> tx_state txn \<noteq> ABORTED
                 then AppendTableWriteRecord \<lparr>wr_rid = rid, wr_wtype = WT_UPDATE, wr_tuple = old_tuple, wr_table = h\<rparr> txn
                 else txn), b))))"

definition TableHeap_ApplyDelete :: "RID \<Rightarrow> bpm \<Rightarrow> bpm result" where
  "TableHeap_ApplyDelete rid b =
     bind_result (FetchPgImp (rid_page_id rid) b) (\<lambda>(page, b).
       case page of
         None \<Rightarrow> Inl AssertionFailure
       | Some page \<Rightarrow>
           bind_result (on_page page (\<lambda>d. bind_result (TablePage_ApplyDelete rid d) (\<lambda>d. Inr ((), d))) b) (\<lambda>(_, b).
             unpin_page page True b))"

definition TableHeap_RollbackDelete :: "RID \<Rightarrow> bpm \<Rightarrow> bpm result" where
  "TableHeap_RollbackDelete rid b =
     bind_result (FetchPgImp (rid_page_id rid) b) (\<lambda>(page, b).
       case page of
         None \<Rightarrow> Inl AssertionFailure
       | Some page \<Rightarrow>
           bind_result (on_page page (\<lambda>d. bind_result (TablePage_RollbackDelete rid d) (\<lambda>d. Inr ((), d))) b) (\<lambda>(_, b).
             unpin_page page True b))"

definition TableHeap_GetTuple ::
  "bool \<Rightarrow> RID \<Rightarrow> Tuple \<Rightarrow> transaction \<Rightarrow> bpm \<Rightarrow> (bool \<times> Tuple \<times> transaction \<times> bpm) result" where
  "TableHeap_GetTuple enable_logging rid tuple txn b =
     bind_result (FetchPgImp (rid_page_id rid) b) (\<lambda>(page, b).
       case page of
         None \<Rightarrow> Inr (False, tuple, SetState ABORTED txn, b)
       | Some page \<Rightarrow>
           bind_result (page_data page b) (\<lambda>d.
           bind_result (TablePage_GetTuple enable_logging rid tuple d) (\<lambda>(res, aborted, tuple).
           bind_result (UnpinPgImp (rid_page_id rid) False b) (\<lambda>(_, b).
             Inr (res, tuple, abort_if aborted txn, b)))))"

section \<open>The iterator\<close>

text \<open>An iterator is the tuple it points to; its table and its transaction are arguments.\<close>

definition TableIterator_init ::
  "bool \<Rightarrow> RID \<Rightarrow> transaction \<Rightarrow> bpm \<Rightarrow> (Tuple \<times> transaction \<times> bpm) result" where
  "TableIterator_init enable_logging rid txn b =
     (if rid_page_id rid \<noteq> INVALID_PAGE_ID then
        bind_result (TableHeap_GetTuple enable_logging rid (Tuple_of_rid rid) txn b) (\<lambda>(res, tuple, txn, b).
          if res then Inr (tuple, txn, b) else Inl (Exception ET_INVALID))
      else Inr (Tuple_of_rid rid, txn, b))"

fun Begin_loop :: "nat \<Rightarrow> page_id_t \<Rightarrow> RID \<Rightarrow> bpm \<Rightarrow> (RID \<times> bpm) result" where
  "Begin_loop 0 page_id rid b = Inl OutOfFuel"
| "Begin_loop (Suc n) page_id rid b =
     (if page_id = INVALID_PAGE_ID then Inr (rid, b)
      else
        bind_result (FetchPgImp page_id b) (\<lambda>(page, b).
          case page of
            None \<Rightarrow> Inl UndefinedBehaviour
          | Some page \<Rightarrow>
              bind_result (page_data page b) (\<lambda>d.
              bind_result (GetFirstTupleRid d) (\<lambda>(found_tuple, rid).
              bind_result (UnpinPgImp page_id False b) (\<lambda>(_, b).
                if found_tuple then Inr (rid, b)
                else bind_result (page_data page b) (\<lambda>d. Begin_loop n (GetNextPageId d) rid b))))))"

definition TableHeap_Begin :: "nat \<Rightarrow> bool \<Rightarrow> TableHeap \<Rightarrow> transaction \<Rightarrow> bpm \<Rightarrow> (Tuple \<times> transaction \<times> bpm) result" where
  "TableHeap_Begin n enable_logging h txn b =
     bind_result (Begin_loop n (th_first_page_id h) RID_default b) (\<lambda>(rid, b).
       TableIterator_init enable_logging rid txn b)"

definition TableHeap_End :: Tuple where
  "TableHeap_End = Tuple_of_rid \<lparr>rid_page_id = INVALID_PAGE_ID, rid_slot_num = 0\<rparr>"

definition TableIterator_eq :: "Tuple \<Rightarrow> Tuple \<Rightarrow> bool" where
  "TableIterator_eq it itr \<longleftrightarrow> RID_Get (t_rid it) = RID_Get (t_rid itr)"

definition TableIterator_deref :: "Tuple \<Rightarrow> Tuple result" where
  "TableIterator_deref it = (if TableIterator_eq it TableHeap_End then Inl AssertionFailure else Inr it)"

fun next_page_loop :: "nat \<Rightarrow> frame_id_t \<Rightarrow> RID \<Rightarrow> bpm \<Rightarrow> (frame_id_t \<times> RID \<times> bpm) result" where
  "next_page_loop 0 cur_page next_tuple_rid b = Inl OutOfFuel"
| "next_page_loop (Suc n) cur_page next_tuple_rid b =
     bind_result (page_data cur_page b) (\<lambda>d.
     if GetNextPageId d = INVALID_PAGE_ID then Inr (cur_page, next_tuple_rid, b)
     else
       bind_result (FetchPgImp (GetNextPageId d) b) (\<lambda>(next_page, b).
       bind_result (unpin_page cur_page False b) (\<lambda>b.
         case next_page of
           None \<Rightarrow> Inl UndefinedBehaviour
         | Some cur_page \<Rightarrow>
             bind_result (page_data cur_page b) (\<lambda>d.
             bind_result (GetFirstTupleRid d) (\<lambda>(found, next_tuple_rid).
               if found then Inr (cur_page, next_tuple_rid, b)
               else next_page_loop n cur_page next_tuple_rid b)))))"

definition TableIterator_next ::
  "nat \<Rightarrow> bool \<Rightarrow> Tuple \<Rightarrow> transaction \<Rightarrow> bpm \<Rightarrow> (Tuple \<times> transaction \<times> bpm) result" where
  "TableIterator_next n enable_logging it txn b =
     bind_result (FetchPgImp (rid_page_id (t_rid it)) b) (\<lambda>(cur_page, b).
       case cur_page of
         None \<Rightarrow> Inl StdException
       | Some cur_page \<Rightarrow>
           bind_result (page_data cur_page b) (\<lambda>d.
           bind_result (GetNextTupleRid (t_rid it) d) (\<lambda>(found, next_tuple_rid).
           bind_result (if found then Inr (cur_page, next_tuple_rid, b) else next_page_loop n cur_page next_tuple_rid b)
             (\<lambda>(cur_page, next_tuple_rid, b).
           let it = it\<lparr>t_rid := next_tuple_rid\<rparr>
           in bind_result
                (if \<not> TableIterator_eq it TableHeap_End
                 then bind_result (TableHeap_GetTuple enable_logging (t_rid it) it txn b) (\<lambda>(res, it, txn, b).
                   if res then Inr (it, txn, b) else Inl (Exception ET_INVALID))
                 else Inr (it, txn, b)) (\<lambda>(it, txn, b).
              bind_result (unpin_page cur_page False b) (\<lambda>b. Inr (it, txn, b)))))))"

section \<open>The transaction manager\<close>

text \<open>
  \<open>tm_txn_map\<close> is the set of the transaction ids under which a transaction is registered.
\<close>

record transaction_manager =
  tm_next_txn_id :: int
  tm_txn_map :: "int set"

definition TransactionManager_init :: transaction_manager where
  "TransactionManager_init = \<lparr>tm_next_txn_id = 0, tm_txn_map = {}\<rparr>"

definition TransactionManager_Begin ::
  "bool \<Rightarrow> transaction option \<Rightarrow> IsolationLevel \<Rightarrow> transaction_manager \<Rightarrow> transaction \<times> transaction_manager" where
  "TransactionManager_Begin enable_logging txn isolation_level m =
     (let (txn, m) =
            (case txn of
               Some txn \<Rightarrow> (txn, m)
             | None \<Rightarrow> (Transaction_init (tm_next_txn_id m) isolation_level,
                 m\<lparr>tm_next_txn_id := wrap32 (tm_next_txn_id m + 1)\<rparr>));
          txn = (if enable_logging then txn\<lparr>tx_prev_lsn := INVALID_LSN\<rparr> else txn)
      in (txn, m\<lparr>tm_txn_map := insert (tx_id txn) (tm_txn_map m)\<rparr>))"

text \<open>
  The write set, last record first, as the two loops go through it: they take the back of the deque
  and pop it.  The state is \<open>ABORTED\<close> while a transaction is rolled back, so the updates made
  by the loop append nothing.
\<close>

fun Commit_loop :: "TableWriteRecord list \<Rightarrow> bpm \<Rightarrow> bpm result" where
  "Commit_loop [] b = Inr b"
| "Commit_loop (item # rest) b =
     bind_result (if wr_wtype item = WT_DELETE then TableHeap_ApplyDelete (wr_rid item) b else Inr b) (\<lambda>b.
       Commit_loop rest b)"

definition TransactionManager_Commit :: "transaction \<Rightarrow> bpm \<Rightarrow> (transaction \<times> bpm) result" where
  "TransactionManager_Commit txn b =
     (let txn = SetState COMMITTED txn
      in bind_result (Commit_loop (rev (tx_write_set txn)) b) (\<lambda>b. Inr (txn\<lparr>tx_write_set := []\<rparr>, b)))"

fun Abort_loop :: "bool \<Rightarrow> TableWriteRecord list \<Rightarrow> transaction \<Rightarrow> bpm \<Rightarrow> (transaction \<times> bpm) result" where
  "Abort_loop enable_logging [] txn b = Inr (txn, b)"
| "Abort_loop enable_logging (item # rest) txn b =
     bind_result
       (case wr_wtype item of
          WT_DELETE \<Rightarrow> bind_result (TableHeap_RollbackDelete (wr_rid item) b) (\<lambda>b. Inr (txn, b))
        | WT_INSERT \<Rightarrow> bind_result (TableHeap_ApplyDelete (wr_rid item) b) (\<lambda>b. Inr (txn, b))
        | WT_UPDATE \<Rightarrow>
            bind_result (TableHeap_UpdateTuple enable_logging (wr_tuple item) (wr_rid item) (wr_table item) txn b)
              (\<lambda>(_, txn, b). Inr (txn, b))) (\<lambda>(txn, b).
       Abort_loop enable_logging rest txn b)"

definition TransactionManager_Abort :: "bool \<Rightarrow> transaction \<Rightarrow> bpm \<Rightarrow> (transaction \<times> bpm) result" where
  "TransactionManager_Abort enable_logging txn b =
     (let txn = SetState ABORTED txn
      in bind_result (Abort_loop enable_logging (rev (tx_write_set txn)) txn b) (\<lambda>(txn, b).
           Inr (txn\<lparr>tx_write_set := []\<rparr>, b)))"

end
