(* ===== verification/PoolClient.thy ===== *)
theory PoolClient
  imports BufferPoolSpec TableHeap
begin

text \<open>
  What a client that holds page pointers relies on: a fetched page stays in its frame while it is
  pinned, the bytes read through the frame are the contents of the page, and bytes stored through it
  become the contents.  \<open>page_pool\<close> states this for any pool; the lemmas inside it are the
  visits that the table heap makes of an idle pool.  The buffer pool manager keeps the contract.
\<close>

definition ps_pin :: "page_id_t \<Rightarrow> pool_spec \<Rightarrow> pool_spec" where
  "ps_pin p a = a\<lparr>ps_pins := (ps_pins a)(p := ps_pins a p + 1)\<rparr>"

definition ps_unpin :: "page_id_t \<Rightarrow> bool \<Rightarrow> pool_spec \<Rightarrow> pool_spec" where
  "ps_unpin p dirty a =
     a\<lparr>ps_pins := (ps_pins a)(p := ps_pins a p - 1), ps_mod := (if dirty then ps_mod a - {p} else ps_mod a)\<rparr>"

definition ps_write :: "page_id_t \<Rightarrow> byte list \<Rightarrow> pool_spec \<Rightarrow> pool_spec" where
  "ps_write p xs a = a\<lparr>ps_content := (ps_content a)(p := xs), ps_mod := insert p (ps_mod a)\<rparr>"

definition ps_new :: "pool_spec \<Rightarrow> pool_spec" where
  "ps_new a = a\<lparr>ps_next := ps_next a + 1, ps_content := (ps_content a)(ps_next a := zero_page),
     ps_pins := (ps_pins a)(ps_next a := 1)\<rparr>"

definition allocated :: "page_id_t \<Rightarrow> pool_spec \<Rightarrow> bool" where
  "allocated p a \<longleftrightarrow> 0 \<le> p \<and> p < ps_next a"

text \<open>
  Between the operations of its clients a pool is idle: nothing is pinned.  \<open>held p M a\<close> is the
  pool whose only pinned page is \<open>p\<close>, modified if it is in \<open>M\<close>.
\<close>

definition idle :: "pool_spec \<Rightarrow> bool" where
  "idle a \<longleftrightarrow> ps_pins a = (\<lambda>_. 0) \<and> ps_mod a = {} \<and> 2 \<le> ps_size a"

definition held :: "page_id_t \<Rightarrow> page_id_t set \<Rightarrow> pool_spec \<Rightarrow> pool_spec" where
  "held p M a = (ps_pin p a)\<lparr>ps_mod := M\<rparr>"

lemma full_simps:
  "idle a \<Longrightarrow> \<not> ps_full a" "idle a \<Longrightarrow> \<not> ps_full (held p M a)"
proof -
  assume i: "idle a"
  have "{q. 0 < ps_pins (held p M a) q} = {p}" using i by (auto simp: idle_def held_def ps_pin_def)
  then show "\<not> ps_full (held p M a)" using i by (simp add: ps_full_def) (simp add: idle_def held_def ps_pin_def)
qed (simp add: idle_def ps_full_def)

lemma idleD: "idle a \<Longrightarrow> ps_pins a = (\<lambda>_. 0)" "idle a \<Longrightarrow> ps_mod a = {}" "idle a \<Longrightarrow> \<not> ps_full a"
  by (simp_all add: idle_def full_simps)

lemma held_sel:
  "idle a \<Longrightarrow> ps_pins (held p M a) = (\<lambda>_. 0)(p := 1)" "ps_mod (held p M a) = M" "ps_next (held p M a) = ps_next a"
  "ps_content (held p M a) = ps_content a" "ps_cap (held p M a) = ps_cap a" "ps_size (held p M a) = ps_size a"
  by (simp_all add: held_def ps_pin_def idle_def)

lemma ps_sel:
  "ps_pins (ps_pin p a) = (ps_pins a)(p := ps_pins a p + 1)" "ps_mod (ps_pin p a) = ps_mod a"
  "ps_content (ps_pin p a) = ps_content a" "ps_next (ps_pin p a) = ps_next a"
  "ps_pins (ps_write p d a) = ps_pins a" "ps_mod (ps_write p d a) = insert p (ps_mod a)"
  "ps_content (ps_write p d a) = (ps_content a)(p := d)"
  "ps_pins (ps_new a) = (ps_pins a)(ps_next a := 1)" "ps_mod (ps_new a) = ps_mod a"
  "ps_content (ps_new a) = (ps_content a)(ps_next a := zero_page)"
  by (simp_all add: ps_pin_def ps_write_def ps_new_def)

lemma idle_visits:
  assumes "idle a"
  shows "ps_pin p a = held p {} a"
    and "ps_unpin p False (held p {} a) = a"
    and "M \<subseteq> {p} \<Longrightarrow> ps_unpin p True (ps_write p d (held p M a)) = a\<lparr>ps_content := (ps_content a)(p := d)\<rparr>"
    and "q \<noteq> p \<Longrightarrow> ps_unpin p False (ps_pin q (held p {} a)) = held q {} a"
    and "ps_unpin p False (ps_pin p (held p {} a)) = held p {} a"
    and "ps_next a = n \<Longrightarrow> p \<noteq> n \<Longrightarrow> ps_unpin p True (ps_write n d2 (ps_write p d1 (ps_new (held p {} a)))) =
      held n {n} (a\<lparr>ps_next := n + 1, ps_content := (ps_content a)(p := d1, n := d2)\<rparr>)"
  using assms
  by (cases a; auto simp: held_def ps_pin_def ps_unpin_def ps_write_def ps_new_def idle_def fun_eq_iff)+

lemmas held_simps = held_sel idleD full_simps allocated_def ps_sel

locale page_pool =
  fixes rel :: "pool_spec \<Rightarrow> 'b \<Rightarrow> bool"
    and handle :: "page_id_t \<Rightarrow> 'f \<Rightarrow> 'b \<Rightarrow> bool"
    and fetch :: "page_id_t \<Rightarrow> 'b \<Rightarrow> ('f option \<times> 'b) result"
    and new :: "'b \<Rightarrow> ((page_id_t \<times> 'f) option \<times> 'b) result"
    and unpin :: "page_id_t \<Rightarrow> bool \<Rightarrow> 'b \<Rightarrow> (bool \<times> 'b) result"
    and get :: "'f \<Rightarrow> 'b \<Rightarrow> byte list result"
    and put :: "'f \<Rightarrow> byte list \<Rightarrow> 'b \<Rightarrow> 'b result"
  assumes fetch_law: "rel a b \<Longrightarrow> allowed (FetchPage p) a \<Longrightarrow> 0 < ps_pins a p \<or> \<not> ps_full a \<Longrightarrow>
      \<exists>f b'. fetch p b = Inr (Some f, b') \<and> rel (ps_pin p a) b' \<and> handle p f b' \<and>
        (\<forall>q g. handle q g b \<and> 0 < ps_pins a q \<longrightarrow> handle q g b')"
    and new_law: "rel a b \<Longrightarrow> allowed NewPage a \<Longrightarrow> \<not> ps_full a \<Longrightarrow>
      \<exists>f b'. new b = Inr (Some (ps_next a, f), b') \<and> rel (ps_new a) b' \<and> handle (ps_next a) f b' \<and>
        (\<forall>q g. handle q g b \<and> 0 < ps_pins a q \<longrightarrow> handle q g b')"
    and unpin_law: "rel a b \<Longrightarrow> allowed (UnpinPage p dirty) a \<Longrightarrow> 0 < ps_pins a p \<Longrightarrow>
      \<exists>b'. unpin p dirty b = Inr (True, b') \<and> rel (ps_unpin p dirty a) b' \<and> (\<forall>q g. handle q g b' \<longleftrightarrow> handle q g b)"
    and get_law: "rel a b \<Longrightarrow> handle p f b \<Longrightarrow> get f b = Inr (ps_content a p)"
    and put_law: "rel a b \<Longrightarrow> handle p f b \<Longrightarrow> allowed (WriteData p xs) a \<Longrightarrow>
      \<exists>b'. put f xs b = Inr b' \<and> rel (ps_write p xs a) b' \<and> (\<forall>q g. handle q g b' \<longleftrightarrow> handle q g b)"
    and put_same: "rel a b \<Longrightarrow> handle p f b \<Longrightarrow> put f (ps_content a p) b = Inr b"
begin

text \<open>The first page of a visit is pinned, and released at its end.\<close>

lemma start:
  assumes "rel a b" "idle a" "allocated p a"
  shows "\<exists>f b'. fetch p b = Inr (Some f, b') \<and> rel (held p {} a) b' \<and> handle p f b'"
  using fetch_law [OF assms(1), of p] assms(2,3) by (auto simp: held_simps idle_visits(1))

lemma drop_page:
  assumes "rel (held p {} a) b" "idle a"
  shows "\<exists>b'. unpin p False b = Inr (True, b') \<and> rel a b' \<and> (\<forall>q g. handle q g b' \<longleftrightarrow> handle q g b)"
  using unpin_law [OF assms(1), of p False] assms(2) by (simp add: held_simps idle_visits(2))

lemma finish:
  assumes "rel (held p M a) b" "idle a" "handle p f b" "M \<subseteq> {p}" "length d = BUSTUB_PAGE_SIZE"
  shows "\<exists>b1 b2. put f d b = Inr b1 \<and> get f b1 = Inr d \<and> unpin p True b1 = Inr (True, b2) \<and>
    rel (a\<lparr>ps_content := (ps_content a)(p := d)\<rparr>) b2"
proof -
  obtain b1 where b1: "put f d b = Inr b1" "rel (ps_write p d (held p M a)) b1" "handle p f b1"
    using put_law [OF assms(1,3), of d] assms(2,3,5) by (auto simp: held_simps)
  moreover obtain b2 where "unpin p True b1 = Inr (True, b2)" "rel (ps_unpin p True (ps_write p d (held p M a))) b2"
    using unpin_law [OF b1(2), of p True] assms(2) by (auto simp: held_simps)
  moreover have "ps_unpin p True (ps_write p d (held p M a)) = a\<lparr>ps_content := (ps_content a)(p := d)\<rparr>"
    by (rule idle_visits(3) [OF assms(2,4)])
  ultimately show ?thesis using get_law [OF b1(2,3)] by (auto simp: held_simps)
qed

text \<open>A visitor moves on to the next page, holding both for a moment.\<close>

lemma hop:
  assumes "rel (held p {} a) b" "idle a" "handle p f b" "allocated q a" "q \<noteq> p"
  shows "\<exists>g b1 b2. fetch q b = Inr (Some g, b1) \<and> get f b1 = Inr (ps_content a p) \<and> unpin p False b1 = Inr (True, b2) \<and>
    rel (held q {} a) b2 \<and> handle q g b2"
proof -
  obtain g b1 where b1: "fetch q b = Inr (Some g, b1)" "rel (ps_pin q (held p {} a)) b1" "handle q g b1" "handle p f b1"
    using fetch_law [OF assms(1), of q] assms(2-5) by (auto simp: held_simps)
  moreover obtain b2 where "unpin p False b1 = Inr (True, b2)" "rel (ps_unpin p False (ps_pin q (held p {} a))) b2" "handle q g b2"
    using unpin_law [OF b1(2), of p False] assms(2,5) b1(3) by (auto simp: held_simps)
  moreover have "ps_unpin p False (ps_pin q (held p {} a)) = held q {} a"
    by (rule idle_visits(4) [OF assms(2,5)])
  ultimately show ?thesis using get_law [OF b1(2,4)] by (auto simp: held_simps)
qed

text \<open>The page that is already held can be fetched again.\<close>

lemma revisit:
  assumes "rel (held p {} a) b" "idle a" "handle p f b" "allocated p a"
  shows "\<exists>g b1 b2. fetch p b = Inr (Some g, b1) \<and> get g b1 = Inr (ps_content a p) \<and> unpin p False b1 = Inr (True, b2) \<and>
    rel (held p {} a) b2 \<and> handle p f b2"
proof -
  obtain g b1 where b1: "fetch p b = Inr (Some g, b1)" "rel (ps_pin p (held p {} a)) b1" "handle p g b1" "handle p f b1"
    using fetch_law [OF assms(1), of p] assms(2-4) by (auto simp: held_simps)
  moreover obtain b2 where "unpin p False b1 = Inr (True, b2)" "rel (ps_unpin p False (ps_pin p (held p {} a))) b2" "handle p f b2"
    using unpin_law [OF b1(2), of p False] assms(2) b1(4) by (auto simp: held_simps)
  moreover have "ps_unpin p False (ps_pin p (held p {} a)) = held p {} a"
    by (rule idle_visits(5) [OF assms(2)])
  ultimately show ?thesis using get_law [OF b1(2,3)] by (auto simp: held_simps)
qed

text \<open>A new page is linked behind the page that is held, which is then released.\<close>

lemma extend:
  fixes d1 d2 a
  assumes "rel (held p {} a) b" "idle a" "handle p f b" "allocated p a" "allowed NewPage a"
    and "length d1 = BUSTUB_PAGE_SIZE" "length d2 = BUSTUB_PAGE_SIZE"
  defines "n \<equiv> ps_next a"
  defines "a' \<equiv> a\<lparr>ps_next := n + 1, ps_content := (ps_content a)(p := d1, n := d2)\<rparr>"
  shows "\<exists>g b1 b2 b3 b4. new b = Inr (Some (n, g), b1) \<and> get f b1 = Inr (ps_content a p) \<and> put f d1 b1 = Inr b2 \<and>
    get f b2 = Inr d1 \<and> get g b2 = Inr zero_page \<and> put g d2 b2 = Inr b3 \<and> get f b3 = Inr d1 \<and>
    unpin p True b3 = Inr (True, b4) \<and> rel (held n {n} a') b4 \<and> handle n g b4 \<and> idle a'"
proof -
  have np: "p \<noteq> n" using assms(4) by (simp add: allocated_def n_def)
  obtain g b1 where b1: "new b = Inr (Some (n, g), b1)" "rel (ps_new (held p {} a)) b1" "handle n g b1" "handle p f b1"
    using new_law [OF assms(1)] assms(2-5) by (auto simp: held_simps n_def)
  obtain b2 where b2: "put f d1 b1 = Inr b2" "rel (ps_write p d1 (ps_new (held p {} a))) b2" "handle n g b2" "handle p f b2"
    using put_law [OF b1(2,4), of d1] assms(2,6) b1(3,4) np by (auto simp: held_simps n_def)
  obtain b3 where b3: "put g d2 b2 = Inr b3" "rel (ps_write n d2 (ps_write p d1 (ps_new (held p {} a)))) b3" "handle n g b3" "handle p f b3"
    using put_law [OF b2(2,3), of d2] assms(2,7) b2(3,4) np by (auto simp: held_simps n_def)
  let ?a = "ps_write n d2 (ps_write p d1 (ps_new (held p {} a)))"
  obtain b4 where b4: "unpin p True b3 = Inr (True, b4)" "rel (ps_unpin p True ?a) b4" "handle n g b4"
    using unpin_law [OF b3(2), of p True] assms(2) b3(3) np by (auto simp: held_simps n_def)
  have "ps_unpin p True ?a = held n {n} a'"
    unfolding a'_def by (rule idle_visits(6) [OF assms(2) _ np]) (simp add: n_def)
  moreover have "idle a'" using assms(2) by (simp add: idle_def a'_def)
  ultimately show ?thesis
    using b1 b2 b3 b4 np get_law [OF b1(2,4)] get_law [OF b2(2,4)] get_law [OF b2(2,3)] get_law [OF b3(2,4)]
    by (auto simp: held_simps n_def)
qed

end

lemma fetch_frame:
  assumes inv: "bpm_inv {} b" and p: "0 \<le> p" "p < next_page_id b" and pins: "pins b p < 2 ^ 31 - 1"
    and f: "FetchPgImp p b = Inr (Some f, b')"
  shows "resident b' p = Some f \<and> (\<forall>q g. resident b q = Some g \<and> 0 < pins b q \<longrightarrow> resident b' q = Some g)"
proof (cases "resident b p")
  case (Some g)
  with pins have "pin_count (frame b g) < 2 ^ 31 - 1" by (simp add: pins_def)
  then obtain b1 where "FetchPgImp p b = Inr (Some g, b1)" "resident b1 = resident b"
    by (rule FetchPgImp_hit [OF inv Some])
  then show ?thesis using f Some by simp
next
  case None
  have "is_free_page b" using f None by (auto simp: FetchPgImp_def eht.find_law [OF bpm_invD(5) [OF inv]] split: if_splits)
  then obtain g b1 where "FetchPgImp p b = Inr (Some g, b1)"
    and "loaded b g \<lparr>pg_data = disk_image (disk_mgr b1) p, pg_id = p, pin_count = 1, is_dirty = False\<rparr> b1"
    by (rule FetchPgImp_miss [OF inv p _ None])
  then show ?thesis using f None by (auto simp: loaded_def pins_def)
qed

lemma pool_fetch:
  assumes R: "pool_rel a b" and ok: "allowed (FetchPage p) a" and free: "0 < ps_pins a p \<or> \<not> ps_full a"
  shows "\<exists>f b'. FetchPgImp p b = Inr (Some f, b') \<and> pool_rel (ps_pin p a) b' \<and> resident b' p = Some f \<and>
    (\<forall>q g. resident b q = Some g \<and> 0 < ps_pins a q \<longrightarrow> resident b' q = Some g)"
proof -
  obtain out a' b' where s: "bpm_step (FetchPage p) b = Inr (out, b')" "pool_step (FetchPage p) a out a'" "pool_rel a' b'"
    using pool_simulation [OF R ok] by blast
  then have a': "a' = ps_pin p a" "out \<noteq> PageOut None"
    using free by (auto simp: pool_step_simps ps_pin_def)
  then obtain f where f: "FetchPgImp p b = Inr (Some f, b')"
    using s(1) by (cases "FetchPgImp p b") (auto, metis not_Some_eq option.map_disc_iff)
  have "0 \<le> p" "p < next_page_id b" "pins b p < 2 ^ 31 - 1" using ok pool_relD(5,6) [OF R] by auto
  then show ?thesis using fetch_frame [OF pool_relD(1) [OF R] _ _ _ f] pool_relD(6) [OF R] s(3) a' f by auto
qed

lemma pool_new:
  assumes R: "pool_rel a b" and ok: "allowed NewPage a" and free: "\<not> ps_full a"
  shows "\<exists>f b'. NewPgImp b = Inr (Some (ps_next a, f), b') \<and> pool_rel (ps_new a) b' \<and> resident b' (ps_next a) = Some f \<and>
    (\<forall>q g. resident b q = Some g \<and> 0 < ps_pins a q \<longrightarrow> resident b' q = Some g)"
proof -
  note inv = pool_relD(1) [OF R]
  have n: "next_page_id b < disk_capacity (disk_mgr b)" "next_page_id b < 2 ^ 30" using ok pool_relD(5,9) [OF R] by simp_all
  have "is_free_page b" using free ps_full_iff [OF R] by simp
  then obtain f b1 where f: "NewPgImp b = Inr (Some (next_page_id b, f), b1)"
    and l: "loaded (b\<lparr>next_page_id := next_page_id b + 1\<rparr>) f
      \<lparr>pg_data = zero_page, pg_id = next_page_id b, pin_count = 1, is_dirty = False\<rparr> b1"
    by (rule NewPgImp_spec [OF inv n])
  obtain out a' b' where s: "bpm_step NewPage b = Inr (out, b')" "pool_step NewPage a out a'" "pool_rel a' b'"
    using pool_simulation [OF R ok] by blast
  have "b' = b1" "a' = ps_new a" using s free f by (auto simp: pool_step_simps ps_new_def)
  moreover have "resident b1 q = Some g" if "resident b q = Some g" "0 < pins b q" for q g
    using l that residentD(6) [OF inv that(1)] by (auto simp: loaded_def pins_def)
  moreover have "resident b1 (next_page_id b) = Some f" using l by (simp add: loaded_def)
  ultimately show ?thesis using s(3) f pool_relD(5,6) [OF R] by auto
qed

lemma pool_unpin:
  assumes R: "pool_rel a b" and ok: "allowed (UnpinPage p dirty) a" and pin: "0 < ps_pins a p"
  shows "\<exists>b'. UnpinPgImp p dirty b = Inr (True, b') \<and> pool_rel (ps_unpin p dirty a) b' \<and> resident b' = resident b"
proof -
  note inv = pool_relD(1) [OF R]
  obtain f where f: "resident b p = Some f" "0 < pin_count (frame b f)"
    using pins_posD [OF inv, of p] pin pool_relD(6) [OF R] by auto
  obtain b1 where b1: "UnpinPgImp p dirty b = Inr (True, b1)" "resident b1 = resident b"
    by (rule UnpinPgImp_true [OF inv f, of dirty]) blast
  obtain out a' b' where s: "bpm_step (UnpinPage p dirty) b = Inr (out, b')" "pool_step (UnpinPage p dirty) a out a'" "pool_rel a' b'"
    using pool_simulation [OF R ok] by blast
  have "b' = b1" using s(1) b1(1) by simp
  moreover have "a' = ps_unpin p dirty a" using s(2) pin by (simp add: pool_step_simps ps_unpin_def)
  ultimately show ?thesis using s(3) b1 by blast
qed

lemma pool_get:
  assumes R: "pool_rel a b" and f: "resident b p = Some f"
  shows "page_data f b = Inr (ps_content a p)"
proof -
  note r = residentD [OF pool_relD(1) [OF R] f]
  show ?thesis using pool_relD(8) [OF R r(5,6)] f by (simp add: page_data_def content_def r(4))
qed

lemma pool_put:
  assumes R: "pool_rel a b" and f: "resident b p = Some f" and ok: "allowed (WriteData p xs) a"
  shows "\<exists>b'. store_data f xs b = Inr b' \<and> pool_rel (ps_write p xs a) b' \<and> resident b' = resident b"
proof -
  note inv = pool_relD(1) [OF R]
  have "store_data f xs b = Inr (set_page f ((frame b f)\<lparr>pg_data := xs\<rparr>) b)"
    by (simp add: store_data_def residentD(4) [OF inv f])
  moreover have "bpm_step (WriteData p xs) b = Inr (NoOut, set_page f ((frame b f)\<lparr>pg_data := xs\<rparr>) b)"
    using f residentD(4) [OF inv f] by (simp add: eht.find_law [OF bpm_invD(5) [OF inv]])
  moreover obtain out a' b' where "bpm_step (WriteData p xs) b = Inr (out, b')" "pool_step (WriteData p xs) a out a'" "pool_rel a' b'"
    using pool_simulation [OF R ok] by blast
  ultimately show ?thesis by (auto simp: pool_step_simps ps_write_def)
qed

lemma pool_put_same:
  assumes R: "pool_rel a b" and f: "resident b p = Some f"
  shows "store_data f (ps_content a p) b = Inr b"
proof -
  note inv = pool_relD(1) [OF R]
  have "pg_data (frame b f) = ps_content a p"
    using pool_relD(8) [OF R residentD(5,6) [OF inv f]] f by (simp add: content_def)
  then have "(frame b f)\<lparr>pg_data := ps_content a p\<rparr> = frame b f" by simp
  then show ?thesis by (simp add: store_data_def residentD(4) [OF inv f] set_page_def)
qed

interpretation bp: page_pool pool_rel "\<lambda>p f b. resident b p = Some f" FetchPgImp NewPgImp UnpinPgImp page_data store_data
proof unfold_locales
  fix a b p dirty assume "pool_rel a b" "allowed (UnpinPage p dirty) a" "0 < ps_pins a p"
  then show "\<exists>b'. UnpinPgImp p dirty b = Inr (True, b') \<and> pool_rel (ps_unpin p dirty a) b' \<and>
      (\<forall>q g. resident b' q = Some g \<longleftrightarrow> resident b q = Some g)"
    using pool_unpin [of a b p dirty] by (metis (no_types, lifting))
next
  fix a b p f xs assume "pool_rel a b" "resident b p = Some f" "allowed (WriteData p xs) a"
  then show "\<exists>b'. store_data f xs b = Inr b' \<and> pool_rel (ps_write p xs a) b' \<and>
      (\<forall>q g. resident b' q = Some g \<longleftrightarrow> resident b q = Some g)"
    using pool_put [of a b p f xs] by (metis (no_types, lifting))
qed (fact pool_fetch pool_new pool_get pool_put_same)+

end
