(* ===== verification/TablePageSpec.thy ===== *)
theory TablePageSpec
  imports TablePage Interfaces
begin

unbundle bit_operations_syntax

text \<open>
  The specification of the slotted page, a list of slots, and the proof that the operations on the
  bytes implement it.  The header and the slot array are read as 32-bit words; the tuples lie
  behind them, in disjoint regions.
\<close>

section \<open>The page as an array of words\<close>

definition field32 :: "nat \<Rightarrow> byte list \<Rightarrow> int" where
  "field32 k d = le_uint (peek (4 * k) 4 d)"

definition set32 :: "nat \<Rightarrow> int \<Rightarrow> byte list \<Rightarrow> byte list" where
  "set32 k v d = poke (4 * k) (le_bytes 4 v) d"

lemma length_set32 [simp]: "4 * k + 4 \<le> length d \<Longrightarrow> length (set32 k v d) = length d"
  by (simp add: set32_def)

lemma field32_set32:
  assumes "4 * j + 4 \<le> length d" "4 * k + 4 \<le> length d"
  shows "field32 k (set32 j v d) = (if k = j then u32 v else field32 k d)"
proof (cases "k = j")
  case True
  then show ?thesis
    using assms by (simp add: field32_def set32_def peek_poke_same le_uint_le_bytes u32_def)
next
  case False
  then have "4 * k + 4 \<le> 4 * j \<or> 4 * j + 4 \<le> 4 * k" by linarith
  then show ?thesis
    using assms False by (simp add: field32_def set32_def peek_poke_other)
qed

lemma field32_poke:
  "4 * k + 4 \<le> off \<Longrightarrow> off + length bs \<le> length d \<Longrightarrow> field32 k (poke off bs d) = field32 k d"
  by (simp add: field32_def peek_poke_other)

lemma peek_set32:
  "4 * k + 4 \<le> a \<Longrightarrow> a + n \<le> length d \<Longrightarrow> peek a n (set32 k v d) = peek a n d"
  by (simp add: set32_def peek_poke_other)

lemma le_uint_bounds: "0 \<le> le_uint bs" "le_uint bs < 256 ^ length bs"
proof (induction bs)
  case (Cons b bs)
  have "0 \<le> uint b" "uint b < 256"
    using uint_bounded [of b] by simp_all
  moreover from this Cons have "uint b + 256 * le_uint bs < 256 * 256 ^ length bs" by simp
  ultimately show "0 \<le> le_uint (b # bs)" "le_uint (b # bs) < 256 ^ length (b # bs)"
    using Cons by simp_all
qed simp_all

lemma field32_bounds: "4 * k + 4 \<le> length d \<Longrightarrow> 0 \<le> field32 k d \<and> field32 k d < 2 ^ 32"
  using le_uint_bounds [of "peek (4 * k) 4 d"] by (simp add: field32_def length_peek)

lemma page_fields:
  assumes "length d = 4096"
  shows "GetTablePageId d = scast 32 (field32 0 d)" "GetPrevPageId d = scast 32 (field32 2 d)"
    "GetNextPageId d = scast 32 (field32 3 d)" "GetFreeSpacePointer d = field32 4 d" "GetTupleCount d = field32 5 d"
  using assms by (simp_all add: GetTablePageId_def GetPrevPageId_def GetNextPageId_def GetFreeSpacePointer_def GetTupleCount_def
      field32_def le_sint_def length_peek OFFSET_PREV_PAGE_ID_def OFFSET_NEXT_PAGE_ID_def OFFSET_FREE_SPACE_def OFFSET_TUPLE_COUNT_def)

lemma page_sets:
  "SetPrevPageId p d = set32 2 p d" "SetNextPageId p d = set32 3 p d" "SetFreeSpacePointer p d = set32 4 p d"
  "SetTupleCount p d = set32 5 p d" "SetLSN p d = set32 1 p d" "poke 0 (le_bytes 4 p) d = set32 0 p d"
  by (simp_all add: set32_def SetPrevPageId_def SetNextPageId_def SetFreeSpacePointer_def SetTupleCount_def SetLSN_def
      OFFSET_PREV_PAGE_ID_def OFFSET_NEXT_PAGE_ID_def OFFSET_FREE_SPACE_def OFFSET_TUPLE_COUNT_def OFFSET_LSN_def)

lemma slot_fields:
  assumes "32 + 8 * i \<le> length d"
  shows "GetTupleOffsetAtSlot (int i) d = Inr (field32 (6 + 2 * i) d)" "GetTupleSize (int i) d = Inr (field32 (7 + 2 * i) d)"
    "SetTupleOffsetAtSlot (int i) v d = Inr (set32 (6 + 2 * i) v d)" "SetTupleSize (int i) v d = Inr (set32 (7 + 2 * i) v d)"
proof -
  have n: "nat (24 + 8 * int i) = 4 * (6 + 2 * i)" "nat (28 + 8 * int i) = 4 * (7 + 2 * i)" by simp_all
  show "GetTupleOffsetAtSlot (int i) d = Inr (field32 (6 + 2 * i) d)" "GetTupleSize (int i) d = Inr (field32 (7 + 2 * i) d)"
    "SetTupleOffsetAtSlot (int i) v d = Inr (set32 (6 + 2 * i) v d)" "SetTupleSize (int i) v d = Inr (set32 (7 + 2 * i) v d)"
    using assms n by (simp_all add: GetTupleOffsetAtSlot_def GetTupleSize_def SetTupleOffsetAtSlot_def SetTupleSize_def
        load_u32_def poke_checked_def field32_def set32_def OFFSET_TUPLE_OFFSET_def OFFSET_TUPLE_SIZE_def SIZE_TUPLE_def)
qed

section \<open>Sizes and the deletion mark\<close>

lemma bit_DELETE_MASK: "bit DELETE_MASK n \<longleftrightarrow> n = 31"
  unfolding DELETE_MASK_def bit_push_bit_iff bit_1_iff by auto

lemma and_mask: "0 \<le> x \<Longrightarrow> x < 2 ^ 31 \<Longrightarrow> x AND DELETE_MASK = 0"
proof (rule bit_eqI)
  fix n
  assume "0 \<le> x" "x < 2 ^ 31"
  then have "take_bit 31 x = x" by (simp add: take_bit_int_eq_self_iff)
  then have "bit x n \<Longrightarrow> n < 31" by (metis bit_take_bit_iff)
  then show "bit (x AND DELETE_MASK) n = bit 0 n"
    by (auto simp: bit_and_iff bit_DELETE_MASK)
qed

lemma mask_pow: "DELETE_MASK = 2 ^ 31"
  by (simp add: DELETE_MASK_def push_bit_eq_mult)

lemma flag_size:
  assumes "0 < x" "x < 2 ^ 31"
  shows "\<not> IsDeleted x" "SetDeletedFlag x = x + 2 ^ 31" "IsDeleted (x + 2 ^ 31)" "UnsetDeletedFlag (x + 2 ^ 31) = x"
proof -
  have a: "x AND DELETE_MASK = 0" using and_mask assms by simp
  then have p: "x + 2 ^ 31 = x OR DELETE_MASK"
    using disjunctive_add_eq_or [OF a] by (simp add: mask_pow)
  show "\<not> IsDeleted x" using a assms by (simp add: IsDeleted_def)
  show "SetDeletedFlag x = x + 2 ^ 31" using assms by (simp add: SetDeletedFlag_def u32_def p [symmetric])
  have "(x OR DELETE_MASK) AND DELETE_MASK = DELETE_MASK"
    by (rule bit_eqI) (auto simp: bit_and_iff bit_or_iff)
  then show "IsDeleted (x + 2 ^ 31)" unfolding p by (simp add: IsDeleted_def mask_pow)
  have "(x OR DELETE_MASK) AND NOT DELETE_MASK = x"
  proof (rule bit_eqI)
    fix n
    have "\<not> (bit x n \<and> bit DELETE_MASK n)" using a by (metis bit_0_eq bit_and_iff bot_apply bot_bool_def)
    then show "bit ((x OR DELETE_MASK) AND NOT DELETE_MASK) n = bit x n"
      by (auto simp: bit_and_iff bit_or_iff bit_not_iff)
  qed
  then show "UnsetDeletedFlag (x + 2 ^ 31) = x" unfolding p using assms by (simp add: UnsetDeletedFlag_def u32_def)
qed

section \<open>Slots\<close>

datatype slot = Empty | Live "byte list" | Marked "byte list"

fun bytes_of :: "slot \<Rightarrow> byte list" where
  "bytes_of Empty = []"
| "bytes_of (Live bs) = bs"
| "bytes_of (Marked bs) = bs"

fun size_field :: "slot \<Rightarrow> int" where
  "size_field Empty = 0"
| "size_field (Live bs) = int (length bs)"
| "size_field (Marked bs) = int (length bs) + 2 ^ 31"

definition used_bytes :: "slot list \<Rightarrow> nat" where
  "used_bytes slots = sum_list (map (length \<circ> bytes_of) slots)"

text \<open>
  The tuples of the slots lie in disjoint regions between \<open>fsp\<close> and the end of the page.
\<close>

definition placed :: "byte list \<Rightarrow> nat \<Rightarrow> nat list \<Rightarrow> slot list \<Rightarrow> bool" where
  "placed d fsp offs slots \<longleftrightarrow> length offs = length slots \<and>
     (\<forall>i < length slots. slots ! i \<noteq> Empty \<longrightarrow> bytes_of (slots ! i) \<noteq> [] \<and> fsp \<le> offs ! i \<and>
        offs ! i + length (bytes_of (slots ! i)) \<le> 4096 \<and>
        peek (offs ! i) (length (bytes_of (slots ! i))) d = bytes_of (slots ! i)) \<and>
     (\<forall>i < length slots. \<forall>j < length slots. i \<noteq> j \<longrightarrow> slots ! i \<noteq> Empty \<longrightarrow> slots ! j \<noteq> Empty \<longrightarrow>
        offs ! i + length (bytes_of (slots ! i)) \<le> offs ! j \<or> offs ! j + length (bytes_of (slots ! j)) \<le> offs ! i)"

definition headed :: "byte list \<Rightarrow> page_id_t \<Rightarrow> page_id_t \<Rightarrow> page_id_t \<Rightarrow> nat \<Rightarrow> nat list \<Rightarrow> slot list \<Rightarrow> bool" where
  "headed d pid prev nxt fsp offs slots \<longleftrightarrow> length d = 4096 \<and> scast 32 (field32 0 d) = pid \<and>
     scast 32 (field32 2 d) = prev \<and> scast 32 (field32 3 d) = nxt \<and> field32 4 d = int fsp \<and>
     field32 5 d = int (length slots) \<and> 24 + 8 * length slots \<le> fsp \<and> fsp + used_bytes slots = 4096 \<and> length offs = length slots \<and>
     (\<forall>i < length slots. field32 (6 + 2 * i) d = int (offs ! i) \<and> field32 (7 + 2 * i) d = size_field (slots ! i) \<and>
        (slots ! i = Empty \<longrightarrow> offs ! i = 0))"

definition holds_slots :: "byte list \<Rightarrow> page_id_t \<Rightarrow> page_id_t \<Rightarrow> page_id_t \<Rightarrow> slot list \<Rightarrow> bool" where
  "holds_slots d pid prev nxt slots \<longleftrightarrow>
     (\<exists>offs. headed d pid prev nxt (4096 - used_bytes slots) offs slots \<and> placed d (4096 - used_bytes slots) offs slots)"

lemma placed_cong:
  assumes "placed d fsp offs slots" "\<And>a n. fsp \<le> a \<Longrightarrow> a + n \<le> 4096 \<Longrightarrow> peek a n d' = peek a n d"
  shows "placed d' fsp offs slots"
  using assms by (auto simp: placed_def)

lemma headedD:
  assumes "headed d pid prev nxt fsp offs slots"
  shows "length d = 4096" "GetTablePageId d = pid" "GetPrevPageId d = prev" "GetNextPageId d = nxt"
    "GetFreeSpacePointer d = int fsp" "GetTupleCount d = int (length slots)" "24 + 8 * length slots \<le> fsp" "fsp \<le> 4096"
    "GetFreeSpaceRemaining d = int fsp - 24 - 8 * int (length slots)"
    "\<And>i. i < length slots \<Longrightarrow> GetTupleSize (int i) d = Inr (size_field (slots ! i))"
    "\<And>i. i < length slots \<Longrightarrow> GetTupleOffsetAtSlot (int i) d = Inr (int (offs ! i))"
proof -
  show l: "length d = 4096" and f: "24 + 8 * length slots \<le> fsp" "fsp \<le> 4096"
    using assms by (simp_all add: headed_def)
  show g: "GetTablePageId d = pid" "GetPrevPageId d = prev" "GetNextPageId d = nxt"
    "GetFreeSpacePointer d = int fsp" "GetTupleCount d = int (length slots)"
    using assms l by (simp_all add: page_fields headed_def)
  show "GetFreeSpaceRemaining d = int fsp - 24 - 8 * int (length slots)"
    using f by (simp add: GetFreeSpaceRemaining_def g SIZE_TABLE_PAGE_HEADER_def SIZE_TUPLE_def u32_id)
  fix i assume "i < length slots"
  then show "GetTupleSize (int i) d = Inr (size_field (slots ! i))" "GetTupleOffsetAtSlot (int i) d = Inr (int (offs ! i))"
    using assms f l by (simp_all add: slot_fields headed_def)
qed

lemma placedD:
  assumes "placed d fsp offs slots" "i < length slots" "slots ! i \<noteq> Empty"
  shows "bytes_of (slots ! i) \<noteq> []" "fsp \<le> offs ! i" "offs ! i + length (bytes_of (slots ! i)) \<le> 4096"
    "peek (offs ! i) (length (bytes_of (slots ! i))) d = bytes_of (slots ! i)"
  using assms by (auto simp: placed_def)

lemma size_field_zero: "s = Empty \<or> bytes_of s \<noteq> [] \<Longrightarrow> size_field s = 0 \<longleftrightarrow> s = Empty"
  by (cases s) auto

lemma size_field_live:
  assumes "s = Empty \<or> bytes_of s \<noteq> []" "length (bytes_of s) < 2 ^ 31"
  shows "IsDeleted (size_field s) \<longleftrightarrow> (\<forall>bs. s \<noteq> Live bs)"
  using assms flag_size [of "int (length (bytes_of s))"] by (cases s) (auto simp: IsDeleted_def)

lemma placed_bytes:
  assumes "placed d fsp offs slots" "i < length slots"
  shows "slots ! i = Empty \<or> bytes_of (slots ! i) \<noteq> []" "length (bytes_of (slots ! i)) \<le> 4096"
  using placedD [OF assms] by (cases "slots ! i"; force)+

section \<open>Insertion\<close>

definition first_empty :: "slot list \<Rightarrow> nat" where
  "first_empty slots = length (takeWhile (\<lambda>s. s \<noteq> Empty) slots)"

definition put_slot :: "nat \<Rightarrow> 'a \<Rightarrow> 'a list \<Rightarrow> 'a list" where
  "put_slot i s slots = (if i < length slots then slots[i := s] else slots @ [s])"

lemma put_slot_nth: "i \<le> length xs \<Longrightarrow> j < length (put_slot i x xs) \<Longrightarrow> put_slot i x xs ! j = (if j = i then x else xs ! j)"
  by (auto simp: put_slot_def nth_append nth_list_update)

lemma length_put_slot: "i \<le> length xs \<Longrightarrow> length (put_slot i x xs) = (if i = length xs then Suc (length xs) else length xs)"
  by (auto simp: put_slot_def)

definition space :: "slot list \<Rightarrow> int" where
  "space slots = 4096 - 24 - 8 * int (length slots) - int (used_bytes slots)"

lemma find_free_slot_spec:
  assumes "headed d pid prev nxt fsp offs slots" "placed d fsp offs slots"
  shows "i + n = length slots \<Longrightarrow>
    find_free_slot n (int i) d = Inr (int (i + length (takeWhile (\<lambda>s. s \<noteq> Empty) (drop i slots))))"
proof (induction n arbitrary: i)
  case (Suc n)
  then have i: "i < length slots" by simp
  have "find_free_slot n (int i + 1) d = Inr (int (Suc i + length (takeWhile (\<lambda>s. s \<noteq> Empty) (drop (Suc i) slots))))"
    using Suc.IH [of "Suc i"] Suc.prems by (simp add: add.commute)
  then show ?case
    using headedD(10) [OF assms(1) i] size_field_zero [OF placed_bytes(1) [OF assms(2) i]] Cons_nth_drop_Suc [OF i, symmetric]
    by simp
qed simp

lemma used_bytes_update: "i < length slots \<Longrightarrow> used_bytes (slots[i := s]) + length (bytes_of (slots ! i)) = used_bytes slots + length (bytes_of s)"
  by (induction slots arbitrary: i) (auto simp: used_bytes_def less_Suc_eq_0_disj nth_Cons' split: nat.splits)

lemma used_bytes_put_slot:
  "slots ! i = Empty \<and> i < length slots \<or> i = length slots \<Longrightarrow> used_bytes (put_slot i s slots) = used_bytes slots + length (bytes_of s)"
  using used_bytes_update [of i slots s] by (auto simp: put_slot_def used_bytes_def)

lemma first_empty_spec: "first_empty slots < length slots \<and> slots ! first_empty slots = Empty \<or> first_empty slots = length slots"
proof (cases "first_empty slots < length slots")
  case True
  then show ?thesis
    using nth_length_takeWhile [of "\<lambda>s. s \<noteq> Empty" slots] by (simp add: first_empty_def)
qed (use length_takeWhile_le [of "\<lambda>s. s \<noteq> Empty" slots] in \<open>simp add: first_empty_def\<close>)

text \<open>The writes of an insertion, as one update of the bytes.\<close>

lemma insert_writes:
  assumes h: "headed d pid prev nxt fsp offs slots" and p: "placed d fsp offs slots"
    and i: "i < length slots \<and> slots ! i = Empty \<or> i = length slots" and bs: "bs \<noteq> []" "24 + 8 * (length slots + 1) + length bs \<le> fsp"
  defines "q \<equiv> fsp - length bs"
  defines "d' \<equiv> set32 (7 + 2 * i) (int (length bs)) (set32 (6 + 2 * i) (int q) (poke q bs (set32 4 (int q) d)))"
  defines "d'' \<equiv> (if i = length slots then set32 5 (int (length slots) + 1) d' else d')"
  shows "headed d'' pid prev nxt q (put_slot i q offs) (put_slot i (Live bs) slots)"
    "placed d'' q (put_slot i q offs) (put_slot i (Live bs) slots)"
proof -
  let ?n = "length slots"
  have l: "length d = 4096" and f: "fsp \<le> 4096" and o: "length offs = ?n" using h by (simp_all add: headed_def)
  have q: "24 + 8 * (?n + 1) \<le> q" "q + length bs = fsp" using bs(2) by (simp_all add: q_def)
  have il: "i \<le> ?n" "i \<le> length offs" using i o by auto
  have ld: "length d' = 4096" "length d'' = 4096" using l q il f by (simp_all add: d'_def d''_def)
  have fld: "field32 k d'' = (if k = 5 \<and> i = ?n then int ?n + 1 else if k = 7 + 2 * i then int (length bs)
      else if k = 6 + 2 * i then int q else if k = 4 then int q else field32 k d)" if "4 * k + 4 \<le> 24 + 8 * (?n + 1)" for k
    using that l q il f by (simp add: d''_def d'_def field32_set32 field32_poke u32_id)
  have pk: "peek a m d'' = (if a = q \<and> m = length bs then bs else peek a m d)" if "a = q \<and> m = length bs \<or> fsp \<le> a" "a + m \<le> 4096" for a m
    using that l q il f by (auto simp: d''_def d'_def peek_set32 peek_poke_same peek_poke_other)
  have u: "q + used_bytes (put_slot i (Live bs) slots) = 4096"
    using used_bytes_put_slot [of slots i "Live bs"] i h q(2) by (auto simp: headed_def)
  show "headed d'' pid prev nxt q (put_slot i q offs) (put_slot i (Live bs) slots)"
    using h ld u q il fld o by (auto simp: headed_def length_put_slot put_slot_nth)
  have pd: "peek (offs ! j) (length (bytes_of (slots ! j))) d'' = bytes_of (slots ! j)" "fsp \<le> offs ! j" "bytes_of (slots ! j) \<noteq> []"
    "offs ! j + length (bytes_of (slots ! j)) \<le> 4096" if "j < ?n" "slots ! j \<noteq> Empty" for j
    using placedD [OF p that] pk q by auto
  have dj: "offs ! j + length (bytes_of (slots ! j)) \<le> offs ! k \<or> offs ! k + length (bytes_of (slots ! k)) \<le> offs ! j"
    if "j < ?n" "k < ?n" "j \<noteq> k" "slots ! j \<noteq> Empty" "slots ! k \<noteq> Empty" for j k
    using p that by (simp add: placed_def)
  have new: "j < ?n" if "j < length (put_slot i (Live bs) slots)" "j \<noteq> i" for j
    using that il by (auto simp: length_put_slot split: if_splits)
  show "placed d'' q (put_slot i q offs) (put_slot i (Live bs) slots)"
    unfolding placed_def
  proof (intro conjI allI impI)
    show "length (put_slot i q offs) = length (put_slot i (Live bs) slots)"
      using il o by (simp add: length_put_slot)
  next
    fix j assume j: "j < length (put_slot i (Live bs) slots)" "put_slot i (Live bs) slots ! j \<noteq> Empty"
    then have j': "j < length (put_slot i q offs)" using il o by (simp add: length_put_slot split: if_splits)
    show "bytes_of (put_slot i (Live bs) slots ! j) \<noteq> []" "q \<le> put_slot i q offs ! j"
      "put_slot i q offs ! j + length (bytes_of (put_slot i (Live bs) slots ! j)) \<le> 4096"
      "peek (put_slot i q offs ! j) (length (bytes_of (put_slot i (Live bs) slots ! j))) d'' = bytes_of (put_slot i (Live bs) slots ! j)"
      using j j' il bs(1) q f pk [of q "length bs"] pd [of j] new [of j] by (auto simp: put_slot_nth)
  next
    fix j k assume jk: "j < length (put_slot i (Live bs) slots)" "k < length (put_slot i (Live bs) slots)" "j \<noteq> k"
      "put_slot i (Live bs) slots ! j \<noteq> Empty" "put_slot i (Live bs) slots ! k \<noteq> Empty"
    then have jk': "j < length (put_slot i q offs)" "k < length (put_slot i q offs)" using il o by (simp_all add: length_put_slot split: if_splits)
    show "put_slot i q offs ! j + length (bytes_of (put_slot i (Live bs) slots ! j)) \<le> put_slot i q offs ! k \<or>
      put_slot i q offs ! k + length (bytes_of (put_slot i (Live bs) slots ! k)) \<le> put_slot i q offs ! j"
      using jk jk' il q(2) dj [of j k] new [of j] new [of k] pd(2) [of j] pd(2) [of k] by (auto simp: put_slot_nth split: if_splits)
  qed
qed

lemma InsertTuple_full:
  assumes "holds_slots d pid prev nxt slots" "t_data tuple \<noteq> []" "space slots < t_size tuple + 8"
  shows "TablePage_InsertTuple tuple d = Inr (None, d)"
proof -
  obtain offs where h: "headed d pid prev nxt (4096 - used_bytes slots) offs slots" using assms(1) by (auto simp: holds_slots_def)
  have "GetFreeSpaceRemaining d = space slots" using headedD(9) [OF h] h by (simp add: space_def headed_def of_nat_diff)
  then show ?thesis using assms(2,3) by (simp add: TablePage_InsertTuple_def t_size_def SIZE_TUPLE_def)
qed

lemma InsertTuple_room:
  assumes "holds_slots d pid prev nxt slots" "t_data tuple \<noteq> []" "t_size tuple + 8 \<le> space slots"
  shows "\<exists>d'. TablePage_InsertTuple tuple d = Inr (Some \<lparr>rid_page_id = pid, rid_slot_num = int (first_empty slots)\<rparr>, d') \<and>
    holds_slots d' pid prev nxt (put_slot (first_empty slots) (Live (t_data tuple)) slots)"
proof -
  define fsp where "fsp = 4096 - used_bytes slots"
  define i where "i = first_empty slots"
  obtain offs where h: "headed d pid prev nxt fsp offs slots" and p: "placed d fsp offs slots"
    using assms(1) by (auto simp: holds_slots_def fsp_def)
  let ?bs = "t_data tuple" and ?n = "length slots"
  have i: "i < ?n \<and> slots ! i = Empty \<or> i = ?n" using first_empty_spec [of slots] by (simp add: i_def)
  have fu: "fsp + used_bytes slots = 4096" using h by (simp add: headed_def)
  have r: "24 + 8 * (?n + 1) + length ?bs \<le> fsp" using assms(3) fu by (simp add: space_def t_size_def)
  define q where "q = fsp - length ?bs"
  define d' where "d' = set32 (7 + 2 * i) (int (length ?bs)) (set32 (6 + 2 * i) (int q) (poke q ?bs (set32 4 (int q) d)))"
  define d'' where "d'' = (if i = ?n then set32 5 (int ?n + 1) d' else d')"
  note w = insert_writes [OF h p i assms(2) r, folded q_def, folded d'_def, folded d''_def]
  have ql: "24 + 8 * (?n + 1) \<le> q" "q + length ?bs = fsp" "fsp \<le> 4096" "length d = 4096"
    using r fu h by (simp_all add: q_def headed_def)
  have il: "i \<le> ?n" using i by auto
  have ff: "find_free_slot ?n 0 d = Inr (int i)"
    using find_free_slot_spec [OF h p, of 0 ?n] by (simp add: i_def first_empty_def)
  have qi: "u32 (int fsp - int (length ?bs)) = int q" using ql by (simp add: u32_id)
  have c: "GetTupleCount d' = int ?n" "GetTablePageId d' = pid"
    using h ql il by (simp_all add: page_fields d'_def field32_set32 field32_poke headed_def)
  have "TablePage_InsertTuple tuple d = Inr (Some \<lparr>rid_page_id = pid, rid_slot_num = int i\<rparr>, d'')"
    using assms(2) r headedD(5,6,9) [OF h] ff ql il c
    by (simp add: TablePage_InsertTuple_def t_size_def SIZE_TUPLE_def page_sets qi poke_checked_def page_fields field32_set32
        field32_poke slot_fields u32_id Let_def d''_def d'_def [symmetric])
  moreover have "q = 4096 - used_bytes (put_slot i (Live ?bs) slots)" using w(1) unfolding headed_def by linarith
  then have "holds_slots d'' pid prev nxt (put_slot i (Live ?bs) slots)"
    using w by (auto simp: holds_slots_def)
  ultimately show ?thesis by (auto simp: i_def)
qed

section \<open>Reading and marking\<close>

lemma page_size:
  assumes "holds_slots d pid prev nxt slots" "i < length slots"
  shows "GetTupleSize (int i) d = Inr (size_field (slots ! i))" "GetTupleCount d = int (length slots)"
    "IsDeleted (size_field (slots ! i)) \<longleftrightarrow> (\<forall>bs. slots ! i \<noteq> Live bs)" "length d = 4096" "32 + 8 * i \<le> 4096"
proof -
  obtain offs where h: "headed d pid prev nxt (4096 - used_bytes slots) offs slots" "placed d (4096 - used_bytes slots) offs slots"
    using assms(1) by (auto simp: holds_slots_def)
  show "GetTupleSize (int i) d = Inr (size_field (slots ! i))" "GetTupleCount d = int (length slots)" "length d = 4096"
    using headedD [OF h(1)] assms(2) by simp_all
  show "IsDeleted (size_field (slots ! i)) \<longleftrightarrow> (\<forall>bs. slots ! i \<noteq> Live bs)"
    using placed_bytes [OF h(2) assms(2)] by (intro size_field_live) auto
  show "32 + 8 * i \<le> 4096" using headedD(7,8) [OF h(1)] assms(2) by simp
qed

lemma GetTuple_spec:
  assumes "holds_slots d pid prev nxt slots" "rid_slot_num rid = int i"
  shows "TablePage_GetTuple lg rid tuple d =
    (if i < length slots then case slots ! i of Live bs \<Rightarrow> Inr (True, False, \<lparr>t_allocated = True, t_rid = rid, t_data = bs\<rparr>)
       | _ \<Rightarrow> Inr (False, lg, tuple) else Inr (False, lg, tuple))"
proof (cases "i < length slots")
  case True
  obtain offs where h: "headed d pid prev nxt (4096 - used_bytes slots) offs slots" "placed d (4096 - used_bytes slots) offs slots"
    using assms(1) by (auto simp: holds_slots_def)
  note g = page_size [OF assms(1) True]
  show ?thesis
  proof (cases "slots ! i")
    case (Live bs)
    then have "load_region (int (offs ! i)) (int (length bs)) d = Inr bs"
      using placedD [OF h(2) True] headedD(1) [OF h(1)] by (simp add: load_region_def)
    then show ?thesis
      using Live g(1,2,3) headedD(11) [OF h(1) True] True assms(2) by (simp add: TablePage_GetTuple_def)
  qed (use g(1,2,3) True assms(2) in \<open>simp_all add: TablePage_GetTuple_def\<close>)
next
  case False
  have "GetTupleCount d = int (length slots)"
    using assms(1) headedD(6) by (auto simp: holds_slots_def)
  then show ?thesis using False assms(2) by (simp add: TablePage_GetTuple_def)
qed

lemma holds_slots_relabel:
  assumes "holds_slots d pid prev nxt slots" "i < length slots" "bytes_of s = bytes_of (slots ! i)" "s = Empty \<longleftrightarrow> slots ! i = Empty"
  shows "holds_slots (set32 (7 + 2 * i) (size_field s) d) pid prev nxt (slots[i := s])"
proof -
  obtain offs where h: "headed d pid prev nxt (4096 - used_bytes slots) offs slots" "placed d (4096 - used_bytes slots) offs slots"
    using assms(1) by (auto simp: holds_slots_def)
  have u: "used_bytes (slots[i := s]) = used_bytes slots" using used_bytes_update [OF assms(2), of s] assms(3) by simp
  have "length (bytes_of s) \<le> 4096" using placed_bytes(2) [OF h(2) assms(2)] assms(3) by simp
  then have sz: "u32 (size_field s) = size_field s" by (cases s) (simp_all add: u32_id)
  note b = headedD(1,7,8) [OF h(1)]
  have k: "5 + 2 * length slots < 1024" using b by simp
  have "headed (set32 (7 + 2 * i) (size_field s) d) pid prev nxt (4096 - used_bytes slots) offs (slots[i := s])"
    using h(1) u assms(2,4) b sz k by (auto simp: headed_def field32_set32 nth_list_update)
  moreover have "placed (set32 (7 + 2 * i) (size_field s) d) (4096 - used_bytes slots) offs slots"
    using h(2) b assms(2) by (intro placed_cong [OF h(2)] peek_set32) auto
  then have "placed (set32 (7 + 2 * i) (size_field s) d) (4096 - used_bytes slots) offs (slots[i := s])"
    using assms(2-4) by (simp add: placed_def nth_list_update)
  ultimately show ?thesis using u by (auto simp: holds_slots_def)
qed

definition mark_slot :: "slot \<Rightarrow> slot" where
  "mark_slot s = (case s of Live bs \<Rightarrow> Marked bs | _ \<Rightarrow> s)"

definition unmark_slot :: "slot \<Rightarrow> slot" where
  "unmark_slot s = (case s of Marked bs \<Rightarrow> Live bs | _ \<Rightarrow> s)"

definition is_live :: "slot \<Rightarrow> bool" where
  "is_live s = (case s of Live bs \<Rightarrow> True | _ \<Rightarrow> False)"

lemma live_length:
  assumes "holds_slots d pid prev nxt slots" "i < length slots"
  shows "slots ! i = Empty \<or> bytes_of (slots ! i) \<noteq> []" "length (bytes_of (slots ! i)) \<le> 4096"
  using assms placed_bytes [of d _ _ slots i] by (auto simp: holds_slots_def)

lemma list_update_nth: "xs ! i = x \<Longrightarrow> xs[i := x] = xs"
  by auto

lemma MarkDelete_spec:
  assumes "holds_slots d pid prev nxt slots" "rid_slot_num rid = int i"
  shows "\<exists>d'. TablePage_MarkDelete lg rid d =
      Inr (if i < length slots \<and> is_live (slots ! i) then (True, False, d') else (False, lg, d')) \<and>
    holds_slots d' pid prev nxt (if i < length slots then slots[i := mark_slot (slots ! i)] else slots)"
proof (cases "i < length slots")
  case True
  note g = page_size [OF assms(1) True]
  show ?thesis
  proof (cases "slots ! i")
    case (Live bs)
    then have bs: "0 < int (length bs)" "int (length bs) < 2 ^ 31" using live_length [OF assms(1) True] by auto
    have "TablePage_MarkDelete lg rid d = Inr (True, False, set32 (7 + 2 * i) (size_field (Marked bs)) d)"
      using Live g True assms(2) bs flag_size [OF bs] by (simp add: TablePage_MarkDelete_def slot_fields)
    then show ?thesis
      using holds_slots_relabel [OF assms(1) True, of "Marked bs"] Live True by (simp add: is_live_def mark_slot_def)
  qed (use g(1,2,3) True assms in \<open>simp_all add: TablePage_MarkDelete_def is_live_def mark_slot_def list_update_nth\<close>)
next
  case False
  have "GetTupleCount d = int (length slots)"
    using assms(1) headedD(6) by (auto simp: holds_slots_def)
  then show ?thesis using False assms by (simp add: TablePage_MarkDelete_def)
qed

lemma RollbackDelete_spec:
  assumes "holds_slots d pid prev nxt slots" "rid_slot_num rid = int i" "i < length slots"
  shows "\<exists>d'. TablePage_RollbackDelete rid d = Inr d' \<and> holds_slots d' pid prev nxt (slots[i := unmark_slot (slots ! i)])"
proof -
  note g = page_size [OF assms(1,3)]
  show ?thesis
  proof (cases "slots ! i")
    case Empty
    have "UnsetDeletedFlag 0 = 0" by (simp add: UnsetDeletedFlag_def u32_def)
    then have "TablePage_RollbackDelete rid d = Inr (set32 (7 + 2 * i) (size_field Empty) d)"
      using Empty g assms(2,3) by (simp add: TablePage_RollbackDelete_def slot_fields)
    then show ?thesis
      using holds_slots_relabel [OF assms(1,3), of Empty] Empty by (simp add: unmark_slot_def)
  next
    case (Live bs)
    then show ?thesis
      using g assms by (simp add: TablePage_RollbackDelete_def unmark_slot_def list_update_nth)
  next
    case (Marked bs)
    then have bs: "0 < int (length bs)" "int (length bs) < 2 ^ 31" using live_length [OF assms(1,3)] by auto
    have "TablePage_RollbackDelete rid d = Inr (set32 (7 + 2 * i) (size_field (Live bs)) d)"
      using Marked g assms(2,3) flag_size [OF bs] by (simp add: TablePage_RollbackDelete_def slot_fields)
    then show ?thesis
      using holds_slots_relabel [OF assms(1,3), of "Live bs"] Marked by (simp add: unmark_slot_def)
  qed
qed

section \<open>Moving tuples\<close>

text \<open>The loop over the slots changes the offset words it means to change and nothing else.\<close>

lemma shift_offsets_spec:
  assumes "24 + 8 * (i + n) \<le> length d"
  shows "\<exists>d'. shift_offsets n (int i) bound delta d = Inr d' \<and> length d' = length d \<and>
    (\<forall>j. i \<le> j \<longrightarrow> j < i + n \<longrightarrow> field32 (6 + 2 * j) d' =
       (if field32 (7 + 2 * j) d > 0 \<and> field32 (6 + 2 * j) d < bound then u32 (field32 (6 + 2 * j) d + delta) else field32 (6 + 2 * j) d)) \<and>
    (\<forall>k. 4 * k + 4 \<le> length d \<longrightarrow> (\<forall>j. i \<le> j \<longrightarrow> j < i + n \<longrightarrow> k \<noteq> 6 + 2 * j) \<longrightarrow> field32 k d' = field32 k d) \<and>
    (\<forall>a m. 24 + 8 * (i + n) \<le> a \<longrightarrow> a + m \<le> length d \<longrightarrow> peek a m d' = peek a m d)"
  using assms
proof (induction n arbitrary: i d)
  case 0
  show ?case by simp
next
  case (Suc n)
  let ?c = "field32 (7 + 2 * i) d > 0 \<and> field32 (6 + 2 * i) d < bound"
  define d1 where "d1 = (if ?c then set32 (6 + 2 * i) (u32 (field32 (6 + 2 * i) d + delta)) d else d)"
  have b: "32 + 8 * i \<le> length d" using Suc.prems by simp
  have l: "length d1 = length d" using b by (simp add: d1_def)
  have f: "4 * k + 4 \<le> length d \<Longrightarrow> field32 k d1 = (if k = 6 + 2 * i \<and> ?c then u32 (field32 (6 + 2 * i) d + delta) else field32 k d)" for k
    using b by (simp add: d1_def field32_set32 u32_def)
  have p: "24 + 8 * (i + Suc n) \<le> a \<Longrightarrow> a + m \<le> length d \<Longrightarrow> peek a m d1 = peek a m d" for a m
    by (simp add: d1_def peek_set32)
  have step: "shift_offsets (Suc n) (int i) bound delta d = shift_offsets n (int (Suc i)) bound delta d1"
    using b by (simp add: slot_fields d1_def add.commute)
  obtain d' where d': "shift_offsets n (int (Suc i)) bound delta d1 = Inr d'" "length d' = length d1"
    "\<forall>j. Suc i \<le> j \<longrightarrow> j < Suc i + n \<longrightarrow> field32 (6 + 2 * j) d' =
       (if field32 (7 + 2 * j) d1 > 0 \<and> field32 (6 + 2 * j) d1 < bound then u32 (field32 (6 + 2 * j) d1 + delta) else field32 (6 + 2 * j) d1)"
    "\<forall>k. 4 * k + 4 \<le> length d1 \<longrightarrow> (\<forall>j. Suc i \<le> j \<longrightarrow> j < Suc i + n \<longrightarrow> k \<noteq> 6 + 2 * j) \<longrightarrow> field32 k d' = field32 k d1"
    "\<forall>a m. 24 + 8 * (Suc i + n) \<le> a \<longrightarrow> a + m \<le> length d1 \<longrightarrow> peek a m d' = peek a m d1"
    using Suc.IH [of "Suc i" d1] Suc.prems l by auto
  have "field32 (6 + 2 * j) d' = (if field32 (7 + 2 * j) d > 0 \<and> field32 (6 + 2 * j) d < bound
      then u32 (field32 (6 + 2 * j) d + delta) else field32 (6 + 2 * j) d)" if "i \<le> j" "j < i + Suc n" for j
  proof (cases "j = i")
    case True
    then show ?thesis using d'(4) f l b by simp
  next
    case False
    then have j: "Suc i \<le> j" "j < Suc i + n" "4 * (7 + 2 * j) + 4 \<le> length d" using that Suc.prems by simp_all
    then have e: "field32 (7 + 2 * j) d1 = field32 (7 + 2 * j) d" "field32 (6 + 2 * j) d1 = field32 (6 + 2 * j) d"
      using f [of "7 + 2 * j"] f [of "6 + 2 * j"] False by simp_all
    show ?thesis using d'(3) j e by simp
  qed
  moreover have "field32 k d' = field32 k d" if "4 * k + 4 \<le> length d" "\<forall>j. i \<le> j \<longrightarrow> j < i + Suc n \<longrightarrow> k \<noteq> 6 + 2 * j" for k
  proof -
    have "k \<noteq> 6 + 2 * i" "\<forall>j. Suc i \<le> j \<longrightarrow> j < Suc i + n \<longrightarrow> k \<noteq> 6 + 2 * j" using that(2) by auto
    then show ?thesis using d'(4) f [OF that(1)] l that(1) by simp
  qed
  moreover have "peek a m d' = peek a m d" if "24 + 8 * (i + Suc n) \<le> a" "a + m \<le> length d" for a m
    using d'(5) p that l by simp
  ultimately show ?case
    using step d'(1,2) l by (intro exI [of _ d']) (simp only: simp_thms; blast)
qed

text \<open>
  Tuple \<open>i\<close> is replaced by one that ends at the same place; the tuples before it move by the
  difference of the sizes.
\<close>

definition moved :: "nat \<Rightarrow> nat \<Rightarrow> nat \<Rightarrow> slot \<Rightarrow> nat list \<Rightarrow> slot list \<Rightarrow> nat list" where
  "moved i sz m s offs slots = map (\<lambda>j. if j = i then if s = Empty then 0 else offs ! i + sz - m
     else if slots ! j \<noteq> Empty \<and> offs ! j < offs ! i then offs ! j + sz - m else offs ! j) [0..<length slots]"

lemma moved_nth [simp]: "length (moved i sz m s offs slots) = length slots"
  "j < length slots \<Longrightarrow> moved i sz m s offs slots ! j = (if j = i then if s = Empty then 0 else offs ! i + sz - m
     else if slots ! j \<noteq> Empty \<and> offs ! j < offs ! i then offs ! j + sz - m else offs ! j)"
  by (simp_all add: moved_def)

lemma move_disjoint:
  fixes oi sz oj lj ok lk m :: nat
  shows "oi + sz \<le> oj \<or> oj + lj \<le> oi \<Longrightarrow> 0 < lj \<Longrightarrow> 0 < sz \<Longrightarrow> m \<le> oj + sz \<Longrightarrow> m \<le> oi + sz \<Longrightarrow>
      oi + sz - m + m \<le> (if oj < oi then oj + sz - m else oj) \<or> (if oj < oi then oj + sz - m else oj) + lj \<le> oi + sz - m"
    "oi + sz \<le> oj \<or> oj + lj \<le> oi \<Longrightarrow> oi + sz \<le> ok \<or> ok + lk \<le> oi \<Longrightarrow> oj + lj \<le> ok \<or> ok + lk \<le> oj \<Longrightarrow>
      0 < lj \<Longrightarrow> 0 < lk \<Longrightarrow> 0 < sz \<Longrightarrow> m \<le> oj + sz \<Longrightarrow> m \<le> ok + sz \<Longrightarrow>
      (if oj < oi then oj + sz - m else oj) + lj \<le> (if ok < oi then ok + sz - m else ok) \<or>
      (if ok < oi then ok + sz - m else ok) + lk \<le> (if oj < oi then oj + sz - m else oj)"
  by (auto split: if_splits)

lemma replace_tuple:
  assumes h: "headed d pid prev nxt fsp offs slots" and p: "placed d fsp offs slots" and i: "i < length slots" "slots ! i \<noteq> Empty"
    and sz: "sz = length (bytes_of (slots ! i))" and m: "m = length (bytes_of s)" "s = Empty \<or> bytes_of s \<noteq> []"
    and room: "24 + 8 * length slots + m \<le> fsp + sz"
    and l: "length d' = 4096"
    and f: "field32 0 d' = field32 0 d" "field32 2 d' = field32 2 d" "field32 3 d' = field32 3 d" "field32 5 d' = field32 5 d"
      "field32 4 d' = int (fsp + sz - m)"
    and so: "\<And>j. j < length slots \<Longrightarrow> field32 (6 + 2 * j) d' = int (moved i sz m s offs slots ! j)"
    and ss: "\<And>j. j < length slots \<Longrightarrow> field32 (7 + 2 * j) d' = size_field (slots[i := s] ! j)"
    and d1: "\<And>a k. offs ! i + sz \<le> a \<Longrightarrow> a + k \<le> 4096 \<Longrightarrow> peek a k d' = peek a k d"
    and d2: "peek (offs ! i + sz - m) m d' = bytes_of s"
    and d3: "\<And>a k. fsp \<le> a \<Longrightarrow> a + k \<le> offs ! i \<Longrightarrow> peek (a + sz - m) k d' = peek a k d"
  shows "holds_slots d' pid prev nxt (slots[i := s])"
proof -
  have u: "used_bytes (slots[i := s]) + sz = used_bytes slots + m" using used_bytes_update [OF i(1), of s] sz m(1) by simp
  have fu: "fsp + used_bytes slots = 4096" using h by (simp add: headed_def)
  have fs: "fsp + sz - m = 4096 - used_bytes (slots[i := s])" using u fu room by linarith
  note pi = placedD [OF p i, folded sz]
  let ?o = "moved i sz m s offs slots" and ?s = "slots[i := s]"
  have "headed d' pid prev nxt (fsp + sz - m) ?o ?s"
    using h l f so ss room u fu i by (auto simp: headed_def nth_list_update)
  moreover have "placed d' (fsp + sz - m) ?o ?s"
    unfolding placed_def
  proof (intro conjI allI impI)
    show "length ?o = length ?s" by simp
  next
    fix j assume j: "j < length ?s" "?s ! j \<noteq> Empty"
    have "bytes_of (?s ! j) \<noteq> [] \<and> fsp + sz - m \<le> ?o ! j \<and> ?o ! j + length (bytes_of (?s ! j)) \<le> 4096 \<and>
      peek (?o ! j) (length (bytes_of (?s ! j))) d' = bytes_of (?s ! j)"
    proof (cases "j = i")
      case True
      then show ?thesis using j i m pi room d2 by auto
    next
      case False
      then have j': "j < length slots" "slots ! j \<noteq> Empty" "?s ! j = slots ! j" using j by simp_all
      note pj = placedD [OF p j'(1,2)]
      have dj: "offs ! i + sz \<le> offs ! j \<or> offs ! j + length (bytes_of (slots ! j)) \<le> offs ! i"
        using p i j' False by (auto simp: placed_def sz)
      show ?thesis
      proof (cases "offs ! j < offs ! i")
        case True
        then have b: "offs ! j + length (bytes_of (slots ! j)) \<le> offs ! i" using dj by linarith
        then have "fsp + sz - m \<le> offs ! j + sz - m" "offs ! j + sz - m + length (bytes_of (slots ! j)) \<le> 4096"
          using pj(2) pi(3) room by linarith+
        then show ?thesis using d3 [OF pj(2) b] pj j' False True by simp
      next
        case nlt: False
        then have b: "offs ! i + sz \<le> offs ! j" using dj pj(1) by (cases "bytes_of (slots ! j)") auto
        then show ?thesis using d1 [OF b pj(3)] pj pi j' False nlt by simp
      qed
    qed
    then show "bytes_of (?s ! j) \<noteq> []" "fsp + sz - m \<le> ?o ! j" "?o ! j + length (bytes_of (?s ! j)) \<le> 4096"
      "peek (?o ! j) (length (bytes_of (?s ! j))) d' = bytes_of (?s ! j)" by simp_all
  next
    fix j k assume jk: "j < length ?s" "k < length ?s" "j \<noteq> k" "?s ! j \<noteq> Empty" "?s ! k \<noteq> Empty"
    define L where "L x = length (bytes_of (slots ! x))" for x
    have dj: "offs ! x + L x \<le> offs ! y \<or> offs ! y + L y \<le> offs ! x"
      if "x < length slots" "y < length slots" "x \<noteq> y" "slots ! x \<noteq> Empty" "slots ! y \<noteq> Empty" for x y
      using p that by (simp add: placed_def L_def)
    have ne: "x < length slots \<Longrightarrow> slots ! x \<noteq> Empty \<Longrightarrow> fsp \<le> offs ! x \<and> 0 < L x" for x
      using placedD(1,2) [OF p] by (simp add: L_def)
    have ln: "length (bytes_of (?s ! x)) = (if x = i then m else L x)" if "x < length slots" for x
      using that m(1) by (simp add: L_def)
    have L: "L i = sz" by (simp add: L_def sz)
    show "?o ! j + length (bytes_of (?s ! j)) \<le> ?o ! k \<or> ?o ! k + length (bytes_of (?s ! k)) \<le> ?o ! j"
    proof -
      consider "j = i" | "k = i" | "j \<noteq> i" "k \<noteq> i" by blast
      then show ?thesis
      proof cases
        case 1
        then have "s \<noteq> Empty" "slots ! k \<noteq> Empty" "k \<noteq> i" "k < length slots" using jk by auto
        then show ?thesis
          using 1 i move_disjoint(1) [of "offs ! i" sz "offs ! k" "L k" m] dj [of i k] ne [of k] ne [of i] room L ln [of k] m(1) by auto
      next
        case 2
        then have "s \<noteq> Empty" "slots ! j \<noteq> Empty" "j \<noteq> i" "j < length slots" using jk by auto
        then show ?thesis
          using 2 i move_disjoint(1) [of "offs ! i" sz "offs ! j" "L j" m] dj [of i j] ne [of j] ne [of i] room L ln [of j] m(1) by auto
      next
        case 3
        then have x: "slots ! k \<noteq> Empty" "slots ! j \<noteq> Empty" "k < length slots" "j < length slots" using jk by auto
        have "m \<le> offs ! j + sz" "m \<le> offs ! k + sz" using ne [of j] ne [of k] x room by linarith+
        then show ?thesis
          using 3 x jk(3) i move_disjoint(2) [of "offs ! i" sz "offs ! j" "L j" "offs ! k" "L k" m] dj [of i j] dj [of i k] dj [of j k]
            ne [of k] ne [of j] ne [of i] L ln [of k] ln [of j] by simp
      qed
    qed
  qed
  ultimately show ?thesis using fs by (auto simp: holds_slots_def)
qed

text \<open>The two block moves of an update.\<close>

lemma moved_bytes:
  assumes "length d = 4096" "h \<le> fsp + sz - length bs" "24 \<le> h" "length bs \<le> fsp + sz" "fsp \<le> off" "off + sz \<le> 4096"
  defines "q \<equiv> fsp + sz - length bs"
  defines "d' \<equiv> poke (off + sz - length bs) bs (set32 4 (int q) (poke q (peek fsp (off - fsp) d) d))"
  shows "length d' = 4096" "\<And>k. 4 * k + 4 \<le> h \<Longrightarrow> field32 k d' = (if k = 4 then int q else field32 k d)"
    "\<And>a k. off + sz \<le> a \<Longrightarrow> a + k \<le> 4096 \<Longrightarrow> peek a k d' = peek a k d"
    "peek (off + sz - length bs) (length bs) d' = bs"
    "\<And>a k. fsp \<le> a \<Longrightarrow> a + k \<le> off \<Longrightarrow> peek (a + sz - length bs) k d' = peek a k d"
proof -
  let ?m = "length bs"
  let ?d1 = "poke q (peek fsp (off - fsp) d) d" and ?d2 = "set32 4 (int q) (poke q (peek fsp (off - fsp) d) d)"
  have lp: "length (peek fsp (off - fsp) d) = off - fsp" using assms(1,5,6) by (simp add: length_peek)
  have q: "q + (off - fsp) = off + sz - ?m" "24 \<le> q" "h \<le> q" "q + ?m = fsp + sz"
    using assms(2-6) by (simp_all add: q_def)
  have qe: "q + (off - fsp) + ?m \<le> 4096" using q(1) assms(4-6) by linarith
  have l1: "length ?d1 = 4096" using lp q qe assms(1) by simp
  have l2: "length ?d2 = 4096" using l1 by simp
  have e: "off + sz - ?m + ?m \<le> 4096" using assms(4-6) by linarith
  show "length d' = 4096" using l2 e by (simp add: d'_def)
  show "field32 k d' = (if k = 4 then int q else field32 k d)" if "4 * k + 4 \<le> h" for k
  proof -
    have "4 * k + 4 \<le> q" "q \<le> off + sz - ?m" using that q by linarith+
    then show ?thesis
      using l1 l2 e lp qe q assms(1,6) by (simp add: d'_def field32_poke field32_set32 u32_id)
  qed
  show "peek a k d' = peek a k d" if "off + sz \<le> a" "a + k \<le> 4096" for a k
  proof -
    have "off + sz - ?m + ?m \<le> a" "q + (off - fsp) \<le> a" "20 \<le> a" using that e q assms(4-6) by linarith+
    then show ?thesis
      using that l1 l2 e lp qe assms(1) by (simp add: d'_def peek_poke_other peek_set32)
  qed
  show "peek (off + sz - ?m) ?m d' = bs" using l2 e by (simp add: d'_def peek_poke_same)
  show "peek (a + sz - ?m) k d' = peek a k d" if "fsp \<le> a" "a + k \<le> off" for a k
  proof -
    note fa = that(1)
    obtain b where b: "a = fsp + b" using le_Suc_ex [OF fa] by blast
    have x: "a + sz - ?m = q + b" "b + k \<le> off - fsp" using b that q assms(4-6) by (simp_all add: q_def)
    then have y: "q + b + k \<le> off + sz - ?m" "q + b + k \<le> 4096" "20 \<le> q + b" using q qe by linarith+
    have "peek (a + sz - ?m) k d' = peek (q + b) k ?d2"
      unfolding d'_def x(1) by (rule peek_poke_other [OF _ _ disjI1 [OF y(1)]]) (simp_all only: l2 e y(2))
    also have "\<dots> = peek (q + b) k ?d1"
      using y l1 by (intro peek_set32) simp_all
    also have "\<dots> = peek b k (peek fsp (off - fsp) d)"
      by (subst peek_poke_in) (use x(2) lp qe assms(1) in simp_all)
    also have "\<dots> = peek a k d"
      using x(2) b assms(1,5,6) by (simp add: peek_peek)
    finally show ?thesis .
  qed
qed

lemma poke_checked_nat: "off + length bs \<le> length d \<Longrightarrow> poke_checked (int off) bs d = Inr (poke off bs d)"
  by (simp add: poke_checked_def)

lemma block_move:
  assumes "length d = 4096" "m \<le> fsp + sz" "fsp \<le> off" "off + sz \<le> 4096"
  shows "memmove (int fsp + int sz - int m) (int fsp) (int off - int fsp) d = Inr (poke (fsp + sz - m) (peek fsp (off - fsp) d) d)"
proof -
  have n: "nat (int off - int fsp) = off - fsp" "int fsp + int sz - int m = int (fsp + sz - m)"
    using assms(2,3) by simp_all
  have "load_region (int fsp) (int off - int fsp) d = Inr (peek fsp (off - fsp) d)"
    using assms by (simp add: load_region_def n)
  moreover have "length (peek fsp (off - fsp) d) = off - fsp" using assms by (simp add: length_peek)
  then have "poke_checked (int (fsp + sz - m)) (peek fsp (off - fsp) d) d = Inr (poke (fsp + sz - m) (peek fsp (off - fsp) d) d)"
    using assms by (intro poke_checked_nat) linarith
  ultimately show ?thesis by (simp add: memmove_def n(2))
qed

lemma offset_below:
  assumes "placed d fsp offs slots" "i < length slots" "slots ! i \<noteq> Empty" "j < length slots" "slots ! j \<noteq> Empty" "j \<noteq> i"
  shows "offs ! j < offs ! i + length (bytes_of (slots ! i)) \<longleftrightarrow> offs ! j < offs ! i"
proof -
  have "offs ! i + length (bytes_of (slots ! i)) \<le> offs ! j \<or> offs ! j + length (bytes_of (slots ! j)) \<le> offs ! i"
    using assms by (auto simp: placed_def)
  moreover have "0 < length (bytes_of (slots ! j))" using placedD(1) [OF assms(1,4,5)] by simp
  ultimately show ?thesis by linarith
qed

lemma size_field_pos:
  assumes "placed d fsp offs slots" "j < length slots"
  shows "0 < size_field (slots ! j) \<longleftrightarrow> slots ! j \<noteq> Empty"
  using placed_bytes(1) [OF assms] by (cases "slots ! j") auto

lemma UpdateTuple_fits:
  assumes hs: "holds_slots d pid prev nxt slots" and rid: "rid_slot_num rid = int i" and i: "i < length slots" "slots ! i = Live ob"
    and bs: "t_data tuple \<noteq> []" "t_size tuple \<le> space slots + int (length ob)"
  shows "\<exists>d'. TablePage_UpdateTuple lg tuple old rid d = Inr (True, False, \<lparr>t_allocated = True, t_rid = rid, t_data = ob\<rparr>, d') \<and>
    holds_slots d' pid prev nxt (slots[i := Live (t_data tuple)])"
proof -
  define fsp where "fsp = 4096 - used_bytes slots"
  obtain offs where h: "headed d pid prev nxt fsp offs slots" and p: "placed d fsp offs slots"
    using hs by (auto simp: holds_slots_def fsp_def)
  let ?n = "length slots" and ?bs = "t_data tuple" and ?off = "offs ! i" and ?sz = "length ob" and ?m = "length (t_data tuple)"
  note g = page_size [OF hs i(1)] and hd = headedD [OF h]
  have fu: "fsp + used_bytes slots = 4096" using h by (simp add: headed_def)
  have pi: "ob \<noteq> []" "fsp \<le> ?off" "?off + ?sz \<le> 4096" "peek ?off ?sz d = ob" using placedD [OF p i(1)] i(2) by simp_all
  have room: "24 + 8 * ?n + ?m \<le> fsp + ?sz" using bs(2) fu by (simp add: space_def t_size_def)
  define q where "q = fsp + ?sz - ?m"
  define d3 where "d3 = poke (?off + ?sz - ?m) ?bs (set32 4 (int q) (poke q (peek fsp (?off - fsp) d) d))"
  have "24 + 8 * ?n \<le> fsp + ?sz - ?m" "24 \<le> 24 + 8 * ?n" "?m \<le> fsp + ?sz" using room by linarith+
  note mb = moved_bytes [OF hd(1) this pi(2,3), folded q_def, folded d3_def]
  define d4 where "d4 = set32 (7 + 2 * i) (int ?m) d3"
  have n: "4 * (7 + 2 * i) + 4 \<le> 24 + 8 * ?n" "24 + 8 * ?n \<le> 4096" using i(1) hd(7,8) by simp_all
  have "?m \<le> 4096" using room hd(8) pi(2,3) by linarith
  then have m4: "int ?m < 2 ^ 31" by simp
  have l4: "length d4 = 4096" using mb(1) n by (simp add: d4_def)
  have f4: "field32 k d4 = (if k = 7 + 2 * i then int ?m else if k = 4 then int q else field32 k d)" if "4 * k + 4 \<le> 24 + 8 * ?n" for k
    using that n mb(1,2) m4 by (simp add: d4_def field32_set32 u32_id)
  have qs: "24 + 8 * ?n \<le> q" "q \<le> ?off + ?sz - ?m" using room pi(2) by (simp_all add: q_def)
  obtain d' where d': "shift_offsets ?n (int 0) (int (?off + ?sz)) (int ?sz - int ?m) d4 = Inr d'" "length d' = length d4"
    "\<forall>j. 0 \<le> j \<longrightarrow> j < 0 + ?n \<longrightarrow> field32 (6 + 2 * j) d' =
       (if field32 (7 + 2 * j) d4 > 0 \<and> field32 (6 + 2 * j) d4 < int (?off + ?sz) then u32 (field32 (6 + 2 * j) d4 + (int ?sz - int ?m)) else field32 (6 + 2 * j) d4)"
    "\<forall>k. 4 * k + 4 \<le> length d4 \<longrightarrow> (\<forall>j. 0 \<le> j \<longrightarrow> j < 0 + ?n \<longrightarrow> k \<noteq> 6 + 2 * j) \<longrightarrow> field32 k d' = field32 k d4"
    "\<forall>a m. 24 + 8 * (0 + ?n) \<le> a \<longrightarrow> a + m \<le> length d4 \<longrightarrow> peek a m d' = peek a m d4"
    using shift_offsets_spec [of 0 ?n d4 "int (?off + ?sz)" "int ?sz - int ?m"] n l4 by auto
  have pk: "peek a m d' = peek a m d3" if "24 + 8 * ?n \<le> a" "a + m \<le> 4096" for a m
    using d'(5) that l4 n mb(1) by (simp add: d4_def peek_set32)
  have mm: "memmove (int fsp + int ?sz - int ?m) (int fsp) (int ?off - int fsp) d = Inr (poke q (peek fsp (?off - fsp) d) d)"
    unfolding q_def using room pi(2,3) hd(1) by (intro block_move) linarith+
  have l2: "length (set32 4 (int q) (poke q (peek fsp (?off - fsp) d) d)) = 4096"
    using hd(1) pi(2,3) room by (simp add: length_peek q_def)
  have e: "int ?off + int ?sz - int ?m = int (?off + ?sz - ?m)" "int fsp + int ?sz - int ?m = int q" using room pi(2) by (simp_all add: q_def)
  have pc: "poke_checked (int ?off + int ?sz - int ?m) ?bs (set32 4 (int q) (poke q (peek fsp (?off - fsp) d) d)) = Inr d3"
    unfolding e(1) d3_def using l2 pi(2,3) room by (intro poke_checked_nat) linarith
  have lr: "load_region (int ?off) (int ?sz) d = Inr ob" using pi hd(1) by (simp add: load_region_def)
  have c4: "GetTupleCount d4 = int ?n" using l4 f4 n h by (simp add: page_fields headed_def)
  have u: "u32 (int q) = int q" "u32 (int ?off + int ?sz) = int (?off + ?sz)" "u32 (GetFreeSpaceRemaining d + int ?sz) = space slots + int ?sz"
    using pi(3) hd(8,9) room fu by (simp_all add: u32_id q_def space_def)
  have "TablePage_UpdateTuple lg tuple old rid d = Inr (True, False, \<lparr>t_allocated = True, t_rid = rid, t_data = ob\<rparr>, d')"
    using g(1-3) i rid bs hd(5,11) lr pi(2) mm pc d'(1) c4 n mb(1) u e(2)
    by (simp add: TablePage_UpdateTuple_def t_size_def page_sets slot_fields d4_def [symmetric] Let_def)
  moreover have "holds_slots d' pid prev nxt (slots[i := Live ?bs])"
  proof (rule replace_tuple [OF h p i(1), where sz = ?sz and m = ?m])
    have fk: "field32 k d' = field32 k d4" if "4 * k + 4 \<le> 24 + 8 * ?n" "\<forall>j < ?n. k \<noteq> 6 + 2 * j" for k
      using d'(4) that n(2) l4 by simp
    show "field32 0 d' = field32 0 d" "field32 2 d' = field32 2 d" "field32 3 d' = field32 3 d" "field32 5 d' = field32 5 d"
      "field32 4 d' = int (fsp + ?sz - ?m)"
      using fk [of 0] fk [of 2] fk [of 3] fk [of 5] fk [of 4] f4 n by (simp_all add: q_def)
    fix j assume j: "j < ?n"
    then have jn: "4 * (7 + 2 * j) + 4 \<le> 24 + 8 * ?n" by simp
    have "\<forall>x < ?n. 7 + 2 * j \<noteq> 6 + 2 * x" by presburger
    then show s: "field32 (7 + 2 * j) d' = size_field (slots[i := Live ?bs] ! j)"
      using fk [OF jn] f4 [OF jn] j h by (simp add: headed_def nth_list_update)
    have "6 + 2 * j \<noteq> 7 + 2 * i" by presburger
    then have o4: "field32 (6 + 2 * j) d4 = int (offs ! j)" using f4 [of "6 + 2 * j"] jn j h by (simp add: headed_def)
    have s4: "field32 (7 + 2 * j) d4 = (if j = i then int ?m else size_field (slots ! j))" using f4 [OF jn] j h by (simp add: headed_def)
    have c: "field32 (7 + 2 * j) d4 > 0 \<and> field32 (6 + 2 * j) d4 < int (?off + ?sz) \<longleftrightarrow> j = i \<or> slots ! j \<noteq> Empty \<and> offs ! j < ?off"
      using s4 o4 size_field_pos [OF p j] offset_below [OF p i(1) _ j] i(2) bs(1) pi(1) by auto
    show "field32 (6 + 2 * j) d' = int (moved i ?sz ?m (Live ?bs) offs slots ! j)"
    proof (cases "j = i \<or> slots ! j \<noteq> Empty \<and> offs ! j < ?off")
      case True
      then have b: "fsp \<le> offs ! j" "offs ! j \<le> ?off" using placedD(2) [OF p j] i(2) by auto
      then have "u32 (int (offs ! j) + (int ?sz - int ?m)) = int (offs ! j + ?sz - ?m)"
        using room pi(3) by (subst u32_id) auto
      then show ?thesis using d'(3) j c o4 True by auto
    next
      case False
      then show ?thesis using d'(3) j c o4 by auto
    qed
  qed (use l4 d'(2) i(2) room bs(1) pk mb(3-5) qs pi in \<open>auto\<close>)
  ultimately show ?thesis by blast
qed

lemma ApplyDelete_tuple:
  assumes hs: "holds_slots d pid prev nxt slots" and rid: "rid_slot_num rid = int i" and i: "i < length slots" "slots ! i \<noteq> Empty"
  shows "\<exists>d'. TablePage_ApplyDelete rid d = Inr d' \<and> holds_slots d' pid prev nxt (slots[i := Empty])"
proof -
  define fsp where "fsp = 4096 - used_bytes slots"
  obtain offs where h: "headed d pid prev nxt fsp offs slots" and p: "placed d fsp offs slots"
    using hs by (auto simp: holds_slots_def fsp_def)
  let ?n = "length slots" and ?off = "offs ! i" and ?sz = "length (bytes_of (slots ! i))"
  note g = page_size [OF hs i(1)] and hd = headedD [OF h] and pi = placedD [OF p i]
  have room: "24 + 8 * ?n + 0 \<le> fsp + ?sz" using hd(7) by simp
  define q where "q = fsp + ?sz"
  define d3 where "d3 = set32 4 (int q) (poke q (peek fsp (?off - fsp) d) d)"
  have "24 + 8 * ?n \<le> fsp + ?sz - length []" "24 \<le> 24 + 8 * ?n" "length [] \<le> fsp + ?sz" using hd(7) by simp_all
  note mb' = moved_bytes [OF hd(1) this pi(2,3)]
  have "poke (?off + ?sz) [] (set32 4 (int q) (poke q (peek fsp (?off - fsp) d) d)) = d3"
    by (simp add: d3_def poke_def)
  note mb = mb' [unfolded list.size diff_zero, folded q_def, unfolded this]
  define d4 where "d4 = set32 (6 + 2 * i) 0 (set32 (7 + 2 * i) 0 d3)"
  have n: "4 * (7 + 2 * i) + 4 \<le> 24 + 8 * ?n" "24 + 8 * ?n \<le> 4096" using i(1) hd(7,8) by simp_all
  have l4: "length d4 = 4096" using mb(1) n by (simp add: d4_def)
  have f4: "field32 k d4 = (if k = 6 + 2 * i then 0 else if k = 7 + 2 * i then 0 else if k = 4 then int q else field32 k d)"
    if "4 * k + 4 \<le> 24 + 8 * ?n" for k
    using that n mb(1,2) by (simp add: d4_def field32_set32 u32_id)
  have qs: "24 + 8 * ?n \<le> q" "q \<le> ?off + ?sz" using hd(7) pi(2) by (simp_all add: q_def)
  obtain d' where d': "shift_offsets ?n (int 0) (int ?off) (int ?sz) d4 = Inr d'" "length d' = length d4"
    "\<forall>j. 0 \<le> j \<longrightarrow> j < 0 + ?n \<longrightarrow> field32 (6 + 2 * j) d' =
       (if field32 (7 + 2 * j) d4 > 0 \<and> field32 (6 + 2 * j) d4 < int ?off then u32 (field32 (6 + 2 * j) d4 + int ?sz) else field32 (6 + 2 * j) d4)"
    "\<forall>k. 4 * k + 4 \<le> length d4 \<longrightarrow> (\<forall>j. 0 \<le> j \<longrightarrow> j < 0 + ?n \<longrightarrow> k \<noteq> 6 + 2 * j) \<longrightarrow> field32 k d' = field32 k d4"
    "\<forall>a m. 24 + 8 * (0 + ?n) \<le> a \<longrightarrow> a + m \<le> length d4 \<longrightarrow> peek a m d' = peek a m d4"
    using shift_offsets_spec [of 0 ?n d4 "int ?off" "int ?sz"] n l4 by auto
  have pk: "peek a m d' = peek a m d3" if "24 + 8 * ?n \<le> a" "a + m \<le> 4096" for a m
    using d'(5) that l4 n mb(1) by (simp add: d4_def peek_set32)
  have mm: "memmove (int fsp + int ?sz) (int fsp) (int ?off - int fsp) d = Inr (poke q (peek fsp (?off - fsp) d) d)"
    using block_move [of d 0 fsp ?sz ?off] pi(2,3) hd(1) by (simp add: q_def)
  have sz: "(if IsDeleted (size_field (slots ! i)) then UnsetDeletedFlag (size_field (slots ! i)) else size_field (slots ! i)) = int ?sz"
    using i(2) pi(1,3) g(3) flag_size(4) [of "int ?sz"] by (cases "slots ! i") auto
  have lr: "load_region (int ?off) (int ?sz) d = Inr (bytes_of (slots ! i))" using pi hd(1) by (simp add: load_region_def)
  have c4: "GetTupleCount d4 = int ?n" using l4 f4 n h by (simp add: page_fields headed_def)
  have u: "u32 (int fsp + int ?sz) = int q" using pi(2,3) by (simp add: u32_id q_def)
  have "TablePage_ApplyDelete rid d = Inr d'"
    using g(1,2) i(1) rid hd(5,11) lr pi(2) mm d'(1) c4 n mb(1) u sz
    by (simp add: TablePage_ApplyDelete_def page_sets slot_fields d3_def [symmetric] d4_def [symmetric] Let_def)
  moreover have "holds_slots d' pid prev nxt (slots[i := Empty])"
  proof (rule replace_tuple [OF h p i, where sz = ?sz and m = 0])
    have fk: "field32 k d' = field32 k d4" if "4 * k + 4 \<le> 24 + 8 * ?n" "\<forall>j < ?n. k \<noteq> 6 + 2 * j" for k
      using d'(4) that n(2) l4 by simp
    show "field32 0 d' = field32 0 d" "field32 2 d' = field32 2 d" "field32 3 d' = field32 3 d" "field32 5 d' = field32 5 d"
      "field32 4 d' = int (fsp + ?sz - 0)"
      using fk [of 0] fk [of 2] fk [of 3] fk [of 5] fk [of 4] f4 n by (simp_all add: q_def)
    fix j assume j: "j < ?n"
    then have jn: "4 * (7 + 2 * j) + 4 \<le> 24 + 8 * ?n" by simp
    have par: "6 + 2 * j \<noteq> 7 + 2 * i" "7 + 2 * j \<noteq> 6 + 2 * i" by presburger+
    have "\<forall>x < ?n. 7 + 2 * j \<noteq> 6 + 2 * x" by presburger
    then show s: "field32 (7 + 2 * j) d' = size_field (slots[i := Empty] ! j)"
      using fk [OF jn] f4 [OF jn] j h par by (simp add: headed_def nth_list_update)
    have o4: "field32 (6 + 2 * j) d4 = (if j = i then 0 else int (offs ! j))" using f4 [of "6 + 2 * j"] jn j h par by (simp add: headed_def)
    have s4: "field32 (7 + 2 * j) d4 = (if j = i then 0 else size_field (slots ! j))" using f4 [OF jn] j h par by (simp add: headed_def)
    have u: "slots ! j \<noteq> Empty \<Longrightarrow> offs ! j < ?off \<Longrightarrow> u32 (int (offs ! j) + int ?sz) = int (offs ! j + ?sz)"
      using pi(3) by (simp add: u32_id)
    show "field32 (6 + 2 * j) d' = int (moved i ?sz 0 Empty offs slots ! j)"
      using d'(3) j s4 o4 u size_field_pos [OF p j] by auto
  qed (use l4 d'(2) room pk mb(3-5) qs pi(3) in \<open>auto simp: q_def\<close>)
  ultimately show ?thesis by blast
qed

section \<open>The page implements its slots\<close>

lemma scast_u32: "in_sint 32 x \<Longrightarrow> scast 32 (u32 x) = x"
  using scast_id [of 32 x] by (simp add: scast_def u32_def mod_simps)

lemma holds_slots_Init:
  assumes "length d = 4096" "in_sint 32 pid" "in_sint 32 prev"
  shows "holds_slots (TablePage_Init lg pid 4096 prev d) pid prev INVALID_PAGE_ID []"
proof -
  have i: "in_sint 32 INVALID_PAGE_ID" by (simp add: in_sint_def INVALID_PAGE_ID_def)
  show ?thesis
    unfolding holds_slots_def
    by (intro exI [of _ "[]"])
      (simp add: headed_def placed_def used_bytes_def TablePage_Init_def page_sets field32_set32 assms scast_u32 i u32_id Let_def)
qed

lemma holds_slots_fields:
  assumes "holds_slots d pid prev nxt slots"
  shows "GetTupleCount d = int (length slots)" "GetTablePageId d = pid" "GetPrevPageId d = prev" "GetNextPageId d = nxt"
    "GetFreeSpaceRemaining d = space slots" "length d = 4096"
proof -
  obtain offs where h: "headed d pid prev nxt (4096 - used_bytes slots) offs slots" using assms by (auto simp: holds_slots_def)
  show "GetTupleCount d = int (length slots)" "GetTablePageId d = pid" "GetPrevPageId d = prev" "GetNextPageId d = nxt" "length d = 4096"
    using headedD [OF h] by simp_all
  show "GetFreeSpaceRemaining d = space slots" using headedD(9) [OF h] h by (simp add: space_def headed_def of_nat_diff)
qed

lemma holds_slots_link:
  assumes "holds_slots d pid prev nxt slots" "in_sint 32 n"
  shows "holds_slots (SetNextPageId n d) pid prev n slots"
proof -
  obtain offs where h: "headed d pid prev nxt (4096 - used_bytes slots) offs slots" "placed d (4096 - used_bytes slots) offs slots"
    using assms(1) by (auto simp: holds_slots_def)
  have k: "24 + 8 * length slots \<le> 4096" "length d = 4096" using h(1) by (auto simp: headed_def)
  have "headed (set32 3 n d) pid prev n (4096 - used_bytes slots) offs slots"
    using h(1) assms(2) k by (auto simp: headed_def field32_set32 scast_u32)
  moreover have "placed (set32 3 n d) (4096 - used_bytes slots) offs slots"
    using h(1) k by (intro placed_cong [OF h(2)] peek_set32) (auto simp: headed_def)
  ultimately show ?thesis by (auto simp: holds_slots_def page_sets)
qed

lemma UpdateTuple_refused:
  assumes "holds_slots d pid prev nxt slots" "rid_slot_num rid = int i" "t_data tuple \<noteq> []"
    "\<not> (i < length slots \<and> is_live (slots ! i)) \<or> space slots + int (length (bytes_of (slots ! i))) < t_size tuple"
  shows "TablePage_UpdateTuple lg tuple old rid d = Inr (False, lg \<and> \<not> (i < length slots \<and> is_live (slots ! i)), old, d)"
proof (cases "i < length slots")
  case True
  note g = page_size [OF assms(1) True] and f = holds_slots_fields [OF assms(1)]
  show ?thesis
  proof (cases "slots ! i")
    case (Live ob)
    have "0 \<le> space slots" "space slots + int (length ob) \<le> 8192"
      using assms(1) live_length(2) [OF assms(1) True] Live by (auto simp: holds_slots_def headed_def space_def)
    then have "u32 (space slots + int (length ob)) = space slots + int (length ob)" by (intro u32_id) auto
    then show ?thesis
      using Live g(1-3) f(5) True assms(2-4) by (simp add: TablePage_UpdateTuple_def is_live_def t_size_def)
  qed (use g(1-3) True assms(2,3) in \<open>simp_all add: TablePage_UpdateTuple_def is_live_def t_size_def\<close>)
next
  case False
  then show ?thesis
    using holds_slots_fields(1) [OF assms(1)] assms(2,3) by (simp add: TablePage_UpdateTuple_def t_size_def)
qed

lemma ApplyDelete_empty:
  assumes "holds_slots d pid prev nxt slots" "rid_slot_num rid = int i" "\<not> (i < length slots \<and> slots ! i \<noteq> Empty)"
  shows "TablePage_ApplyDelete rid d = Inl AssertionFailure"
proof (cases "i < length slots")
  case True
  obtain offs where h: "headed d pid prev nxt (4096 - used_bytes slots) offs slots" using assms(1) by (auto simp: holds_slots_def)
  have "UnsetDeletedFlag 0 = 0" by (simp add: UnsetDeletedFlag_def u32_def)
  moreover have "offs ! i = 0" "\<not> 4096 \<le> used_bytes slots" using h assms(3) True by (auto simp: headed_def)
  ultimately show ?thesis
    using headedD(1,5,6,10,11) [OF h] True assms(2,3) by (simp add: TablePage_ApplyDelete_def load_region_def)
qed (use holds_slots_fields(1) [OF assms(1)] assms(2) in \<open>simp add: TablePage_ApplyDelete_def\<close>)

definition next_live :: "nat \<Rightarrow> slot list \<Rightarrow> nat option" where
  "next_live i slots = (let k = length (takeWhile (\<lambda>s. \<not> is_live s) (drop i slots))
     in if i + k < length slots then Some (i + k) else None)"

lemma find_tuple_spec:
  assumes "holds_slots d pid prev nxt slots"
  shows "i + n = length slots \<Longrightarrow> find_tuple n (int i) d = Inr (map_option int (next_live i slots))"
proof (induction n arbitrary: i)
  case (Suc n)
  then have i: "i < length slots" by simp
  have "find_tuple n (int i + 1) d = Inr (map_option int (next_live (Suc i) slots))"
    using Suc.IH [of "Suc i"] Suc.prems by (simp add: add.commute)
  moreover have "IsDeleted (size_field (slots ! i)) \<longleftrightarrow> \<not> is_live (slots ! i)"
    using page_size(3) [OF assms i] by (cases "slots ! i") (auto simp: is_live_def)
  ultimately show ?case
    using page_size(1) [OF assms i] i Cons_nth_drop_Suc [OF i, symmetric] by (simp add: next_live_def)
qed (simp add: next_live_def)

lemma GetFirstTupleRid_spec:
  assumes "holds_slots d pid prev nxt slots"
  shows "GetFirstTupleRid d = Inr (case next_live 0 slots of Some i \<Rightarrow> (True, \<lparr>rid_page_id = pid, rid_slot_num = int i\<rparr>) | None \<Rightarrow> (False, RID_default))"
  using find_tuple_spec [OF assms, of 0 "length slots"] holds_slots_fields [OF assms]
  by (cases "next_live 0 slots") (simp_all add: GetFirstTupleRid_def rid_of_slot_def RID_default_def)

lemma next_live_outside: "length slots \<le> i \<Longrightarrow> next_live i slots = None"
  by (simp add: next_live_def)

lemma GetNextTupleRid_spec:
  assumes "holds_slots d pid prev nxt slots" "rid_page_id rid = pid"
  shows "GetNextTupleRid rid d =
    Inr (case next_live (nat (u32 (rid_slot_num rid + 1))) slots of
      Some i \<Rightarrow> (True, \<lparr>rid_page_id = pid, rid_slot_num = int i\<rparr>) | None \<Rightarrow> (False, RID_default))"
proof -
  define j where "j = nat (u32 (rid_slot_num rid + 1))"
  have j: "u32 (rid_slot_num rid + 1) = int j" by (simp add: j_def u32_def)
  have "find_tuple (nat (int (length slots) - int j)) (int j) d = Inr (map_option int (next_live j slots))"
    using find_tuple_spec [OF assms(1), of j "length slots - j"]
    by (cases "j \<le> length slots") (simp_all add: next_live_outside nat_diff_distrib)
  then show ?thesis
    using holds_slots_fields [OF assms(1)] assms(2) j
    by (cases "next_live j slots") (simp_all add: GetNextTupleRid_def rid_of_slot_def RID_default_def)
qed

text \<open>
  The requests to a page and their answers, on the bytes and on the list of slots.  The flag of an
  answer says that the operation aborted its transaction.
\<close>

datatype page_op = PInsert "byte list" | PMark nat | PUpdate nat "byte list" | PApply nat | PRollback nat | PGet nat | PFirst | PNext nat

datatype page_out = PRid "RID option" | PDone bool bool | PTuple "byte list option" bool

definition page_rid :: "page_id_t \<Rightarrow> nat \<Rightarrow> RID" where
  "page_rid pid i = \<lparr>rid_page_id = pid, rid_slot_num = int i\<rparr>"

definition tuple_of :: "byte list \<Rightarrow> Tuple" where
  "tuple_of bs = \<lparr>t_allocated = True, t_rid = RID_default, t_data = bs\<rparr>"

fun page_step :: "bool \<Rightarrow> page_id_t \<Rightarrow> page_op \<Rightarrow> byte list \<Rightarrow> (page_out \<times> byte list) result" where
  "page_step lg pid (PInsert bs) d =
     bind_result (TablePage_InsertTuple (tuple_of bs) d) (\<lambda>(r, d). Inr (PRid r, d))"
| "page_step lg pid (PMark i) d =
     bind_result (TablePage_MarkDelete lg (page_rid pid i) d) (\<lambda>(ok, ab, d). Inr (PDone ok ab, d))"
| "page_step lg pid (PUpdate i bs) d =
     bind_result (TablePage_UpdateTuple lg (tuple_of bs) Tuple_default (page_rid pid i) d)
       (\<lambda>(ok, ab, old, d). Inr (PTuple (if ok then Some (t_data old) else None) ab, d))"
| "page_step lg pid (PApply i) d =
     bind_result (TablePage_ApplyDelete (page_rid pid i) d) (\<lambda>d. Inr (PDone True False, d))"
| "page_step lg pid (PRollback i) d =
     bind_result (TablePage_RollbackDelete (page_rid pid i) d) (\<lambda>d. Inr (PDone True False, d))"
| "page_step lg pid (PGet i) d =
     bind_result (TablePage_GetTuple lg (page_rid pid i) Tuple_default d)
       (\<lambda>(ok, ab, t). Inr (PTuple (if ok then Some (t_data t) else None) ab, d))"
| "page_step lg pid PFirst d =
     bind_result (GetFirstTupleRid d) (\<lambda>(ok, r). Inr (PRid (if ok then Some r else None), d))"
| "page_step lg pid (PNext i) d =
     bind_result (GetNextTupleRid (page_rid pid i) d) (\<lambda>(ok, r). Inr (PRid (if ok then Some r else None), d))"

definition live_bytes :: "nat \<Rightarrow> slot list \<Rightarrow> byte list option" where
  "live_bytes i slots = (if i < length slots then case slots ! i of Live bs \<Rightarrow> Some bs | _ \<Rightarrow> None else None)"

fun slots_step :: "bool \<Rightarrow> page_id_t \<Rightarrow> page_op \<Rightarrow> slot list \<Rightarrow> (page_out \<times> slot list) result" where
  "slots_step lg pid (PInsert bs) slots =
     (if bs = [] then Inl AssertionFailure
      else if space slots < int (length bs) + 8 then Inr (PRid None, slots)
      else Inr (PRid (Some (page_rid pid (first_empty slots))), put_slot (first_empty slots) (Live bs) slots))"
| "slots_step lg pid (PMark i) slots =
     (case live_bytes i slots of
        Some bs \<Rightarrow> Inr (PDone True False, slots[i := Marked bs])
      | None \<Rightarrow> Inr (PDone False lg, slots))"
| "slots_step lg pid (PUpdate i bs) slots =
     (if bs = [] then Inl AssertionFailure
      else case live_bytes i slots of
        Some old \<Rightarrow>
          if int (length bs) \<le> space slots + int (length old) then Inr (PTuple (Some old) False, slots[i := Live bs])
          else Inr (PTuple None False, slots)
      | None \<Rightarrow> Inr (PTuple None lg, slots))"
| "slots_step lg pid (PApply i) slots =
     (if i < length slots \<and> slots ! i \<noteq> Empty then Inr (PDone True False, slots[i := Empty]) else Inl AssertionFailure)"
| "slots_step lg pid (PRollback i) slots =
     (if i < length slots then Inr (PDone True False, slots[i := unmark_slot (slots ! i)]) else Inl AssertionFailure)"
| "slots_step lg pid (PGet i) slots = Inr (PTuple (live_bytes i slots) (lg \<and> live_bytes i slots = None), slots)"
| "slots_step lg pid PFirst slots = Inr (PRid (map_option (page_rid pid) (next_live 0 slots)), slots)"
| "slots_step lg pid (PNext i) slots = Inr (PRid (map_option (page_rid pid) (next_live (nat (u32 (int i + 1))) slots)), slots)"

lemma live_bytes_cases:
  obtains bs where "live_bytes i slots = Some bs" "i < length slots" "slots ! i = Live bs"
  | "live_bytes i slots = None" "\<not> (i < length slots \<and> is_live (slots ! i))"
  by (cases "i < length slots"; cases "slots ! i") (auto simp: live_bytes_def is_live_def)

lemma page_rid_sel [simp]: "rid_slot_num (page_rid pid i) = int i" "rid_page_id (page_rid pid i) = pid"
  by (simp_all add: page_rid_def)

lemma tuple_of_sel [simp]: "t_data (tuple_of bs) = bs" "t_size (tuple_of bs) = int (length bs)"
  by (simp_all add: tuple_of_def t_size_def)

definition page_law :: "bool \<Rightarrow> page_id_t \<Rightarrow> page_id_t \<Rightarrow> page_id_t \<Rightarrow> page_op \<Rightarrow> bool" where
  "page_law lg pid prev nxt x \<longleftrightarrow> (\<forall>d slots. holds_slots d pid prev nxt slots \<longrightarrow>
     (case slots_step lg pid x slots of Inl e \<Rightarrow> page_step lg pid x d = Inl e
      | Inr (r, s) \<Rightarrow> \<exists>d'. page_step lg pid x d = Inr (r, d') \<and> holds_slots d' pid prev nxt s))"

lemma page_law_insert: "page_law lg pid prev nxt (PInsert bs)"
  unfolding page_law_def
proof (intro allI impI)
  fix d slots assume h: "holds_slots d pid prev nxt slots"
  consider "bs = []" | "bs \<noteq> []" "space slots < int (length bs) + 8" | "bs \<noteq> []" "int (length bs) + 8 \<le> space slots"
    by linarith
  then show "case slots_step lg pid (PInsert bs) slots of Inl e \<Rightarrow> page_step lg pid (PInsert bs) d = Inl e
    | Inr (r, s) \<Rightarrow> \<exists>d'. page_step lg pid (PInsert bs) d = Inr (r, d') \<and> holds_slots d' pid prev nxt s"
    using InsertTuple_full [OF h, of "tuple_of bs"] InsertTuple_room [OF h, of "tuple_of bs"] h
    by cases (auto simp: page_rid_def TablePage_InsertTuple_def)
qed

lemma page_law_mark: "page_law lg pid prev nxt (PMark i)"
  unfolding page_law_def
proof (intro allI impI)
  fix d slots assume h: "holds_slots d pid prev nxt slots"
  show "case slots_step lg pid (PMark i) slots of Inl e \<Rightarrow> page_step lg pid (PMark i) d = Inl e
    | Inr (r, s) \<Rightarrow> \<exists>d'. page_step lg pid (PMark i) d = Inr (r, d') \<and> holds_slots d' pid prev nxt s"
    using MarkDelete_spec [OF h, of "page_rid pid i" i lg]
    by (cases rule: live_bytes_cases [where i = i and slots = slots]) (auto simp: is_live_def mark_slot_def list_update_nth split: slot.splits if_splits)
qed

lemma page_law_update: "page_law lg pid prev nxt (PUpdate i bs)"
  unfolding page_law_def
proof (intro allI impI)
  fix d slots assume h: "holds_slots d pid prev nxt slots"
  show "case slots_step lg pid (PUpdate i bs) slots of Inl e \<Rightarrow> page_step lg pid (PUpdate i bs) d = Inl e
    | Inr (r, s) \<Rightarrow> \<exists>d'. page_step lg pid (PUpdate i bs) d = Inr (r, d') \<and> holds_slots d' pid prev nxt s"
  proof (cases "bs = []")
    case False
    then show ?thesis
      using UpdateTuple_fits [OF h, of "page_rid pid i" i _ "tuple_of bs" lg Tuple_default]
        UpdateTuple_refused [OF h, of "page_rid pid i" i "tuple_of bs" lg Tuple_default] h
      by (cases rule: live_bytes_cases [where i = i and slots = slots]) (auto simp: is_live_def not_le)
  qed (simp add: TablePage_UpdateTuple_def)
qed

lemma page_law_undelete: "page_law lg pid prev nxt (PApply i)" "page_law lg pid prev nxt (PRollback i)"
  unfolding page_law_def
  using ApplyDelete_tuple [of _ pid prev nxt _ "page_rid pid i" i] ApplyDelete_empty [of _ pid prev nxt _ "page_rid pid i" i]
    RollbackDelete_spec [of _ pid prev nxt _ "page_rid pid i" i] holds_slots_fields(1) [of _ pid prev nxt]
  by (fastforce simp: TablePage_RollbackDelete_def)+

lemma page_law_read: "page_law lg pid prev nxt (PGet i)" "page_law lg pid prev nxt PFirst" "page_law lg pid prev nxt (PNext i)"
  unfolding page_law_def
  by (auto simp: GetTuple_spec live_bytes_def GetFirstTupleRid_spec GetNextTupleRid_spec page_rid_def
      split: slot.splits option.splits)

lemma page_law_all: "page_law lg pid prev nxt x"
  using page_law_insert page_law_mark page_law_update page_law_undelete page_law_read by (cases x) simp_all

interpretation tp: simulation "\<lambda>x slots. True" "\<lambda>d slots. holds_slots d pid prev nxt slots" "page_step lg pid" "slots_step lg pid"
  using page_law_all [of lg pid prev nxt] by unfold_locales (simp add: page_law_def)

text \<open>
  C22.  A page of 4096 bytes behaves as its list of slots, whatever sequence of insertions, marked,
  applied and rolled back deletions, updates, reads and iteration steps runs on it after
  \<^verbatim>\<open>Init\<close>: the operations give the same answers, the same aborts and the same assertion
  failures, and no other error.  So the moves of the tuples and the rewritten offsets never lose or
  overlap a tuple.  An insertion is refused exactly when fewer bytes are free than the tuple and a new
  slot take together, also when an empty slot could be reused; an update exactly when the tuple does
  not exist or the new one does not fit into the free bytes and those of the old one.
\<close>

theorem table_page_refines_slots:
  assumes "length d = BUSTUB_PAGE_SIZE" "in_sint 32 pid" "in_sint 32 prev"
  shows "case run_steps (slots_step lg pid) ops [] of
      Inl e \<Rightarrow> run_steps (page_step lg pid) ops (TablePage_Init lg pid (int BUSTUB_PAGE_SIZE) prev d) = Inl e
    | Inr (outs, slots) \<Rightarrow> \<exists>d'. run_steps (page_step lg pid) ops (TablePage_Init lg pid (int BUSTUB_PAGE_SIZE) prev d) = Inr (outs, d') \<and>
        holds_slots d' pid prev INVALID_PAGE_ID slots"
proof -
  have p: "int BUSTUB_PAGE_SIZE = 4096" by (simp add: BUSTUB_PAGE_SIZE_def)
  show ?thesis
    unfolding p using assms by (intro tp.run_refines holds_slots_Init run_ok_True) (simp_all add: BUSTUB_PAGE_SIZE_def)
qed

theorem table_page_refines_slots_witness:
  "\<exists>d'. run_steps (page_step False 7)
       [PInsert [1, 2, 3], PInsert [4, 5], PUpdate 0 [6], PMark 1, PApply 1, PInsert [8], PGet 1, PFirst, PNext 1]
       (TablePage_Init False 7 (int BUSTUB_PAGE_SIZE) (- 1) (replicate BUSTUB_PAGE_SIZE 0)) =
     Inr ([PRid (Some (page_rid 7 0)), PRid (Some (page_rid 7 1)), PTuple (Some [1, 2, 3]) False, PDone True False,
       PDone True False, PRid (Some (page_rid 7 1)), PTuple (Some [8]) False, PRid (Some (page_rid 7 0)), PRid None], d') \<and>
     holds_slots d' 7 (- 1) INVALID_PAGE_ID [Live [6], Live [8]]"
  using table_page_refines_slots [of "replicate BUSTUB_PAGE_SIZE 0" 7 "- 1" False
    "[PInsert [1, 2, 3], PInsert [4, 5], PUpdate 0 [6], PMark 1, PApply 1, PInsert [8], PGet 1, PFirst, PNext 1]"]
  by (simp add: in_sint_def space_def used_bytes_def first_empty_def put_slot_def live_bytes_def next_live_def is_live_def u32_def)

end
