(* ===== verification/TableHeapPages.thy ===== *)
theory TableHeapPages
  imports PoolClient TablePageSpec
begin

text \<open>
  What a table heap stores: a list of pages, each a list of slots, whatever frames the pages are in
  and whether they are in memory at all.  Every operation of the heap on the buffer pool manager is
  shown to be the corresponding operation on this list, with the same effect on the transaction.
\<close>

section \<open>Pages of slots\<close>

type_synonym slot_page = "page_id_t \<times> slot list"

record heap_spec =
  hs_next :: page_id_t
  hs_pages :: "slot_page list"

definition next_id_of :: "slot_page list \<Rightarrow> page_id_t" where
  "next_id_of pgs = (case pgs of [] \<Rightarrow> INVALID_PAGE_ID | (p, _) # _ \<Rightarrow> p)"

fun chained :: "(page_id_t \<Rightarrow> byte list) \<Rightarrow> page_id_t \<Rightarrow> slot_page list \<Rightarrow> bool" where
  "chained c prev [] \<longleftrightarrow> True"
| "chained c prev ((p, s) # pgs) \<longleftrightarrow> holds_slots (c p) p prev (next_id_of pgs) s \<and> chained c p pgs"

definition alter :: "page_id_t \<Rightarrow> slot list \<Rightarrow> slot_page list \<Rightarrow> slot_page list" where
  "alter p s pgs = map (\<lambda>(q, t). if q = p then (q, s) else (q, t)) pgs"

lemma alter_simps [simp]:
  "alter p s [] = []" "alter p s ((q, t) # pgs) = (if q = p then (q, s) else (q, t)) # alter p s pgs"
  "map fst (alter p s pgs) = map fst pgs" "length (alter p s pgs) = length pgs" "alter p s pgs = [] \<longleftrightarrow> pgs = []"
  by (auto simp: alter_def)

lemma next_id_of_alter [simp]: "next_id_of (alter p s pgs) = next_id_of pgs"
  by (cases pgs) (auto simp: next_id_of_def)

lemma map_of_alter: "map_of (alter p s pgs) q = (if q = p \<and> map_of pgs p \<noteq> None then Some s else map_of pgs q)"
  by (induction pgs) auto

lemma alter_absent: "p \<notin> fst ` set pgs \<Longrightarrow> alter p s pgs = pgs"
  by (induction pgs) auto

lemma alter_same: "distinct (map fst pgs) \<Longrightarrow> map_of pgs p = Some s \<Longrightarrow> alter p s pgs = pgs"
  by (induction pgs) (auto simp: alter_absent split: if_splits)

lemma alter_alter: "alter p s (alter p t pgs) = alter p s pgs"
  by (induction pgs) auto

lemma chained_cong: "(\<And>p. p \<in> fst ` set pgs \<Longrightarrow> c' p = c p) \<Longrightarrow> chained c' prev pgs \<longleftrightarrow> chained c prev pgs"
  by (induction pgs arbitrary: prev) auto

text \<open>One page of the list can be looked at and replaced on its own.\<close>

lemma chained_page:
  assumes "chained c prev pgs" "distinct (map fst pgs)" "map_of pgs p = Some s"
  shows "\<exists>pr nx. holds_slots (c p) p pr nx s \<and>
    (\<forall>d s'. holds_slots d p pr nx s' \<longrightarrow> chained (c(p := d)) prev (alter p s' pgs))"
  using assms
proof (induction pgs arbitrary: prev)
  case (Cons x pgs)
  obtain q t where x: "x = (q, t)" by (cases x)
  show ?case
  proof (cases "q = p")
    case True
    then have "p \<notin> fst ` set pgs" "t = s" using Cons.prems x by auto
    moreover have "chained (c(p := d)) p pgs = chained c p pgs" for d
      using \<open>p \<notin> fst ` set pgs\<close> by (intro chained_cong) auto
    ultimately show ?thesis
      using Cons.prems(1) x True
      by - (rule exI [of _ prev], rule exI [of _ "next_id_of pgs"], simp add: alter_absent fun_upd_same del: fun_upd_apply)
  next
    case False
    then show ?thesis using Cons.IH [of q] Cons.prems x by auto
  qed
qed simp

section \<open>The abstract operations\<close>

definition slot_at :: "slot_page list \<Rightarrow> RID \<Rightarrow> slot option" where
  "slot_at pgs rid =
     (case map_of pgs (rid_page_id rid) of
        None \<Rightarrow> None
      | Some s \<Rightarrow> if nat (rid_slot_num rid) < length s then Some (s ! nat (rid_slot_num rid)) else None)"

definition set_slot :: "RID \<Rightarrow> slot \<Rightarrow> slot_page list \<Rightarrow> slot_page list" where
  "set_slot rid x pgs =
     (case map_of pgs (rid_page_id rid) of
        None \<Rightarrow> pgs
      | Some s \<Rightarrow> alter (rid_page_id rid) (s[nat (rid_slot_num rid) := x]) pgs)"

definition page_space :: "slot_page list \<Rightarrow> RID \<Rightarrow> int" where
  "page_space pgs rid = (case map_of pgs (rid_page_id rid) of None \<Rightarrow> 0 | Some s \<Rightarrow> space s)"

text \<open>The first page with room takes the tuple, or a new page \<open>n\<close> at the end.\<close>

fun insert_pages :: "page_id_t \<Rightarrow> byte list \<Rightarrow> slot_page list \<Rightarrow> RID \<times> slot_page list" where
  "insert_pages n bs [] = (page_rid n 0, [(n, [Live bs])])"
| "insert_pages n bs ((p, s) # pgs) =
     (if int (length bs) + 8 \<le> space s
      then (page_rid p (first_empty s), (p, put_slot (first_empty s) (Live bs) s) # pgs)
      else let (rid, pgs) = insert_pages n bs pgs in (rid, (p, s) # pgs))"

text \<open>The live tuples of the pages in the order of an iteration.\<close>

definition page_tuples :: "page_id_t \<Rightarrow> nat \<Rightarrow> slot list \<Rightarrow> (RID \<times> byte list) list" where
  "page_tuples p i s = map (\<lambda>j. (page_rid p j, bytes_of (s ! j))) (filter (\<lambda>j. is_live (s ! j)) [i..<length s])"

definition heap_tuples :: "slot_page list \<Rightarrow> (RID \<times> byte list) list" where
  "heap_tuples pgs = concat (map (\<lambda>(p, s). page_tuples p 0 s) pgs)"

section \<open>The heap on the pool\<close>

definition heap_on :: "TableHeap \<Rightarrow> pool_spec \<Rightarrow> heap_spec \<Rightarrow> bool" where
  "heap_on h a hs \<longleftrightarrow> idle a \<and> ps_next a = hs_next hs \<and> ps_next a \<le> 2 ^ 30 \<and> hs_pages hs \<noteq> [] \<and>
     th_first_page_id h = next_id_of (hs_pages hs) \<and> distinct (map fst (hs_pages hs)) \<and>
     (\<forall>p \<in> fst ` set (hs_pages hs). allocated p a) \<and> chained (ps_content a) INVALID_PAGE_ID (hs_pages hs)"

lemma heap_onD:
  assumes "heap_on h a hs"
  shows "idle a" "ps_next a = hs_next hs" "distinct (map fst (hs_pages hs))" "chained (ps_content a) INVALID_PAGE_ID (hs_pages hs)"
    "map_of (hs_pages hs) p = Some s \<Longrightarrow> allocated p a" "hs_pages hs \<noteq> []"
    "th_first_page_id h = next_id_of (hs_pages hs)" "ps_next a \<le> 2 ^ 30"
proof -
  show "idle a" "ps_next a = hs_next hs" "distinct (map fst (hs_pages hs))" "chained (ps_content a) INVALID_PAGE_ID (hs_pages hs)"
    "hs_pages hs \<noteq> []" "th_first_page_id h = next_id_of (hs_pages hs)" "ps_next a \<le> 2 ^ 30"
    using assms by (simp_all add: heap_on_def)
  show "allocated p a" if "map_of (hs_pages hs) p = Some s"
    using assms map_of_SomeD [OF that] by (force simp: heap_on_def)
qed

text \<open>Replacing one page on the pool and in the list.\<close>

lemma heap_on_page:
  assumes h: "heap_on h a hs" and p: "map_of (hs_pages hs) p = Some s"
  obtains pr nx where "holds_slots (ps_content a p) p pr nx s" and "allocated p a"
    and "\<And>d s'. holds_slots d p pr nx s' \<Longrightarrow>
      heap_on h (a\<lparr>ps_content := (ps_content a)(p := d)\<rparr>) (hs\<lparr>hs_pages := alter p s' (hs_pages hs)\<rparr>)"
proof -
  note D = heap_onD [OF h]
  obtain pr nx where c: "holds_slots (ps_content a p) p pr nx s"
    "\<And>d s'. holds_slots d p pr nx s' \<Longrightarrow> chained ((ps_content a)(p := d)) INVALID_PAGE_ID (alter p s' (hs_pages hs))"
    using chained_page [OF D(4,3) p] by blast
  have s: "fst ` set (alter p s' (hs_pages hs)) = fst ` set (hs_pages hs)" for s'
    by (metis alter_simps(3) set_map)
  have "heap_on h (a\<lparr>ps_content := (ps_content a)(p := d)\<rparr>) (hs\<lparr>hs_pages := alter p s' (hs_pages hs)\<rparr>)"
    if "holds_slots d p pr nx s'" for d s'
    using h c(2) [OF that] by (auto simp: heap_on_def idle_def allocated_def s simp del: fun_upd_apply)
  then show ?thesis using c(1) D(5) [OF p] that by blast
qed

text \<open>Visits of one page, through the frame it is fetched into.\<close>

lemma visit_error:
  assumes "pool_rel a b" "idle a" "allocated p a" "g (ps_content a p) = Inl e"
  shows "\<exists>f b1. FetchPgImp p b = Inr (Some f, b1) \<and> on_page f g b1 = Inl e"
  using bp.start [OF assms(1-3)] bp.get_law assms(4) by (fastforce simp: on_page_def held_simps)

lemma visit_change:
  assumes "pool_rel a b" "idle a" "allocated p a" "g (ps_content a p) = Inr (r, d)"
    and "GetTablePageId d = p" "length d = 4096"
  shows "\<exists>f b1 b2 b3. FetchPgImp p b = Inr (Some f, b1) \<and> on_page f g b1 = Inr (r, b2) \<and> unpin_page f True b2 = Inr b3 \<and>
    pool_rel (a\<lparr>ps_content := (ps_content a)(p := d)\<rparr>) b3"
proof -
  obtain f b1 where b1: "FetchPgImp p b = Inr (Some f, b1)" "pool_rel (held p {} a) b1" "resident b1 p = Some f"
    using bp.start [OF assms(1-3)] by blast
  moreover have "page_data f b1 = Inr (ps_content a p)" using bp.get_law [OF b1(2,3)] by (simp add: held_simps)
  moreover obtain b2 b3 where "store_data f d b1 = Inr b2" "page_data f b2 = Inr d" "UnpinPgImp p True b2 = Inr (True, b3)"
      "pool_rel (a\<lparr>ps_content := (ps_content a)(p := d)\<rparr>) b3"
    using bp.finish [OF b1(2) assms(2) b1(3), of d] assms(6) by (auto simp: BUSTUB_PAGE_SIZE_def)
  ultimately show ?thesis using assms(4,5) by (simp add: on_page_def unpin_page_def)
qed

lemma visit_read:
  assumes "pool_rel a b" "idle a" "allocated p a" "GetTablePageId (ps_content a p) = p"
  shows "\<exists>f b1 b2. FetchPgImp p b = Inr (Some f, b1) \<and> page_data f b1 = Inr (ps_content a p) \<and>
    store_data f (ps_content a p) b1 = Inr b1 \<and> UnpinPgImp p False b1 = Inr (True, b2) \<and> unpin_page f False b1 = Inr b2 \<and>
    page_data f b2 = Inr (ps_content a p) \<and> pool_rel a b2"
proof -
  obtain f b1 where b1: "FetchPgImp p b = Inr (Some f, b1)" "pool_rel (held p {} a) b1" "resident b1 p = Some f"
    using bp.start [OF assms(1-3)] by blast
  moreover obtain b2 where b2: "UnpinPgImp p False b1 = Inr (True, b2)" "pool_rel a b2" "resident b2 p = Some f"
    using bp.drop_page [OF b1(2) assms(2)] b1(3) by blast
  moreover have "page_data f b1 = Inr (ps_content a p)" using bp.get_law [OF b1(2,3)] by (simp add: held_simps)
  moreover have "page_data f b2 = Inr (ps_content a p)" by (rule bp.get_law [OF b2(2,3)])
  moreover have "store_data f (ps_content a p) b1 = Inr b1" using bp.put_same [OF b1(2,3)] by (simp add: held_simps)
  ultimately show ?thesis using assms(4) by (auto simp: unpin_page_def)
qed

section \<open>Operations on one tuple\<close>

definition wf_at :: "RID \<Rightarrow> slot_page list \<Rightarrow> bool" where
  "wf_at rid pgs \<longleftrightarrow> map_of pgs (rid_page_id rid) \<noteq> None \<and> 0 \<le> rid_slot_num rid"

text \<open>The page and the slot that a RID of the heap names.\<close>

lemma heap_slotE:
  assumes h: "heap_on h a hs" and w: "wf_at rid (hs_pages hs)"
  obtains s i pr nx where "rid_slot_num rid = int i"
    and "slot_at (hs_pages hs) rid = (if i < length s then Some (s ! i) else None)" and "page_space (hs_pages hs) rid = space s"
    and "holds_slots (ps_content a (rid_page_id rid)) (rid_page_id rid) pr nx s" and "allocated (rid_page_id rid) a"
    and "\<And>d x. holds_slots d (rid_page_id rid) pr nx (s[i := x]) \<Longrightarrow>
      heap_on h (a\<lparr>ps_content := (ps_content a)(rid_page_id rid := d)\<rparr>) (hs\<lparr>hs_pages := set_slot rid x (hs_pages hs)\<rparr>)"
    and "\<And>d. holds_slots d (rid_page_id rid) pr nx s \<Longrightarrow> heap_on h (a\<lparr>ps_content := (ps_content a)(rid_page_id rid := d)\<rparr>) hs"
proof -
  let ?p = "rid_page_id rid" and ?i = "nat (rid_slot_num rid)"
  obtain s where s: "map_of (hs_pages hs) ?p = Some s" "rid_slot_num rid = int ?i" using w by (auto simp: wf_at_def)
  obtain pr nx where c: "holds_slots (ps_content a ?p) ?p pr nx s" "allocated ?p a"
    "\<And>d s'. holds_slots d ?p pr nx s' \<Longrightarrow>
      heap_on h (a\<lparr>ps_content := (ps_content a)(?p := d)\<rparr>) (hs\<lparr>hs_pages := alter ?p s' (hs_pages hs)\<rparr>)"
    using heap_on_page [OF h s(1)] by metis
  have "heap_on h (a\<lparr>ps_content := (ps_content a)(?p := d)\<rparr>) hs" if "holds_slots d ?p pr nx s" for d
    using c(3) [OF that] alter_same [OF heap_onD(3) [OF h] s(1)] by simp
  then show ?thesis
    using that [OF s(2) _ _ c(1,2)] c(3) s(1) by (simp add: slot_at_def page_space_def set_slot_def)
qed

lemma set_slot_same:
  assumes "distinct (map fst pgs)" "slot_at pgs rid = Some x"
  shows "set_slot rid x pgs = pgs"
proof -
  obtain s where "map_of pgs (rid_page_id rid) = Some s" "s ! nat (rid_slot_num rid) = x"
    using assms(2) by (auto simp: slot_at_def split: option.splits if_splits)
  then show ?thesis using alter_same [OF assms(1)] by (simp add: set_slot_def list_update_nth)
qed

abbreviation alive :: "slot option \<Rightarrow> bool" where
  "alive x \<equiv> (case x of Some s \<Rightarrow> is_live s | None \<Rightarrow> False)"

lemma MarkDelete_heap:
  assumes R: "pool_rel a b" and h: "heap_on h a hs" and w: "wf_at rid (hs_pages hs)"
  shows "\<exists>a' b'. TableHeap_MarkDelete lg rid h txn b =
      Inr (True, AppendTableWriteRecord \<lparr>wr_rid = rid, wr_wtype = WT_DELETE, wr_tuple = Tuple_default, wr_table = h\<rparr>
        (abort_if (lg \<and> \<not> alive (slot_at (hs_pages hs) rid)) txn), b') \<and> pool_rel a' b' \<and> ps_cap a' = ps_cap a \<and>
    heap_on h a' (case slot_at (hs_pages hs) rid of Some x \<Rightarrow> hs\<lparr>hs_pages := set_slot rid (mark_slot x) (hs_pages hs)\<rparr> | None \<Rightarrow> hs)"
  using h w
proof (rule heap_slotE)
  let ?p = "rid_page_id rid"
  fix s i pr nx
  assume s: "rid_slot_num rid = int i" "slot_at (hs_pages hs) rid = (if i < length s then Some (s ! i) else None)"
    and c: "holds_slots (ps_content a ?p) ?p pr nx s" "allocated ?p a"
    "\<And>d x. holds_slots d ?p pr nx (s[i := x]) \<Longrightarrow>
      heap_on h (a\<lparr>ps_content := (ps_content a)(?p := d)\<rparr>) (hs\<lparr>hs_pages := set_slot rid x (hs_pages hs)\<rparr>)"
    "\<And>d. holds_slots d ?p pr nx s \<Longrightarrow> heap_on h (a\<lparr>ps_content := (ps_content a)(?p := d)\<rparr>) hs"
  obtain d where d: "TablePage_MarkDelete lg rid (ps_content a ?p) =
      Inr (if i < length s \<and> is_live (s ! i) then (True, False, d) else (False, lg, d))"
    "holds_slots d ?p pr nx (if i < length s then s[i := mark_slot (s ! i)] else s)"
    using MarkDelete_spec [OF c(1) s(1), of lg] by blast
  let ?g = "\<lambda>d. bind_result (TablePage_MarkDelete lg rid d) (\<lambda>(ok, aborted, d). Inr ((ok, aborted), d))"
  have g: "?g (ps_content a ?p) = Inr ((alive (slot_at (hs_pages hs) rid), lg \<and> \<not> alive (slot_at (hs_pages hs) rid)), d)"
    using d(1) s(2) by auto
  obtain f b1 b2 b3 where v: "FetchPgImp ?p b = Inr (Some f, b1)"
    "on_page f ?g b1 = Inr ((alive (slot_at (hs_pages hs) rid), lg \<and> \<not> alive (slot_at (hs_pages hs) rid)), b2)"
    "unpin_page f True b2 = Inr b3" "pool_rel (a\<lparr>ps_content := (ps_content a)(?p := d)\<rparr>) b3"
    using visit_change [where g = ?g, OF R heap_onD(1) [OF h] c(2) g holds_slots_fields(2,6) [OF d(2)]] by blast
  then show ?thesis
    using c(3) [of d "mark_slot (s ! i)"] c(4) [of d] d(2) s(2)
    by (intro exI [of _ "a\<lparr>ps_content := (ps_content a)(?p := d)\<rparr>"] exI [of _ b3])
      (simp add: TableHeap_MarkDelete_def split: if_splits)
qed

lemma ApplyDelete_heap:
  assumes R: "pool_rel a b" and h: "heap_on h a hs" and w: "wf_at rid (hs_pages hs)"
  shows "case slot_at (hs_pages hs) rid of
      Some x \<Rightarrow> if x = Empty then TableHeap_ApplyDelete rid b = Inl AssertionFailure
        else \<exists>a' b'. TableHeap_ApplyDelete rid b = Inr b' \<and> pool_rel a' b' \<and> ps_cap a' = ps_cap a \<and>
          heap_on h a' (hs\<lparr>hs_pages := set_slot rid Empty (hs_pages hs)\<rparr>)
    | None \<Rightarrow> TableHeap_ApplyDelete rid b = Inl AssertionFailure"
  using h w
proof (rule heap_slotE)
  let ?p = "rid_page_id rid"
  fix s i pr nx
  assume s: "rid_slot_num rid = int i" "slot_at (hs_pages hs) rid = (if i < length s then Some (s ! i) else None)"
    and c: "holds_slots (ps_content a ?p) ?p pr nx s" "allocated ?p a"
    "\<And>d x. holds_slots d ?p pr nx (s[i := x]) \<Longrightarrow>
      heap_on h (a\<lparr>ps_content := (ps_content a)(?p := d)\<rparr>) (hs\<lparr>hs_pages := set_slot rid x (hs_pages hs)\<rparr>)"
  let ?g = "\<lambda>d. bind_result (TablePage_ApplyDelete rid d) (\<lambda>d. Inr ((), d))"
  note i = heap_onD(1) [OF h]
  show ?thesis
  proof (cases "i < length s \<and> s ! i \<noteq> Empty")
    case True
    obtain d where d: "TablePage_ApplyDelete rid (ps_content a ?p) = Inr d" "holds_slots d ?p pr nx (s[i := Empty])"
      using ApplyDelete_tuple [OF c(1) s(1)] True by blast
    have g: "?g (ps_content a ?p) = Inr ((), d)" using d(1) by simp
    show ?thesis
      using visit_change [where g = ?g, OF R i c(2) g holds_slots_fields(2,6) [OF d(2)]] c(3) [OF d(2)] s(2) True
      by (fastforce simp: TableHeap_ApplyDelete_def)
  next
    case False
    then have "?g (ps_content a ?p) = Inl AssertionFailure" using ApplyDelete_empty [OF c(1) s(1)] by simp
    from visit_error [where g = ?g, OF R i c(2) this] show ?thesis
      using s(2) False by (auto simp: TableHeap_ApplyDelete_def)
  qed
qed

lemma RollbackDelete_heap:
  assumes R: "pool_rel a b" and h: "heap_on h a hs" and w: "wf_at rid (hs_pages hs)"
  shows "case slot_at (hs_pages hs) rid of
      Some x \<Rightarrow> \<exists>a' b'. TableHeap_RollbackDelete rid b = Inr b' \<and> pool_rel a' b' \<and> ps_cap a' = ps_cap a \<and>
          heap_on h a' (hs\<lparr>hs_pages := set_slot rid (unmark_slot x) (hs_pages hs)\<rparr>)
    | None \<Rightarrow> TableHeap_RollbackDelete rid b = Inl AssertionFailure"
  using h w
proof (rule heap_slotE)
  let ?p = "rid_page_id rid"
  fix s i pr nx
  assume s: "rid_slot_num rid = int i" "slot_at (hs_pages hs) rid = (if i < length s then Some (s ! i) else None)"
    and c: "holds_slots (ps_content a ?p) ?p pr nx s" "allocated ?p a"
    "\<And>d x. holds_slots d ?p pr nx (s[i := x]) \<Longrightarrow>
      heap_on h (a\<lparr>ps_content := (ps_content a)(?p := d)\<rparr>) (hs\<lparr>hs_pages := set_slot rid x (hs_pages hs)\<rparr>)"
  let ?g = "\<lambda>d. bind_result (TablePage_RollbackDelete rid d) (\<lambda>d. Inr ((), d))"
  note i = heap_onD(1) [OF h]
  show ?thesis
  proof (cases "i < length s")
    case True
    obtain d where d: "TablePage_RollbackDelete rid (ps_content a ?p) = Inr d" "holds_slots d ?p pr nx (s[i := unmark_slot (s ! i)])"
      using RollbackDelete_spec [OF c(1) s(1) True] by blast
    have g: "?g (ps_content a ?p) = Inr ((), d)" using d(1) by simp
    show ?thesis
      using visit_change [where g = ?g, OF R i c(2) g holds_slots_fields(2,6) [OF d(2)]] c(3) [OF d(2)] s(2) True
      by (fastforce simp: TableHeap_RollbackDelete_def)
  next
    case False
    then have "?g (ps_content a ?p) = Inl AssertionFailure"
      using holds_slots_fields(1) [OF c(1)] s(1) by (simp add: TablePage_RollbackDelete_def)
    from visit_error [where g = ?g, OF R i c(2) this] show ?thesis
      using s(2) False by (auto simp: TableHeap_RollbackDelete_def)
  qed
qed

lemma UpdateTuple_heap:
  assumes R: "pool_rel a b" and h: "heap_on h a hs" and w: "wf_at rid (hs_pages hs)" and ne: "t_data tuple \<noteq> []"
  defines "x \<equiv> slot_at (hs_pages hs) rid"
  shows "if alive x \<and> t_size tuple \<le> page_space (hs_pages hs) rid + int (length (bytes_of (the x)))
    then \<exists>a' b'. TableHeap_UpdateTuple lg tuple rid h' txn b =
        Inr (True, (if tx_state txn \<noteq> ABORTED then AppendTableWriteRecord \<lparr>wr_rid = rid, wr_wtype = WT_UPDATE,
          wr_tuple = \<lparr>t_allocated = True, t_rid = rid, t_data = bytes_of (the x)\<rparr>, wr_table = h'\<rparr> txn else txn), b') \<and>
      pool_rel a' b' \<and> ps_cap a' = ps_cap a \<and> heap_on h a' (hs\<lparr>hs_pages := set_slot rid (Live (t_data tuple)) (hs_pages hs)\<rparr>)
    else \<exists>b'. TableHeap_UpdateTuple lg tuple rid h' txn b = Inr (False, abort_if (lg \<and> \<not> alive x) txn, b') \<and> pool_rel a b'"
  using h w
proof (rule heap_slotE)
  let ?p = "rid_page_id rid"
  fix s i pr nx
  assume s: "rid_slot_num rid = int i" "slot_at (hs_pages hs) rid = (if i < length s then Some (s ! i) else None)"
    "page_space (hs_pages hs) rid = space s"
    and c: "holds_slots (ps_content a ?p) ?p pr nx s" "allocated ?p a"
    "\<And>d x. holds_slots d ?p pr nx (s[i := x]) \<Longrightarrow>
      heap_on h (a\<lparr>ps_content := (ps_content a)(?p := d)\<rparr>) (hs\<lparr>hs_pages := set_slot rid x (hs_pages hs)\<rparr>)"
  let ?g = "\<lambda>d. bind_result (TablePage_UpdateTuple lg tuple Tuple_default rid d) (\<lambda>(ok, aborted, old, d). Inr ((ok, aborted, old), d))"
  note i = heap_onD(1) [OF h]
  have x: "x = (if i < length s then Some (s ! i) else None)" using s(2) by (simp add: x_def)
  show ?thesis
  proof (cases "alive x \<and> t_size tuple \<le> space s + int (length (bytes_of (the x)))")
    case True
    then obtain ob where ob: "i < length s" "s ! i = Live ob" using x by (auto simp: is_live_def split: slot.splits if_splits)
    obtain d where d: "TablePage_UpdateTuple lg tuple Tuple_default rid (ps_content a ?p) =
        Inr (True, False, \<lparr>t_allocated = True, t_rid = rid, t_data = ob\<rparr>, d)" "holds_slots d ?p pr nx (s[i := Live (t_data tuple)])"
      using UpdateTuple_fits [OF c(1) s(1) ob ne, of lg Tuple_default] True ob x by auto
    have g: "?g (ps_content a ?p) = Inr ((True, False, \<lparr>t_allocated = True, t_rid = rid, t_data = ob\<rparr>), d)" using d(1) by simp
    show ?thesis
      using visit_change [where g = ?g, OF R i c(2) g holds_slots_fields(2,6) [OF d(2)]] c(3) [OF d(2)] s(3) True x ob
      by (fastforce simp: TableHeap_UpdateTuple_def abort_if_def)
  next
    case False
    have "\<not> (i < length s \<and> is_live (s ! i)) \<or> space s + int (length (bytes_of (s ! i))) < t_size tuple"
      using False x by auto
    from UpdateTuple_refused [OF c(1) s(1) ne this, of lg Tuple_default]
    have g: "?g (ps_content a ?p) = Inr ((False, lg \<and> \<not> alive x, Tuple_default), ps_content a ?p)" using x by auto
    from visit_read [OF R i c(2) holds_slots_fields(2) [OF c(1)]]
    obtain f b1 b2 where v: "FetchPgImp ?p b = Inr (Some f, b1)" "page_data f b1 = Inr (ps_content a ?p)"
      "store_data f (ps_content a ?p) b1 = Inr b1" "unpin_page f False b1 = Inr b2" "pool_rel a b2" by blast
    have "on_page f ?g b1 = Inr ((False, lg \<and> \<not> alive x, Tuple_default), b1)"
      unfolding on_page_def v(2) bind_result_simps g by (simp add: v(3))
    then show ?thesis using v(1,4,5) s(3) False by (simp add: TableHeap_UpdateTuple_def)
  qed
qed

lemma UpdateTuple_empty:
  assumes R: "pool_rel a b" and h: "heap_on h a hs" and w: "wf_at rid (hs_pages hs)" and ne: "t_data tuple = []"
  shows "TableHeap_UpdateTuple lg tuple rid h' txn b = Inl AssertionFailure"
proof -
  obtain s where "map_of (hs_pages hs) (rid_page_id rid) = Some s" using w by (auto simp: wf_at_def)
  then have "allocated (rid_page_id rid) a" by (rule heap_onD(5) [OF h])
  then show ?thesis
    using visit_error [where g = "\<lambda>d. bind_result (TablePage_UpdateTuple lg tuple Tuple_default rid d)
        (\<lambda>(ok, aborted, old, d). Inr ((ok, aborted, old), d))", OF R heap_onD(1) [OF h], of "rid_page_id rid" AssertionFailure] ne
    by (auto simp: TableHeap_UpdateTuple_def TablePage_UpdateTuple_def t_size_def)
qed

lemma GetTuple_heap:
  assumes R: "pool_rel a b" and h: "heap_on h a hs" and w: "wf_at rid (hs_pages hs)"
  shows "\<exists>b'. TableHeap_GetTuple lg rid tuple txn b =
      (case slot_at (hs_pages hs) rid of Some (Live bs) \<Rightarrow> Inr (True, \<lparr>t_allocated = True, t_rid = rid, t_data = bs\<rparr>, txn, b')
       | _ \<Rightarrow> Inr (False, tuple, abort_if lg txn, b')) \<and> pool_rel a b'"
  using h w
proof (rule heap_slotE)
  let ?p = "rid_page_id rid"
  fix s i pr nx
  assume s: "rid_slot_num rid = int i" "slot_at (hs_pages hs) rid = (if i < length s then Some (s ! i) else None)"
    and c: "holds_slots (ps_content a ?p) ?p pr nx s" "allocated ?p a"
  show ?thesis
    using visit_read [OF R heap_onD(1) [OF h] c(2)] holds_slots_fields(2) [OF c(1)] GetTuple_spec [OF c(1) s(1), of lg tuple] s(2)
    by (auto simp: TableHeap_GetTuple_def abort_if_def split: slot.splits)
qed

section \<open>Insertion\<close>

lemma insert_pages_next: "next_id_of (snd (insert_pages n bs pgs)) = (if pgs = [] then n else next_id_of pgs)"
  by (induction pgs rule: list.induct) (auto simp: next_id_of_def split: prod.splits)

lemma insert_pages_ids: "map fst (snd (insert_pages n bs pgs)) = map fst pgs \<or> map fst (snd (insert_pages n bs pgs)) = map fst pgs @ [n]"
  by (induction n bs pgs rule: insert_pages.induct) (auto split: prod.splits)

text \<open>The tuple is stored in the page that is held.\<close>

lemma insert_here:
  assumes R: "pool_rel (held p M a) b" and i: "idle a" and f: "resident b p = Some f" and M: "M \<subseteq> {p}"
    and c: "holds_slots (ps_content a p) p prev nx s" and ne: "t_data tuple \<noteq> []" and fits: "t_size tuple + 8 \<le> space s"
  shows "\<exists>d b1 b2. InsertTuple_loop (Suc n) lg tuple f b = Inr (Some (f, page_rid p (first_empty s)), b1) \<and>
    unpin_page f True b1 = Inr b2 \<and> pool_rel (a\<lparr>ps_content := (ps_content a)(p := d)\<rparr>) b2 \<and>
    holds_slots d p prev nx (put_slot (first_empty s) (Live (t_data tuple)) s)"
proof -
  obtain d where d: "TablePage_InsertTuple tuple (ps_content a p) = Inr (Some (page_rid p (first_empty s)), d)"
    "holds_slots d p prev nx (put_slot (first_empty s) (Live (t_data tuple)) s)"
    using InsertTuple_room [OF c ne fits] by (auto simp: page_rid_def)
  obtain b1 b2 where b: "store_data f d b = Inr b1" "page_data f b1 = Inr d" "UnpinPgImp p True b1 = Inr (True, b2)"
      "pool_rel (a\<lparr>ps_content := (ps_content a)(p := d)\<rparr>) b2"
    using bp.finish [OF R i f M, of d] holds_slots_fields(6) [OF d(2)] by (auto simp: BUSTUB_PAGE_SIZE_def)
  moreover have "page_data f b = Inr (ps_content a p)" using bp.get_law [OF R f] by (simp add: held_simps)
  ultimately show ?thesis
    using d holds_slots_fields(2) [OF d(2)] by (auto simp: on_page_def unpin_page_def)
qed

lemma insert_new:
  assumes R: "pool_rel (held p {} a) b" and i: "idle a" and f: "resident b p = Some f" and al: "allocated p a"
    and ok: "allowed NewPage a" and c: "holds_slots (ps_content a p) p prev INVALID_PAGE_ID s" and ne: "t_data tuple \<noteq> []"
    and full: "space s < t_size tuple + 8" and small: "t_size tuple \<le> 4064"
  shows "\<exists>f' d1 d2 b1 b2. InsertTuple_loop (Suc (Suc m)) lg tuple f b = Inr (Some (f', page_rid (ps_next a) 0), b1) \<and>
    unpin_page f' True b1 = Inr b2 \<and>
    pool_rel (a\<lparr>ps_next := ps_next a + 1, ps_content := (ps_content a)(p := d1, ps_next a := d2)\<rparr>) b2 \<and>
    holds_slots d1 p prev (ps_next a) s \<and> holds_slots d2 (ps_next a) p INVALID_PAGE_ID [Live (t_data tuple)]"
proof -
  define n where "n = ps_next a"
  have n: "0 \<le> n" "n < 2 ^ 30" "p \<noteq> n" "0 \<le> p" using ok al by (auto simp: n_def allocated_def)
  define d1 where "d1 = SetNextPageId n (ps_content a p)"
  define d2 where "d2 = TablePage_Init lg n (int BUSTUB_PAGE_SIZE) p zero_page"
  define a' where "a' = a\<lparr>ps_next := n + 1, ps_content := (ps_content a)(p := d1, n := d2)\<rparr>"
  have h1: "holds_slots d1 p prev n s" unfolding d1_def by (rule holds_slots_link [OF c]) (use n in \<open>simp add: in_sint_def\<close>)
  have "in_sint 32 p" using n al ok by (auto simp: in_sint_def allocated_def n_def)
  then have h2: "holds_slots d2 n p INVALID_PAGE_ID []"
    unfolding d2_def using n by (simp add: BUSTUB_PAGE_SIZE_def) (intro holds_slots_Init, auto simp: in_sint_def BUSTUB_PAGE_SIZE_def)
  have l: "length d1 = BUSTUB_PAGE_SIZE" "length d2 = BUSTUB_PAGE_SIZE"
    using holds_slots_fields(6) [OF h1] holds_slots_fields(6) [OF h2] by (simp_all add: BUSTUB_PAGE_SIZE_def)
  obtain g b1 b2 b3 b4 where x: "NewPgImp b = Inr (Some (n, g), b1)" "page_data f b1 = Inr (ps_content a p)" "store_data f d1 b1 = Inr b2"
      "page_data f b2 = Inr d1" "page_data g b2 = Inr zero_page" "store_data g d2 b2 = Inr b3" "page_data f b3 = Inr d1"
      "UnpinPgImp p True b3 = Inr (True, b4)" "pool_rel (held n {n} a') b4" "resident b4 n = Some g" "idle a'"
    using bp.extend [OF R i f al ok l] unfolding a'_def n_def by blast
  have "page_data f b = Inr (ps_content a p)" "store_data f (ps_content a p) b = Inr b"
    using bp.get_law [OF R f] bp.put_same [OF R f] by (simp_all add: held_simps)
  then have "InsertTuple_loop (Suc (Suc m)) lg tuple f b = InsertTuple_loop (Suc m) lg tuple g b4"
    using x(1-8) InsertTuple_full [OF c ne full] holds_slots_fields(4) [OF c] holds_slots_fields(2) [OF h1]
    by (subst InsertTuple_loop.simps(2))
      (simp add: on_page_def unpin_page_def d1_def [symmetric] d2_def [symmetric] del: InsertTuple_loop.simps(2))
  moreover have "t_size tuple + 8 \<le> space []" using small by (simp add: space_def used_bytes_def)
  moreover have "holds_slots (ps_content a' n) n p INVALID_PAGE_ID []" using h2 by (simp add: a'_def)
  moreover have "first_empty [] = 0" "put_slot 0 x [] = [x]" for x :: slot by (simp_all add: first_empty_def put_slot_def)
  moreover have "a'\<lparr>ps_content := (ps_content a')(n := d)\<rparr> = a\<lparr>ps_next := n + 1, ps_content := (ps_content a)(p := d1, n := d)\<rparr>" for d
    by (simp add: a'_def)
  ultimately show ?thesis
    using insert_here [OF x(9,11,10) subset_refl _ ne, of p INVALID_PAGE_ID "[]" m lg] h1 unfolding n_def by fastforce
qed

definition inserted :: "pool_spec \<Rightarrow> page_id_t set \<Rightarrow> page_id_t \<Rightarrow> nat \<Rightarrow> slot_page list \<Rightarrow> pool_spec \<Rightarrow> bool" where
  "inserted a ids prev k pgs a' \<longleftrightarrow> idle a' \<and> ps_cap a' = ps_cap a \<and> ps_next a' = ps_next a + (int (length pgs) - int k) \<and>
     chained (ps_content a') prev pgs \<and> (\<forall>q. q \<notin> ids \<longrightarrow> q \<noteq> ps_next a \<longrightarrow> ps_content a' q = ps_content a q)"

lemma InsertTuple_loop_spec:
  assumes "idle a" "allowed NewPage a" "t_data tuple \<noteq> []" "t_size tuple \<le> 4064"
  shows "pool_rel (held p {} a) b \<Longrightarrow> resident b p = Some f \<Longrightarrow> chained (ps_content a) prev ((p, s) # pgs) \<Longrightarrow>
    distinct (p # map fst pgs) \<Longrightarrow> \<forall>q \<in> insert p (fst ` set pgs). allocated q a \<Longrightarrow> Suc (length pgs) < m \<Longrightarrow>
    insert_pages (ps_next a) (t_data tuple) ((p, s) # pgs) = (rid, pgs') \<Longrightarrow>
    \<exists>f' b1 b2 a'. InsertTuple_loop m lg tuple f b = Inr (Some (f', rid), b1) \<and> unpin_page f' True b1 = Inr b2 \<and> pool_rel a' b2 \<and>
      inserted a (insert p (fst ` set pgs)) prev (Suc (length pgs)) pgs' a'"
proof (induction pgs arbitrary: p s b f prev m rid pgs')
  case Nil
  note c = Nil.prems(3) [simplified, unfolded next_id_of_def, simplified] and al = Nil.prems(5) [simplified]
  obtain m' where m: "m = Suc (Suc m')" using Nil.prems(6) by (auto simp: less_iff_Suc_add)
  show ?case
  proof (cases "t_size tuple + 8 \<le> space s")
    case True
    then show ?thesis
      using insert_here [OF Nil.prems(1) assms(1) Nil.prems(2) _ c assms(3) True, of "Suc m'" lg] Nil.prems(7) m assms(1)
      by (fastforce simp: inserted_def t_size_def idle_def next_id_of_def)
  next
    case False
    have np: "p \<noteq> ps_next a" using al by (simp add: allocated_def)
    have "space s < t_size tuple + 8" using False by simp
    from insert_new [OF Nil.prems(1) assms(1) Nil.prems(2) al assms(2) c assms(3) this assms(4), of m' lg]
    obtain f' d1 d2 b1 b2 where x: "InsertTuple_loop m lg tuple f b = Inr (Some (f', page_rid (ps_next a) 0), b1)" "unpin_page f' True b1 = Inr b2"
      "pool_rel (a\<lparr>ps_next := ps_next a + 1, ps_content := (ps_content a)(p := d1, ps_next a := d2)\<rparr>) b2"
      "holds_slots d1 p prev (ps_next a) s" "holds_slots d2 (ps_next a) p INVALID_PAGE_ID [Live (t_data tuple)]"
      unfolding m by blast
    have "rid = page_rid (ps_next a) 0" "pgs' = [(p, s), (ps_next a, [Live (t_data tuple)])]"
      using Nil.prems(7) False by (auto simp: t_size_def)
    then show ?thesis
      using x np assms(1)
      by (intro exI [of _ f'] exI [of _ b1] exI [of _ b2]
          exI [of _ "a\<lparr>ps_next := ps_next a + 1, ps_content := (ps_content a)(p := d1, ps_next a := d2)\<rparr>"])
        (simp add: inserted_def idle_def next_id_of_def)
  qed
next
  case (Cons y pgs)
  obtain q t where y: "y = (q, t)" by (cases y)
  obtain m' where m: "m = Suc m'" "Suc (length pgs) < m'" using Cons.prems(6) by (cases m) auto
  have c: "holds_slots (ps_content a p) p prev q s" using Cons.prems(3) y by (simp add: next_id_of_def)
  show ?case
  proof (cases "t_size tuple + 8 \<le> space s")
    case True
    have "p \<notin> fst ` set (y # pgs)" using Cons.prems(4) by auto
    then have "chained ((ps_content a)(p := d)) p (y # pgs) = chained (ps_content a) p (y # pgs)" for d
      by (intro chained_cong) auto
    then show ?thesis
      using insert_here [OF Cons.prems(1) assms(1) Cons.prems(2) _ c assms(3) True, of m' lg] Cons.prems(3,7) m y True assms(1)
      by (fastforce simp: inserted_def t_size_def idle_def next_id_of_def)
  next
    case False
    have q: "q \<noteq> p" "allocated q a" "q \<noteq> INVALID_PAGE_ID" using Cons.prems(4,5) y by (auto simp: allocated_def INVALID_PAGE_ID_def)
    obtain g b1 b2 where g: "FetchPgImp q b = Inr (Some g, b1)" "page_data f b1 = Inr (ps_content a p)"
        "UnpinPgImp p False b1 = Inr (True, b2)" "pool_rel (held q {} a) b2" "resident b2 q = Some g"
      using bp.hop [OF Cons.prems(1) assms(1) Cons.prems(2) q(2,1)] by blast
    have "page_data f b = Inr (ps_content a p)" "store_data f (ps_content a p) b = Inr b"
      using bp.get_law [OF Cons.prems(1,2)] bp.put_same [OF Cons.prems(1,2)] by (simp_all add: held_simps)
    then have loop: "InsertTuple_loop m lg tuple f b = InsertTuple_loop m' lg tuple g b2"
      using g(1-3) q(3) InsertTuple_full [OF c assms(3)] False holds_slots_fields(2,4) [OF c]
      by (simp add: m on_page_def unpin_page_def)
    obtain pgs1 where i: "insert_pages (ps_next a) (t_data tuple) ((q, t) # pgs) = (rid, pgs1)" "pgs' = (p, s) # pgs1"
      using Cons.prems(7) y False by (auto simp: t_size_def split: prod.splits if_splits)
    obtain f' b1 b2 a' where r: "InsertTuple_loop m lg tuple f b = Inr (Some (f', rid), b1)" "unpin_page f' True b1 = Inr b2" "pool_rel a' b2"
        "inserted a (insert q (fst ` set pgs)) p (Suc (length pgs)) pgs1 a'"
      using Cons.IH [OF g(4,5) _ _ _ m(2) i(1)] Cons.prems(3-5) y unfolding loop by fastforce
    have "next_id_of pgs1 = q" using insert_pages_next [of "ps_next a" "t_data tuple" "(q, t) # pgs"] i(1) by (simp add: next_id_of_def)
    moreover have "ps_content a' p = ps_content a p"
      using r(4) Cons.prems(4,5) y by (auto simp: inserted_def allocated_def)
    ultimately have "inserted a (insert p (fst ` set (y # pgs))) prev (Suc (length (y # pgs))) pgs' a'"
      using r(4) c i(2) y by (simp add: inserted_def)
    then show ?thesis using r(1-3) by blast
  qed
qed

end
