(* ===== verification/TableHeapSpec.thy ===== *)
theory TableHeapSpec
  imports TableHeapPages
begin

text \<open>
  The operations of the table heap that walk along its pages: insertion, which ends in the first page
  with room or in a new one, and the scan by iterators, which returns the live tuples in order.  The
  loops end when their number of rounds exceeds the number of pages.
\<close>

lemma insert_pages_cases:
  assumes "insert_pages n bs pgs = (rid, pgs')"
  shows "map fst pgs' = map fst pgs \<and> length pgs' = length pgs \<and> fst ` set pgs' = fst ` set pgs \<or>
      map fst pgs' = map fst pgs @ [n] \<and> length pgs' = Suc (length pgs) \<and> fst ` set pgs' = insert n (fst ` set pgs)"
    "pgs \<noteq> [] \<Longrightarrow> next_id_of pgs' = next_id_of pgs" "pgs' \<noteq> []"
proof -
  have i: "map fst pgs' = map fst pgs \<or> map fst pgs' = map fst pgs @ [n]" using insert_pages_ids [of n bs pgs] assms by simp
  then have "length pgs' = length (map fst pgs) \<and> fst ` set pgs' = set (map fst pgs) \<and> map fst pgs' = map fst pgs \<or>
      length pgs' = length (map fst pgs @ [n]) \<and> fst ` set pgs' = set (map fst pgs @ [n]) \<and> map fst pgs' = map fst pgs @ [n]"
    by (metis length_map set_map)
  then show "map fst pgs' = map fst pgs \<and> length pgs' = length pgs \<and> fst ` set pgs' = fst ` set pgs \<or>
      map fst pgs' = map fst pgs @ [n] \<and> length pgs' = Suc (length pgs) \<and> fst ` set pgs' = insert n (fst ` set pgs)"
    by auto
  show "pgs' \<noteq> []" using assms by (cases pgs) (auto split: prod.splits if_splits)
  show "next_id_of pgs' = next_id_of pgs" if "pgs \<noteq> []" using insert_pages_next [of n bs pgs] assms that by simp
qed

lemma InsertTuple_heap:
  assumes R: "pool_rel a b" and h: "heap_on h a hs" and ok: "allowed NewPage a" and ne: "t_data tuple \<noteq> []" and small: "t_size tuple \<le> 4064"
    and m: "length (hs_pages hs) < m" and ins: "insert_pages (hs_next hs) (t_data tuple) (hs_pages hs) = (rid, pgs')"
  shows "\<exists>a' b'. TableHeap_InsertTuple m lg tuple h txn b = Inr (Some rid,
      AppendTableWriteRecord \<lparr>wr_rid = rid, wr_wtype = WT_INSERT, wr_tuple = Tuple_default, wr_table = h\<rparr> txn, b') \<and>
    pool_rel a' b' \<and> ps_cap a' = ps_cap a \<and>
    heap_on h a' (hs\<lparr>hs_next := hs_next hs + (int (length pgs') - int (length (hs_pages hs))), hs_pages := pgs'\<rparr>)"
proof -
  note D = heap_onD [OF h] and I = insert_pages_cases [OF ins]
  obtain p s pgs where pg: "hs_pages hs = (p, s) # pgs" using D(6) by (cases "hs_pages hs") auto
  then have first: "th_first_page_id h = p" "allocated p a" using D(5) [of p s] D(7) by (auto simp: next_id_of_def)
  have al: "\<forall>q \<in> insert p (fst ` set pgs). allocated q a" using h pg by (simp add: heap_on_def)
  obtain f b1 where f: "FetchPgImp p b = Inr (Some f, b1)" "pool_rel (held p {} a) b1" "resident b1 p = Some f"
    using bp.start [OF R D(1) first(2)] by blast
  obtain f' b2 b3 a' where l: "InsertTuple_loop m lg tuple f b1 = Inr (Some (f', rid), b2)" "unpin_page f' True b2 = Inr b3" "pool_rel a' b3"
      "inserted a (insert p (fst ` set pgs)) INVALID_PAGE_ID (Suc (length pgs)) pgs' a'"
    using InsertTuple_loop_spec [OF D(1) ok ne small f(2,3) _ _ al _ , of INVALID_PAGE_ID s m rid pgs' lg] D(2-4) m ins pg by auto
  have "u32 (t_size tuple + 32) = t_size tuple + 32" using small by (intro u32_id) (auto simp: t_size_def)
  then have "TableHeap_InsertTuple m lg tuple h txn b = Inr (Some rid,
      AppendTableWriteRecord \<lparr>wr_rid = rid, wr_wtype = WT_INSERT, wr_tuple = Tuple_default, wr_table = h\<rparr> txn, b3)"
    using f(1) l(1,2) first(1) small by (simp add: TableHeap_InsertTuple_def BUSTUB_PAGE_SIZE_def)
  moreover have "heap_on h a' (hs\<lparr>hs_next := hs_next hs + (int (length pgs') - int (length (hs_pages hs))), hs_pages := pgs'\<rparr>)"
  proof -
    have n: "ps_next a' = ps_next a + (int (length pgs') - int (length (hs_pages hs)))" using l(4) pg by (simp add: inserted_def)
    have new: "hs_next hs \<notin> fst ` set (hs_pages hs)" using al pg D(2) by (auto simp: allocated_def)
    have "allocated q a'" if "q \<in> fst ` set pgs'" for q
    proof -
      have "q \<in> fst ` set (hs_pages hs) \<and> ps_next a' = ps_next a \<or>
          (q = hs_next hs \<or> q \<in> fst ` set (hs_pages hs)) \<and> ps_next a' = ps_next a + 1"
        using that I(1) n by (elim disjE conjE) simp_all
      moreover have "allocated q a" if "q \<in> fst ` set (hs_pages hs)" using that al pg by auto
      ultimately show ?thesis using D(2) first(2) unfolding allocated_def by fastforce
    qed
    moreover have "distinct (map fst pgs')" using I(1) D(3) new by auto
    moreover have "ps_next a' \<le> 2 ^ 30" using n I(1) ok by auto
    ultimately show ?thesis
      using l(4) n D(2,7) I(2,3) D(6) by (simp add: heap_on_def inserted_def)
  qed
  ultimately show ?thesis using l(3,4) by (auto simp: inserted_def)
qed

lemma InsertTuple_empty:
  assumes R: "pool_rel a b" and h: "heap_on h a hs" and ne: "t_data tuple = []" and m: "0 < m"
  shows "TableHeap_InsertTuple m lg tuple h txn b = Inl AssertionFailure"
proof -
  note D = heap_onD [OF h]
  obtain p s pgs where pg: "hs_pages hs = (p, s) # pgs" using D(6) by (cases "hs_pages hs") auto
  then have "th_first_page_id h = p" "allocated p a" using D(5) [of p s] D(7) by (auto simp: next_id_of_def)
  moreover from this have "\<exists>f b1. FetchPgImp p b = Inr (Some f, b1) \<and> on_page f (TablePage_InsertTuple tuple) b1 = Inl AssertionFailure"
    using ne by (intro visit_error [OF R D(1)]) (simp_all add: TablePage_InsertTuple_def t_size_def)
  moreover obtain m' where "m = Suc m'" using m by (cases m) auto
  ultimately show ?thesis
    using ne by (auto simp: TableHeap_InsertTuple_def t_size_def u32_def BUSTUB_PAGE_SIZE_def)
qed

section \<open>Iteration\<close>

lemma next_live_rec:
  "next_live i s = (if i < length s then if is_live (s ! i) then Some i else next_live (Suc i) s else None)"
proof (cases "i < length s")
  case True
  then show ?thesis using Cons_nth_drop_Suc [OF True, symmetric] by (simp add: next_live_def)
qed (simp add: next_live_def)

lemma page_tuples_rec:
  "page_tuples p i s = (if i < length s then (if is_live (s ! i) then [(page_rid p i, bytes_of (s ! i))] else []) @ page_tuples p (Suc i) s else [])"
  by (simp add: page_tuples_def upt_conv_Cons)

lemma next_live_tuples:
  "case next_live i s of None \<Rightarrow> page_tuples p i s = []
   | Some j \<Rightarrow> j < length s \<and> is_live (s ! j) \<and> page_tuples p i s = (page_rid p j, bytes_of (s ! j)) # page_tuples p (Suc j) s"
proof (induction "length s - i" arbitrary: i)
  case 0
  then show ?case by (simp add: next_live_rec [of i] page_tuples_rec [of p i])
next
  case (Suc n)
  then have "i < length s" "n = length s - Suc i" by linarith+
  then show ?case
    using Suc.hyps(1) [of "Suc i"]
    by (cases "is_live (s ! i)") (simp_all add: next_live_rec [of i] page_tuples_rec [of p i] split: option.splits)
qed

lemma heap_tuples_simps [simp]:
  "heap_tuples [] = []" "heap_tuples ((p, s) # pgs) = page_tuples p 0 s @ heap_tuples pgs"
  by (simp_all add: heap_tuples_def)

definition first_rid :: "(RID \<times> byte list) list \<Rightarrow> RID" where
  "first_rid ts = (case ts of [] \<Rightarrow> RID_default | (r, _) # _ \<Rightarrow> r)"

lemma Begin_loop_spec:
  assumes "idle a"
  shows "pool_rel a b \<Longrightarrow> chained (ps_content a) prev pgs \<Longrightarrow> \<forall>p \<in> fst ` set pgs. allocated p a \<Longrightarrow> length pgs < m \<Longrightarrow>
    \<exists>b'. Begin_loop m (next_id_of pgs) RID_default b = Inr (first_rid (heap_tuples pgs), b') \<and> pool_rel a b'"
proof (induction pgs arbitrary: b prev m)
  case Nil
  then show ?case by (cases m) (simp_all add: next_id_of_def first_rid_def)
next
  case (Cons x pgs)
  obtain p s where x: "x = (p, s)" by (cases x)
  obtain m' where m: "m = Suc m'" "length pgs < m'" using Cons.prems(4) by (cases m) auto
  have c: "holds_slots (ps_content a p) p prev (next_id_of pgs) s" "chained (ps_content a) p pgs" using Cons.prems(2) x by simp_all
  have p: "allocated p a" "p \<noteq> INVALID_PAGE_ID" using Cons.prems(3) x by (auto simp: allocated_def INVALID_PAGE_ID_def)
  obtain f b1 b2 where v: "FetchPgImp p b = Inr (Some f, b1)" "page_data f b1 = Inr (ps_content a p)"
      "UnpinPgImp p False b1 = Inr (True, b2)" "page_data f b2 = Inr (ps_content a p)" "pool_rel a b2"
    using visit_read [OF Cons.prems(1) assms p(1) holds_slots_fields(2) [OF c(1)]] by blast
  note t = next_live_tuples [where i = 0 and s = s and p = p]
  obtain b3 where "Begin_loop m' (next_id_of pgs) RID_default b2 = Inr (first_rid (heap_tuples pgs), b3)" "pool_rel a b3"
    using Cons.IH [OF v(5) c(2) _ m(2)] Cons.prems(3) by auto
  then show ?case
    using v t p(2) GetFirstTupleRid_spec [OF c(1)] holds_slots_fields(4) [OF c(1)] x m(1)
    by (cases "next_live 0 s") (simp_all add: next_id_of_def first_rid_def page_rid_def)
qed

text \<open>
  The hop to the next page with a live tuple ends in the page of that tuple, or in the last page.
\<close>

lemma next_page_loop_spec:
  assumes "idle a"
  shows "pool_rel (held p {} a) b \<Longrightarrow> resident b p = Some f \<Longrightarrow> holds_slots (ps_content a p) p pr (next_id_of pgs) s \<Longrightarrow>
    chained (ps_content a) p pgs \<Longrightarrow> distinct (p # map fst pgs) \<Longrightarrow> \<forall>q \<in> fst ` set pgs. allocated q a \<Longrightarrow> length pgs < m \<Longrightarrow>
    \<exists>q g b'. next_page_loop m f RID_default b = Inr (g, first_rid (heap_tuples pgs), b') \<and> pool_rel (held q {} a) b' \<and>
      resident b' q = Some g \<and> GetTablePageId (ps_content a q) = q \<and>
      (heap_tuples pgs \<noteq> [] \<longrightarrow> rid_page_id (first_rid (heap_tuples pgs)) = q)"
proof (induction pgs arbitrary: p b f pr s m)
  case Nil
  have "page_data f b = Inr (ps_content a p)" using bp.get_law [OF Nil.prems(1,2)] by (simp add: held_simps)
  then show ?case
    using Nil.prems holds_slots_fields(2,4) [OF Nil.prems(3)]
    by (cases m) (auto simp: next_id_of_def first_rid_def)
next
  case (Cons x pgs)
  obtain q t where x: "x = (q, t)" by (cases x)
  obtain m' where m: "m = Suc m'" "length pgs < m'" using Cons.prems(7) by (cases m) auto
  have c: "holds_slots (ps_content a q) q p (next_id_of pgs) t" "chained (ps_content a) q pgs" using Cons.prems(4) x by simp_all
  have q: "allocated q a" "q \<noteq> p" "q \<noteq> INVALID_PAGE_ID" using Cons.prems(5,6) x by (auto simp: allocated_def INVALID_PAGE_ID_def)
  have n: "GetNextPageId (ps_content a p) = q" "GetTablePageId (ps_content a p) = p"
    using holds_slots_fields(2,4) [OF Cons.prems(3)] x by (simp_all add: next_id_of_def)
  have d: "page_data f b = Inr (ps_content a p)" using bp.get_law [OF Cons.prems(1,2)] by (simp add: held_simps)
  obtain g b1 b2 where v: "FetchPgImp q b = Inr (Some g, b1)" "page_data f b1 = Inr (ps_content a p)"
      "UnpinPgImp p False b1 = Inr (True, b2)" "pool_rel (held q {} a) b2" "resident b2 q = Some g"
    using bp.hop [OF Cons.prems(1) assms Cons.prems(2) q(1,2)] by blast
  have dg: "page_data g b2 = Inr (ps_content a q)" using bp.get_law [OF v(4,5)] by (simp add: held_simps)
  note t = next_live_tuples [where i = 0 and s = t and p = q]
  show ?case
  proof (cases "next_live 0 t")
    case None
    have "next_page_loop m f RID_default b = next_page_loop m' g RID_default b2"
      using v(1-3) d dg n q(3) GetFirstTupleRid_spec [OF c(1)] None m by (simp add: unpin_page_def)
    then show ?thesis using Cons.IH [OF v(4,5) c _ _ m(2)] Cons.prems(5,6) x t None by simp
  next
    case (Some j)
    have "next_page_loop m f RID_default b = Inr (g, page_rid q j, b2)"
      using v(1-3) d dg n q(3) GetFirstTupleRid_spec [OF c(1)] Some m by (simp add: unpin_page_def page_rid_def)
    then show ?thesis using v(4,5) t Some x holds_slots_fields(2) [OF c(1)] by (auto simp: first_rid_def)
  qed
qed

lemma tuple_split:
  "page_tuples p i s @ heap_tuples pgs = (r, bs) # ts \<Longrightarrow>
   \<exists>pre q t post j. (p, s) # pgs = pre @ (q, t) # post \<and> r = page_rid q j \<and> j < length t \<and> t ! j = Live bs \<and>
     ts = page_tuples q (Suc j) t @ heap_tuples post"
proof (induction pgs arbitrary: p i s)
  case Nil
  then show ?case
    using next_live_tuples [where i = i and s = s and p = p]
    by (cases "next_live i s") (auto simp: is_live_def intro!: exI [of _ "[]"] split: slot.splits)
next
  case (Cons x pgs)
  obtain q t where x: "x = (q, t)" by (cases x)
  note n = next_live_tuples [where i = i and s = s and p = p]
  show ?case
  proof (cases "next_live i s")
    case None
    then have "page_tuples q 0 t @ heap_tuples pgs = (r, bs) # ts" using Cons.prems n x by simp
    from Cons.IH [OF this] show ?thesis unfolding x by (metis append_Cons)
  next
    case (Some j)
    then show ?thesis using Cons.prems n x
      by (intro exI [of _ "[]"] exI [of _ p] exI [of _ s] exI [of _ "x # pgs"] exI [of _ j])
        (auto simp: is_live_def split: slot.splits)
  qed
qed

lemma chained_split:
  "chained c prev (pre @ (p, s) # post) \<Longrightarrow> \<exists>pr. holds_slots (c p) p pr (next_id_of post) s \<and> chained c p post"
  by (induction pre arbitrary: prev) auto

lemma iterator_end:
  assumes "0 \<le> q" "q < 2 ^ 31" "j < 2 ^ 32"
  shows "\<not> TableIterator_eq (it\<lparr>t_rid := page_rid q j\<rparr>) TableHeap_End" "TableIterator_eq (it\<lparr>t_rid := RID_default\<rparr>) TableHeap_End"
proof -
  have "wf_RID (page_rid q j)" "wf_RID RID_default"
    using assms by (simp_all add: wf_RID_def page_rid_def RID_default_def in_sint_def INVALID_PAGE_ID_def)
  then have "RID_Get (page_rid q j) \<ge> 0" "RID_Get RID_default < 0"
    using assms by (simp_all add: RID_Get_add) (simp add: RID_default_def INVALID_PAGE_ID_def)
  then show "\<not> TableIterator_eq (it\<lparr>t_rid := page_rid q j\<rparr>) TableHeap_End" "TableIterator_eq (it\<lparr>t_rid := RID_default\<rparr>) TableHeap_End"
    by (simp_all add: TableIterator_eq_def TableHeap_End_def Tuple_of_rid_def RID_default_def)
qed

definition iter_at :: "(RID \<times> byte list) list \<Rightarrow> Tuple \<Rightarrow> Tuple" where
  "iter_at ts it = (case ts of [] \<Rightarrow> it\<lparr>t_rid := RID_default\<rparr> | (r, bs) # _ \<Rightarrow> \<lparr>t_allocated = True, t_rid = r, t_data = bs\<rparr>)"

text \<open>A live tuple of the heap, with its page.\<close>

lemma heap_tupleD:
  assumes h: "heap_on h a hs" and p: "hs_pages hs = pre @ (q, t) # post" and j: "j < length t" "t ! j = Live bs"
  shows "allocated q a" "q < 2 ^ 31" "j < 2 ^ 32" "wf_at (page_rid q j) (hs_pages hs)" "slot_at (hs_pages hs) (page_rid q j) = Some (Live bs)"
    "\<exists>pr. holds_slots (ps_content a q) q pr (next_id_of post) t \<and> chained (ps_content a) q post"
proof -
  note D = heap_onD [OF h]
  have m: "map_of (hs_pages hs) q = Some t" using D(3) unfolding p by (simp add: map_of_eq_None_iff [THEN iffD2] map_add_def)
  then show a: "allocated q a" by (rule D(5))
  then show "q < 2 ^ 31" using D(8) by (simp add: allocated_def)
  show c: "\<exists>pr. holds_slots (ps_content a q) q pr (next_id_of post) t \<and> chained (ps_content a) q post"
    using chained_split D(4) unfolding p by blast
  then show "j < 2 ^ 32" using page_size(5) j(1) by fastforce
  show "wf_at (page_rid q j) (hs_pages hs)" "slot_at (hs_pages hs) (page_rid q j) = Some (Live bs)"
    using m j by (simp_all add: wf_at_def slot_at_def)
qed

lemma GetTuple_held:
  assumes R: "pool_rel (held q {} a) b" and h: "heap_on h a hs" and f: "resident b q = Some f"
    and p: "hs_pages hs = pre @ (q, t) # post" and j: "j < length t" "t ! j = Live bs"
  shows "\<exists>b'. TableHeap_GetTuple lg (page_rid q j) it txn b = Inr (True, \<lparr>t_allocated = True, t_rid = page_rid q j, t_data = bs\<rparr>, txn, b') \<and>
    pool_rel (held q {} a) b' \<and> resident b' q = Some f"
proof -
  note D = heap_tupleD [OF h p j]
  obtain pr where c: "holds_slots (ps_content a q) q pr (next_id_of post) t" using D(6) by blast
  have "TablePage_GetTuple lg (page_rid q j) it (ps_content a q) = Inr (True, False, \<lparr>t_allocated = True, t_rid = page_rid q j, t_data = bs\<rparr>)"
    using GetTuple_spec [OF c, of "page_rid q j" j lg it] j by simp
  then show ?thesis
    using bp.revisit [OF R heap_onD(1) [OF h] f D(1)] by (auto simp: TableHeap_GetTuple_def abort_if_def)
qed

text \<open>
  The second half of \<^verbatim>\<open>operator++\<close>: the tuple at the new position is read, and the page
  is released.
\<close>

lemma next_finish:
  assumes R: "pool_rel (held q {} a) b" and h: "heap_on h a hs" and f: "resident b q = Some f" and id: "GetTablePageId (ps_content a q) = q"
    and ts: "\<And>r bs ts'. ts = (r, bs) # ts' \<Longrightarrow> \<exists>pre t post j. hs_pages hs = pre @ (q, t) # post \<and> r = page_rid q j \<and> j < length t \<and> t ! j = Live bs"
  shows "\<exists>b'. bind_result
      (if \<not> TableIterator_eq (it\<lparr>t_rid := first_rid ts\<rparr>) TableHeap_End
       then bind_result (TableHeap_GetTuple lg (t_rid (it\<lparr>t_rid := first_rid ts\<rparr>)) (it\<lparr>t_rid := first_rid ts\<rparr>) txn b) (\<lambda>(res, it, txn, b).
         if res then Inr (it, txn, b) else Inl (Exception ET_INVALID))
       else Inr (it\<lparr>t_rid := first_rid ts\<rparr>, txn, b)) (\<lambda>(it, txn, b).
      bind_result (unpin_page f False b) (\<lambda>b. Inr (it, txn, b))) = Inr (iter_at ts it, txn, b') \<and> pool_rel a b'"
proof -
  have drop: "\<exists>b'. unpin_page f False b = Inr b' \<and> pool_rel a b'" if "pool_rel (held q {} a) b" "resident b q = Some f" for b
    using bp.get_law [OF that] bp.drop_page [OF that(1) heap_onD(1) [OF h]] id by (auto simp: unpin_page_def held_simps)
  show ?thesis
  proof (cases ts)
    case Nil
    then show ?thesis using drop [OF R f] iterator_end(2) [of 0 0 it] by (auto simp: first_rid_def iter_at_def)
  next
    case (Cons x ts')
    obtain r bs where x: "x = (r, bs)" by (cases x)
    obtain pre t post j where j: "hs_pages hs = pre @ (q, t) # post" "r = page_rid q j" "j < length t" "t ! j = Live bs"
      using ts Cons x by blast
    note D = heap_tupleD [OF h j(1,3,4)]
    obtain b1 where b1: "TableHeap_GetTuple lg r (it\<lparr>t_rid := r\<rparr>) txn b = Inr (True, \<lparr>t_allocated = True, t_rid = r, t_data = bs\<rparr>, txn, b1)"
      "pool_rel (held q {} a) b1" "resident b1 q = Some f"
      using GetTuple_held [OF R h f j(1,3,4), of lg "it\<lparr>t_rid := r\<rparr>" txn] j(2) by blast
    have "\<not> TableIterator_eq (it\<lparr>t_rid := r\<rparr>) TableHeap_End"
      using iterator_end(1) [of q j it] D(1-3) j(2) by (simp add: allocated_def)
    then show ?thesis using b1(1) drop [OF b1(2,3)] Cons x by (auto simp: first_rid_def iter_at_def)
  qed
qed

lemma TableIterator_next_spec:
  assumes R: "pool_rel a b" and h: "heap_on h a hs" and p: "hs_pages hs = pre @ (p, s) # post" and i: "i < length s" "s ! i = Live x"
    and it: "t_rid it = page_rid p i" and m: "length (hs_pages hs) < m"
  shows "\<exists>b'. TableIterator_next m lg it txn b = Inr (iter_at (page_tuples p (Suc i) s @ heap_tuples post) it, txn, b') \<and> pool_rel a b'"
proof -
  note D = heap_tupleD [OF h p i] and H = heap_onD [OF h]
  obtain pr where c: "holds_slots (ps_content a p) p pr (next_id_of post) s" "chained (ps_content a) p post" using D(6) by blast
  obtain f b1 where b1: "FetchPgImp p b = Inr (Some f, b1)" "pool_rel (held p {} a) b1" "resident b1 p = Some f"
    using bp.start [OF R H(1) D(1)] by blast
  have d: "page_data f b1 = Inr (ps_content a p)" using bp.get_law [OF b1(2,3)] by (simp add: held_simps)
  have "int i + 1 < 2 ^ 32" using page_size(5) [OF c(1) i(1)] by simp
  then have u: "nat (u32 (int i + 1)) = Suc i" by (simp add: u32_id)
  note g = GetNextTupleRid_spec [OF c(1), of "page_rid p i", simplified u page_rid_sel, OF refl]
  let ?ts = "page_tuples p (Suc i) s @ heap_tuples post"
  obtain fd r0 where gn: "GetNextTupleRid (t_rid it) (ps_content a p) = Inr (fd, r0)"
    and fd: "(fd, r0) = (case next_live (Suc i) s of Some j \<Rightarrow> (True, page_rid p j) | None \<Rightarrow> (False, RID_default))"
    using g it by (auto simp: page_rid_def split: option.splits)
  obtain q g b2 where q: "(if fd then Inr (f, r0, b1) else next_page_loop m f r0 b1) = Inr (g, first_rid ?ts, b2)"
    "pool_rel (held q {} a) b2" "resident b2 q = Some g" "GetTablePageId (ps_content a q) = q" "?ts \<noteq> [] \<longrightarrow> rid_page_id (first_rid ?ts) = q"
  proof (cases "next_live (Suc i) s")
    case None
    have "\<exists>q g b2. next_page_loop m f RID_default b1 = Inr (g, first_rid (heap_tuples post), b2) \<and> pool_rel (held q {} a) b2 \<and>
      resident b2 q = Some g \<and> GetTablePageId (ps_content a q) = q \<and> (heap_tuples post \<noteq> [] \<longrightarrow> rid_page_id (first_rid (heap_tuples post)) = q)"
      using h H(3) m unfolding p heap_on_def by (intro next_page_loop_spec [OF H(1) b1(2,3) c]) auto
    then show ?thesis
      using that fd None next_live_tuples [where i = "Suc i" and s = s and p = p] by auto
  next
    case (Some j)
    then show ?thesis
      using that [of f b1 p] fd b1 holds_slots_fields(2) [OF c(1)] next_live_tuples [where i = "Suc i" and s = s and p = p]
      by (auto simp: first_rid_def)
  qed
  have "\<exists>pre t post j. hs_pages hs = pre @ (q, t) # post \<and> r = page_rid q j \<and> j < length t \<and> t ! j = Live bs"
    if ts: "?ts = (r, bs) # ts'" for r bs ts'
  proof -
    obtain pre' q' t post' j where *: "(p, s) # post = pre' @ (q', t) # post'" "r = page_rid q' j" "j < length t" "t ! j = Live bs"
      using tuple_split [OF ts] by blast
    then have "q' = q" using q(5) ts by (simp add: first_rid_def)
    then show ?thesis using * p by (intro exI [of _ "pre @ pre'"] exI [of _ t] exI [of _ post'] exI [of _ j]) simp
  qed
  from next_finish [where it = it and lg = lg and txn = txn, OF q(2) h q(3,4) this] show ?thesis
    by (simp only: TableIterator_next_def it page_rid_sel b1(1) bind_result_simps prod.case option.case d gn [unfolded it] q(1) Let_def)
qed

text \<open>
  The loop \<^verbatim>\<open>for (it = Begin(); it != End(); ++it)\<close> of a client that copies every tuple.
\<close>

fun scan_loop :: "nat \<Rightarrow> nat \<Rightarrow> bool \<Rightarrow> Tuple \<Rightarrow> transaction \<Rightarrow> bpm \<Rightarrow> ((RID \<times> byte list) list \<times> transaction \<times> bpm) result" where
  "scan_loop 0 m lg it txn b = Inl OutOfFuel"
| "scan_loop (Suc k) m lg it txn b =
     (if TableIterator_eq it TableHeap_End then Inr ([], txn, b)
      else
        bind_result (TableIterator_deref it) (\<lambda>t.
        bind_result (TableIterator_next m lg it txn b) (\<lambda>(it, txn, b).
        bind_result (scan_loop k m lg it txn b) (\<lambda>(ts, txn, b). Inr ((t_rid t, t_data t) # ts, txn, b)))))"

definition table_scan :: "nat \<Rightarrow> bool \<Rightarrow> TableHeap \<Rightarrow> transaction \<Rightarrow> bpm \<Rightarrow> ((RID \<times> byte list) list \<times> transaction \<times> bpm) result" where
  "table_scan m lg h txn b = bind_result (TableHeap_Begin m lg h txn b) (\<lambda>(it, txn, b). scan_loop m m lg it txn b)"

lemma scan_loop_spec:
  assumes h: "heap_on h a hs" and m: "length (hs_pages hs) < m"
  shows "pool_rel a b \<Longrightarrow> hs_pages hs = pre @ (p, s) # post \<Longrightarrow> ts = page_tuples p i s @ heap_tuples post \<Longrightarrow> length ts < k \<Longrightarrow>
    \<exists>b'. scan_loop k m lg (iter_at ts it) txn b = Inr (ts, txn, b') \<and> pool_rel a b'"
proof (induction k arbitrary: b pre p s post ts i it)
  case (Suc k)
  show ?case
  proof (cases ts)
    case Nil
    then show ?thesis using Suc.prems(1) iterator_end(2) [of 0 0 it] by (auto simp: iter_at_def)
  next
    case (Cons x ts')
    obtain r bs where x: "x = (r, bs)" by (cases x)
    obtain pre' q t post' j where j: "(p, s) # post = pre' @ (q, t) # post'" "r = page_rid q j" "j < length t" "t ! j = Live bs"
        "ts' = page_tuples q (Suc j) t @ heap_tuples post'"
      using tuple_split [of p i s post r bs ts'] Suc.prems(3) Cons x by metis
    have p: "hs_pages hs = (pre @ pre') @ (q, t) # post'" using Suc.prems(2) j(1) by simp
    note D = heap_tupleD [OF h p j(3,4)]
    let ?it = "\<lparr>t_allocated = True, t_rid = r, t_data = bs\<rparr>"
    obtain b1 where b1: "TableIterator_next m lg ?it txn b = Inr (iter_at ts' ?it, txn, b1)" "pool_rel a b1"
      using TableIterator_next_spec [OF Suc.prems(1) h p j(3,4) _ m, of ?it lg txn] j(2,5) by auto
    have "\<not> TableIterator_eq (?it\<lparr>t_rid := page_rid q j\<rparr>) TableHeap_End"
      by (rule iterator_end(1)) (use D(1-3) in \<open>simp_all add: allocated_def\<close>)
    then have ne: "\<not> TableIterator_eq ?it TableHeap_End" using j(2) by simp
    moreover obtain b2 where "scan_loop k m lg (iter_at ts' ?it) txn b1 = Inr (ts', txn, b2)" "pool_rel a b2"
      using Suc.IH [OF b1(2) p j(5)] Suc.prems(4) Cons by auto
    ultimately show ?thesis using b1(1) Cons x by (auto simp: iter_at_def TableIterator_deref_def)
  qed
qed simp

lemma Begin_spec:
  assumes R: "pool_rel a b" and h: "heap_on h a hs" and m: "length (hs_pages hs) < m"
  shows "\<exists>b'. TableHeap_Begin m lg h txn b = Inr (iter_at (heap_tuples (hs_pages hs)) (Tuple_of_rid RID_default), txn, b') \<and> pool_rel a b'"
proof -
  note D = heap_onD [OF h]
  let ?ts = "heap_tuples (hs_pages hs)"
  obtain b1 where b1: "Begin_loop m (th_first_page_id h) RID_default b = Inr (first_rid ?ts, b1)" "pool_rel a b1"
    using Begin_loop_spec [OF D(1) R D(4) _ m] h D(7) by (auto simp: heap_on_def)
  show ?thesis
  proof (cases ?ts)
    case Nil
    then show ?thesis
      using b1 by (auto simp: TableHeap_Begin_def TableIterator_init_def first_rid_def iter_at_def RID_default_def Tuple_of_rid_def)
  next
    case (Cons x ts')
    obtain r bs where x: "x = (r, bs)" by (cases x)
    obtain p s pgs where pg: "hs_pages hs = (p, s) # pgs" using D(6) by (cases "hs_pages hs") auto
    have "page_tuples p 0 s @ heap_tuples pgs = (r, bs) # ts'" using Cons x pg by simp
    from tuple_split [OF this] obtain pre q t post j where j: "hs_pages hs = pre @ (q, t) # post" "r = page_rid q j" "j < length t" "t ! j = Live bs"
      unfolding pg by blast
    note E = heap_tupleD [OF h j(1,3,4)]
    obtain b2 where "TableHeap_GetTuple lg r (Tuple_of_rid r) txn b1 = Inr (True, \<lparr>t_allocated = True, t_rid = r, t_data = bs\<rparr>, txn, b2)" "pool_rel a b2"
      using GetTuple_heap [OF b1(2) h E(4), of lg "Tuple_of_rid r" txn] E(5) j(2) by auto
    moreover have "rid_page_id r \<noteq> INVALID_PAGE_ID" using E(1) j(2) by (auto simp: allocated_def INVALID_PAGE_ID_def)
    ultimately show ?thesis
      using b1(1) Cons x by (auto simp: TableHeap_Begin_def TableIterator_init_def first_rid_def iter_at_def)
  qed
qed

lemma table_scan_spec:
  assumes R: "pool_rel a b" and h: "heap_on h a hs" and m: "length (hs_pages hs) < m" "length (heap_tuples (hs_pages hs)) < m"
  shows "\<exists>b'. table_scan m lg h txn b = Inr (heap_tuples (hs_pages hs), txn, b') \<and> pool_rel a b'"
proof -
  obtain b1 where b1: "TableHeap_Begin m lg h txn b = Inr (iter_at (heap_tuples (hs_pages hs)) (Tuple_of_rid RID_default), txn, b1)" "pool_rel a b1"
    using Begin_spec [OF R h m(1)] by blast
  obtain p s pgs where pg: "hs_pages hs = (p, s) # pgs" using heap_onD(6) [OF h] by (cases "hs_pages hs") auto
  show ?thesis
    using scan_loop_spec [OF h m(1) b1(2), of "[]" p s pgs "heap_tuples (hs_pages hs)" 0 m] b1(1) m(2) pg
    by (auto simp: table_scan_def)
qed

end
