(* ===== verification/Transactions.thy ===== *)
theory Transactions
  imports TableHeapSpec
begin

text \<open>
  Transactions on a table: the requests a client makes of the heap and of the transaction manager,
  served on the buffer pool and on the list of pages of slots, and the proof that the first are
  simulated by the second.  From it follow what commit and abort do to the table.
\<close>

section \<open>Requests\<close>

datatype heap_op = HInsert "byte list" | HMark RID | HUpdate RID "byte list" | HApply RID | HRollback RID
  | HGet RID | HScan | HCommit | HAbort

datatype heap_out = HRid "RID option" | HBool bool | HTuple "byte list option" | HTuples "(RID \<times> byte list) list" | HUnit

fun table_step :: "nat \<Rightarrow> bool \<Rightarrow> TableHeap \<Rightarrow> heap_op \<Rightarrow> transaction \<times> bpm \<Rightarrow> (heap_out \<times> transaction \<times> bpm) result" where
  "table_step m lg h (HInsert bs) (txn, b) =
     bind_result (TableHeap_InsertTuple m lg (tuple_of bs) h txn b) (\<lambda>(r, txn, b). Inr (HRid r, txn, b))"
| "table_step m lg h (HMark rid) (txn, b) =
     bind_result (TableHeap_MarkDelete lg rid h txn b) (\<lambda>(r, txn, b). Inr (HBool r, txn, b))"
| "table_step m lg h (HUpdate rid bs) (txn, b) =
     bind_result (TableHeap_UpdateTuple lg (tuple_of bs) rid h txn b) (\<lambda>(r, txn, b). Inr (HBool r, txn, b))"
| "table_step m lg h (HApply rid) (txn, b) = bind_result (TableHeap_ApplyDelete rid b) (\<lambda>b. Inr (HUnit, txn, b))"
| "table_step m lg h (HRollback rid) (txn, b) = bind_result (TableHeap_RollbackDelete rid b) (\<lambda>b. Inr (HUnit, txn, b))"
| "table_step m lg h (HGet rid) (txn, b) =
     bind_result (TableHeap_GetTuple lg rid Tuple_default txn b)
       (\<lambda>(r, t, txn, b). Inr (HTuple (if r then Some (t_data t) else None), txn, b))"
| "table_step m lg h HScan (txn, b) = bind_result (table_scan m lg h txn b) (\<lambda>(ts, txn, b). Inr (HTuples ts, txn, b))"
| "table_step m lg h HCommit (txn, b) = bind_result (TransactionManager_Commit txn b) (\<lambda>(txn, b). Inr (HUnit, txn, b))"
| "table_step m lg h HAbort (txn, b) = bind_result (TransactionManager_Abort lg txn b) (\<lambda>(txn, b). Inr (HUnit, txn, b))"

section \<open>Requests on pages of slots\<close>

definition apply_slot :: "RID \<Rightarrow> slot_page list \<Rightarrow> slot_page list result" where
  "apply_slot rid pgs =
     (case slot_at pgs rid of
        Some x \<Rightarrow> if x = Empty then Inl AssertionFailure else Inr (set_slot rid Empty pgs)
      | None \<Rightarrow> Inl AssertionFailure)"

definition rollback_slot :: "RID \<Rightarrow> slot_page list \<Rightarrow> slot_page list result" where
  "rollback_slot rid pgs =
     (case slot_at pgs rid of Some x \<Rightarrow> Inr (set_slot rid (unmark_slot x) pgs) | None \<Rightarrow> Inl AssertionFailure)"

definition fits_at :: "RID \<Rightarrow> byte list \<Rightarrow> slot_page list \<Rightarrow> bool" where
  "fits_at rid bs pgs \<longleftrightarrow> (case slot_at pgs rid of
     Some (Live old) \<Rightarrow> int (length bs) \<le> page_space pgs rid + int (length old) | _ \<Rightarrow> False)"

fun commit_pages :: "TableWriteRecord list \<Rightarrow> slot_page list \<Rightarrow> slot_page list result" where
  "commit_pages [] pgs = Inr pgs"
| "commit_pages (r # rs) pgs =
     bind_result (if wr_wtype r = WT_DELETE then apply_slot (wr_rid r) pgs else Inr pgs) (commit_pages rs)"

definition undo_record :: "TableWriteRecord \<Rightarrow> slot_page list \<Rightarrow> slot_page list result" where
  "undo_record r pgs =
     (case wr_wtype r of
        WT_DELETE \<Rightarrow> rollback_slot (wr_rid r) pgs
      | WT_INSERT \<Rightarrow> apply_slot (wr_rid r) pgs
      | WT_UPDATE \<Rightarrow>
          if t_data (wr_tuple r) = [] then Inl AssertionFailure
          else Inr (if fits_at (wr_rid r) (t_data (wr_tuple r)) pgs
                    then set_slot (wr_rid r) (Live (t_data (wr_tuple r))) pgs else pgs))"

fun undo_pages :: "TableWriteRecord list \<Rightarrow> slot_page list \<Rightarrow> slot_page list result" where
  "undo_pages [] pgs = Inr pgs"
| "undo_pages (r # rs) pgs = bind_result (undo_record r pgs) (undo_pages rs)"

fun heap_step :: "bool \<Rightarrow> TableHeap \<Rightarrow> heap_op \<Rightarrow> transaction \<times> heap_spec \<Rightarrow> (heap_out \<times> transaction \<times> heap_spec) result" where
  "heap_step lg h (HInsert bs) (txn, hs) =
     (if 4064 < length bs then Inr (HRid None, SetState ABORTED txn, hs)
      else if bs = [] then Inl AssertionFailure
      else
        let (rid, pgs) = insert_pages (hs_next hs) bs (hs_pages hs)
        in Inr (HRid (Some rid),
             AppendTableWriteRecord \<lparr>wr_rid = rid, wr_wtype = WT_INSERT, wr_tuple = Tuple_default, wr_table = h\<rparr> txn,
             hs\<lparr>hs_next := hs_next hs + (int (length pgs) - int (length (hs_pages hs))), hs_pages := pgs\<rparr>))"
| "heap_step lg h (HMark rid) (txn, hs) =
     Inr (HBool True,
       AppendTableWriteRecord \<lparr>wr_rid = rid, wr_wtype = WT_DELETE, wr_tuple = Tuple_default, wr_table = h\<rparr>
         (abort_if (lg \<and> \<not> alive (slot_at (hs_pages hs) rid)) txn),
       case slot_at (hs_pages hs) rid of Some x \<Rightarrow> hs\<lparr>hs_pages := set_slot rid (mark_slot x) (hs_pages hs)\<rparr> | None \<Rightarrow> hs)"
| "heap_step lg h (HUpdate rid bs) (txn, hs) =
     (if bs = [] then Inl AssertionFailure
      else if fits_at rid bs (hs_pages hs) then
        Inr (HBool True,
          (if tx_state txn \<noteq> ABORTED
           then AppendTableWriteRecord \<lparr>wr_rid = rid, wr_wtype = WT_UPDATE,
             wr_tuple = \<lparr>t_allocated = True, t_rid = rid, t_data = bytes_of (the (slot_at (hs_pages hs) rid))\<rparr>, wr_table = h\<rparr> txn
           else txn),
          hs\<lparr>hs_pages := set_slot rid (Live bs) (hs_pages hs)\<rparr>)
      else Inr (HBool False, abort_if (lg \<and> \<not> alive (slot_at (hs_pages hs) rid)) txn, hs))"
| "heap_step lg h (HApply rid) (txn, hs) =
     bind_result (apply_slot rid (hs_pages hs)) (\<lambda>pgs. Inr (HUnit, txn, hs\<lparr>hs_pages := pgs\<rparr>))"
| "heap_step lg h (HRollback rid) (txn, hs) =
     bind_result (rollback_slot rid (hs_pages hs)) (\<lambda>pgs. Inr (HUnit, txn, hs\<lparr>hs_pages := pgs\<rparr>))"
| "heap_step lg h (HGet rid) (txn, hs) =
     (case slot_at (hs_pages hs) rid of
        Some (Live bs) \<Rightarrow> Inr (HTuple (Some bs), txn, hs)
      | _ \<Rightarrow> Inr (HTuple None, abort_if lg txn, hs))"
| "heap_step lg h HScan (txn, hs) = Inr (HTuples (heap_tuples (hs_pages hs)), txn, hs)"
| "heap_step lg h HCommit (txn, hs) =
     bind_result (commit_pages (rev (tx_write_set txn)) (hs_pages hs)) (\<lambda>pgs.
       Inr (HUnit, (SetState COMMITTED txn)\<lparr>tx_write_set := []\<rparr>, hs\<lparr>hs_pages := pgs\<rparr>))"
| "heap_step lg h HAbort (txn, hs) =
     bind_result (undo_pages (rev (tx_write_set txn)) (hs_pages hs)) (\<lambda>pgs.
       Inr (HUnit, (SetState ABORTED txn)\<lparr>tx_write_set := []\<rparr>, hs\<lparr>hs_pages := pgs\<rparr>))"

text \<open>
  What a client owes: RIDs name pages of the table, there are rounds enough for the pages and the
  tuples, and page ids are left while it inserts.
\<close>

fun heap_ok :: "nat \<Rightarrow> int \<Rightarrow> heap_op \<Rightarrow> transaction \<times> heap_spec \<Rightarrow> bool" where
  "heap_ok m cap (HInsert bs) (txn, hs) \<longleftrightarrow>
     int (length bs) + 32 < 2 ^ 32 \<and> length (hs_pages hs) < m \<and> hs_next hs < cap \<and> hs_next hs < 2 ^ 30"
| "heap_ok m cap (HMark rid) (txn, hs) \<longleftrightarrow> wf_at rid (hs_pages hs)"
| "heap_ok m cap (HUpdate rid bs) (txn, hs) \<longleftrightarrow> wf_at rid (hs_pages hs)"
| "heap_ok m cap (HApply rid) (txn, hs) \<longleftrightarrow> wf_at rid (hs_pages hs)"
| "heap_ok m cap (HRollback rid) (txn, hs) \<longleftrightarrow> wf_at rid (hs_pages hs)"
| "heap_ok m cap (HGet rid) (txn, hs) \<longleftrightarrow> wf_at rid (hs_pages hs)"
| "heap_ok m cap HScan (txn, hs) \<longleftrightarrow> length (hs_pages hs) < m \<and> length (heap_tuples (hs_pages hs)) < m"
| "heap_ok m cap HCommit (txn, hs) \<longleftrightarrow> True"
| "heap_ok m cap HAbort (txn, hs) \<longleftrightarrow> True"

fun table_rel :: "int \<Rightarrow> TableHeap \<Rightarrow> transaction \<times> bpm \<Rightarrow> transaction \<times> heap_spec \<Rightarrow> bool" where
  "table_rel cap h (txn, b) (txn', hs) \<longleftrightarrow> txn' = txn \<and> (\<exists>a. pool_rel a b \<and> ps_cap a = cap \<and> heap_on h a hs) \<and>
     (\<forall>r \<in> set (tx_write_set txn). wf_at (wr_rid r) (hs_pages hs))"

section \<open>Simulation of commit and abort\<close>

lemma wf_at_iff: "wf_at rid pgs \<longleftrightarrow> rid_page_id rid \<in> fst ` set pgs \<and> 0 \<le> rid_slot_num rid"
  by (simp add: wf_at_def map_of_eq_None_iff)

lemma set_slot_ids [simp]: "fst ` set (set_slot rid x pgs) = fst ` set pgs"
  unfolding set_slot_def by (cases "map_of pgs (rid_page_id rid)") (simp, simp, metis alter_simps(3) set_map)

lemma wf_at_set_slot [simp]: "wf_at r (set_slot rid x pgs) \<longleftrightarrow> wf_at r pgs"
  by (simp add: wf_at_iff)

lemma insert_pages_wf: "insert_pages n bs pgs = (rid, pgs') \<Longrightarrow> wf_at rid pgs'"
  by (induction n bs pgs arbitrary: rid pgs' rule: insert_pages.induct) (auto simp: wf_at_iff split: if_splits prod.splits)

lemma abort_if_aborted: "tx_state txn = ABORTED \<Longrightarrow> abort_if x txn = txn"
  by (cases txn) (simp add: abort_if_def SetState_def)

text \<open>
  \<open>page_sim h w a hs r c\<close>: the call \<open>c\<close> on the pool, whose result wraps the pool with
  \<open>w\<close>, has the result \<open>r\<close> on the pages of \<open>hs\<close>.
\<close>

definition page_sim :: "TableHeap \<Rightarrow> (bpm \<Rightarrow> 'x) \<Rightarrow> pool_spec \<Rightarrow> heap_spec \<Rightarrow> slot_page list result \<Rightarrow> 'x result \<Rightarrow> bool" where
  "page_sim h w a hs r c \<longleftrightarrow> (case r of Inl e \<Rightarrow> c = Inl e
     | Inr pgs \<Rightarrow> fst ` set pgs = fst ` set (hs_pages hs) \<and>
         (\<exists>a' b'. c = Inr (w b') \<and> pool_rel a' b' \<and> ps_cap a' = ps_cap a \<and> heap_on h a' (hs\<lparr>hs_pages := pgs\<rparr>)))"

lemma page_simI:
  "c = Inr (w b) \<Longrightarrow> pool_rel a' b \<Longrightarrow> ps_cap a' = ps_cap a \<Longrightarrow> heap_on h a' (hs\<lparr>hs_pages := pgs\<rparr>) \<Longrightarrow>
    fst ` set pgs = fst ` set (hs_pages hs) \<Longrightarrow> page_sim h w a hs (Inr pgs) c"
  by (auto simp: page_sim_def)

lemma page_sim_bind:
  assumes "page_sim h w a hs r c"
    and "\<And>pgs a' b'. pool_rel a' b' \<Longrightarrow> heap_on h a' (hs\<lparr>hs_pages := pgs\<rparr>) \<Longrightarrow>
      fst ` set pgs = fst ` set (hs_pages hs) \<Longrightarrow> page_sim h w' a' (hs\<lparr>hs_pages := pgs\<rparr>) (k pgs) (kc (w b'))"
  shows "page_sim h w' a hs (bind_result r k) (bind_result c kc)"
proof (cases r)
  case (Inr pgs)
  then obtain a' b' where s: "c = Inr (w b')" "pool_rel a' b'" "ps_cap a' = ps_cap a" "heap_on h a' (hs\<lparr>hs_pages := pgs\<rparr>)"
      "fst ` set pgs = fst ` set (hs_pages hs)"
    using assms(1) by (auto simp: page_sim_def)
  from assms(2) [OF s(2,4,5)] show ?thesis using s(1,3,5) Inr by (auto simp: page_sim_def split: sum.splits)
qed (use assms(1) in \<open>simp add: page_sim_def\<close>)

lemma page_sim_wrap:
  assumes "page_sim h w a hs r c" "\<And>b. kc (w b) = Inr (w' b)"
  shows "page_sim h w' a hs r (bind_result c kc)"
proof (cases r)
  case (Inr pgs)
  then show ?thesis using assms unfolding page_sim_def by (simp add: Inr) (metis bind_result_simps(2))
qed (use assms(1) in \<open>simp add: page_sim_def\<close>)

lemma apply_sim:
  assumes "pool_rel a b" "heap_on h a hs" "wf_at rid (hs_pages hs)"
  shows "page_sim h (\<lambda>b. b) a hs (apply_slot rid (hs_pages hs)) (TableHeap_ApplyDelete rid b)"
  using ApplyDelete_heap [OF assms]
  by (cases "slot_at (hs_pages hs) rid") (auto simp: apply_slot_def page_sim_def)

lemma rollback_sim:
  assumes "pool_rel a b" "heap_on h a hs" "wf_at rid (hs_pages hs)"
  shows "page_sim h (\<lambda>b. b) a hs (rollback_slot rid (hs_pages hs)) (TableHeap_RollbackDelete rid b)"
  using RollbackDelete_heap [OF assms]
  by (cases "slot_at (hs_pages hs) rid") (auto simp: rollback_slot_def page_sim_def)

lemma commit_sim:
  assumes "pool_rel a b" "heap_on h a hs" "\<forall>r \<in> set rs. wf_at (wr_rid r) (hs_pages hs)"
  shows "page_sim h (\<lambda>b. b) a hs (commit_pages rs (hs_pages hs)) (Commit_loop rs b)"
  using assms
proof (induction rs arbitrary: a b hs)
  case Nil
  then show ?case by (auto simp: page_sim_def)
next
  case (Cons r rs)
  have "page_sim h (\<lambda>b. b) a hs (if wr_wtype r = WT_DELETE then apply_slot (wr_rid r) (hs_pages hs) else Inr (hs_pages hs))
      (if wr_wtype r = WT_DELETE then TableHeap_ApplyDelete (wr_rid r) b else Inr b)"
    using apply_sim [OF Cons.prems(1,2)] Cons.prems by (auto intro: page_simI)
  then show ?case
    unfolding commit_pages.simps Commit_loop.simps
  proof (rule page_sim_bind)
    fix pgs a' b' assume "pool_rel a' b'" "heap_on h a' (hs\<lparr>hs_pages := pgs\<rparr>)" "fst ` set pgs = fst ` set (hs_pages hs)"
    then show "page_sim h (\<lambda>b. b) a' (hs\<lparr>hs_pages := pgs\<rparr>) (commit_pages rs pgs) (Commit_loop rs b')"
      using Cons.IH [of a' b' "hs\<lparr>hs_pages := pgs\<rparr>"] Cons.prems(3) by (simp add: wf_at_iff)
  qed
qed

lemma fits_at_iff:
  "fits_at rid (t_data t) pgs \<longleftrightarrow> alive (slot_at pgs rid) \<and> t_size t \<le> page_space pgs rid + int (length (bytes_of (the (slot_at pgs rid))))"
  by (auto simp: fits_at_def is_live_def t_size_def split: option.splits slot.splits)

text \<open>While the transaction is aborted, an update leaves no record.\<close>

lemma update_sim:
  assumes "pool_rel a b" "heap_on h a hs" "wf_at rid (hs_pages hs)" "tx_state txn = ABORTED"
  shows "page_sim h (Pair txn) a hs (if t_data t = [] then Inl AssertionFailure
      else Inr (if fits_at rid (t_data t) (hs_pages hs) then set_slot rid (Live (t_data t)) (hs_pages hs) else hs_pages hs))
    (bind_result (TableHeap_UpdateTuple lg t rid h' txn b) (\<lambda>(_, txn, b). Inr (txn, b)))"
proof (cases "t_data t = []")
  case True
  then show ?thesis using UpdateTuple_empty [OF assms(1-3) True] by (simp add: page_sim_def)
next
  case False
  note u = UpdateTuple_heap [OF assms(1-3) False, of lg h' txn, folded fits_at_iff]
  show ?thesis
  proof (cases "fits_at rid (t_data t) (hs_pages hs)")
    case True
    then obtain a' b' where "TableHeap_UpdateTuple lg t rid h' txn b = Inr (True, txn, b')" "pool_rel a' b'" "ps_cap a' = ps_cap a"
        "heap_on h a' (hs\<lparr>hs_pages := set_slot rid (Live (t_data t)) (hs_pages hs)\<rparr>)"
      using u assms(4) by (simp only: if_True if_False not_True_eq_False simp_thms) blast
    then show ?thesis using True False by (simp add: page_simI [where b = b' and a' = a'])
  next
    case False': False
    then obtain b' where "TableHeap_UpdateTuple lg t rid h' txn b = Inr (False, txn, b')" "pool_rel a b'"
      using u assms(4) by (auto simp: abort_if_aborted)
    then show ?thesis using False' False assms(2) by (simp add: page_simI [where b = b' and a' = a])
  qed
qed

lemma abort_sim:
  assumes "pool_rel a b" "heap_on h a hs" "\<forall>r \<in> set rs. wf_at (wr_rid r) (hs_pages hs)" "tx_state txn = ABORTED"
  shows "page_sim h (Pair txn) a hs (undo_pages rs (hs_pages hs)) (Abort_loop lg rs txn b)"
  using assms(1-3)
proof (induction rs arbitrary: a b hs)
  case Nil
  then show ?case by (auto simp: page_sim_def)
next
  case (Cons r rs)
  have w: "wf_at (wr_rid r) (hs_pages hs)" using Cons.prems(3) by simp
  have "page_sim h (Pair txn) a hs (undo_record r (hs_pages hs)) (case wr_wtype r of
      WT_DELETE \<Rightarrow> bind_result (TableHeap_RollbackDelete (wr_rid r) b) (\<lambda>b. Inr (txn, b))
    | WT_INSERT \<Rightarrow> bind_result (TableHeap_ApplyDelete (wr_rid r) b) (\<lambda>b. Inr (txn, b))
    | WT_UPDATE \<Rightarrow> bind_result (TableHeap_UpdateTuple lg (wr_tuple r) (wr_rid r) (wr_table r) txn b) (\<lambda>(_, txn, b). Inr (txn, b)))"
    using page_sim_wrap [OF apply_sim [OF Cons.prems(1,2) w], of "\<lambda>b. Inr (txn, b)" "Pair txn"]
      page_sim_wrap [OF rollback_sim [OF Cons.prems(1,2) w], of "\<lambda>b. Inr (txn, b)" "Pair txn"]
      update_sim [OF Cons.prems(1,2) w assms(4), of "wr_tuple r" lg "wr_table r"]
    by (cases "wr_wtype r") (simp_all add: undo_record_def)
  then show ?case
    unfolding undo_pages.simps Abort_loop.simps
  proof (rule page_sim_bind)
    fix pgs a' b' assume "pool_rel a' b'" "heap_on h a' (hs\<lparr>hs_pages := pgs\<rparr>)" "fst ` set pgs = fst ` set (hs_pages hs)"
    then show "page_sim h (Pair txn) a' (hs\<lparr>hs_pages := pgs\<rparr>) (undo_pages rs pgs) (case (txn, b') of (txn, b) \<Rightarrow> Abort_loop lg rs txn b)"
      using Cons.IH [of a' b' "hs\<lparr>hs_pages := pgs\<rparr>"] Cons.prems(3) by (simp add: wf_at_iff)
  qed
qed

section \<open>Simulation of every request\<close>

definition step_sim :: "int \<Rightarrow> TableHeap \<Rightarrow> (heap_out \<times> transaction \<times> heap_spec) result \<Rightarrow> (heap_out \<times> transaction \<times> bpm) result \<Rightarrow> bool" where
  "step_sim cap h r c \<longleftrightarrow> (case r of Inl e \<Rightarrow> c = Inl e
     | Inr (out, s) \<Rightarrow> \<exists>s'. c = Inr (out, s') \<and> table_rel cap h s' s)"

lemma step_simI:
  assumes "c = Inr (out, txn, b)" "pool_rel a b" "ps_cap a = cap" "heap_on h a hs" "\<forall>r \<in> set (tx_write_set txn). wf_at (wr_rid r) (hs_pages hs)"
  shows "step_sim cap h (Inr (out, txn, hs)) c"
  using assms by (auto simp: step_sim_def)

lemma step_sim_pages:
  assumes "page_sim h w a hs r c" "ps_cap a = cap" "\<And>b. k (w b) = Inr (out, txn, b)" "\<forall>r \<in> set (tx_write_set txn). wf_at (wr_rid r) (hs_pages hs)"
  shows "step_sim cap h (bind_result r (\<lambda>pgs. Inr (out, txn, hs\<lparr>hs_pages := pgs\<rparr>))) (bind_result c k)"
proof (cases r)
  case (Inl e)
  then show ?thesis using assms(1) by (simp add: page_sim_def step_sim_def)
next
  case (Inr pgs)
  then obtain a' b' where s: "c = Inr (w b')" "pool_rel a' b'" "ps_cap a' = ps_cap a" "heap_on h a' (hs\<lparr>hs_pages := pgs\<rparr>)"
      "fst ` set pgs = fst ` set (hs_pages hs)"
    using assms(1) by (auto simp: page_sim_def)
  then show ?thesis
    unfolding Inr bind_result_simps using assms(2-4) by (intro step_simI) (simp_all add: wf_at_iff)
qed

lemma write_set_simps [simp]:
  "tx_write_set (SetState st txn) = tx_write_set txn" "tx_write_set (abort_if x txn) = tx_write_set txn"
  "tx_write_set (AppendTableWriteRecord r txn) = tx_write_set txn @ [r]" "tx_state (SetState st txn) = st"
  by (simp_all add: SetState_def abort_if_def AppendTableWriteRecord_def)

lemma insert_sim:
  assumes R: "pool_rel a b" and h: "heap_on h a hs" and w: "\<forall>r \<in> set (tx_write_set txn). wf_at (wr_rid r) (hs_pages hs)"
    and ok: "heap_ok m (ps_cap a) (HInsert bs) (txn, hs)"
  shows "step_sim (ps_cap a) h (heap_step lg h (HInsert bs) (txn, hs)) (table_step m lg h (HInsert bs) (txn, b))"
proof -
  have ok': "int (length bs) + 32 < 2 ^ 32" "length (hs_pages hs) < m" "hs_next hs < ps_cap a" "hs_next hs < 2 ^ 30" using ok by simp_all
  consider "4064 < length bs" | "bs = []" | "length bs \<le> 4064" "bs \<noteq> []" by linarith
  then show ?thesis
  proof cases
    case 1
    then have "u32 (int (length bs) + 32) = int (length bs) + 32" using ok'(1) by (intro u32_id) auto
    then have "TableHeap_InsertTuple m lg (tuple_of bs) h txn b = Inr (None, SetState ABORTED txn, b)"
      using 1 by (simp add: TableHeap_InsertTuple_def BUSTUB_PAGE_SIZE_def)
    then show ?thesis using 1 R h w by (auto intro!: step_simI)
  next
    case 2
    then show ?thesis using InsertTuple_empty [OF R h, of "tuple_of []" m lg txn] ok'(2) by (simp add: step_sim_def)
  next
    case 3
    obtain rid pgs where i: "insert_pages (hs_next hs) bs (hs_pages hs) = (rid, pgs)" by fastforce
    obtain a' b' where s: "TableHeap_InsertTuple m lg (tuple_of bs) h txn b = Inr (Some rid,
        AppendTableWriteRecord \<lparr>wr_rid = rid, wr_wtype = WT_INSERT, wr_tuple = Tuple_default, wr_table = h\<rparr> txn, b')"
      "pool_rel a' b'" "ps_cap a' = ps_cap a"
      "heap_on h a' (hs\<lparr>hs_next := hs_next hs + (int (length pgs) - int (length (hs_pages hs))), hs_pages := pgs\<rparr>)"
      using InsertTuple_heap [OF R h, of "tuple_of bs" m rid pgs lg txn] 3 ok' i heap_onD(2) [OF h] by auto
    have "wf_at rid pgs" using insert_pages_wf [OF i] .
    moreover have "fst ` set (hs_pages hs) \<subseteq> fst ` set pgs" using insert_pages_cases(1) [OF i] by auto
    ultimately have "\<forall>r \<in> set (tx_write_set txn) \<union> {\<lparr>wr_rid = rid, wr_wtype = WT_INSERT, wr_tuple = Tuple_default, wr_table = h\<rparr>}. wf_at (wr_rid r) pgs"
      using w by (auto simp: wf_at_iff)
    then show ?thesis
      using 3 s i by (simp add: step_simI [where a = a' and b = b'])
  qed
qed

lemma update_step_sim:
  assumes R: "pool_rel a b" and h: "heap_on h a hs" and w: "\<forall>r \<in> set (tx_write_set txn). wf_at (wr_rid r) (hs_pages hs)"
    and rid: "wf_at rid (hs_pages hs)"
  shows "step_sim (ps_cap a) h (heap_step lg h (HUpdate rid bs) (txn, hs)) (table_step m lg h (HUpdate rid bs) (txn, b))"
proof (cases "bs = []")
  case True
  then show ?thesis using UpdateTuple_empty [OF R h rid, of "tuple_of []" lg h txn] by (simp add: step_sim_def)
next
  case ne: False
  note u = UpdateTuple_heap [OF R h rid, of "tuple_of bs" lg h txn, folded fits_at_iff, simplified, OF ne]
  show ?thesis
  proof (cases "fits_at rid bs (hs_pages hs)")
    case True
    define txn' where "txn' = (if tx_state txn \<noteq> ABORTED
      then AppendTableWriteRecord \<lparr>wr_rid = rid, wr_wtype = WT_UPDATE,
        wr_tuple = \<lparr>t_allocated = True, t_rid = rid, t_data = bytes_of (the (slot_at (hs_pages hs) rid))\<rparr>, wr_table = h\<rparr> txn
      else txn)"
    obtain a' b' where "TableHeap_UpdateTuple lg (tuple_of bs) rid h txn b = Inr (True, txn', b')" "pool_rel a' b'" "ps_cap a' = ps_cap a"
        "heap_on h a' (hs\<lparr>hs_pages := set_slot rid (Live bs) (hs_pages hs)\<rparr>)"
      using u True unfolding txn'_def by auto
    moreover have "\<forall>r \<in> set (tx_write_set txn'). wf_at (wr_rid r) (hs_pages hs)" using w rid by (auto simp: txn'_def)
    ultimately show ?thesis
      using True ne by (simp add: txn'_def [symmetric] step_simI [where a = a' and b = b'])
  next
    case False
    then obtain b' where "TableHeap_UpdateTuple lg (tuple_of bs) rid h txn b = Inr (False, abort_if (lg \<and> \<not> alive (slot_at (hs_pages hs) rid)) txn, b')"
        "pool_rel a b'"
      using u by auto
    then show ?thesis using False ne h w by (simp add: step_simI [where a = a and b = b'])
  qed
qed

lemma mark_step_sim:
  assumes R: "pool_rel a b" and h: "heap_on h a hs" and w: "\<forall>r \<in> set (tx_write_set txn). wf_at (wr_rid r) (hs_pages hs)"
    and rid: "wf_at rid (hs_pages hs)"
  shows "step_sim (ps_cap a) h (heap_step lg h (HMark rid) (txn, hs)) (table_step m lg h (HMark rid) (txn, b))"
proof -
  obtain a' b' where s: "TableHeap_MarkDelete lg rid h txn b =
      Inr (True, AppendTableWriteRecord \<lparr>wr_rid = rid, wr_wtype = WT_DELETE, wr_tuple = Tuple_default, wr_table = h\<rparr>
        (abort_if (lg \<and> \<not> alive (slot_at (hs_pages hs) rid)) txn), b')" "pool_rel a' b'" "ps_cap a' = ps_cap a"
    "heap_on h a' (case slot_at (hs_pages hs) rid of Some x \<Rightarrow> hs\<lparr>hs_pages := set_slot rid (mark_slot x) (hs_pages hs)\<rparr> | None \<Rightarrow> hs)"
    using MarkDelete_heap [OF R h rid, of lg txn] by blast
  then show ?thesis using w rid by (simp add: step_simI [where a = a' and b = b'] split: option.split)
qed

lemma get_step_sim:
  assumes R: "pool_rel a b" and h: "heap_on h a hs" and w: "\<forall>r \<in> set (tx_write_set txn). wf_at (wr_rid r) (hs_pages hs)"
    and rid: "wf_at rid (hs_pages hs)"
  shows "step_sim (ps_cap a) h (heap_step lg h (HGet rid) (txn, hs)) (table_step m lg h (HGet rid) (txn, b))"
proof -
  obtain b' where "TableHeap_GetTuple lg rid Tuple_default txn b =
      (case slot_at (hs_pages hs) rid of Some (Live bs) \<Rightarrow> Inr (True, \<lparr>t_allocated = True, t_rid = rid, t_data = bs\<rparr>, txn, b')
       | _ \<Rightarrow> Inr (False, Tuple_default, abort_if lg txn, b'))" "pool_rel a b'"
    using GetTuple_heap [OF R h rid, of lg Tuple_default txn] by blast
  then show ?thesis using h w by (simp add: step_simI [where a = a and b = b'] split: option.split slot.split)
qed

lemma table_step_sim:
  assumes "table_rel cap h s t" "heap_ok m cap op t"
  shows "step_sim cap h (heap_step lg h op t) (table_step m lg h op s)"
proof -
  obtain txn b hs where s: "s = (txn, b)" "t = (txn, hs)" using assms(1) by (cases s; cases t) auto
  obtain a where a: "pool_rel a b" "ps_cap a = cap" "heap_on h a hs" and w: "\<forall>r \<in> set (tx_write_set txn). wf_at (wr_rid r) (hs_pages hs)"
    using assms(1) s by auto
  note ok = assms(2) [unfolded s]
  show ?thesis
  proof (cases op)
    case (HInsert bs)
    then show ?thesis using insert_sim [OF a(1,3) w, of m bs lg] ok a(2) s by simp
  next
    case (HMark rid)
    then show ?thesis using mark_step_sim [OF a(1,3) w, of rid lg m] ok a(2) s by simp
  next
    case (HUpdate rid bs)
    then show ?thesis using update_step_sim [OF a(1,3) w, of rid lg bs m] ok a(2) s by simp
  next
    case (HApply rid)
    then have "wf_at rid (hs_pages hs)" using ok by simp
    from step_sim_pages [OF apply_sim [OF a(1,3) this] a(2) _ w, of "\<lambda>b. Inr (HUnit, txn, b)" HUnit] show ?thesis using HApply s by simp
  next
    case (HRollback rid)
    then have "wf_at rid (hs_pages hs)" using ok by simp
    from step_sim_pages [OF rollback_sim [OF a(1,3) this] a(2) _ w, of "\<lambda>b. Inr (HUnit, txn, b)" HUnit] show ?thesis using HRollback s by simp
  next
    case (HGet rid)
    then show ?thesis using get_step_sim [OF a(1,3) w, of rid lg m] ok a(2) s by simp
  next
    case HScan
    then obtain b' where "table_scan m lg h txn b = Inr (heap_tuples (hs_pages hs), txn, b')" "pool_rel a b'"
      using table_scan_spec [OF a(1,3), of m lg txn] ok by auto
    then show ?thesis using HScan s a w by (simp add: step_simI [where a = a and b = b'])
  next
    case HCommit
    let ?t = "(SetState COMMITTED txn)\<lparr>tx_write_set := []\<rparr>"
    have "step_sim cap h (bind_result (commit_pages (rev (tx_write_set txn)) (hs_pages hs)) (\<lambda>pgs. Inr (HUnit, ?t, hs\<lparr>hs_pages := pgs\<rparr>)))
        (bind_result (Commit_loop (rev (tx_write_set txn)) b) (\<lambda>b. Inr (HUnit, ?t, b)))"
      using w by (intro step_sim_pages [OF commit_sim [OF a(1,3)] a(2)]) simp_all
    then show ?thesis using HCommit s by (simp add: TransactionManager_Commit_def Let_def bind_result_def split: sum.splits)
  next
    case HAbort
    let ?t = "(SetState ABORTED txn)\<lparr>tx_write_set := []\<rparr>"
    have "step_sim cap h (bind_result (undo_pages (rev (tx_write_set txn)) (hs_pages hs)) (\<lambda>pgs. Inr (HUnit, ?t, hs\<lparr>hs_pages := pgs\<rparr>)))
        (bind_result (Abort_loop lg (rev (tx_write_set txn)) (SetState ABORTED txn) b) (\<lambda>(txn, b). Inr (HUnit, txn\<lparr>tx_write_set := []\<rparr>, b)))"
      using w by (intro step_sim_pages [OF abort_sim [OF a(1,3)] a(2)]) simp_all
    then show ?thesis using HAbort s by (simp add: TransactionManager_Abort_def Let_def bind_result_def split: sum.splits prod.splits)
  qed
qed

interpretation th: simulation "heap_ok m cap" "table_rel cap h" "table_step m lg h" "heap_step lg h"
  using table_step_sim by unfold_locales (fastforce simp: step_sim_def split: sum.splits)

end
