(* ===== verification/TransactionsSpec.thy ===== *)
theory TransactionsSpec
  imports Transactions
begin

text \<open>
  The guarantees of tables and transactions: a table created on a fresh buffer pool behaves as its
  list of pages of slots; a scan returns exactly the live tuples; aborting a transaction restores the
  table; and two sequences of requests where commit and abort fail.
\<close>

section \<open>A new table\<close>

lemma create_spec:
  assumes R: "pool_rel a b" and i: "idle a" and ok: "allowed NewPage a" and n: "0 \<le> ps_next a"
  defines "h \<equiv> \<lparr>th_first_page_id = ps_next a\<rparr>"
  shows "\<exists>b'. TableHeap_create lg b = Inr (h, b') \<and>
    (tx_write_set txn = [] \<longrightarrow> table_rel (ps_cap a) h (txn, b') (txn, \<lparr>hs_next = ps_next a + 1, hs_pages = [(ps_next a, [])]\<rparr>))"
proof -
  define p where "p = ps_next a"
  define d where "d = TablePage_Init lg p (int BUSTUB_PAGE_SIZE) INVALID_LSN zero_page"
  define a' where "a' = a\<lparr>ps_next := p + 1, ps_content := (ps_content a)(p := d)\<rparr>"
  have "holds_slots d p INVALID_LSN INVALID_PAGE_ID []"
    unfolding d_def using ok n by (simp add: BUSTUB_PAGE_SIZE_def)
      (intro holds_slots_Init, auto simp: in_sint_def p_def INVALID_LSN_def BUSTUB_PAGE_SIZE_def)
  then have h0: "holds_slots d p INVALID_PAGE_ID INVALID_PAGE_ID []" by (simp add: INVALID_LSN_def INVALID_PAGE_ID_def)
  obtain f b1 where b1: "NewPgImp b = Inr (Some (p, f), b1)" "pool_rel (ps_new a) b1" "resident b1 p = Some f"
    using bp.new_law [OF R ok] i by (auto simp: held_simps p_def)
  have pin: "ps_pins (ps_new a) p = 1" by (simp add: ps_sel p_def)
  have g: "page_data f b1 = Inr zero_page" using bp.get_law [OF b1(2,3)] by (simp add: ps_sel p_def)
  obtain b2 where b2: "store_data f d b1 = Inr b2" "pool_rel (ps_write p d (ps_new a)) b2"
    using bp.put_law [OF b1(2,3), of d] pin holds_slots_fields(6) [OF h0] by (auto simp: BUSTUB_PAGE_SIZE_def)
  obtain b3 where b3: "UnpinPgImp p True b2 = Inr (True, b3)" "pool_rel (ps_unpin p True (ps_write p d (ps_new a))) b3"
    using bp.unpin_law [OF b2(2), of p True] pin by (auto simp: ps_sel)
  have "ps_unpin p True (ps_write p d (ps_new a)) = a'"
    using i by (cases a) (auto simp: a'_def ps_unpin_def ps_write_def ps_new_def idle_def p_def fun_eq_iff)
  moreover have "heap_on h a' \<lparr>hs_next = p + 1, hs_pages = [(p, [])]\<rparr>"
    using h0 i ok n by (simp add: heap_on_def a'_def h_def p_def next_id_of_def allocated_def idle_def)
  moreover have "TableHeap_create lg b = Inr (h, b3)"
    using b1(1) b2(1) b3(1) g by (simp add: TableHeap_create_def on_page_def d_def h_def p_def)
  ultimately show ?thesis using b3(2) by (auto simp: p_def a'_def)
qed

lemma create_init:
  assumes "2 \<le> k" "2 \<le> n" "n < 2 ^ 31" "disk_inv d" "\<And>p. 0 \<le> p \<Longrightarrow> p < disk_capacity d \<Longrightarrow> disk_image d p = zero_page"
    and "0 < disk_capacity d" "tx_write_set txn = []"
  shows "\<exists>b. TableHeap_create lg (bpm_init n d k) = Inr (\<lparr>th_first_page_id = 0\<rparr>, b) \<and>
    table_rel (disk_capacity d) \<lparr>th_first_page_id = 0\<rparr> (txn, b) (txn, \<lparr>hs_next = 1, hs_pages = [(0, [])]\<rparr>)"
  using create_spec [OF pool_rel_init [OF assms(1,3,4,5)], where lg = lg and txn = txn] assms(2,6,7)
  by (auto simp: pool_spec_init_def idle_def)

section \<open>Undoing a transaction\<close>














lemma slot_at_SomeE:
  assumes "slot_at pgs rid = Some x"
  obtains s i where "map_of pgs (rid_page_id rid) = Some s" "nat (rid_slot_num rid) = i" "i < length s" "s ! i = x"
    "\<And>y. set_slot rid y pgs = alter (rid_page_id rid) (s[i := y]) pgs"
  using assms by (auto simp: slot_at_def set_slot_def split: option.splits if_splits)


lemma set_slot_simps:
  assumes "slot_at pgs rid = Some x"
  shows "slot_at (set_slot rid y pgs) rid = Some y" "set_slot rid z (set_slot rid y pgs) = set_slot rid z pgs"
proof -
  obtain s i where s: "map_of pgs (rid_page_id rid) = Some s" "nat (rid_slot_num rid) = i" "i < length s"
    using slot_at_SomeE [OF assms] by metis
  then show "slot_at (set_slot rid y pgs) rid = Some y" "set_slot rid z (set_slot rid y pgs) = set_slot rid z pgs"
    by (simp_all add: slot_at_def set_slot_def map_of_alter alter_alter)
qed

lemma map_fst_set_slot [simp]: "map fst (set_slot rid x pgs) = map fst pgs"
  by (simp add: set_slot_def split: option.split)

















lemma step_obtain:
  assumes "table_rel cap h (txn, b) t" "heap_ok m cap op t" "heap_step lg h op t = Inr (out, txn', hs')"
  obtains b' where "table_step m lg h op (txn, b) = Inr (out, txn', b')" "table_rel cap h (txn', b') (txn', hs')"
proof -
  obtain s where s: "table_step m lg h op (txn, b) = Inr (out, s)" "table_rel cap h s (txn', hs')"
    using th.step_law [OF assms(1,2), where lg = lg] unfolding assms(3) sum.case prod.case by blast
  then show ?thesis using that by (cases s) simp
qed



lemma table_rel_txn:
  "table_rel cap h (txn, b) (txn, hs) \<Longrightarrow> tx_write_set txn' = [] \<Longrightarrow> table_rel cap h (txn', b) (txn', hs)"
  by auto

text \<open>An example: a pool of three frames on an unlimited disk.\<close>

definition demo_table :: TableHeap where
  "demo_table = \<lparr>th_first_page_id = 0\<rparr>"

definition demo_pages :: heap_spec where
  "demo_pages = \<lparr>hs_next = 1, hs_pages = [(0, [])]\<rparr>"

lemma demo_create:
  "\<exists>b. TableHeap_create False (bpm_init 3 (UnlimitedDisk []) 2) = Inr (demo_table, b) \<and>
    table_rel (2 ^ 31 - 1) demo_table (Transaction_init 0 REPEATABLE_READ, b) (Transaction_init 0 REPEATABLE_READ, demo_pages)"
  unfolding demo_table_def demo_pages_def
  using create_init [of 2 3 "UnlimitedDisk []" "Transaction_init 0 REPEATABLE_READ" False]
  by (simp add: nth_default_def Transaction_init_def del: table_rel.simps)

lemmas demo_simps = demo_table_def demo_pages_def wf_at_def slot_at_def set_slot_def page_space_def fits_at_def space_def used_bytes_def
  first_empty_def put_slot_def is_live_def mark_slot_def unmark_slot_def apply_slot_def rollback_slot_def undo_record_def page_rid_def
  Transaction_init_def SetState_def AppendTableWriteRecord_def abort_if_def heap_tuples_def page_tuples_def Tuple_default_def

text \<open>The table after a transaction has inserted one tuple and committed.\<close>

definition demo_filled :: "byte list \<Rightarrow> bpm \<Rightarrow> bool" where
  "demo_filled bs b1 \<longleftrightarrow> (\<exists>b txn. TableHeap_create False (bpm_init 3 (UnlimitedDisk []) 2) = Inr (demo_table, b) \<and>
     run_steps (table_step 4 False demo_table) [HInsert bs, HCommit] (Transaction_init 0 REPEATABLE_READ, b) =
       Inr ([HRid (Some (page_rid 0 0)), HUnit], txn, b1))"

lemma demo_filled_rel:
  assumes "bs \<noteq> []" "length bs \<le> 4064"
  obtains b where "demo_filled bs b"
    "table_rel (2 ^ 31 - 1) demo_table (Transaction_init 1 REPEATABLE_READ, b) (Transaction_init 1 REPEATABLE_READ, \<lparr>hs_next = 1, hs_pages = [(0, [Live bs])]\<rparr>)"
proof -
  let ?t0 = "Transaction_init 0 REPEATABLE_READ" and ?hs = "\<lparr>hs_next = 1, hs_pages = [(0, [Live bs])]\<rparr>" and ?c = "2 ^ 31 - 1 :: int"
  obtain b0 where b0: "TableHeap_create False (bpm_init 3 (UnlimitedDisk []) 2) = Inr (demo_table, b0)" "table_rel ?c demo_table (?t0, b0) (?t0, demo_pages)"
    using demo_create by blast
  have ok: "run_ok (heap_ok 4 ?c) (heap_step False demo_table) [HInsert bs, HCommit] (?t0, demo_pages)"
    using assms by (simp add: demo_simps)
  have run: "run_steps (heap_step False demo_table) [HInsert bs, HCommit] (?t0, demo_pages) =
      Inr ([HRid (Some (page_rid 0 0)), HUnit], SetState COMMITTED ?t0, ?hs)"
    using assms by (simp add: demo_simps)
  obtain txn b where b: "run_steps (table_step 4 False demo_table) [HInsert bs, HCommit] (?t0, b0) = Inr ([HRid (Some (page_rid 0 0)), HUnit], txn, b)"
      "table_rel ?c demo_table (txn, b) (SetState COMMITTED ?t0, ?hs)"
    using th.run_refines [OF b0(2) ok] unfolding run sum.case prod.case by fast
  have "demo_filled bs b" using b0(1) b(1) unfolding demo_filled_def by blast
  moreover have "table_rel ?c demo_table (Transaction_init 1 REPEATABLE_READ, b) (Transaction_init 1 REPEATABLE_READ, ?hs)"
    by (rule table_rel_txn [of _ _ txn]) (use b(2) in \<open>auto simp: Transaction_init_def\<close>)
  ultimately show ?thesis by (rule that)
qed

definition demo_ops :: "heap_op list" where
  "demo_ops = [HInsert [1, 2], HInsert [3], HMark (page_rid 0 0), HCommit, HScan]"

lemma demo_ok: "run_ok (heap_ok 4 (2 ^ 31 - 1)) (heap_step False demo_table) demo_ops (Transaction_init 0 REPEATABLE_READ, demo_pages)"
  by (simp add: demo_simps demo_ops_def)

lemma demo_run:
  "\<exists>t. run_steps (heap_step False demo_table) demo_ops (Transaction_init 0 REPEATABLE_READ, demo_pages) =
    Inr ([HRid (Some (page_rid 0 0)), HRid (Some (page_rid 0 1)), HBool True, HUnit, HTuples [(page_rid 0 1, [3])]], t)"
  by (simp add: demo_simps demo_ops_def)

section \<open>Properties\<close>

text \<open>
  C23.  A table created on a fresh buffer pool with at least two frames behaves as its list of pages
  of slots, for every sequence of insertions, deletions, updates, reads, scans, commits and aborts
  whose RIDs name pages of the table: the answers, the write set and the state of the transaction
  and the failures are the same, whatever pages have been evicted and read back in between.  In
  particular a scan ends and returns exactly the live tuples, page by page and slot by slot, and
  every page is unpinned again after every request.
\<close>

theorem table_heap_refines_pages:
  assumes "2 \<le> k" "2 \<le> n" "n < 2 ^ 31" "disk_inv d" "\<And>p. 0 \<le> p \<Longrightarrow> p < disk_capacity d \<Longrightarrow> disk_image d p = zero_page"
    and "0 < disk_capacity d" "tx_write_set txn = []"
  defines "h \<equiv> \<lparr>th_first_page_id = 0\<rparr>" and "hs \<equiv> \<lparr>hs_next = 1, hs_pages = [(0, [])]\<rparr>"
  assumes "run_ok (heap_ok m (disk_capacity d)) (heap_step lg h) ops (txn, hs)"
  shows "\<exists>b. TableHeap_create lg (bpm_init n d k) = Inr (h, b) \<and>
    (case run_steps (heap_step lg h) ops (txn, hs) of
       Inl e \<Rightarrow> run_steps (table_step m lg h) ops (txn, b) = Inl e
     | Inr (outs, t) \<Rightarrow> \<exists>s. run_steps (table_step m lg h) ops (txn, b) = Inr (outs, s) \<and> table_rel (disk_capacity d) h s t)"
  using create_init [OF assms(1-7), of lg] th.run_refines [OF _ assms(10)] unfolding h_def hs_def by blast

theorem table_heap_refines_pages_witness:
  "\<exists>b s. TableHeap_create False (bpm_init 3 (UnlimitedDisk []) 2) = Inr (demo_table, b) \<and>
    run_steps (table_step 4 False demo_table) demo_ops (Transaction_init 0 REPEATABLE_READ, b) =
      Inr ([HRid (Some (page_rid 0 0)), HRid (Some (page_rid 0 1)), HBool True, HUnit, HTuples [(page_rid 0 1, [3])]], s)"
proof -
  have "\<exists>b. TableHeap_create False (bpm_init 3 (UnlimitedDisk []) 2) = Inr (demo_table, b) \<and>
    (case run_steps (heap_step False demo_table) demo_ops (Transaction_init 0 REPEATABLE_READ, demo_pages) of
       Inl e \<Rightarrow> run_steps (table_step 4 False demo_table) demo_ops (Transaction_init 0 REPEATABLE_READ, b) = Inl e
     | Inr (outs, t) \<Rightarrow> \<exists>s. run_steps (table_step 4 False demo_table) demo_ops (Transaction_init 0 REPEATABLE_READ, b) = Inr (outs, s) \<and>
         table_rel (disk_capacity (UnlimitedDisk [])) demo_table s t)"
    using table_heap_refines_pages [of 2 3 "UnlimitedDisk []" "Transaction_init 0 REPEATABLE_READ" 4 False demo_ops] demo_ok
    unfolding demo_table_def demo_pages_def by (simp add: nth_default_def Transaction_init_def del: table_rel.simps)
  then show ?thesis using demo_run by auto
qed



text \<open>
  C26.  A transaction that deletes the same tuple twice is told twice that it succeeded, and then cannot
  commit: the second deletion found nothing to mark but left a record, and applying that record runs
  into an assertion of the page.
\<close>

theorem commit_fails_after_double_delete:
  assumes "table_rel cap h (txn, b) (txn, hs)" "tx_write_set txn = []"
    and "wf_at rid (hs_pages hs)" "slot_at (hs_pages hs) rid = Some (Live bs)"
  shows "\<exists>txn' b'. run_steps (table_step m lg h) [HMark rid, HMark rid] (txn, b) = Inr ([HBool True, HBool True], txn', b') \<and>
    TransactionManager_Commit txn' b' = Inl AssertionFailure"
proof -
  let ?r = "\<lparr>wr_rid = rid, wr_wtype = WT_DELETE, wr_tuple = Tuple_default, wr_table = h\<rparr>"
  let ?hs = "hs\<lparr>hs_pages := set_slot rid (Marked bs) (hs_pages hs)\<rparr>"
  let ?t1 = "AppendTableWriteRecord ?r txn" and ?t2 = "AppendTableWriteRecord ?r (abort_if lg (AppendTableWriteRecord ?r txn))"
  have st1: "heap_step lg h (HMark rid) (txn, hs) = Inr (HBool True, ?t1, ?hs)"
    using assms(4) by (simp add: is_live_def mark_slot_def abort_if_def)
  obtain b1 where s1: "table_step m lg h (HMark rid) (txn, b) = Inr (HBool True, ?t1, b1)" "table_rel cap h (?t1, b1) (?t1, ?hs)"
    by (rule step_obtain [where m = m, OF assms(1) _ st1]) (simp_all add: assms(3))
  have m: "slot_at (hs_pages ?hs) rid = Some (Marked bs)" "set_slot rid z (hs_pages ?hs) = set_slot rid z (hs_pages hs)" for z
    using set_slot_simps [OF assms(4)] by simp_all
  have st2: "heap_step lg h (HMark rid) (?t1, ?hs) = Inr (HBool True, ?t2, ?hs)"
    using m by (simp add: is_live_def mark_slot_def)
  obtain b2 where s2: "table_step m lg h (HMark rid) (?t1, b1) = Inr (HBool True, ?t2, b2)" "table_rel cap h (?t2, b2) (?t2, ?hs)"
    by (rule step_obtain [where m = m, OF s1(2) _ st2]) (simp_all add: assms(3))
  have "rev (tx_write_set ?t2) = [?r, ?r]" using assms(2) by simp
  moreover have "commit_pages [?r, ?r] (hs_pages ?hs) = Inl AssertionFailure"
    using m set_slot_simps [OF assms(4), of Empty] by (simp add: apply_slot_def)
  ultimately have "heap_step lg h HCommit (?t2, ?hs) = Inl AssertionFailure" by simp
  then have "table_step m lg h HCommit (?t2, b2) = Inl AssertionFailure"
    using th.step_law [OF s2(2), where lg = lg and m = m and x = HCommit] by (simp del: table_step.simps heap_step.simps)
  then have "TransactionManager_Commit ?t2 b2 = Inl AssertionFailure" by (cases "TransactionManager_Commit ?t2 b2") auto
  then show ?thesis using s1(1) s2(1) by (simp del: table_step.simps)
qed

theorem commit_fails_after_double_delete_witness:
  "\<exists>b txn' b'. demo_filled [1, 2] b \<and>
    run_steps (table_step 4 False demo_table) [HMark (page_rid 0 0), HMark (page_rid 0 0)] (Transaction_init 1 REPEATABLE_READ, b) =
      Inr ([HBool True, HBool True], txn', b') \<and>
    TransactionManager_Commit txn' b' = Inl AssertionFailure"
proof -
  obtain b where b: "demo_filled [1, 2] b" "table_rel (2 ^ 31 - 1) demo_table (Transaction_init 1 REPEATABLE_READ, b)
      (Transaction_init 1 REPEATABLE_READ, \<lparr>hs_next = 1, hs_pages = [(0, [Live [1, 2]])]\<rparr>)"
    by (rule demo_filled_rel [of "[1, 2]"]) simp_all
  have "\<exists>txn' b'. run_steps (table_step 4 False demo_table) [HMark (page_rid 0 0), HMark (page_rid 0 0)] (Transaction_init 1 REPEATABLE_READ, b) =
      Inr ([HBool True, HBool True], txn', b') \<and> TransactionManager_Commit txn' b' = Inl AssertionFailure"
    by (rule commit_fails_after_double_delete [OF b(2), of _ "[1, 2]"]) (simp_all add: demo_simps)
  then show ?thesis using b(1) by blast
qed

text \<open>The pages after a shrinking update and an insertion into the freed bytes, and after their abort.\<close>

lemma shrunk_pages:
  fixes new :: "byte list"
  assumes "i < length s" "s ! i = Live old" "Empty \<notin> set s"
  defines "s1 \<equiv> s[i := Live new]"
  shows "space s1 = space s + int (length old) - int (length new)" "first_empty s1 = length s"
    "space (s1 @ [Empty]) = space s1 - 8" "s1 ! i = Live new"
proof -
  show "space s1 = space s + int (length old) - int (length new)"
    using used_bytes_update [OF assms(1), of "Live new"] assms(2) by (simp add: space_def s1_def)
  have "Empty \<notin> set s1" using set_update_subset_insert [of s i "Live new"] assms(3) by (auto simp: s1_def)
  then have all: "takeWhile (\<lambda>s. s \<noteq> Empty) s1 = s1" by (auto simp: takeWhile_eq_all_conv)
  show "first_empty s1 = length s" unfolding first_empty_def all by (simp add: s1_def)
  show "space (s1 @ [Empty]) = space s1 - 8" by (simp add: space_def used_bytes_def)
  show "s1 ! i = Live new" using assms(1) by (simp add: s1_def)
qed

lemmas page_access = slot_at_def set_slot_def page_space_def fits_at_def page_rid_def nth_append

lemma shrunk_run:
  fixes txn :: transaction and p :: page_id_t
  assumes s: "i < length s" "s ! i = Live old" "Empty \<notin> set s" "space s < 8"
    and new: "new \<noteq> []" "length new < length old" and bs: "bs \<noteq> []" "int (length bs) + 8 \<le> space s + int (length old) - int (length new)"
    and m: "length pgs + 1 < m" "nx < cap" "nx < 2 ^ 30" and t: "tx_write_set txn = []" "tx_state txn \<noteq> ABORTED"
  defines "ops \<equiv> [HUpdate (page_rid p i) new, HInsert bs, HAbort, HGet (page_rid p i)]"
    and "st \<equiv> (txn, \<lparr>hs_next = nx, hs_pages = (p, s) # pgs\<rparr>)"
  shows "run_ok (heap_ok m cap) (heap_step lg h) ops st"
    "\<exists>txn' hs'. run_steps (heap_step lg h) ops st =
      Inr ([HBool True, HRid (Some (page_rid p (length s))), HUnit, HTuple (Some new)], txn', hs') \<and> tx_state txn' = ABORTED"
proof -
  let ?s1 = "s[i := Live new]"
  note sp = shrunk_pages [OF s(1-3), of new]
  have "space s + int (length old) \<le> 4064"
    using used_bytes_update [OF s(1), of Empty] s(1,2) by (simp add: space_def)
  then have len: "\<not> 4064 < length bs" "int (length bs) + 32 < 4294967296" using bs(2) new by linarith+
  have fits: "int (length new) \<le> space s + int (length old)" "int (length bs) + 8 \<le> space ?s1"
      "\<not> int (length old) \<le> space (?s1 @ [Empty]) + int (length new)"
    using new(2) bs(2) s(4) sp by linarith+
  let ?rid = "page_rid p i" and ?rid2 = "page_rid p (length s)" and ?P = "(p, s) # pgs"
  let ?P1 = "(p, ?s1) # alter p ?s1 pgs" and ?P2 = "(p, ?s1 @ [Live bs]) # alter p ?s1 pgs"
  let ?P3 = "(p, ?s1 @ [Empty]) # alter p (?s1 @ [Empty]) (alter p ?s1 pgs)"
  have upd: "(?s1 @ [Live bs])[length s := Empty] = ?s1 @ [Empty]" by (simp add: list_update_append)
  have wf: "wf_at ?rid ?P" "wf_at ?rid ?P3" by (simp_all add: wf_at_def page_rid_def)
  have one: "fits_at ?rid new ?P" "slot_at ?P ?rid = Some (Live old)" "set_slot ?rid (Live new) ?P = ?P1"
    using s fits by (simp_all add: page_access)
  have two: "insert_pages nx bs ?P1 = (?rid2, ?P2)" using fits(2) sp(2) by (simp add: put_slot_def)
  have three: "apply_slot ?rid2 ?P2 = Inr ?P3" by (simp add: apply_slot_def page_access upd)
  have four: "\<not> fits_at ?rid old ?P3" "slot_at ?P3 ?rid = Some (Live new)"
    using s(1) fits(3) by (simp_all add: page_access)
  have old: "old \<noteq> []" using new by auto
  note calc = wf one two three four old new(1) bs(1) len t undo_record_def SetState_def AppendTableWriteRecord_def
  show "run_ok (heap_ok m cap) (heap_step lg h) ops st"
    unfolding ops_def st_def using m len by (simp add: calc del: insert_pages.simps)
  show "\<exists>txn' hs'. run_steps (heap_step lg h) ops st =
      Inr ([HBool True, HRid (Some (page_rid p (length s))), HUnit, HTuple (Some new)], txn', hs') \<and> tx_state txn' = ABORTED"
    unfolding ops_def st_def using len by (simp add: calc del: insert_pages.simps)
qed

text \<open>
  C25.  An abort does not always restore the table: the manager ignores the answer of the update that
  puts the old tuple back.  Take a transaction that has written nothing yet, and a tuple in the first
  page of the table, where every slot is in use and fewer than eight bytes are free.  Whenever the
  transaction shortens the tuple, inserts another one that fits into the freed bytes together with
  its slot, and aborts, the slot of the inserted tuple keeps its eight bytes, so the old tuple no
  longer fits: the abort returns, and the table holds the tuple of the aborted transaction.
\<close>

theorem abort_keeps_shrunk_tuple:
  assumes "table_rel cap h (txn, b) (txn, \<lparr>hs_next = nx, hs_pages = (p, s) # pgs\<rparr>)" "tx_write_set txn = []" "tx_state txn \<noteq> ABORTED"
    and "i < length s" "s ! i = Live old" "Empty \<notin> set s" "space s < 8"
    and "new \<noteq> []" "length new < length old" "bs \<noteq> []" "int (length bs) + 8 \<le> space s + int (length old) - int (length new)"
    and "length pgs + 1 < m" "nx < cap" "nx < 2 ^ 30"
  shows "\<exists>txn' b'. run_steps (table_step m lg h) [HUpdate (page_rid p i) new, HInsert bs, HAbort, HGet (page_rid p i)] (txn, b) =
      Inr ([HBool True, HRid (Some (page_rid p (length s))), HUnit, HTuple (Some new)], txn', b') \<and> tx_state txn' = ABORTED"
proof -
  note run = shrunk_run [OF assms(4-14,2,3), where lg = lg and h = h and p = p]
  obtain txn' hs' where r: "run_steps (heap_step lg h) [HUpdate (page_rid p i) new, HInsert bs, HAbort, HGet (page_rid p i)]
      (txn, \<lparr>hs_next = nx, hs_pages = (p, s) # pgs\<rparr>) =
      Inr ([HBool True, HRid (Some (page_rid p (length s))), HUnit, HTuple (Some new)], txn', hs')" "tx_state txn' = ABORTED"
    using run(2) by blast
  obtain c where c: "run_steps (table_step m lg h) [HUpdate (page_rid p i) new, HInsert bs, HAbort, HGet (page_rid p i)] (txn, b) =
      Inr ([HBool True, HRid (Some (page_rid p (length s))), HUnit, HTuple (Some new)], c)" "table_rel cap h c (txn', hs')"
    using th.run_refines [OF assms(1) run(1)] unfolding r(1) sum.case prod.case by blast
  then show ?thesis using r(2) by (cases c) auto
qed

theorem abort_keeps_shrunk_tuple_witness:
  "\<exists>b txn' b'. demo_filled (replicate 4060 1) b \<and>
    run_steps (table_step 4 False demo_table)
      [HUpdate (page_rid 0 0) (replicate 4050 2), HInsert [3], HAbort, HGet (page_rid 0 0)] (Transaction_init 1 REPEATABLE_READ, b) =
      Inr ([HBool True, HRid (Some (page_rid 0 1)), HUnit, HTuple (Some (replicate 4050 2))], txn', b')"
proof -
  let ?t = "Transaction_init 1 REPEATABLE_READ"
  obtain b where b: "demo_filled (replicate 4060 1) b"
      "table_rel (2 ^ 31 - 1) demo_table (?t, b) (?t, \<lparr>hs_next = 1, hs_pages = [(0, [Live (replicate 4060 1)])]\<rparr>)"
    by (rule demo_filled_rel [of "replicate 4060 1"]) simp_all
  have "\<exists>txn' b'. run_steps (table_step 4 False demo_table)
      [HUpdate (page_rid 0 0) (replicate 4050 2), HInsert [3], HAbort, HGet (page_rid 0 0)] (?t, b) =
      Inr ([HBool True, HRid (Some (page_rid 0 (length [Live (replicate 4060 1)]))), HUnit, HTuple (Some (replicate 4050 2))], txn', b') \<and>
      tx_state txn' = ABORTED"
    by (rule abort_keeps_shrunk_tuple [OF b(2), of _ "replicate 4060 1"])
       (simp_all add: Transaction_init_def space_def used_bytes_def)
  then show ?thesis using b(1) by auto
qed

end
