(* ===== verification/Trie.thy ===== *)
theory Trie
  imports Prelude "HOL-Library.Sublist"
begin

text \<open>
  The trie of \<^verbatim>\<open>src/include/primer/p0_trie.h\<close>.  Values of any type are stored: a terminal node
  is a \<open>TrieNodeWithValue<T>\<close>, so a stored value carries the tag of its type \<open>T\<close>, which the
  \<open>dynamic_cast\<close> of \<open>GetValue\<close> compares.  The map of children is an association list with distinct
  keys.  The pointer walks of \<open>Insert\<close>, \<open>Remove\<close> and \<open>GetValue\<close> are recursions along the key; every
  operation runs under the latch.
\<close>

section \<open>Nodes\<close>

datatype ('t, 'v) trie_node =
  TrieNode (key_char: char) (is_end: bool) (node_value: "('t \<times> 'v) option")
    (children: "(char \<times> ('t, 'v) trie_node) list")

definition TrieNode_init :: "char \<Rightarrow> ('t, 'v) trie_node" where
  "TrieNode_init c = TrieNode c False None []"

definition GetChildNode :: "char \<Rightarrow> ('t, 'v) trie_node \<Rightarrow> ('t, 'v) trie_node option" where
  "GetChildNode c n = map_of (children n) c"

definition HasChild :: "char \<Rightarrow> ('t, 'v) trie_node \<Rightarrow> bool" where
  "HasChild c n \<longleftrightarrow> map_of (children n) c \<noteq> None"

definition HasChildren :: "('t, 'v) trie_node \<Rightarrow> bool" where
  "HasChildren n \<longleftrightarrow> children n \<noteq> []"

text \<open>The node after the call; \<open>None\<close> is the null pointer that reports a refused insertion.\<close>

definition InsertChildNode :: "char \<Rightarrow> ('t, 'v) trie_node \<Rightarrow> ('t, 'v) trie_node \<Rightarrow> ('t, 'v) trie_node option" where
  "InsertChildNode c child n =
     (if HasChild c n \<or> c \<noteq> key_char child then None
      else Some (TrieNode (key_char n) (is_end n) (node_value n) ((c, child) # children n)))"

definition RemoveChildNode :: "char \<Rightarrow> ('t, 'v) trie_node \<Rightarrow> ('t, 'v) trie_node" where
  "RemoveChildNode c n =
     TrieNode (key_char n) (is_end n) (node_value n) (filter (\<lambda>e. fst e \<noteq> c) (children n))"

definition SetEndNode :: "bool \<Rightarrow> ('t, 'v) trie_node \<Rightarrow> ('t, 'v) trie_node" where
  "SetEndNode b n = TrieNode (key_char n) b (node_value n) (children n)"

text \<open>The constructor that moves out of a node and adds the value.\<close>

definition TrieNodeWithValue :: "('t, 'v) trie_node \<Rightarrow> 't \<times> 'v \<Rightarrow> ('t, 'v) trie_node" where
  "TrieNodeWithValue n v = SetEndNode True (TrieNode (key_char n) (is_end n) (Some v) (children n))"

text \<open>Storing through the pointer to the child that the walk went through.\<close>

definition update_child :: "char \<Rightarrow> ('t, 'v) trie_node \<Rightarrow> ('t, 'v) trie_node \<Rightarrow> ('t, 'v) trie_node" where
  "update_child c child n =
     TrieNode (key_char n) (is_end n) (node_value n)
       (map (\<lambda>(d, m). (d, if d = c then child else m)) (children n))"

section \<open>The trie\<close>

definition Trie_init :: "('t, 'v) trie_node" where
  "Trie_init = TrieNode_init (CHR 0x00)"

fun Insert_walk :: "string \<Rightarrow> 't \<times> 'v \<Rightarrow> ('t, 'v) trie_node \<Rightarrow> bool \<times> ('t, 'v) trie_node" where
  "Insert_walk [] v n = (False, n)"
| "Insert_walk [c] v n =
     (case GetChildNode c n of
        Some m \<Rightarrow> if is_end m then (False, n) else (True, update_child c (TrieNodeWithValue m v) n)
      | None \<Rightarrow>
          (case InsertChildNode c (TrieNode_init c) n of
             None \<Rightarrow> (False, n)
           | Some n' \<Rightarrow> (True, update_child c (TrieNodeWithValue (TrieNode_init c) v) n')))"
| "Insert_walk (c # d # cs) v n =
     (let n' = (if HasChild c n then n else the (InsertChildNode c (TrieNode_init c) n));
          (ok, m) = Insert_walk (d # cs) v (the (GetChildNode c n'))
      in (ok, update_child c m n'))"

definition Trie_Insert :: "string \<Rightarrow> 't \<times> 'v \<Rightarrow> ('t, 'v) trie_node \<Rightarrow> bool \<times> ('t, 'v) trie_node" where
  "Trie_Insert key v root = (if key = [] then (False, root) else Insert_walk key v root)"

text \<open>The first loop of \<open>Remove\<close> checks that the path exists.\<close>

fun has_path :: "string \<Rightarrow> ('t, 'v) trie_node \<Rightarrow> bool" where
  "has_path [] n \<longleftrightarrow> True"
| "has_path (c # cs) n \<longleftrightarrow> (case GetChildNode c n of None \<Rightarrow> False | Some m \<Rightarrow> has_path cs m)"

text \<open>
  The second loop pops the stack: from the last node of the path upwards, a child that has children
  is kept and one that has none is removed.
\<close>

fun Remove_unwind :: "string \<Rightarrow> ('t, 'v) trie_node \<Rightarrow> ('t, 'v) trie_node" where
  "Remove_unwind [] n = n"
| "Remove_unwind (c # cs) n =
     (case GetChildNode c n of
        None \<Rightarrow> RemoveChildNode c n
      | Some m \<Rightarrow>
          (let m' = Remove_unwind cs m
           in if HasChildren m' then update_child c m' n else RemoveChildNode c (update_child c m' n)))"

definition Trie_Remove :: "string \<Rightarrow> ('t, 'v) trie_node \<Rightarrow> bool \<times> ('t, 'v) trie_node" where
  "Trie_Remove key root =
     (if key = [] then (False, root)
      else if has_path key root then (True, Remove_unwind key root) else (False, root))"

text \<open>\<open>None\<close> is the default value with \<open>*success = false\<close>.\<close>

fun GetValue_walk :: "'t \<Rightarrow> string \<Rightarrow> ('t, 'v) trie_node \<Rightarrow> 'v option" where
  "GetValue_walk ty [] n = None"
| "GetValue_walk ty (c # cs) n =
     (case GetChildNode c n of
        None \<Rightarrow> None
      | Some m \<Rightarrow>
          if is_end m \<and> cs = [] then
            (case node_value m of
               Some (ty', v) \<Rightarrow> if ty' = ty then Some v else None
             | None \<Rightarrow> None)
          else GetValue_walk ty cs m)"

definition Trie_GetValue :: "'t \<Rightarrow> string \<Rightarrow> ('t, 'v) trie_node \<Rightarrow> 'v option" where
  "Trie_GetValue ty key root = GetValue_walk ty key root"

section \<open>The abstract map and the invariant\<close>

fun lookup :: "string \<Rightarrow> ('t, 'v) trie_node \<Rightarrow> ('t \<times> 'v) option" where
  "lookup [] n = (if is_end n then node_value n else None)"
| "lookup (c # cs) n = (case GetChildNode c n of None \<Rightarrow> None | Some m \<Rightarrow> lookup cs m)"

text \<open>
  A node that is not the root is reached by its key character, is a terminal node if it has no
  children, and terminal nodes hold a value.
\<close>

definition live :: "('t, 'v) trie_node \<Rightarrow> bool" where
  "live n \<longleftrightarrow> HasChildren n \<or> is_end n"

fun trie_ok :: "('t, 'v) trie_node \<Rightarrow> bool" where
  "trie_ok (TrieNode k e v cs) \<longleftrightarrow> distinct (map fst cs) \<and> (e \<longrightarrow> v \<noteq> None) \<and>
     (\<forall>(c, m) \<in> set cs. key_char m = c \<and> live m \<and> trie_ok m)"

lemma trie_ok_iff:
  "trie_ok n \<longleftrightarrow> distinct (map fst (children n)) \<and> (is_end n \<longrightarrow> node_value n \<noteq> None) \<and>
     (\<forall>(c, m) \<in> set (children n). key_char m = c \<and> live m \<and> trie_ok m)"
  by (cases n) simp

lemma trie_ok_child:
  assumes "trie_ok n" and "GetChildNode c n = Some m"
  shows "trie_ok m" "live m" "key_char m = c"
  using assms by (auto simp: trie_ok_iff [of n] GetChildNode_def dest!: map_of_SomeD)

lemma TrieNode_init_simps [simp]:
  "key_char (TrieNode_init c) = c" "is_end (TrieNode_init c) = False" "children (TrieNode_init c) = []"
  "node_value (TrieNode_init c) = None" "trie_ok (TrieNode_init c)"
  by (simp_all add: TrieNode_init_def)

lemma lookup_TrieNode_init [simp]: "lookup k (TrieNode_init c) = None"
  by (cases k) (simp_all add: GetChildNode_def)

lemma TrieNodeWithValue_simps [simp]:
  "key_char (TrieNodeWithValue n v) = key_char n" "is_end (TrieNodeWithValue n v)"
  "node_value (TrieNodeWithValue n v) = Some v" "children (TrieNodeWithValue n v) = children n"
  by (simp_all add: TrieNodeWithValue_def SetEndNode_def)

lemma update_child_simps [simp]:
  "key_char (update_child c m n) = key_char n" "is_end (update_child c m n) = is_end n"
  "node_value (update_child c m n) = node_value n" "HasChildren (update_child c m n) = HasChildren n"
  by (simp_all add: update_child_def HasChildren_def)

lemma RemoveChildNode_simps [simp]:
  "key_char (RemoveChildNode c n) = key_char n" "is_end (RemoveChildNode c n) = is_end n"
  "node_value (RemoveChildNode c n) = node_value n"
  by (simp_all add: RemoveChildNode_def)

lemma GetChildNode_update_child:
  "GetChildNode d (update_child c m n) =
    (if d = c then map_option (\<lambda>_. m) (GetChildNode c n) else GetChildNode d n)"
proof -
  have "map_of (map (\<lambda>(d, x). (d, if d = c then m else x)) xs) d =
      (if d = c then map_option (\<lambda>_. m) (map_of xs c) else map_of xs d)" for xs
    by (induction xs) auto
  then show ?thesis by (simp add: GetChildNode_def update_child_def)
qed

lemma GetChildNode_RemoveChildNode:
  "GetChildNode d (RemoveChildNode c n) = (if d = c then None else GetChildNode d n)"
proof -
  have "map_of (filter (\<lambda>e. fst e \<noteq> c) xs) d = (if d = c then None else map_of xs d)" for xs :: "(char \<times> ('a, 'b) trie_node) list"
    by (induction xs) auto
  then show ?thesis by (simp add: GetChildNode_def RemoveChildNode_def)
qed

lemma InsertChildNode_new:
  assumes "GetChildNode c n = None"
  obtains n' where "InsertChildNode c (TrieNode_init c) n = Some n'" and "GetChildNode c n' = Some (TrieNode_init c)"
    and "\<And>d. d \<noteq> c \<Longrightarrow> GetChildNode d n' = GetChildNode d n" and "is_end n' = is_end n"
    and "node_value n' = node_value n" and "key_char n' = key_char n"
    and "children n' = (c, TrieNode_init c) # children n"
  using assms by (simp add: InsertChildNode_def HasChild_def GetChildNode_def)

lemma trie_ok_update_child:
  assumes "trie_ok n" and "trie_ok m" and "live m" and "key_char m = c"
  shows "trie_ok (update_child c m n)"
proof -
  have "map fst (children (update_child c m n)) = map fst (children n)"
    by (simp add: update_child_def comp_def split_beta)
  moreover have "key_char y = x \<and> live y \<and> trie_ok y" if "(x, y) \<in> set (children (update_child c m n))" for x y
    using that assms by (auto simp: update_child_def trie_ok_iff [of n] split: if_splits)
  ultimately show ?thesis using assms(1) by (auto simp: trie_ok_iff [of "update_child c m n"] trie_ok_iff [of n])
qed

lemma trie_ok_RemoveChildNode:
  assumes "trie_ok n"
  shows "trie_ok (RemoveChildNode c n)"
  using assms by (auto simp: trie_ok_iff [of n] trie_ok_iff [of "RemoveChildNode c n"] RemoveChildNode_def
      distinct_map_filter)

text \<open>A live subtrie holds a key.\<close>

lemma live_lookup: "trie_ok n \<Longrightarrow> live n \<Longrightarrow> \<exists>k. lookup k n \<noteq> None"
proof (induction n)
  case (TrieNode k e v cs)
  show ?case
  proof (cases e)
    case True
    then show ?thesis using TrieNode.prems(1) by (auto intro: exI [of _ "[]"])
  next
    case False
    then obtain c m cs' where cs: "cs = (c, m) # cs'"
      using TrieNode.prems(2) by (cases cs) (auto simp: live_def HasChildren_def)
    then have "trie_ok m" "live m" using TrieNode.prems(1) by auto
    then obtain k where "lookup k m \<noteq> None"
      using TrieNode.IH [of "(c, m)" m] cs by auto
    then show ?thesis using cs by (intro exI [of _ "c # k"]) (simp add: GetChildNode_def)
  qed
qed

lemma GetValue_walk_lookup:
  "trie_ok n \<Longrightarrow> key \<noteq> [] \<Longrightarrow> GetValue_walk ty key n =
    (case lookup key n of Some (ty', v) \<Rightarrow> if ty' = ty then Some v else None | None \<Rightarrow> None)"
proof (induction key arbitrary: n)
  case (Cons c cs)
  show ?case
  proof (cases "GetChildNode c n")
    case (Some m)
    then show ?thesis
      using Cons.IH [of m] trie_ok_child(1) [OF Cons.prems(1) Some] by (cases cs) auto
  qed simp
qed simp

section \<open>Insertion\<close>

text \<open>The parent of the child \<open>c\<close>, which is added first when it is missing.\<close>

definition with_child :: "char \<Rightarrow> ('t, 'v) trie_node \<Rightarrow> ('t, 'v) trie_node" where
  "with_child c n = (if HasChild c n then n else the (InsertChildNode c (TrieNode_init c) n))"

lemma with_child_simps [simp]:
  "key_char (with_child c n) = key_char n" "is_end (with_child c n) = is_end n"
  "node_value (with_child c n) = node_value n" "HasChildren (with_child c n)"
  by (auto simp: with_child_def InsertChildNode_def HasChild_def HasChildren_def)

lemma GetChildNode_with_child:
  "GetChildNode d (with_child c n) =
    (if d = c \<and> GetChildNode c n = None then Some (TrieNode_init c) else GetChildNode d n)"
  by (auto simp: with_child_def InsertChildNode_def HasChild_def GetChildNode_def)

lemma trie_ok_graft:
  assumes n: "trie_ok n" and m: "trie_ok m" "live m" "key_char m = c"
  shows "trie_ok (update_child c m (with_child c n))"
proof (cases "HasChild c n")
  case True
  then show ?thesis using trie_ok_update_child [OF assms] by (simp add: with_child_def)
next
  case False
  then have fresh: "c \<notin> fst ` set (children n)" by (simp add: HasChild_def map_of_eq_None_iff)
  then have "map (\<lambda>(d, x). (d, if d = c then m else x)) (children n) = children n"
    by (intro map_idI) (auto simp: image_iff)
  then have "children (update_child c m (with_child c n)) = (c, m) # children n"
    using False by (simp add: with_child_def InsertChildNode_def update_child_def HasChild_def)
  then show ?thesis
    using n m fresh by (auto simp: trie_ok_iff [of n] trie_ok_iff [of "update_child c m (with_child c n)"])
qed

lemma lookup_graft:
  "lookup (x # k) (update_child c m (with_child c n)) = (if x = c then lookup k m else lookup (x # k) n)"
  by (auto simp: GetChildNode_update_child GetChildNode_with_child split: option.split)

definition child_or_new :: "char \<Rightarrow> ('t, 'v) trie_node \<Rightarrow> ('t, 'v) trie_node" where
  "child_or_new c n = (case GetChildNode c n of Some m \<Rightarrow> m | None \<Rightarrow> TrieNode_init c)"

lemma child_or_new_ok:
  assumes "trie_ok n"
  shows "trie_ok (child_or_new c n)" "key_char (child_or_new c n) = c"
    "lookup (c # k) n = lookup k (child_or_new c n)"
  using trie_ok_child [OF assms, of c] by (auto simp: child_or_new_def split: option.split)

lemma trie_ok_TrieNodeWithValue: "trie_ok n \<Longrightarrow> trie_ok (TrieNodeWithValue n v)"
  by (simp add: trie_ok_iff [of n] trie_ok_iff [of "TrieNodeWithValue n v"])

text \<open>One step of the walk in terms of the child it continues in.\<close>

lemma Insert_walk_graft:
  "Insert_walk [c] v n =
    (if is_end (child_or_new c n) then (False, n)
     else (True, update_child c (TrieNodeWithValue (child_or_new c n) v) (with_child c n)))"
  "Insert_walk (c # d # cs) v n =
    (case Insert_walk (d # cs) v (child_or_new c n) of (ok, m) \<Rightarrow> (ok, update_child c m (with_child c n)))"
  by (auto simp: child_or_new_def with_child_def HasChild_def GetChildNode_def InsertChildNode_def Let_def
      split: option.split prod.split)

lemma lookup_TrieNodeWithValue:
  "lookup k (TrieNodeWithValue n v) = (if k = [] then Some v else lookup k n)"
  by (cases k) (simp_all add: GetChildNode_def)

lemma Insert_walk_spec:
  assumes "trie_ok n" and "key \<noteq> []"
  shows "case Insert_walk key v n of (ok, n') \<Rightarrow>
    trie_ok n' \<and> ok = (lookup key n = None) \<and> key_char n' = key_char n \<and> is_end n' = is_end n \<and>
    HasChildren n' \<and> (\<forall>k. lookup k n' = (if ok \<and> k = key then Some v else lookup k n))"
  using assms
proof (induction key arbitrary: n)
  case (Cons c cs)
  let ?m = "child_or_new c n"
  note m = child_or_new_ok [OF Cons.prems(1)]
  show ?case
  proof (cases cs)
    case Nil
    show ?thesis
    proof (cases "is_end ?m")
      case True
      then have "node_value ?m \<noteq> None" using m(1) [of c] unfolding trie_ok_iff [of ?m] by blast
      then have "lookup [c] n \<noteq> None" using True m(3) [of c "[]"] by simp
      moreover from this have "HasChildren n" by (auto simp: HasChildren_def GetChildNode_def)
      ultimately show ?thesis using Nil True Cons.prems(1) by (simp add: Insert_walk_graft del: Insert_walk.simps lookup.simps(2))
    next
      case False
      let ?n = "update_child c (TrieNodeWithValue ?m v) (with_child c n)"
      have "trie_ok ?n"
        using m(1,2) by (intro trie_ok_graft [OF Cons.prems(1)] trie_ok_TrieNodeWithValue) (simp_all add: live_def)
      moreover have "lookup k ?n = (if k = [c] then Some v else lookup k n)" for k
        by (cases k) (auto simp: lookup_graft lookup_TrieNodeWithValue m(3) simp del: lookup.simps(2))
      moreover have "lookup [c] n = None" using False m(3) by simp
      ultimately show ?thesis using Nil False by (simp add: Insert_walk_graft del: Insert_walk.simps lookup.simps(2))
    qed
  next
    case (Cons d ds)
    obtain ok m' where w: "Insert_walk cs v ?m = (ok, m')" by fastforce
    have IH: "trie_ok m'" "ok = (lookup cs ?m = None)" "key_char m' = c" "HasChildren m'"
        "\<And>k. lookup k m' = (if ok \<and> k = cs then Some v else lookup k ?m)"
      using Cons.IH [OF m(1) [of c]] m(2) [of c] Cons unfolding w by simp_all
    let ?n = "update_child c m' (with_child c n)"
    have "trie_ok ?n" using IH(1,3,4) by (intro trie_ok_graft [OF Cons.prems(1)]) (simp_all add: live_def)
    moreover have "lookup k ?n = (if ok \<and> k = c # cs then Some v else lookup k n)" for k
      by (cases k) (auto simp: lookup_graft IH(5) m(3) simp del: lookup.simps(2))
    ultimately show ?thesis using w Cons IH(2) m(3) by (simp add: Insert_walk_graft del: Insert_walk.simps lookup.simps(2))
  qed
qed simp

section \<open>Removal\<close>

lemma has_path_iff:
  assumes "trie_ok n" and "cs \<noteq> []"
  shows "has_path cs n \<longleftrightarrow> (\<exists>k. lookup (cs @ k) n \<noteq> None)"
  using assms
proof (induction cs arbitrary: n)
  case (Cons c cs)
  show ?case
  proof (cases "GetChildNode c n")
    case (Some m)
    note m = trie_ok_child [OF Cons.prems(1) Some]
    show ?thesis
    proof (cases "cs = []")
      case True
      then show ?thesis using Some live_lookup [OF m(1,2)] by auto
    next
      case False
      then show ?thesis using Some Cons.IH [OF m(1)] by simp
    qed
  qed simp
qed simp

lemma HasChildren_iff:
  assumes "trie_ok n"
  shows "HasChildren n \<longleftrightarrow> (\<exists>k. k \<noteq> [] \<and> lookup k n \<noteq> None)"
proof
  assume "HasChildren n"
  then obtain x xs where "children n = x # xs" by (cases "children n") (auto simp: HasChildren_def)
  then have c: "GetChildNode (fst x) n = Some (snd x)" by (simp add: GetChildNode_def)
  obtain k where "lookup k (snd x) \<noteq> None" using live_lookup [OF trie_ok_child(1,2) [OF assms c]] by blast
  then have "fst x # k \<noteq> [] \<and> lookup (fst x # k) n \<noteq> None" by (simp add: c)
  then show "\<exists>k. k \<noteq> [] \<and> lookup k n \<noteq> None" by blast
next
  assume "\<exists>k. k \<noteq> [] \<and> lookup k n \<noteq> None"
  then obtain k where "k \<noteq> []" "lookup k n \<noteq> None" by blast
  then show "HasChildren n" by (cases k) (auto simp: HasChildren_def GetChildNode_def)
qed

text \<open>
  The keys that \<open>Remove key\<close> deletes: the nonempty prefixes of \<open>key\<close>, \<open>key\<close> included, that no stored
  key off the path extends.
\<close>

definition removed_by :: "string \<Rightarrow> ('t, 'v) trie_node \<Rightarrow> string \<Rightarrow> bool" where
  "removed_by key n k \<longleftrightarrow> k \<noteq> [] \<and> prefix k key \<and>
     (\<forall>k'. strict_prefix k k' \<and> lookup k' n \<noteq> None \<longrightarrow> prefix k' key)"

lemma removed_by_child:
  assumes c: "GetChildNode c n = Some m" and k: "k \<noteq> []"
  shows "removed_by (c # cs) n (c # k) \<longleftrightarrow> removed_by cs m k"
proof -
  have "(\<forall>k'. strict_prefix (c # k) k' \<and> lookup k' n \<noteq> None \<longrightarrow> prefix k' (c # cs)) \<longleftrightarrow>
      (\<forall>k'. strict_prefix k k' \<and> lookup k' m \<noteq> None \<longrightarrow> prefix k' cs)"
  proof (intro iffI allI impI)
    fix k' assume *: "\<forall>k'. strict_prefix (c # k) k' \<and> lookup k' n \<noteq> None \<longrightarrow> prefix k' (c # cs)"
      and "strict_prefix k k' \<and> lookup k' m \<noteq> None"
    then show "prefix k' cs" using *[rule_format, of "c # k'"] c by simp
  next
    fix k' assume "\<forall>k'. strict_prefix k k' \<and> lookup k' m \<noteq> None \<longrightarrow> prefix k' cs"
      and "strict_prefix (c # k) k' \<and> lookup k' n \<noteq> None"
    then show "prefix k' (c # cs)" using c by (cases k') auto
  qed
  with k show ?thesis by (simp add: removed_by_def)
qed

lemma removed_by_top:
  assumes c: "GetChildNode c n = Some m"
  shows "removed_by (c # cs) n [c] \<longleftrightarrow> (\<forall>k. k \<noteq> [] \<and> lookup k m \<noteq> None \<longrightarrow> removed_by cs m k)"
proof -
  have "removed_by (c # cs) n [c] \<longleftrightarrow> (\<forall>k. k \<noteq> [] \<and> lookup k m \<noteq> None \<longrightarrow> prefix k cs)"
  proof
    assume *: "removed_by (c # cs) n [c]"
    show "\<forall>k. k \<noteq> [] \<and> lookup k m \<noteq> None \<longrightarrow> prefix k cs"
    proof (intro allI impI)
      fix k assume "k \<noteq> [] \<and> lookup k m \<noteq> None"
      then have "strict_prefix [c] (c # k) \<and> lookup (c # k) n \<noteq> None" using c by (cases k) auto
      with * have "prefix (c # k) (c # cs)" unfolding removed_by_def by blast
      then show "prefix k cs" by simp
    qed
  next
    assume *: "\<forall>k. k \<noteq> [] \<and> lookup k m \<noteq> None \<longrightarrow> prefix k cs"
    have "prefix k' (c # cs)" if "strict_prefix [c] k'" "lookup k' n \<noteq> None" for k'
      using that * c by (cases k') auto
    then show "removed_by (c # cs) n [c]" by (simp add: removed_by_def)
  qed
  also have "\<dots> \<longleftrightarrow> (\<forall>k. k \<noteq> [] \<and> lookup k m \<noteq> None \<longrightarrow> removed_by cs m k)"
    unfolding removed_by_def by (metis prefix_bot.extremum strict_prefixE strict_prefix_simps(1) append_self_conv2)
  finally show ?thesis .
qed

lemma removed_by_off_path: "removed_by (c # cs) n k \<Longrightarrow> hd k = c"
  by (cases k) (auto simp: removed_by_def)

lemma RemoveChildNode_update_child: "RemoveChildNode c (update_child c m n) = RemoveChildNode c n"
proof -
  have "filter (\<lambda>e. fst e \<noteq> c) (map (\<lambda>(d, x). (d, if d = c then m else x)) xs) = filter (\<lambda>e. fst e \<noteq> c) xs"
    for xs :: "(char \<times> ('a, 'b) trie_node) list"
    by (induction xs) auto
  then show ?thesis by (simp add: RemoveChildNode_def update_child_def)
qed

lemma Remove_unwind_spec:
  assumes "trie_ok n" and "has_path cs n"
  shows "trie_ok (Remove_unwind cs n) \<and> key_char (Remove_unwind cs n) = key_char n \<and>
    is_end (Remove_unwind cs n) = is_end n \<and> node_value (Remove_unwind cs n) = node_value n \<and>
    (\<forall>k. lookup k (Remove_unwind cs n) = (if removed_by cs n k then None else lookup k n))"
  using assms
proof (induction cs arbitrary: n)
  case Nil
  then show ?case by (simp add: removed_by_def)
next
  case (Cons c cs)
  obtain m where c: "GetChildNode c n = Some m" and path: "has_path cs m"
    using Cons.prems(2) by (auto split: option.splits)
  let ?m = "Remove_unwind cs m" and ?n = "Remove_unwind (c # cs) n"
  note m = trie_ok_child [OF Cons.prems(1) c]
  note IH = Cons.IH [OF m(1) path]
  have kids: "HasChildren ?m \<longleftrightarrow> \<not> removed_by (c # cs) n [c]"
    using IH by (auto simp: HasChildren_iff removed_by_top [OF c] split: if_splits)
  have off: "\<not> removed_by (c # cs) n []" by (simp add: removed_by_def)
  have up: "removed_by (c # cs) n (c # k) \<longleftrightarrow> (if k = [] then removed_by (c # cs) n [c] else removed_by cs m k)" for k
    using removed_by_child [OF c, of k cs] by simp
  show ?case
  proof (cases "HasChildren ?m")
    case True
    then have eq: "?n = update_child c ?m n" by (simp add: c)
    have "trie_ok (update_child c ?m n)"
      using True IH m(3) by (intro trie_ok_update_child [OF Cons.prems(1)]) (simp_all add: live_def)
    moreover have "lookup k (update_child c ?m n) = (if removed_by (c # cs) n k then None else lookup k n)" for k
    proof (cases k)
      case (Cons x k')
      have "\<not> removed_by [] m k'" if "k' = []" using that by (simp add: removed_by_def)
      then show ?thesis
        using Cons IH c kids True up [of k'] removed_by_off_path [of c cs n k]
        by (cases "x = c"; cases "k' = []") (auto simp: GetChildNode_update_child removed_by_def [of cs m "[]"] split: option.split)
    qed (simp add: off)
    ultimately show ?thesis unfolding eq by simp
  next
    case False
    then have eq: "?n = RemoveChildNode c n" by (simp add: c RemoveChildNode_update_child)
    have none: "removed_by (c # cs) n (c # k) \<or> lookup (c # k) n = None" for k
    proof (cases "k = []")
      case True
      then show ?thesis using False kids by simp
    next
      case k: False
      have "trie_ok ?m" using IH by simp
      from HasChildren_iff [OF this] have "lookup k ?m = None" using False k by blast
      then show ?thesis using IH up [of k] k c by (auto split: if_splits)
    qed
    have "lookup k (RemoveChildNode c n) = (if removed_by (c # cs) n k then None else lookup k n)" for k
    proof (cases k)
      case (Cons x k')
      then show ?thesis
        using none [of k'] removed_by_off_path [of c cs n k]
        by (cases "x = c") (auto simp: GetChildNode_RemoveChildNode)
    qed (simp add: off)
    then show ?thesis unfolding eq using trie_ok_RemoveChildNode [OF Cons.prems(1)] by simp
  qed
qed

section \<open>Properties\<close>

lemma trie_ok_init: "trie_ok Trie_init"
  by (simp add: Trie_init_def)

lemma Trie_Insert_ok: "trie_ok n \<Longrightarrow> trie_ok (snd (Trie_Insert key v n))"
  using Insert_walk_spec [of n key v] by (auto simp: Trie_Insert_def)

text \<open>
  C27. Inserting a nonempty key succeeds exactly when the key is not stored yet; it then stores the
  value and changes the value of no other key, and otherwise changes no key at all.
\<close>

theorem trie_insert_correct:
  assumes "trie_ok root" and "key \<noteq> []"
  shows "case Trie_Insert key v root of (ok, root') \<Rightarrow>
    trie_ok root' \<and> ok = (lookup key root = None) \<and>
    (\<forall>k. lookup k root' = (if ok \<and> k = key then Some v else lookup k root))"
  using Insert_walk_spec [OF assms, of v] assms(2) by (auto simp: Trie_Insert_def)

theorem trie_insert_correct_witness:
  "case Trie_Insert ''ab'' (1 :: int, 2 :: int) Trie_init of (ok, root') \<Rightarrow> ok \<and> lookup ''ab'' root' = Some (1, 2)"
  using trie_insert_correct [OF trie_ok_init, of "''ab''" "(1 :: int, 2 :: int)"]
  by (auto simp: Trie_init_def simp del: lookup.simps)

text \<open>
  C28. A value that was just inserted is read back at its own type and at no other type.
\<close>

theorem trie_get_after_insert:
  assumes "trie_ok root" and "key \<noteq> []" and "Trie_Insert key (ty, v) root = (True, root')"
  shows "Trie_GetValue ty key root' = Some v \<and> (\<forall>ty'. ty' \<noteq> ty \<longrightarrow> Trie_GetValue ty' key root' = None)"
proof -
  have "trie_ok root'" "lookup key root' = Some (ty, v)"
    using Insert_walk_spec [OF assms(1,2), of "(ty, v)"] assms(2,3) by (auto simp: Trie_Insert_def)
  then show ?thesis using assms(2) by (simp add: Trie_GetValue_def GetValue_walk_lookup)
qed

theorem trie_get_after_insert_witness:
  "Trie_GetValue (0 :: int) ''a'' (snd (Trie_Insert ''a'' (0, 5 :: int) Trie_init)) = Some 5"
  using trie_get_after_insert [OF trie_ok_init, of "''a''" "0 :: int" "5 :: int" "snd (Trie_Insert ''a'' (0, 5) Trie_init)"]
  by (simp add: Trie_Insert_def Trie_init_def TrieNode_init_def GetChildNode_def InsertChildNode_def HasChild_def)

text \<open>
  C29. What \<open>Remove\<close> does on every key: it reports success exactly when some stored key extends the
  given one, and it deletes precisely the nonempty prefixes of the key (the key included) that no
  stored key off the path extends.  So a key that is a proper prefix of another stored key is never
  removed, and a stored prefix of the removed key is lost when nothing else keeps its node alive.
\<close>

theorem trie_remove_exact:
  assumes "trie_ok root" and "key \<noteq> []"
  shows "case Trie_Remove key root of (ok, root') \<Rightarrow>
    trie_ok root' \<and> ok = (\<exists>k. prefix key k \<and> lookup k root \<noteq> None) \<and>
    (\<forall>k. lookup k root' = (if ok \<and> removed_by key root k then None else lookup k root))"
proof -
  have "(\<exists>k. lookup (key @ k) root \<noteq> None) \<longleftrightarrow> (\<exists>k. prefix key k \<and> lookup k root \<noteq> None)"
    by (auto simp: prefix_def)
  then show ?thesis
    using has_path_iff [OF assms] Remove_unwind_spec [OF assms(1), of key] assms by (auto simp: Trie_Remove_def)
qed

theorem trie_remove_exact_witness:
  "let t = snd (Trie_Insert ''abc'' ((), 2 :: int) (snd (Trie_Insert ''ab'' ((), 1) Trie_init))); (ok, t') = Trie_Remove ''ab'' t
   in trie_ok t' \<and> ok \<and> lookup ''ab'' t' = Some ((), 1) \<and> \<not> removed_by ''ab'' t ''ab''"
proof -
  let ?t = "snd (Trie_Insert ''abc'' ((), 2 :: int) (snd (Trie_Insert ''ab'' ((), 1) Trie_init)))"
  have ok: "trie_ok ?t" by (intro Trie_Insert_ok trie_ok_init)
  obtain b t' where r: "Trie_Remove ''ab'' ?t = (b, t')" by fastforce
  have "fst (Trie_Remove ''ab'' ?t)" "lookup ''ab'' (snd (Trie_Remove ''ab'' ?t)) = Some ((), 1)" by code_simp+
  then have e: "b" "lookup ''ab'' t' = Some ((), 1)" unfolding r by simp_all
  have "trie_ok t'" "\<forall>k. lookup k t' = (if b \<and> removed_by ''ab'' ?t k then None else lookup k ?t)"
    using trie_remove_exact [OF ok, of "''ab''"] unfolding r by (simp_all del: lookup.simps)
  moreover from this(2) have "\<not> removed_by ''ab'' ?t ''ab''" using e by (metis option.distinct(1))
  ultimately show ?thesis using e unfolding Let_def r prod.case by blast
qed

end
