(* ===== verification/TypeCasts.thy ===== *)
theory TypeCasts
  imports Values
begin

text \<open>
  The unary methods of the type classes in \<^verbatim>\<open>src/type/\<close>:
  \<^verbatim>\<open>ToString\<close>, \<^verbatim>\<open>Copy\<close>, \<^verbatim>\<open>CastAs\<close>,
  \<^verbatim>\<open>OperateNull\<close>, \<^verbatim>\<open>IsZero\<close>, \<^verbatim>\<open>SerializeTo\<close> and
  \<^verbatim>\<open>DeserializeFrom\<close>, one definition per class and method, and the dispatch of
  \<^verbatim>\<open>value.h\<close> through the table \<^verbatim>\<open>Type::k_types\<close>.  The table has
  fourteen slots and eight instances; the slot of \<open>TIMESTAMP\<close> is a null pointer, so a
  method call on a value of that type has no defined meaning.
\<close>

section \<open>Printing\<close>

definition BooleanType_ToString :: "'d Value \<Rightarrow> string result" where
  "BooleanType_ToString val =
     bind_result (GetAs_int 8 val) (\<lambda>b.
       if b = 1 then Inr ''true'' else if b = 0 then Inr ''false'' else Inr ''boolean_null'')"

definition TinyintType_ToString :: "'d Value \<Rightarrow> string result" where
  "TinyintType_ToString val =
     (if \<not> CheckInteger val then Inl AssertionFailure
      else if IsNull val then Inr ''tinyint_null''
      else bind_result (GetAs_int 8 val) (\<lambda>x. Inr (to_string x)))"

definition IntegerType_ToString :: "'d Value \<Rightarrow> string result" where
  "IntegerType_ToString val =
     (if \<not> CheckInteger val then Inl AssertionFailure
      else if IsNull val then Inr ''integer_null''
      else bind_result (GetAs_int 32 val) (\<lambda>x. Inr (to_string x)))"

definition BigintType_ToString :: "'d Value \<Rightarrow> string result" where
  "BigintType_ToString val =
     (if \<not> CheckInteger val then Inl AssertionFailure
      else if IsNull val then Inr ''bigint_null''
      else bind_result (GetAs_int 64 val) (\<lambda>x. Inr (to_string x)))"

definition SmallintType_ToString :: "'d Value \<Rightarrow> string result" where
  "SmallintType_ToString val =
     (if \<not> CheckInteger val then Inl AssertionFailure
      else (case v_type val of
              TINYINT \<Rightarrow> if IsNull val then Inr ''tinyint_null''
                         else bind_result (GetAs_int 8 val) (\<lambda>x. Inr (to_string x))
            | SMALLINT \<Rightarrow> if IsNull val then Inr ''smallint_null''
                          else bind_result (GetAs_int 16 val) (\<lambda>x. Inr (to_string x))
            | INTEGER \<Rightarrow> if IsNull val then Inr ''integer_null''
                         else bind_result (GetAs_int 32 val) (\<lambda>x. Inr (to_string x))
            | BIGINT \<Rightarrow> if IsNull val then Inr ''bigint_null''
                        else bind_result (GetAs_int 64 val) (\<lambda>x. Inr (to_string x))
            | _ \<Rightarrow> Inl (Exception ET_INVALID)))"

definition DecimalType_ToString :: "'d double_ops \<Rightarrow> 'd Value \<Rightarrow> string result" where
  "DecimalType_ToString D val =
     (if IsNull val then Inr ''decimal_null''
      else bind_result (GetAs_double val) (\<lambda>d. Inr (d_to_string D d)))"

text \<open>
  \<^verbatim>\<open>std::string(ptr, n)\<close> reads \<open>n\<close> bytes behind the pointer.
\<close>

definition string_of_ptr :: "string option \<Rightarrow> int \<Rightarrow> string result" where
  "string_of_ptr p n =
     (case p of
        None \<Rightarrow> Inl UndefinedBehaviour
      | Some bs \<Rightarrow> if int (length bs) < n then Inl UndefinedBehaviour else Inr (take (nat n) bs))"

definition VarlenType_GetData :: "'d Value \<Rightarrow> string option result" where
  "VarlenType_GetData val = GetAs_varlen val"

definition VarlenType_GetLength :: "'d Value \<Rightarrow> int" where
  "VarlenType_GetLength val = v_len val"

definition VarlenType_ToString :: "'d Value \<Rightarrow> string result" where
  "VarlenType_ToString val =
     (let len = VarlenType_GetLength val
      in if IsNull val then Inr ''varlen_null''
         else if len = BUSTUB_VARCHAR_MAX_LEN then Inr ''varlen_max''
         else if len = 0 then Inr []
         else bind_result (VarlenType_GetData val) (\<lambda>p. string_of_ptr p (len - 1)))"

text \<open>\<^verbatim>\<open>%0kd\<close> of \<^verbatim>\<open>snprintf\<close> on a non-negative number.\<close>

definition zero_pad :: "nat \<Rightarrow> int \<Rightarrow> string" where
  "zero_pad k i = (let s = to_string i in replicate (k - length s) (CHR ''0'') @ s)"

definition TimestampType_ToString :: "'d Value \<Rightarrow> string result" where
  "TimestampType_ToString val =
     (if IsNull val then Inr ''timestamp_null''
      else bind_result (GetAs_uint64 val) (\<lambda>tm0.
        let micro = tm0 mod 1000000; tm1 = tm0 div 1000000;
            second0 = tm1 mod 100000; sec = second0 mod 60; second1 = second0 div 60;
            minute = second1 mod 60; second2 = second1 div 60; hour = second2 mod 24;
            tm2 = tm1 div 100000; year = tm2 mod 10000; tm3 = tm2 div 10000;
            tz = tm3 mod 27 - 12; tm4 = tm3 div 27; day = tm4 mod 32; month = tm4 div 32;
            str = zero_pad 4 year @ ''-'' @ zero_pad 2 month @ ''-'' @ zero_pad 2 day @ '' '' @
                  zero_pad 2 hour @ '':'' @ zero_pad 2 minute @ '':'' @ zero_pad 2 sec @ ''.'' @
                  zero_pad 6 micro
        in Inr (take 26 str @ (if tz \<ge> 0 then ''+'' else ''-'') @ zero_pad 2 (abs tz))))"

text \<open>Dispatch through \<^verbatim>\<open>k_types\<close>.\<close>

definition Type_ToString :: "'d double_ops \<Rightarrow> TypeId \<Rightarrow> 'd Value \<Rightarrow> string result" where
  "Type_ToString D t val =
     (case GetInstance t of
        None \<Rightarrow> Inl UndefinedBehaviour
      | Some INVALID \<Rightarrow> Type_not_implemented
      | Some BOOLEAN \<Rightarrow> BooleanType_ToString val
      | Some TINYINT \<Rightarrow> TinyintType_ToString val
      | Some SMALLINT \<Rightarrow> SmallintType_ToString val
      | Some INTEGER \<Rightarrow> IntegerType_ToString val
      | Some BIGINT \<Rightarrow> BigintType_ToString val
      | Some DECIMAL \<Rightarrow> DecimalType_ToString D val
      | Some VARCHAR \<Rightarrow> VarlenType_ToString val
      | Some TIMESTAMP \<Rightarrow> TimestampType_ToString val)"

definition ToString :: "'d double_ops \<Rightarrow> 'd Value \<Rightarrow> string result" where
  "ToString D val = Type_ToString D (v_type val) val"

section \<open>Copying\<close>

definition BooleanType_Copy :: "'d Value \<Rightarrow> 'd Value result" where
  "BooleanType_Copy val = bind_result (GetAs_int 8 val) (\<lambda>b. Value_int8 BOOLEAN b)"

definition TinyintType_Copy :: "'d Value \<Rightarrow> 'd Value result" where
  "TinyintType_Copy val =
     (if \<not> CheckInteger val then Inl AssertionFailure
      else bind_result (GetAs_int 8 val) (\<lambda>x. Value_int8 TINYINT x))"

definition SmallintType_Copy :: "'d Value \<Rightarrow> 'd Value result" where
  "SmallintType_Copy val =
     (if \<not> CheckInteger val then Inl AssertionFailure
      else bind_result (GetAs_int 16 val) (\<lambda>x. Value_int16 SMALLINT x))"

definition IntegerType_Copy :: "'d Value \<Rightarrow> 'd Value result" where
  "IntegerType_Copy val =
     (if \<not> CheckInteger val then Inl AssertionFailure
      else bind_result (GetAs_int 32 val) (\<lambda>x. Value_int32 (v_type val) x))"

definition BigintType_Copy :: "'d Value \<Rightarrow> 'd Value result" where
  "BigintType_Copy val = bind_result (GetAs_int 64 val) (\<lambda>x. Value_int64 BIGINT x)"

definition DecimalType_Copy :: "'d double_ops \<Rightarrow> 'd Value \<Rightarrow> 'd Value result" where
  "DecimalType_Copy D val = bind_result (GetAs_double val) (\<lambda>d. Value_double D DECIMAL d)"

definition VarlenType_Copy :: "'d Value \<Rightarrow> 'd Value result" where
  "VarlenType_Copy val = Value_copy val"

definition TimestampType_Copy :: "'d Value \<Rightarrow> 'd Value result" where
  "TimestampType_Copy val = Value_copy val"

definition Copy :: "'d double_ops \<Rightarrow> 'd Value \<Rightarrow> 'd Value result" where
  "Copy D val =
     (case GetInstance (v_type val) of
        None \<Rightarrow> Inl UndefinedBehaviour
      | Some INVALID \<Rightarrow> Type_not_implemented
      | Some BOOLEAN \<Rightarrow> BooleanType_Copy val
      | Some TINYINT \<Rightarrow> TinyintType_Copy val
      | Some SMALLINT \<Rightarrow> SmallintType_Copy val
      | Some INTEGER \<Rightarrow> IntegerType_Copy val
      | Some BIGINT \<Rightarrow> BigintType_Copy val
      | Some DECIMAL \<Rightarrow> DecimalType_Copy D val
      | Some VARCHAR \<Rightarrow> VarlenType_Copy val
      | Some TIMESTAMP \<Rightarrow> TimestampType_Copy val)"

section \<open>Casting\<close>

text \<open>
  \<open>out_of_range\<close> is the exception of the range checks; \<open>d_cast_int\<close> is
  \<^verbatim>\<open>static_cast\<close> from a double, undefined when the truncated number does not fit.
\<close>

definition out_of_range :: "'a result" where
  "out_of_range = Inl (Exception ET_OUT_OF_RANGE)"

definition d_cast_int :: "'d double_ops \<Rightarrow> nat \<Rightarrow> 'd \<Rightarrow> int result" where
  "d_cast_int D w d =
     (case d_to_int D d of
        Some i \<Rightarrow> if in_sint w i then Inr i else Inl UndefinedBehaviour
      | None \<Rightarrow> Inl UndefinedBehaviour)"

definition BooleanType_CastAs :: "'d double_ops \<Rightarrow> 'd Value \<Rightarrow> TypeId \<Rightarrow> 'd Value result" where
  "BooleanType_CastAs D val t =
     (case t of
        BOOLEAN \<Rightarrow> BooleanType_Copy val
      | VARCHAR \<Rightarrow> if IsNull val then Value_varlen VARCHAR None 0 False
                   else bind_result (ToString D val) (\<lambda>s. Value_string VARCHAR s)
      | _ \<Rightarrow> Inl (Exception ET_INVALID))"

definition TinyintType_CastAs :: "'d double_ops \<Rightarrow> 'd Value \<Rightarrow> TypeId \<Rightarrow> 'd Value result" where
  "TinyintType_CastAs D val t =
     (case t of
        TINYINT \<Rightarrow>
          if IsNull val then Value_int8 t BUSTUB_INT8_NULL
          else TinyintType_Copy val
      | SMALLINT \<Rightarrow>
          if IsNull val then Value_int16 t BUSTUB_INT16_NULL
          else bind_result (GetAs_int 8 val) (\<lambda>x. Value_int16 t (scast 16 x))
      | INTEGER \<Rightarrow>
          if IsNull val then Value_int32 t BUSTUB_INT32_NULL
          else bind_result (GetAs_int 8 val) (\<lambda>x. Value_int32 t (scast 32 x))
      | BIGINT \<Rightarrow>
          if IsNull val then Value_int64 t BUSTUB_INT64_NULL
          else bind_result (GetAs_int 8 val) (\<lambda>x. Value_int64 t (scast 64 x))
      | DECIMAL \<Rightarrow>
          if IsNull val then Value_double D t (BUSTUB_DECIMAL_NULL D)
          else bind_result (GetAs_int 8 val) (\<lambda>x. Value_double D t (d_of_int D x))
      | VARCHAR \<Rightarrow>
          if IsNull val then Value_varlen VARCHAR None 0 False
          else bind_result (ToString D val) (\<lambda>s. Value_string VARCHAR s)
      | _ \<Rightarrow> Inl (Exception ET_INVALID))"

definition SmallintType_CastAs :: "'d double_ops \<Rightarrow> 'd Value \<Rightarrow> TypeId \<Rightarrow> 'd Value result" where
  "SmallintType_CastAs D val t =
     (case t of
        TINYINT \<Rightarrow>
          if IsNull val then Value_int8 t BUSTUB_INT8_NULL
          else bind_result (GetAs_int 16 val) (\<lambda>x.
            if x > BUSTUB_INT8_MAX \<or> x < BUSTUB_INT8_MIN then out_of_range
            else Value_int8 t (scast 8 x))
      | SMALLINT \<Rightarrow>
          if IsNull val then Value_int16 t BUSTUB_INT16_NULL
          else SmallintType_Copy val
      | INTEGER \<Rightarrow>
          if IsNull val then Value_int32 t BUSTUB_INT32_NULL
          else bind_result (GetAs_int 16 val) (\<lambda>x. Value_int32 t (scast 32 x))
      | BIGINT \<Rightarrow>
          if IsNull val then Value_int64 t BUSTUB_INT64_NULL
          else bind_result (GetAs_int 16 val) (\<lambda>x. Value_int64 t (scast 64 x))
      | DECIMAL \<Rightarrow>
          if IsNull val then Value_double D t (BUSTUB_DECIMAL_NULL D)
          else bind_result (GetAs_int 16 val) (\<lambda>x. Value_double D t (d_of_int D x))
      | VARCHAR \<Rightarrow>
          if IsNull val then Value_varlen VARCHAR None 0 False
          else bind_result (ToString D val) (\<lambda>s. Value_string VARCHAR s)
      | _ \<Rightarrow> Inl (Exception ET_INVALID))"

definition IntegerType_CastAs :: "'d double_ops \<Rightarrow> 'd Value \<Rightarrow> TypeId \<Rightarrow> 'd Value result" where
  "IntegerType_CastAs D val t =
     (case t of
        TINYINT \<Rightarrow>
          if IsNull val then Value_int8 t BUSTUB_INT8_NULL
          else bind_result (GetAs_int 32 val) (\<lambda>x.
            if x > BUSTUB_INT8_MAX \<or> x < BUSTUB_INT8_MIN then out_of_range
            else Value_int8 t (scast 8 x))
      | SMALLINT \<Rightarrow>
          if IsNull val then Value_int16 t BUSTUB_INT16_NULL
          else bind_result (GetAs_int 32 val) (\<lambda>x.
            if x > BUSTUB_INT16_MAX \<or> x < BUSTUB_INT16_MIN then out_of_range
            else Value_int16 t (scast 16 x))
      | INTEGER \<Rightarrow>
          if IsNull val then Value_int32 t BUSTUB_INT32_NULL
          else bind_result (GetAs_int 32 val) (\<lambda>x. Value_int32 t (scast 32 x))
      | BIGINT \<Rightarrow>
          if IsNull val then Value_int64 t BUSTUB_INT64_NULL
          else bind_result (GetAs_int 32 val) (\<lambda>x. Value_int64 t (scast 64 x))
      | DECIMAL \<Rightarrow>
          if IsNull val then Value_double D t (BUSTUB_DECIMAL_NULL D)
          else bind_result (GetAs_int 32 val) (\<lambda>x. Value_double D t (d_of_int D x))
      | VARCHAR \<Rightarrow>
          if IsNull val then Value_varlen VARCHAR None 0 False
          else bind_result (ToString D val) (\<lambda>s. Value_string VARCHAR s)
      | _ \<Rightarrow> Inl (Exception ET_INVALID))"

definition BigintType_CastAs :: "'d double_ops \<Rightarrow> 'd Value \<Rightarrow> TypeId \<Rightarrow> 'd Value result" where
  "BigintType_CastAs D val t =
     (case t of
        TINYINT \<Rightarrow>
          if IsNull val then Value_int8 t BUSTUB_INT8_NULL
          else bind_result (GetAs_int 64 val) (\<lambda>x.
            if x > BUSTUB_INT8_MAX \<or> x < BUSTUB_INT8_MIN then out_of_range
            else Value_int8 t (scast 8 x))
      | SMALLINT \<Rightarrow>
          if IsNull val then Value_int16 t BUSTUB_INT16_NULL
          else bind_result (GetAs_int 64 val) (\<lambda>x.
            if x > BUSTUB_INT16_MAX \<or> x < BUSTUB_INT16_MIN then out_of_range
            else Value_int16 t (scast 16 x))
      | INTEGER \<Rightarrow>
          if IsNull val then Value_int32 t BUSTUB_INT32_NULL
          else bind_result (GetAs_int 64 val) (\<lambda>x.
            if x > BUSTUB_INT32_MAX \<or> x < BUSTUB_INT32_MIN then out_of_range
            else Value_int32 t (scast 32 x))
      | BIGINT \<Rightarrow>
          if IsNull val then Value_int64 t BUSTUB_INT64_NULL
          else BigintType_Copy val
      | DECIMAL \<Rightarrow>
          if IsNull val then Value_double D t (BUSTUB_DECIMAL_NULL D)
          else bind_result (GetAs_int 64 val) (\<lambda>x. Value_double D t (d_of_int D x))
      | VARCHAR \<Rightarrow>
          if IsNull val then Value_varlen VARCHAR None 0 False
          else bind_result (ToString D val) (\<lambda>s. Value_string VARCHAR s)
      | _ \<Rightarrow> Inl (Exception ET_INVALID))"

definition DecimalType_CastAs :: "'d double_ops \<Rightarrow> 'd Value \<Rightarrow> TypeId \<Rightarrow> 'd Value result" where
  "DecimalType_CastAs D val t =
     (case t of
        TINYINT \<Rightarrow>
          if IsNull val then Value_int8 t BUSTUB_INT8_NULL
          else bind_result (GetAs_double val) (\<lambda>d.
            if d_lt D (d_of_int D BUSTUB_INT8_MAX) d \<or> d_lt D d (d_of_int D BUSTUB_INT8_MIN)
            then out_of_range
            else bind_result (d_cast_int D 8 d) (\<lambda>x. Value_int8 t x))
      | SMALLINT \<Rightarrow>
          if IsNull val then Value_int16 t BUSTUB_INT16_NULL
          else bind_result (GetAs_double val) (\<lambda>d.
            if d_lt D (d_of_int D BUSTUB_INT16_MAX) d \<or> d_lt D d (d_of_int D BUSTUB_INT16_MIN)
            then out_of_range
            else bind_result (d_cast_int D 16 d) (\<lambda>x. Value_int16 t x))
      | INTEGER \<Rightarrow>
          if IsNull val then Value_int32 t BUSTUB_INT32_NULL
          else bind_result (GetAs_double val) (\<lambda>d.
            if d_lt D (d_of_int D BUSTUB_INT32_MAX) d \<or> d_lt D d (d_of_int D BUSTUB_INT32_MIN)
            then out_of_range
            else bind_result (d_cast_int D 32 d) (\<lambda>x. Value_int32 t x))
      | BIGINT \<Rightarrow>
          if IsNull val then Value_int64 t BUSTUB_INT64_NULL
          else bind_result (GetAs_double val) (\<lambda>d.
            if d_le D (d_of_int D BUSTUB_INT64_MAX) d \<or> d_lt D d (d_of_int D BUSTUB_INT64_MIN)
            then out_of_range
            else bind_result (d_cast_int D 64 d) (\<lambda>x. Value_int64 t x))
      | DECIMAL \<Rightarrow> Copy D val
      | VARCHAR \<Rightarrow>
          if IsNull val then Value_varlen VARCHAR None 0 False
          else bind_result (ToString D val) (\<lambda>s. Value_string VARCHAR s)
      | _ \<Rightarrow> Inl (Exception ET_INVALID))"

text \<open>
  A \<^verbatim>\<open>std::out_of_range\<close> of the parser is turned into the exception of the
  range checks; the string casts have no handler for \<^verbatim>\<open>std::invalid_argument\<close>.
\<close>

definition parse_result :: "'a parsed \<Rightarrow> 'a result" where
  "parse_result p =
     (case p of Parsed x \<Rightarrow> Inr x | ParseOutOfRange \<Rightarrow> out_of_range | ParseInvalid \<Rightarrow> Inl InvalidArgument)"

definition tolower :: "char \<Rightarrow> char" where
  "tolower c = (let n = of_char c :: nat in if 65 \<le> n \<and> n \<le> 90 then char_of (n + 32) else c)"

definition VarlenType_CastAs :: "'d double_ops \<Rightarrow> 'd Value \<Rightarrow> TypeId \<Rightarrow> 'd Value result" where
  "VarlenType_CastAs D val t =
     (case t of
        BOOLEAN \<Rightarrow>
          bind_result (ToString D val) (\<lambda>s.
            let str = map tolower s
            in if str = ''true'' \<or> str = ''1'' \<or> str = ''t'' then Value_int32 t 1
               else if str = ''false'' \<or> str = ''0'' \<or> str = ''f'' then Value_int32 t 0
               else Inl (Exception ET_INVALID))
      | TINYINT \<Rightarrow>
          bind_result (ToString D val) (\<lambda>s. bind_result (parse_result (stoi s)) (\<lambda>i.
            let tinyint = scast 8 i
            in if tinyint < BUSTUB_INT8_MIN then out_of_range else Value_int8 t tinyint))
      | SMALLINT \<Rightarrow>
          bind_result (ToString D val) (\<lambda>s. bind_result (parse_result (stoi s)) (\<lambda>i.
            let smallint = scast 16 i
            in if smallint < BUSTUB_INT16_MIN then out_of_range else Value_int16 t smallint))
      | INTEGER \<Rightarrow>
          bind_result (ToString D val) (\<lambda>s. bind_result (parse_result (stoi s)) (\<lambda>i.
            if i > BUSTUB_INT32_MAX \<or> i < BUSTUB_INT32_MIN then out_of_range else Value_int32 t i))
      | BIGINT \<Rightarrow>
          bind_result (ToString D val) (\<lambda>s. bind_result (parse_result (stoll s)) (\<lambda>i.
            if i > BUSTUB_INT64_MAX \<or> i < BUSTUB_INT64_MIN then out_of_range else Value_int64 t i))
      | DECIMAL \<Rightarrow>
          bind_result (ToString D val) (\<lambda>s. bind_result (parse_result (d_stod D s)) (\<lambda>d.
            if d_lt D (BUSTUB_DECIMAL_MAX D) d \<or> d_lt D d (BUSTUB_DECIMAL_MIN D) then out_of_range
            else Value_double D t d))
      | VARCHAR \<Rightarrow> Copy D val
      | _ \<Rightarrow> Inl (Exception ET_INVALID))"

text \<open>
  \<^verbatim>\<open>TimestampType::CastAs\<close>; for a target it does not support, the text of its
  exception is computed by the target's own \<^verbatim>\<open>ToString\<close>.
\<close>

definition TimestampType_CastAs :: "'d double_ops \<Rightarrow> 'd Value \<Rightarrow> TypeId \<Rightarrow> 'd Value result" where
  "TimestampType_CastAs D val t =
     (case t of
        TIMESTAMP \<Rightarrow> TimestampType_Copy val
      | VARCHAR \<Rightarrow> if IsNull val then Value_varlen VARCHAR None 0 False
                   else bind_result (ToString D val) (\<lambda>s. Value_string VARCHAR s)
      | _ \<Rightarrow> bind_result (Type_ToString D t val) (\<lambda>s. Inl (Exception ET_INVALID)))"

definition CastAs :: "'d double_ops \<Rightarrow> 'd Value \<Rightarrow> TypeId \<Rightarrow> 'd Value result" where
  "CastAs D val t =
     (case GetInstance (v_type val) of
        None \<Rightarrow> Inl UndefinedBehaviour
      | Some INVALID \<Rightarrow> Type_not_implemented
      | Some BOOLEAN \<Rightarrow> BooleanType_CastAs D val t
      | Some TINYINT \<Rightarrow> TinyintType_CastAs D val t
      | Some SMALLINT \<Rightarrow> SmallintType_CastAs D val t
      | Some INTEGER \<Rightarrow> IntegerType_CastAs D val t
      | Some BIGINT \<Rightarrow> BigintType_CastAs D val t
      | Some DECIMAL \<Rightarrow> DecimalType_CastAs D val t
      | Some VARCHAR \<Rightarrow> VarlenType_CastAs D val t
      | Some TIMESTAMP \<Rightarrow> TimestampType_CastAs D val t)"

section \<open>Nulls and zeros\<close>

definition TinyintType_OperateNull :: "'d double_ops \<Rightarrow> 'd Value \<Rightarrow> 'd Value \<Rightarrow> 'd Value result" where
  "TinyintType_OperateNull D left right =
     (case v_type right of
        TINYINT \<Rightarrow> Value_int8 TINYINT BUSTUB_INT8_NULL
      | SMALLINT \<Rightarrow> Value_int16 SMALLINT BUSTUB_INT16_NULL
      | INTEGER \<Rightarrow> Value_int32 INTEGER BUSTUB_INT32_NULL
      | BIGINT \<Rightarrow> Value_int64 BIGINT BUSTUB_INT64_NULL
      | DECIMAL \<Rightarrow> Value_double D DECIMAL (BUSTUB_DECIMAL_NULL D)
      | _ \<Rightarrow> Inl (Exception ET_INVALID))"

definition SmallintType_OperateNull :: "'d double_ops \<Rightarrow> 'd Value \<Rightarrow> 'd Value \<Rightarrow> 'd Value result" where
  "SmallintType_OperateNull D left right =
     (case v_type right of
        TINYINT \<Rightarrow> Value_int16 SMALLINT BUSTUB_INT16_NULL
      | SMALLINT \<Rightarrow> Value_int16 SMALLINT BUSTUB_INT16_NULL
      | INTEGER \<Rightarrow> Value_int32 INTEGER BUSTUB_INT32_NULL
      | BIGINT \<Rightarrow> Value_int64 BIGINT BUSTUB_INT64_NULL
      | DECIMAL \<Rightarrow> Value_double D DECIMAL (BUSTUB_DECIMAL_NULL D)
      | _ \<Rightarrow> Inl (Exception ET_INVALID))"

definition IntegerType_OperateNull :: "'d double_ops \<Rightarrow> 'd Value \<Rightarrow> 'd Value \<Rightarrow> 'd Value result" where
  "IntegerType_OperateNull D left right =
     (case v_type right of
        TINYINT \<Rightarrow> Value_int32 INTEGER BUSTUB_INT32_NULL
      | SMALLINT \<Rightarrow> Value_int32 INTEGER BUSTUB_INT32_NULL
      | INTEGER \<Rightarrow> Value_int32 INTEGER BUSTUB_INT32_NULL
      | BIGINT \<Rightarrow> Value_int64 BIGINT BUSTUB_INT64_NULL
      | DECIMAL \<Rightarrow> Value_double D DECIMAL (BUSTUB_DECIMAL_NULL D)
      | _ \<Rightarrow> Inl (Exception ET_INVALID))"

definition BigintType_OperateNull :: "'d double_ops \<Rightarrow> 'd Value \<Rightarrow> 'd Value \<Rightarrow> 'd Value result" where
  "BigintType_OperateNull D left right =
     (case v_type right of
        TINYINT \<Rightarrow> Value_int64 BIGINT BUSTUB_INT64_NULL
      | SMALLINT \<Rightarrow> Value_int64 BIGINT BUSTUB_INT64_NULL
      | INTEGER \<Rightarrow> Value_int64 BIGINT BUSTUB_INT64_NULL
      | BIGINT \<Rightarrow> Value_int64 BIGINT BUSTUB_INT64_NULL
      | DECIMAL \<Rightarrow> Value_double D DECIMAL (BUSTUB_DECIMAL_NULL D)
      | _ \<Rightarrow> Inl (Exception ET_INVALID))"

definition DecimalType_OperateNull :: "'d double_ops \<Rightarrow> 'd Value \<Rightarrow> 'd Value \<Rightarrow> 'd Value result" where
  "DecimalType_OperateNull D left right = Value_double D DECIMAL (BUSTUB_DECIMAL_NULL D)"

definition OperateNull :: "'d double_ops \<Rightarrow> 'd Value \<Rightarrow> 'd Value \<Rightarrow> 'd Value result" where
  "OperateNull D left right =
     (case GetInstance (v_type left) of
        None \<Rightarrow> Inl UndefinedBehaviour
      | Some TINYINT \<Rightarrow> TinyintType_OperateNull D left right
      | Some SMALLINT \<Rightarrow> SmallintType_OperateNull D left right
      | Some INTEGER \<Rightarrow> IntegerType_OperateNull D left right
      | Some BIGINT \<Rightarrow> BigintType_OperateNull D left right
      | Some DECIMAL \<Rightarrow> DecimalType_OperateNull D left right
      | _ \<Rightarrow> Type_not_implemented)"

definition TinyintType_IsZero :: "'d Value \<Rightarrow> bool result" where
  "TinyintType_IsZero val = bind_result (GetAs_int 8 val) (\<lambda>x. Inr (x = 0))"

definition SmallintType_IsZero :: "'d Value \<Rightarrow> bool result" where
  "SmallintType_IsZero val = bind_result (GetAs_int 16 val) (\<lambda>x. Inr (x = 0))"

definition IntegerType_IsZero :: "'d Value \<Rightarrow> bool result" where
  "IntegerType_IsZero val = bind_result (GetAs_int 32 val) (\<lambda>x. Inr (x = 0))"

definition BigintType_IsZero :: "'d Value \<Rightarrow> bool result" where
  "BigintType_IsZero val = bind_result (GetAs_int 64 val) (\<lambda>x. Inr (x = 0))"

definition DecimalType_IsZero :: "'d double_ops \<Rightarrow> 'd Value \<Rightarrow> bool result" where
  "DecimalType_IsZero D val = bind_result (GetAs_double val) (\<lambda>d. Inr (d_eq D d (d_of_int D 0)))"

definition IsZero :: "'d double_ops \<Rightarrow> 'd Value \<Rightarrow> bool result" where
  "IsZero D val =
     (case GetInstance (v_type val) of
        None \<Rightarrow> Inl UndefinedBehaviour
      | Some TINYINT \<Rightarrow> TinyintType_IsZero val
      | Some SMALLINT \<Rightarrow> SmallintType_IsZero val
      | Some INTEGER \<Rightarrow> IntegerType_IsZero val
      | Some BIGINT \<Rightarrow> BigintType_IsZero val
      | Some DECIMAL \<Rightarrow> DecimalType_IsZero D val
      | _ \<Rightarrow> Type_not_implemented)"

section \<open>Serialisation\<close>

definition BooleanType_SerializeTo :: "'d Value \<Rightarrow> byte list \<Rightarrow> byte list result" where
  "BooleanType_SerializeTo val storage =
     bind_result (GetAs_int 8 val) (\<lambda>b. store_bytes (le_bytes 1 b) storage)"

definition BooleanType_DeserializeFrom :: "byte list \<Rightarrow> 'd Value result" where
  "BooleanType_DeserializeFrom storage =
     bind_result (load_bytes 1 storage) (\<lambda>bs. Value_int8 BOOLEAN (le_sint bs))"

definition TinyintType_SerializeTo :: "'d Value \<Rightarrow> byte list \<Rightarrow> byte list result" where
  "TinyintType_SerializeTo val storage =
     bind_result (GetAs_int 8 val) (\<lambda>x. store_bytes (le_bytes 1 x) storage)"

definition TinyintType_DeserializeFrom :: "byte list \<Rightarrow> 'd Value result" where
  "TinyintType_DeserializeFrom storage =
     bind_result (load_bytes 1 storage) (\<lambda>bs. Value_int8 TINYINT (le_sint bs))"

definition SmallintType_SerializeTo :: "'d Value \<Rightarrow> byte list \<Rightarrow> byte list result" where
  "SmallintType_SerializeTo val storage =
     bind_result (GetAs_int 16 val) (\<lambda>x. store_bytes (le_bytes 2 x) storage)"

definition SmallintType_DeserializeFrom :: "byte list \<Rightarrow> 'd Value result" where
  "SmallintType_DeserializeFrom storage =
     bind_result (load_bytes 2 storage) (\<lambda>bs. Value_int16 SMALLINT (le_sint bs))"

definition IntegerType_SerializeTo :: "'d Value \<Rightarrow> byte list \<Rightarrow> byte list result" where
  "IntegerType_SerializeTo val storage =
     bind_result (GetAs_int 32 val) (\<lambda>x. store_bytes (le_bytes 4 x) storage)"

definition IntegerType_DeserializeFrom :: "byte list \<Rightarrow> 'd Value result" where
  "IntegerType_DeserializeFrom storage =
     bind_result (load_bytes 4 storage) (\<lambda>bs. Value_int32 INTEGER (le_sint bs))"

definition BigintType_SerializeTo :: "'d Value \<Rightarrow> byte list \<Rightarrow> byte list result" where
  "BigintType_SerializeTo val storage =
     bind_result (GetAs_int 64 val) (\<lambda>x. store_bytes (le_bytes 8 x) storage)"

definition BigintType_DeserializeFrom :: "byte list \<Rightarrow> 'd Value result" where
  "BigintType_DeserializeFrom storage =
     bind_result (load_bytes 8 storage) (\<lambda>bs. Value_int64 BIGINT (le_sint bs))"

definition DecimalType_SerializeTo :: "'d double_ops \<Rightarrow> 'd Value \<Rightarrow> byte list \<Rightarrow> byte list result" where
  "DecimalType_SerializeTo D val storage =
     bind_result (GetAs_double val) (\<lambda>d. store_bytes (d_bytes D d) storage)"

definition DecimalType_DeserializeFrom :: "'d double_ops \<Rightarrow> byte list \<Rightarrow> 'd Value result" where
  "DecimalType_DeserializeFrom D storage =
     bind_result (load_bytes 8 storage) (\<lambda>bs. Value_double D DECIMAL (d_of_bytes D bs))"

definition TimestampType_SerializeTo :: "'d Value \<Rightarrow> byte list \<Rightarrow> byte list result" where
  "TimestampType_SerializeTo val storage =
     bind_result (GetAs_uint64 val) (\<lambda>x. store_bytes (le_bytes 8 x) storage)"

definition TimestampType_DeserializeFrom :: "byte list \<Rightarrow> 'd Value result" where
  "TimestampType_DeserializeFrom storage =
     bind_result (load_bytes 8 storage) (\<lambda>bs. Value_uint64 TIMESTAMP (le_uint bs))"

text \<open>A string is stored as its length and its bytes.\<close>

definition VarlenType_SerializeTo :: "'d Value \<Rightarrow> byte list \<Rightarrow> byte list result" where
  "VarlenType_SerializeTo val storage =
     (let len = VarlenType_GetLength val
      in if len = BUSTUB_VALUE_NULL then store_bytes (le_bytes 4 len) storage
         else bind_result (VarlenType_GetData val) (\<lambda>p. bind_result (string_of_ptr p len) (\<lambda>s.
                store_bytes (le_bytes 4 len @ map char_byte s) storage)))"

definition VarlenType_DeserializeFrom :: "byte list \<Rightarrow> 'd Value result" where
  "VarlenType_DeserializeFrom storage =
     bind_result (load_bytes 4 storage) (\<lambda>bs.
       let len = le_uint bs
       in if len = BUSTUB_VALUE_NULL then Value_varlen VARCHAR None len False
          else Value_varlen VARCHAR (Some (map byte_char (drop 4 storage))) len True)"

definition SerializeTo :: "'d double_ops \<Rightarrow> 'd Value \<Rightarrow> byte list \<Rightarrow> byte list result" where
  "SerializeTo D val storage =
     (case GetInstance (v_type val) of
        None \<Rightarrow> Inl UndefinedBehaviour
      | Some INVALID \<Rightarrow> Type_not_implemented
      | Some BOOLEAN \<Rightarrow> BooleanType_SerializeTo val storage
      | Some TINYINT \<Rightarrow> TinyintType_SerializeTo val storage
      | Some SMALLINT \<Rightarrow> SmallintType_SerializeTo val storage
      | Some INTEGER \<Rightarrow> IntegerType_SerializeTo val storage
      | Some BIGINT \<Rightarrow> BigintType_SerializeTo val storage
      | Some DECIMAL \<Rightarrow> DecimalType_SerializeTo D val storage
      | Some VARCHAR \<Rightarrow> VarlenType_SerializeTo val storage
      | Some TIMESTAMP \<Rightarrow> TimestampType_SerializeTo val storage)"

definition DeserializeFrom :: "'d double_ops \<Rightarrow> byte list \<Rightarrow> TypeId \<Rightarrow> 'd Value result" where
  "DeserializeFrom D storage t =
     (case GetInstance t of
        None \<Rightarrow> Inl UndefinedBehaviour
      | Some INVALID \<Rightarrow> Type_not_implemented
      | Some BOOLEAN \<Rightarrow> BooleanType_DeserializeFrom storage
      | Some TINYINT \<Rightarrow> TinyintType_DeserializeFrom storage
      | Some SMALLINT \<Rightarrow> SmallintType_DeserializeFrom storage
      | Some INTEGER \<Rightarrow> IntegerType_DeserializeFrom storage
      | Some BIGINT \<Rightarrow> BigintType_DeserializeFrom storage
      | Some DECIMAL \<Rightarrow> DecimalType_DeserializeFrom D storage
      | Some VARCHAR \<Rightarrow> VarlenType_DeserializeFrom storage
      | Some TIMESTAMP \<Rightarrow> TimestampType_DeserializeFrom storage)"

definition GetData :: "'d Value \<Rightarrow> string option result" where
  "GetData val =
     (case GetInstance (v_type val) of
        None \<Rightarrow> Inl UndefinedBehaviour
      | Some VARCHAR \<Rightarrow> VarlenType_GetData val
      | _ \<Rightarrow> Type_not_implemented)"

definition GetLength :: "'d Value \<Rightarrow> int result" where
  "GetLength val =
     (case GetInstance (v_type val) of
        None \<Rightarrow> Inl UndefinedBehaviour
      | Some VARCHAR \<Rightarrow> Inr (VarlenType_GetLength val)
      | _ \<Rightarrow> Type_not_implemented)"

end
