(* ===== verification/TypeArith.thy ===== *)
theory TypeArith
  imports TypeCasts
begin

text \<open>
  The binary methods of the type classes: comparison, arithmetic, minimum, maximum and square
  root, one definition per class and method.  The preprocessor macros that the classes are
  written with are definitions of their own, and so are the member templates of
  \<^verbatim>\<open>src/include/type/integer_parent_type.h\<close>, which take the widths of their two type
  parameters as arguments.  The dispatch of \<^verbatim>\<open>value.h\<close> closes the theory.
\<close>

section \<open>Integer templates\<close>

text \<open>
  Operands narrower than \<^verbatim>\<open>int\<close> are promoted to it, so an operation is computed
  with 32 bits unless one operand has 64; a result outside that type is a signed overflow,
  which has no defined meaning.  \<open>Value_int\<close> selects the constructor by the static type
  of the number.
\<close>

definition promoted :: "nat \<Rightarrow> nat \<Rightarrow> nat" where
  "promoted w1 w2 = max 32 (max w1 w2)"

definition checked :: "nat \<Rightarrow> nat \<Rightarrow> int \<Rightarrow> int result" where
  "checked w1 w2 i = (if in_sint (promoted w1 w2) i then Inr i else Inl UndefinedBehaviour)"

definition Value_int :: "nat \<Rightarrow> TypeId \<Rightarrow> int \<Rightarrow> 'd Value result" where
  "Value_int w t i =
     (if w = 8 then Value_int8 t i else if w = 16 then Value_int16 t i
      else if w = 32 then Value_int32 t i else Value_int64 t i)"

text \<open>\<^verbatim>\<open>/\<close> and \<^verbatim>\<open>%\<close> truncate towards zero.\<close>

definition quot :: "int \<Rightarrow> int \<Rightarrow> int" where
  "quot x y = sgn x * sgn y * (abs x div abs y)"

definition remainder :: "int \<Rightarrow> int \<Rightarrow> int" where
  "remainder x y = x - y * quot x y"

definition AddValue :: "nat \<Rightarrow> nat \<Rightarrow> 'd Value \<Rightarrow> 'd Value \<Rightarrow> 'd Value result" where
  "AddValue w1 w2 left right =
     bind_result (GetAs_int w1 left) (\<lambda>x. bind_result (GetAs_int w2 right) (\<lambda>y.
     bind_result (checked w1 w2 (x + y)) (\<lambda>s.
       let sum1 = scast w1 s; sum2 = scast w2 s
       in if s \<noteq> sum1 \<and> s \<noteq> sum2 then out_of_range
          else if w1 \<ge> w2 then
            if (x > 0 \<and> y > 0 \<and> sum1 < 0) \<or> (x < 0 \<and> y < 0 \<and> sum1 > 0) then out_of_range
            else Value_int w1 (v_type left) sum1
          else if (x > 0 \<and> y > 0 \<and> sum2 < 0) \<or> (x < 0 \<and> y < 0 \<and> sum2 > 0) then out_of_range
          else Value_int w2 (v_type right) sum2)))"

definition SubtractValue :: "nat \<Rightarrow> nat \<Rightarrow> 'd Value \<Rightarrow> 'd Value \<Rightarrow> 'd Value result" where
  "SubtractValue w1 w2 left right =
     bind_result (GetAs_int w1 left) (\<lambda>x. bind_result (GetAs_int w2 right) (\<lambda>y.
     bind_result (checked w1 w2 (x - y)) (\<lambda>s.
       let diff1 = scast w1 s; diff2 = scast w2 s
       in if s \<noteq> diff1 \<and> s \<noteq> diff2 then out_of_range
          else if w1 \<ge> w2 then
            if (x > 0 \<and> y < 0 \<and> diff1 < 0) \<or> (x < 0 \<and> y > 0 \<and> diff1 > 0) then out_of_range
            else Value_int w1 (v_type left) diff1
          else if (x > 0 \<and> y < 0 \<and> diff2 < 0) \<or> (x < 0 \<and> y > 0 \<and> diff2 > 0) then out_of_range
          else Value_int w2 (v_type right) diff2)))"

definition MultiplyValue :: "nat \<Rightarrow> nat \<Rightarrow> 'd Value \<Rightarrow> 'd Value \<Rightarrow> 'd Value result" where
  "MultiplyValue w1 w2 left right =
     bind_result (GetAs_int w1 left) (\<lambda>x. bind_result (GetAs_int w2 right) (\<lambda>y.
     bind_result (checked w1 w2 (x * y)) (\<lambda>p.
       let prod1 = scast w1 p; prod2 = scast w2 p
       in if p \<noteq> prod1 \<and> p \<noteq> prod2 then out_of_range
          else if w1 \<ge> w2 then
            bind_result (if y = 0 then Inr x else checked w1 w2 (quot prod1 y)) (\<lambda>q.
              if q \<noteq> x then out_of_range else Value_int w1 (v_type left) prod1)
          else
            bind_result (if y = 0 then Inr x else checked w1 w2 (quot prod2 y)) (\<lambda>q.
              if q \<noteq> x then out_of_range else Value_int w2 (v_type right) prod2))))"

definition DivideValue :: "nat \<Rightarrow> nat \<Rightarrow> 'd Value \<Rightarrow> 'd Value \<Rightarrow> 'd Value result" where
  "DivideValue w1 w2 left right =
     bind_result (GetAs_int w1 left) (\<lambda>x. bind_result (GetAs_int w2 right) (\<lambda>y.
       if y = 0 then Inl (Exception ET_DIVIDE_BY_ZERO)
       else bind_result (checked w1 w2 (quot x y)) (\<lambda>q.
         let quot1 = scast w1 q; quot2 = scast w2 q
         in if w1 \<ge> w2 then Value_int w1 (v_type left) quot1
            else Value_int w2 (v_type right) quot2)))"

definition ModuloValue :: "nat \<Rightarrow> nat \<Rightarrow> 'd Value \<Rightarrow> 'd Value \<Rightarrow> 'd Value result" where
  "ModuloValue w1 w2 left right =
     bind_result (GetAs_int w1 left) (\<lambda>x. bind_result (GetAs_int w2 right) (\<lambda>y.
       if y = 0 then Inl (Exception ET_DIVIDE_BY_ZERO)
       else bind_result (checked w1 w2 (quot x y)) (\<lambda>q.
         let quot1 = scast w1 (remainder x y); quot2 = scast w2 (remainder x y)
         in if w1 \<ge> w2 then Value_int w1 (v_type left) quot1
            else Value_int w2 (v_type right) quot2)))"

definition ValMod :: "'d double_ops \<Rightarrow> 'd \<Rightarrow> 'd \<Rightarrow> 'd" where
  "ValMod D x y = d_sub D x (d_mul D (d_trunc D (d_div D x y)) y)"

text \<open>
  The guards every comparison and every arithmetic method starts with: the assertions, then
  the answer for a null operand.
\<close>

abbreviation guarded :: "bool \<Rightarrow> 'a result \<Rightarrow> 'a result" where
  "guarded ok rest \<equiv> (if \<not> ok then Inl AssertionFailure else rest)"

definition type_error :: "'a result" where
  "type_error = Inl (Exception ET_INVALID)"

section \<open>TINYINT\<close>

definition TINYINT_COMPARE_FUNC :: "'d double_ops \<Rightarrow> cmp_op \<Rightarrow> 'd Value \<Rightarrow> 'd Value \<Rightarrow> CmpBool result" where
  "TINYINT_COMPARE_FUNC D rel left right =
     bind_result (GetAs_int 8 left) (\<lambda>x.
       case v_type right of
        TINYINT \<Rightarrow> bind_result (GetAs_int 8 right) (\<lambda>y. Inr (GetCmpBool (cmp_int rel x y)))
      | SMALLINT \<Rightarrow> bind_result (GetAs_int 16 right) (\<lambda>y. Inr (GetCmpBool (cmp_int rel x y)))
      | INTEGER \<Rightarrow> bind_result (GetAs_int 32 right) (\<lambda>y. Inr (GetCmpBool (cmp_int rel x y)))
      | BIGINT \<Rightarrow> bind_result (GetAs_int 64 right) (\<lambda>y. Inr (GetCmpBool (cmp_int rel x y)))
      | DECIMAL \<Rightarrow> bind_result (GetAs_double right) (\<lambda>y. Inr (GetCmpBool (cmp_double D rel (d_of_int D x) y)))
      | VARCHAR \<Rightarrow> bind_result (CastAs D right TINYINT) (\<lambda>r_value.
          bind_result (GetAs_int 8 r_value) (\<lambda>y. Inr (GetCmpBool (cmp_int rel x y))))
      | _ \<Rightarrow> type_error)"

definition TINYINT_MODIFY_FUNC ::
  "'d double_ops \<Rightarrow> (nat \<Rightarrow> nat \<Rightarrow> 'd Value \<Rightarrow> 'd Value \<Rightarrow> 'd Value result) \<Rightarrow> ('d \<Rightarrow> 'd \<Rightarrow> 'd) \<Rightarrow>
   'd Value \<Rightarrow> 'd Value \<Rightarrow> 'd Value result" where
  "TINYINT_MODIFY_FUNC D METHOD dop left right =
     (case v_type right of
        TINYINT \<Rightarrow> METHOD 8 8 left right
      | SMALLINT \<Rightarrow> METHOD 8 16 left right
      | INTEGER \<Rightarrow> METHOD 8 32 left right
      | BIGINT \<Rightarrow> METHOD 8 64 left right
      | DECIMAL \<Rightarrow> bind_result (GetAs_int 8 left) (\<lambda>x. bind_result (GetAs_double right) (\<lambda>y.
          Value_double D DECIMAL (dop (d_of_int D x) y)))
      | VARCHAR \<Rightarrow> bind_result (CastAs D right TINYINT) (\<lambda>r_value. METHOD 8 8 left r_value)
      | _ \<Rightarrow> type_error)"

definition TinyintType_CompareEquals :: "'d double_ops \<Rightarrow> 'd Value \<Rightarrow> 'd Value \<Rightarrow> CmpBool result" where
  "TinyintType_CompareEquals D left right =
     guarded (CheckInteger left \<and> CheckComparable left right)
       (if IsNull left \<or> IsNull right then Inr CmpNull else TINYINT_COMPARE_FUNC D OpEq left right)"

definition TinyintType_CompareNotEquals :: "'d double_ops \<Rightarrow> 'd Value \<Rightarrow> 'd Value \<Rightarrow> CmpBool result" where
  "TinyintType_CompareNotEquals D left right =
     guarded (CheckInteger left \<and> CheckComparable left right)
       (if IsNull left \<or> IsNull right then Inr CmpNull else TINYINT_COMPARE_FUNC D OpNe left right)"

definition TinyintType_CompareLessThan :: "'d double_ops \<Rightarrow> 'd Value \<Rightarrow> 'd Value \<Rightarrow> CmpBool result" where
  "TinyintType_CompareLessThan D left right =
     guarded (CheckInteger left \<and> CheckComparable left right)
       (if IsNull left \<or> IsNull right then Inr CmpNull else TINYINT_COMPARE_FUNC D OpLt left right)"

definition TinyintType_CompareLessThanEquals :: "'d double_ops \<Rightarrow> 'd Value \<Rightarrow> 'd Value \<Rightarrow> CmpBool result" where
  "TinyintType_CompareLessThanEquals D left right =
     guarded (CheckInteger left \<and> CheckComparable left right)
       (if IsNull left \<or> IsNull right then Inr CmpNull else TINYINT_COMPARE_FUNC D OpLe left right)"

definition TinyintType_CompareGreaterThan :: "'d double_ops \<Rightarrow> 'd Value \<Rightarrow> 'd Value \<Rightarrow> CmpBool result" where
  "TinyintType_CompareGreaterThan D left right =
     guarded (CheckInteger left \<and> CheckComparable left right)
       (if IsNull left \<or> IsNull right then Inr CmpNull else TINYINT_COMPARE_FUNC D OpGt left right)"

definition TinyintType_CompareGreaterThanEquals :: "'d double_ops \<Rightarrow> 'd Value \<Rightarrow> 'd Value \<Rightarrow> CmpBool result" where
  "TinyintType_CompareGreaterThanEquals D left right =
     guarded (CheckInteger left \<and> CheckComparable left right)
       (if IsNull left \<or> IsNull right then Inr CmpNull else TINYINT_COMPARE_FUNC D OpGe left right)"

definition TinyintType_Add :: "'d double_ops \<Rightarrow> 'd Value \<Rightarrow> 'd Value \<Rightarrow> 'd Value result" where
  "TinyintType_Add D left right =
     guarded (CheckInteger left \<and> CheckComparable left right)
       (if IsNull left \<or> IsNull right then OperateNull D left right
        else TINYINT_MODIFY_FUNC D AddValue (d_add D) left right)"

definition TinyintType_Subtract :: "'d double_ops \<Rightarrow> 'd Value \<Rightarrow> 'd Value \<Rightarrow> 'd Value result" where
  "TinyintType_Subtract D left right =
     guarded (CheckInteger left \<and> CheckComparable left right)
       (if IsNull left \<or> IsNull right then OperateNull D left right
        else TINYINT_MODIFY_FUNC D SubtractValue (d_sub D) left right)"

definition TinyintType_Multiply :: "'d double_ops \<Rightarrow> 'd Value \<Rightarrow> 'd Value \<Rightarrow> 'd Value result" where
  "TinyintType_Multiply D left right =
     guarded (CheckInteger left \<and> CheckComparable left right)
       (if IsNull left \<or> IsNull right then OperateNull D left right
        else TINYINT_MODIFY_FUNC D MultiplyValue (d_mul D) left right)"

definition TinyintType_Divide :: "'d double_ops \<Rightarrow> 'd Value \<Rightarrow> 'd Value \<Rightarrow> 'd Value result" where
  "TinyintType_Divide D left right =
     guarded (CheckInteger left \<and> CheckComparable left right)
       (if IsNull left \<or> IsNull right then OperateNull D left right
        else bind_result (IsZero D right) (\<lambda>z.
          if z then Inl (Exception ET_DIVIDE_BY_ZERO)
          else TINYINT_MODIFY_FUNC D DivideValue (d_div D) left right))"

definition TinyintType_Modulo :: "'d double_ops \<Rightarrow> 'd Value \<Rightarrow> 'd Value \<Rightarrow> 'd Value result" where
  "TinyintType_Modulo D left right =
     guarded (CheckInteger left \<and> CheckComparable left right)
       (if IsNull left \<or> IsNull right then OperateNull D left right
        else bind_result (IsZero D right) (\<lambda>z.
          if z then Inl (Exception ET_DIVIDE_BY_ZERO)
          else (case v_type right of
              TINYINT \<Rightarrow> ModuloValue 8 8 left right
            | SMALLINT \<Rightarrow> ModuloValue 8 16 left right
            | INTEGER \<Rightarrow> ModuloValue 8 32 left right
            | BIGINT \<Rightarrow> ModuloValue 8 64 left right
            | DECIMAL \<Rightarrow> bind_result (GetAs_int 8 left) (\<lambda>x. bind_result (GetAs_double right) (\<lambda>y.
                Value_double D DECIMAL (ValMod D (d_of_int D x) y)))
            | VARCHAR \<Rightarrow> bind_result (CastAs D right TINYINT) (\<lambda>r_value. ModuloValue 8 8 left r_value)
            | _ \<Rightarrow> type_error)))"

definition TinyintType_Sqrt :: "'d double_ops \<Rightarrow> 'd Value \<Rightarrow> 'd Value result" where
  "TinyintType_Sqrt D val =
     guarded (CheckInteger val)
       (if IsNull val then Value_double D DECIMAL (BUSTUB_DECIMAL_NULL D)
        else bind_result (GetAs_int 8 val) (\<lambda>x.
          if x < 0 then Inl (Exception ET_DECIMAL)
          else Value_double D DECIMAL (d_sqrt D (d_of_int D x))))"

section \<open>SMALLINT\<close>

definition SMALLINT_COMPARE_FUNC :: "'d double_ops \<Rightarrow> cmp_op \<Rightarrow> 'd Value \<Rightarrow> 'd Value \<Rightarrow> CmpBool result" where
  "SMALLINT_COMPARE_FUNC D rel left right =
     bind_result (GetAs_int 16 left) (\<lambda>x.
       case v_type right of
        TINYINT \<Rightarrow> bind_result (GetAs_int 8 right) (\<lambda>y. Inr (GetCmpBool (cmp_int rel x y)))
      | SMALLINT \<Rightarrow> bind_result (GetAs_int 16 right) (\<lambda>y. Inr (GetCmpBool (cmp_int rel x y)))
      | INTEGER \<Rightarrow> bind_result (GetAs_int 32 right) (\<lambda>y. Inr (GetCmpBool (cmp_int rel x y)))
      | BIGINT \<Rightarrow> bind_result (GetAs_int 64 right) (\<lambda>y. Inr (GetCmpBool (cmp_int rel x y)))
      | DECIMAL \<Rightarrow> bind_result (GetAs_double right) (\<lambda>y. Inr (GetCmpBool (cmp_double D rel (d_of_int D x) y)))
      | VARCHAR \<Rightarrow> bind_result (CastAs D right SMALLINT) (\<lambda>r_value.
          bind_result (GetAs_int 16 r_value) (\<lambda>y. Inr (GetCmpBool (cmp_int rel x y))))
      | _ \<Rightarrow> type_error)"

definition SMALLINT_MODIFY_FUNC ::
  "'d double_ops \<Rightarrow> (nat \<Rightarrow> nat \<Rightarrow> 'd Value \<Rightarrow> 'd Value \<Rightarrow> 'd Value result) \<Rightarrow> ('d \<Rightarrow> 'd \<Rightarrow> 'd) \<Rightarrow>
   'd Value \<Rightarrow> 'd Value \<Rightarrow> 'd Value result" where
  "SMALLINT_MODIFY_FUNC D METHOD dop left right =
     (case v_type right of
        TINYINT \<Rightarrow> METHOD 16 8 left right
      | SMALLINT \<Rightarrow> METHOD 16 16 left right
      | INTEGER \<Rightarrow> METHOD 16 32 left right
      | BIGINT \<Rightarrow> METHOD 16 64 left right
      | DECIMAL \<Rightarrow> bind_result (GetAs_int 16 left) (\<lambda>x. bind_result (GetAs_double right) (\<lambda>y.
          Value_double D DECIMAL (dop (d_of_int D x) y)))
      | VARCHAR \<Rightarrow> bind_result (CastAs D right SMALLINT) (\<lambda>r_value. METHOD 16 16 left r_value)
      | _ \<Rightarrow> type_error)"

definition SmallintType_CompareEquals :: "'d double_ops \<Rightarrow> 'd Value \<Rightarrow> 'd Value \<Rightarrow> CmpBool result" where
  "SmallintType_CompareEquals D left right =
     guarded (CheckInteger left \<and> CheckComparable left right)
       (if IsNull left \<or> IsNull right then Inr CmpNull else SMALLINT_COMPARE_FUNC D OpEq left right)"

definition SmallintType_CompareNotEquals :: "'d double_ops \<Rightarrow> 'd Value \<Rightarrow> 'd Value \<Rightarrow> CmpBool result" where
  "SmallintType_CompareNotEquals D left right =
     guarded (CheckInteger left \<and> CheckComparable left right)
       (if IsNull left \<or> IsNull right then Inr CmpNull else SMALLINT_COMPARE_FUNC D OpNe left right)"

definition SmallintType_CompareLessThan :: "'d double_ops \<Rightarrow> 'd Value \<Rightarrow> 'd Value \<Rightarrow> CmpBool result" where
  "SmallintType_CompareLessThan D left right =
     guarded (CheckInteger left \<and> CheckComparable left right)
       (if IsNull left \<or> IsNull right then Inr CmpNull else SMALLINT_COMPARE_FUNC D OpLt left right)"

definition SmallintType_CompareLessThanEquals :: "'d double_ops \<Rightarrow> 'd Value \<Rightarrow> 'd Value \<Rightarrow> CmpBool result" where
  "SmallintType_CompareLessThanEquals D left right =
     guarded (CheckInteger left \<and> CheckComparable left right)
       (if IsNull left \<or> IsNull right then Inr CmpNull else SMALLINT_COMPARE_FUNC D OpLe left right)"

definition SmallintType_CompareGreaterThan :: "'d double_ops \<Rightarrow> 'd Value \<Rightarrow> 'd Value \<Rightarrow> CmpBool result" where
  "SmallintType_CompareGreaterThan D left right =
     guarded (CheckInteger left \<and> CheckComparable left right)
       (if IsNull left \<or> IsNull right then Inr CmpNull else SMALLINT_COMPARE_FUNC D OpGt left right)"

definition SmallintType_CompareGreaterThanEquals :: "'d double_ops \<Rightarrow> 'd Value \<Rightarrow> 'd Value \<Rightarrow> CmpBool result" where
  "SmallintType_CompareGreaterThanEquals D left right =
     guarded (CheckInteger left \<and> CheckComparable left right)
       (if IsNull left \<or> IsNull right then Inr CmpNull else SMALLINT_COMPARE_FUNC D OpGe left right)"

definition SmallintType_Add :: "'d double_ops \<Rightarrow> 'd Value \<Rightarrow> 'd Value \<Rightarrow> 'd Value result" where
  "SmallintType_Add D left right =
     guarded (CheckInteger left \<and> CheckComparable left right)
       (if IsNull left \<or> IsNull right then OperateNull D left right
        else SMALLINT_MODIFY_FUNC D AddValue (d_add D) left right)"

definition SmallintType_Subtract :: "'d double_ops \<Rightarrow> 'd Value \<Rightarrow> 'd Value \<Rightarrow> 'd Value result" where
  "SmallintType_Subtract D left right =
     guarded (CheckInteger left \<and> CheckComparable left right)
       (if IsNull left \<or> IsNull right then OperateNull D left right
        else SMALLINT_MODIFY_FUNC D SubtractValue (d_sub D) left right)"

definition SmallintType_Multiply :: "'d double_ops \<Rightarrow> 'd Value \<Rightarrow> 'd Value \<Rightarrow> 'd Value result" where
  "SmallintType_Multiply D left right =
     guarded (CheckInteger left \<and> CheckComparable left right)
       (if IsNull left \<or> IsNull right then OperateNull D left right
        else SMALLINT_MODIFY_FUNC D MultiplyValue (d_mul D) left right)"

definition SmallintType_Divide :: "'d double_ops \<Rightarrow> 'd Value \<Rightarrow> 'd Value \<Rightarrow> 'd Value result" where
  "SmallintType_Divide D left right =
     guarded (CheckInteger left \<and> CheckComparable left right)
       (if IsNull left \<or> IsNull right then OperateNull D left right
        else bind_result (IsZero D right) (\<lambda>z.
          if z then Inl (Exception ET_DIVIDE_BY_ZERO)
          else SMALLINT_MODIFY_FUNC D DivideValue (d_div D) left right))"

definition SmallintType_Modulo :: "'d double_ops \<Rightarrow> 'd Value \<Rightarrow> 'd Value \<Rightarrow> 'd Value result" where
  "SmallintType_Modulo D left right =
     guarded (CheckInteger left \<and> CheckComparable left right)
       (if IsNull left \<or> IsNull right then OperateNull D left right
        else bind_result (IsZero D right) (\<lambda>z.
          if z then Inl (Exception ET_DIVIDE_BY_ZERO)
          else (case v_type right of
              TINYINT \<Rightarrow> ModuloValue 16 8 left right
            | SMALLINT \<Rightarrow> ModuloValue 16 16 left right
            | INTEGER \<Rightarrow> ModuloValue 16 32 left right
            | BIGINT \<Rightarrow> ModuloValue 16 64 left right
            | DECIMAL \<Rightarrow> bind_result (GetAs_int 16 left) (\<lambda>x. bind_result (GetAs_double right) (\<lambda>y.
                Value_double D DECIMAL (ValMod D (d_of_int D x) y)))
            | VARCHAR \<Rightarrow> bind_result (CastAs D right SMALLINT) (\<lambda>r_value. ModuloValue 16 16 left r_value)
            | _ \<Rightarrow> type_error)))"

definition SmallintType_Sqrt :: "'d double_ops \<Rightarrow> 'd Value \<Rightarrow> 'd Value result" where
  "SmallintType_Sqrt D val =
     guarded (CheckInteger val)
       (if IsNull val then Value_double D DECIMAL (BUSTUB_DECIMAL_NULL D)
        else bind_result (GetAs_int 16 val) (\<lambda>x.
          if x < 0 then Inl (Exception ET_DECIMAL)
          else Value_double D DECIMAL (d_sqrt D (d_of_int D x))))"

section \<open>INTEGER\<close>

definition INT_COMPARE_FUNC :: "'d double_ops \<Rightarrow> cmp_op \<Rightarrow> 'd Value \<Rightarrow> 'd Value \<Rightarrow> CmpBool result" where
  "INT_COMPARE_FUNC D rel left right =
     bind_result (GetAs_int 32 left) (\<lambda>x.
       case v_type right of
        TINYINT \<Rightarrow> bind_result (GetAs_int 8 right) (\<lambda>y. Inr (GetCmpBool (cmp_int rel x y)))
      | SMALLINT \<Rightarrow> bind_result (GetAs_int 16 right) (\<lambda>y. Inr (GetCmpBool (cmp_int rel x y)))
      | INTEGER \<Rightarrow> bind_result (GetAs_int 32 right) (\<lambda>y. Inr (GetCmpBool (cmp_int rel x y)))
      | BIGINT \<Rightarrow> bind_result (GetAs_int 64 right) (\<lambda>y. Inr (GetCmpBool (cmp_int rel x y)))
      | DECIMAL \<Rightarrow> bind_result (GetAs_double right) (\<lambda>y. Inr (GetCmpBool (cmp_double D rel (d_of_int D x) y)))
      | VARCHAR \<Rightarrow> bind_result (CastAs D right INTEGER) (\<lambda>r_value.
          bind_result (GetAs_int 32 r_value) (\<lambda>y. Inr (GetCmpBool (cmp_int rel x y))))
      | _ \<Rightarrow> type_error)"

definition INT_MODIFY_FUNC ::
  "'d double_ops \<Rightarrow> (nat \<Rightarrow> nat \<Rightarrow> 'd Value \<Rightarrow> 'd Value \<Rightarrow> 'd Value result) \<Rightarrow> ('d \<Rightarrow> 'd \<Rightarrow> 'd) \<Rightarrow>
   'd Value \<Rightarrow> 'd Value \<Rightarrow> 'd Value result" where
  "INT_MODIFY_FUNC D METHOD dop left right =
     (case v_type right of
        TINYINT \<Rightarrow> METHOD 32 8 left right
      | SMALLINT \<Rightarrow> METHOD 32 16 left right
      | INTEGER \<Rightarrow> METHOD 32 32 left right
      | BIGINT \<Rightarrow> METHOD 32 64 left right
      | DECIMAL \<Rightarrow> bind_result (GetAs_int 32 left) (\<lambda>x. bind_result (GetAs_double right) (\<lambda>y.
          Value_double D DECIMAL (dop (d_of_int D x) y)))
      | VARCHAR \<Rightarrow> bind_result (CastAs D right INTEGER) (\<lambda>r_value. METHOD 32 32 left r_value)
      | _ \<Rightarrow> type_error)"

definition IntegerType_CompareEquals :: "'d double_ops \<Rightarrow> 'd Value \<Rightarrow> 'd Value \<Rightarrow> CmpBool result" where
  "IntegerType_CompareEquals D left right =
     guarded (CheckInteger left \<and> CheckComparable left right)
       (if IsNull left \<or> IsNull right then Inr CmpNull else INT_COMPARE_FUNC D OpEq left right)"

definition IntegerType_CompareNotEquals :: "'d double_ops \<Rightarrow> 'd Value \<Rightarrow> 'd Value \<Rightarrow> CmpBool result" where
  "IntegerType_CompareNotEquals D left right =
     guarded (CheckInteger left \<and> CheckComparable left right)
       (if IsNull left \<or> IsNull right then Inr CmpNull else INT_COMPARE_FUNC D OpNe left right)"

definition IntegerType_CompareLessThan :: "'d double_ops \<Rightarrow> 'd Value \<Rightarrow> 'd Value \<Rightarrow> CmpBool result" where
  "IntegerType_CompareLessThan D left right =
     guarded (CheckInteger left \<and> CheckComparable left right)
       (if IsNull left \<or> IsNull right then Inr CmpNull else INT_COMPARE_FUNC D OpLt left right)"

definition IntegerType_CompareLessThanEquals :: "'d double_ops \<Rightarrow> 'd Value \<Rightarrow> 'd Value \<Rightarrow> CmpBool result" where
  "IntegerType_CompareLessThanEquals D left right =
     guarded (CheckInteger left \<and> CheckComparable left right)
       (if IsNull left \<or> IsNull right then Inr CmpNull else INT_COMPARE_FUNC D OpLe left right)"

definition IntegerType_CompareGreaterThan :: "'d double_ops \<Rightarrow> 'd Value \<Rightarrow> 'd Value \<Rightarrow> CmpBool result" where
  "IntegerType_CompareGreaterThan D left right =
     guarded (CheckInteger left \<and> CheckComparable left right)
       (if IsNull left \<or> IsNull right then Inr CmpNull else INT_COMPARE_FUNC D OpGt left right)"

definition IntegerType_CompareGreaterThanEquals :: "'d double_ops \<Rightarrow> 'd Value \<Rightarrow> 'd Value \<Rightarrow> CmpBool result" where
  "IntegerType_CompareGreaterThanEquals D left right =
     guarded (CheckInteger left \<and> CheckComparable left right)
       (if IsNull left \<or> IsNull right then Inr CmpNull else INT_COMPARE_FUNC D OpGe left right)"

definition IntegerType_Add :: "'d double_ops \<Rightarrow> 'd Value \<Rightarrow> 'd Value \<Rightarrow> 'd Value result" where
  "IntegerType_Add D left right =
     guarded (CheckInteger left \<and> CheckComparable left right)
       (if IsNull left \<or> IsNull right then OperateNull D left right
        else INT_MODIFY_FUNC D AddValue (d_add D) left right)"

definition IntegerType_Subtract :: "'d double_ops \<Rightarrow> 'd Value \<Rightarrow> 'd Value \<Rightarrow> 'd Value result" where
  "IntegerType_Subtract D left right =
     guarded (CheckInteger left \<and> CheckComparable left right)
       (if IsNull left \<or> IsNull right then OperateNull D left right
        else INT_MODIFY_FUNC D SubtractValue (d_sub D) left right)"

definition IntegerType_Multiply :: "'d double_ops \<Rightarrow> 'd Value \<Rightarrow> 'd Value \<Rightarrow> 'd Value result" where
  "IntegerType_Multiply D left right =
     guarded (CheckInteger left \<and> CheckComparable left right)
       (if IsNull left \<or> IsNull right then OperateNull D left right
        else INT_MODIFY_FUNC D MultiplyValue (d_mul D) left right)"

definition IntegerType_Divide :: "'d double_ops \<Rightarrow> 'd Value \<Rightarrow> 'd Value \<Rightarrow> 'd Value result" where
  "IntegerType_Divide D left right =
     guarded (CheckInteger left \<and> CheckComparable left right)
       (if IsNull left \<or> IsNull right then OperateNull D left right
        else bind_result (IsZero D right) (\<lambda>z.
          if z then Inl (Exception ET_DIVIDE_BY_ZERO)
          else INT_MODIFY_FUNC D DivideValue (d_div D) left right))"

definition IntegerType_Modulo :: "'d double_ops \<Rightarrow> 'd Value \<Rightarrow> 'd Value \<Rightarrow> 'd Value result" where
  "IntegerType_Modulo D left right =
     guarded (CheckInteger left \<and> CheckComparable left right)
       (if IsNull left \<or> IsNull right then OperateNull D left right
        else bind_result (IsZero D right) (\<lambda>z.
          if z then Inl (Exception ET_DIVIDE_BY_ZERO)
          else (case v_type right of
              TINYINT \<Rightarrow> ModuloValue 32 8 left right
            | SMALLINT \<Rightarrow> ModuloValue 32 16 left right
            | INTEGER \<Rightarrow> ModuloValue 32 32 left right
            | BIGINT \<Rightarrow> ModuloValue 32 64 left right
            | DECIMAL \<Rightarrow> bind_result (GetAs_int 32 left) (\<lambda>x. bind_result (GetAs_double right) (\<lambda>y.
                Value_double D DECIMAL (ValMod D (d_of_int D x) y)))
            | VARCHAR \<Rightarrow> bind_result (CastAs D right INTEGER) (\<lambda>r_value. ModuloValue 32 32 left r_value)
            | _ \<Rightarrow> type_error)))"

definition IntegerType_Sqrt :: "'d double_ops \<Rightarrow> 'd Value \<Rightarrow> 'd Value result" where
  "IntegerType_Sqrt D val =
     guarded (CheckInteger val)
       (if IsNull val then IntegerType_OperateNull D val val
        else bind_result (GetAs_int 32 val) (\<lambda>x.
          if x < 0 then Inl (Exception ET_DECIMAL)
          else Value_double D DECIMAL (d_sqrt D (d_of_int D x))))"

section \<open>BIGINT\<close>

definition BIGINT_COMPARE_FUNC :: "'d double_ops \<Rightarrow> cmp_op \<Rightarrow> 'd Value \<Rightarrow> 'd Value \<Rightarrow> CmpBool result" where
  "BIGINT_COMPARE_FUNC D rel left right =
     bind_result (GetAs_int 64 left) (\<lambda>x.
       case v_type right of
        TINYINT \<Rightarrow> bind_result (GetAs_int 8 right) (\<lambda>y. Inr (GetCmpBool (cmp_int rel x y)))
      | SMALLINT \<Rightarrow> bind_result (GetAs_int 16 right) (\<lambda>y. Inr (GetCmpBool (cmp_int rel x y)))
      | INTEGER \<Rightarrow> bind_result (GetAs_int 32 right) (\<lambda>y. Inr (GetCmpBool (cmp_int rel x y)))
      | BIGINT \<Rightarrow> bind_result (GetAs_int 64 right) (\<lambda>y. Inr (GetCmpBool (cmp_int rel x y)))
      | DECIMAL \<Rightarrow> bind_result (GetAs_double right) (\<lambda>y. Inr (GetCmpBool (cmp_double D rel (d_of_int D x) y)))
      | VARCHAR \<Rightarrow> bind_result (CastAs D right BIGINT) (\<lambda>r_value.
          bind_result (GetAs_int 64 r_value) (\<lambda>y. Inr (GetCmpBool (cmp_int rel x y))))
      | _ \<Rightarrow> type_error)"

definition BIGINT_MODIFY_FUNC ::
  "'d double_ops \<Rightarrow> (nat \<Rightarrow> nat \<Rightarrow> 'd Value \<Rightarrow> 'd Value \<Rightarrow> 'd Value result) \<Rightarrow> ('d \<Rightarrow> 'd \<Rightarrow> 'd) \<Rightarrow>
   'd Value \<Rightarrow> 'd Value \<Rightarrow> 'd Value result" where
  "BIGINT_MODIFY_FUNC D METHOD dop left right =
     (case v_type right of
        TINYINT \<Rightarrow> METHOD 64 8 left right
      | SMALLINT \<Rightarrow> METHOD 64 16 left right
      | INTEGER \<Rightarrow> METHOD 64 32 left right
      | BIGINT \<Rightarrow> METHOD 64 64 left right
      | DECIMAL \<Rightarrow> bind_result (GetAs_int 64 left) (\<lambda>x. bind_result (GetAs_double right) (\<lambda>y.
          Value_double D DECIMAL (dop (d_of_int D x) y)))
      | VARCHAR \<Rightarrow> bind_result (CastAs D right BIGINT) (\<lambda>r_value. METHOD 64 64 left r_value)
      | _ \<Rightarrow> type_error)"

definition BigintType_CompareEquals :: "'d double_ops \<Rightarrow> 'd Value \<Rightarrow> 'd Value \<Rightarrow> CmpBool result" where
  "BigintType_CompareEquals D left right =
     guarded (CheckInteger left \<and> CheckComparable left right)
       (if IsNull left \<or> IsNull right then Inr CmpNull else BIGINT_COMPARE_FUNC D OpEq left right)"

definition BigintType_CompareNotEquals :: "'d double_ops \<Rightarrow> 'd Value \<Rightarrow> 'd Value \<Rightarrow> CmpBool result" where
  "BigintType_CompareNotEquals D left right =
     guarded (CheckInteger left \<and> CheckComparable left right)
       (if IsNull left \<or> IsNull right then Inr CmpNull else BIGINT_COMPARE_FUNC D OpNe left right)"

definition BigintType_CompareLessThan :: "'d double_ops \<Rightarrow> 'd Value \<Rightarrow> 'd Value \<Rightarrow> CmpBool result" where
  "BigintType_CompareLessThan D left right =
     guarded (CheckInteger left \<and> CheckComparable left right)
       (if IsNull left \<or> IsNull right then Inr CmpNull else BIGINT_COMPARE_FUNC D OpLt left right)"

definition BigintType_CompareLessThanEquals :: "'d double_ops \<Rightarrow> 'd Value \<Rightarrow> 'd Value \<Rightarrow> CmpBool result" where
  "BigintType_CompareLessThanEquals D left right =
     guarded (CheckInteger left \<and> CheckComparable left right)
       (if IsNull left \<or> IsNull right then Inr CmpNull else BIGINT_COMPARE_FUNC D OpLe left right)"

definition BigintType_CompareGreaterThan :: "'d double_ops \<Rightarrow> 'd Value \<Rightarrow> 'd Value \<Rightarrow> CmpBool result" where
  "BigintType_CompareGreaterThan D left right =
     guarded (CheckInteger left \<and> CheckComparable left right)
       (if IsNull left \<or> IsNull right then Inr CmpNull else BIGINT_COMPARE_FUNC D OpGt left right)"

definition BigintType_CompareGreaterThanEquals :: "'d double_ops \<Rightarrow> 'd Value \<Rightarrow> 'd Value \<Rightarrow> CmpBool result" where
  "BigintType_CompareGreaterThanEquals D left right =
     guarded (CheckInteger left \<and> CheckComparable left right)
       (if IsNull left \<or> IsNull right then Inr CmpNull else BIGINT_COMPARE_FUNC D OpGe left right)"

definition BigintType_Add :: "'d double_ops \<Rightarrow> 'd Value \<Rightarrow> 'd Value \<Rightarrow> 'd Value result" where
  "BigintType_Add D left right =
     guarded (CheckInteger left \<and> CheckComparable left right)
       (if IsNull left \<or> IsNull right then OperateNull D left right
        else BIGINT_MODIFY_FUNC D AddValue (d_add D) left right)"

definition BigintType_Subtract :: "'d double_ops \<Rightarrow> 'd Value \<Rightarrow> 'd Value \<Rightarrow> 'd Value result" where
  "BigintType_Subtract D left right =
     guarded (CheckInteger left \<and> CheckComparable left right)
       (if IsNull left \<or> IsNull right then OperateNull D left right
        else BIGINT_MODIFY_FUNC D SubtractValue (d_sub D) left right)"

definition BigintType_Multiply :: "'d double_ops \<Rightarrow> 'd Value \<Rightarrow> 'd Value \<Rightarrow> 'd Value result" where
  "BigintType_Multiply D left right =
     guarded (CheckInteger left \<and> CheckComparable left right)
       (if IsNull left \<or> IsNull right then OperateNull D left right
        else BIGINT_MODIFY_FUNC D MultiplyValue (d_mul D) left right)"

definition BigintType_Divide :: "'d double_ops \<Rightarrow> 'd Value \<Rightarrow> 'd Value \<Rightarrow> 'd Value result" where
  "BigintType_Divide D left right =
     guarded (CheckInteger left \<and> CheckComparable left right)
       (if IsNull left \<or> IsNull right then OperateNull D left right
        else bind_result (IsZero D right) (\<lambda>z.
          if z then Inl (Exception ET_DIVIDE_BY_ZERO)
          else BIGINT_MODIFY_FUNC D DivideValue (d_div D) left right))"

definition BigintType_Modulo :: "'d double_ops \<Rightarrow> 'd Value \<Rightarrow> 'd Value \<Rightarrow> 'd Value result" where
  "BigintType_Modulo D left right =
     guarded (CheckInteger left \<and> CheckComparable left right)
       (if IsNull left \<or> IsNull right then OperateNull D left right
        else bind_result (IsZero D right) (\<lambda>z.
          if z then Inl (Exception ET_DIVIDE_BY_ZERO)
          else (case v_type right of
              TINYINT \<Rightarrow> ModuloValue 64 8 left right
            | SMALLINT \<Rightarrow> ModuloValue 64 16 left right
            | INTEGER \<Rightarrow> ModuloValue 64 32 left right
            | BIGINT \<Rightarrow> ModuloValue 64 64 left right
            | DECIMAL \<Rightarrow> bind_result (GetAs_int 64 left) (\<lambda>x. bind_result (GetAs_double right) (\<lambda>y.
                Value_double D DECIMAL (ValMod D (d_of_int D x) y)))
            | VARCHAR \<Rightarrow> bind_result (CastAs D right BIGINT) (\<lambda>r_value. ModuloValue 64 64 left r_value)
            | _ \<Rightarrow> type_error)))"

definition BigintType_Sqrt :: "'d double_ops \<Rightarrow> 'd Value \<Rightarrow> 'd Value result" where
  "BigintType_Sqrt D val =
     guarded (CheckInteger val)
       (if IsNull val then Value_double D DECIMAL (BUSTUB_DECIMAL_NULL D)
        else bind_result (GetAs_int 64 val) (\<lambda>x.
          if x < 0 then Inl (Exception ET_DECIMAL)
          else Value_double D DECIMAL (d_sqrt D (d_of_int D x))))"

section \<open>DECIMAL\<close>

definition DECIMAL_COMPARE_FUNC :: "'d double_ops \<Rightarrow> cmp_op \<Rightarrow> 'd Value \<Rightarrow> 'd Value \<Rightarrow> CmpBool result" where
  "DECIMAL_COMPARE_FUNC D rel left right =
     bind_result (GetAs_double left) (\<lambda>x.
       case v_type right of
        TINYINT \<Rightarrow> bind_result (GetAs_int 8 right) (\<lambda>y. Inr (GetCmpBool (cmp_double D rel x (d_of_int D y))))
      | SMALLINT \<Rightarrow> bind_result (GetAs_int 16 right) (\<lambda>y. Inr (GetCmpBool (cmp_double D rel x (d_of_int D y))))
      | INTEGER \<Rightarrow> bind_result (GetAs_int 32 right) (\<lambda>y. Inr (GetCmpBool (cmp_double D rel x (d_of_int D y))))
      | BIGINT \<Rightarrow> bind_result (GetAs_int 64 right) (\<lambda>y. Inr (GetCmpBool (cmp_double D rel x (d_of_int D y))))
      | DECIMAL \<Rightarrow> bind_result (GetAs_double right) (\<lambda>y. Inr (GetCmpBool (cmp_double D rel x y)))
      | VARCHAR \<Rightarrow> bind_result (CastAs D right DECIMAL) (\<lambda>r_value.
          bind_result (GetAs_double r_value) (\<lambda>y. Inr (GetCmpBool (cmp_double D rel x y))))
      | _ \<Rightarrow> type_error)"

definition DECIMAL_MODIFY_FUNC ::
  "'d double_ops \<Rightarrow> ('d \<Rightarrow> 'd \<Rightarrow> 'd) \<Rightarrow> 'd Value \<Rightarrow> 'd Value \<Rightarrow> 'd Value result" where
  "DECIMAL_MODIFY_FUNC D dop left right =
     bind_result (GetAs_double left) (\<lambda>x.
       case v_type right of
        TINYINT \<Rightarrow> bind_result (GetAs_int 8 right) (\<lambda>y. Value_double D DECIMAL (dop x (d_of_int D y)))
      | SMALLINT \<Rightarrow> bind_result (GetAs_int 16 right) (\<lambda>y. Value_double D DECIMAL (dop x (d_of_int D y)))
      | INTEGER \<Rightarrow> bind_result (GetAs_int 32 right) (\<lambda>y. Value_double D DECIMAL (dop x (d_of_int D y)))
      | BIGINT \<Rightarrow> bind_result (GetAs_int 64 right) (\<lambda>y. Value_double D DECIMAL (dop x (d_of_int D y)))
      | DECIMAL \<Rightarrow> bind_result (GetAs_double right) (\<lambda>y. Value_double D DECIMAL (dop x y))
      | VARCHAR \<Rightarrow> bind_result (CastAs D right DECIMAL) (\<lambda>r_value.
          bind_result (GetAs_double r_value) (\<lambda>y. Value_double D DECIMAL (dop x y)))
      | _ \<Rightarrow> type_error)"

definition DecimalType_CompareEquals :: "'d double_ops \<Rightarrow> 'd Value \<Rightarrow> 'd Value \<Rightarrow> CmpBool result" where
  "DecimalType_CompareEquals D left right =
     guarded (CheckComparable left right)
       (if IsNull left \<or> IsNull right then Inr CmpNull else DECIMAL_COMPARE_FUNC D OpEq left right)"

definition DecimalType_CompareNotEquals :: "'d double_ops \<Rightarrow> 'd Value \<Rightarrow> 'd Value \<Rightarrow> CmpBool result" where
  "DecimalType_CompareNotEquals D left right =
     guarded (CheckComparable left right)
       (if IsNull left \<or> IsNull right then Inr CmpNull else DECIMAL_COMPARE_FUNC D OpNe left right)"

definition DecimalType_CompareLessThan :: "'d double_ops \<Rightarrow> 'd Value \<Rightarrow> 'd Value \<Rightarrow> CmpBool result" where
  "DecimalType_CompareLessThan D left right =
     guarded (CheckComparable left right)
       (if IsNull left \<or> IsNull right then Inr CmpNull else DECIMAL_COMPARE_FUNC D OpLt left right)"

definition DecimalType_CompareLessThanEquals :: "'d double_ops \<Rightarrow> 'd Value \<Rightarrow> 'd Value \<Rightarrow> CmpBool result" where
  "DecimalType_CompareLessThanEquals D left right =
     guarded (CheckComparable left right)
       (if IsNull left \<or> IsNull right then Inr CmpNull else DECIMAL_COMPARE_FUNC D OpLe left right)"

definition DecimalType_CompareGreaterThan :: "'d double_ops \<Rightarrow> 'd Value \<Rightarrow> 'd Value \<Rightarrow> CmpBool result" where
  "DecimalType_CompareGreaterThan D left right =
     guarded (CheckComparable left right)
       (if IsNull left \<or> IsNull right then Inr CmpNull else DECIMAL_COMPARE_FUNC D OpGt left right)"

definition DecimalType_CompareGreaterThanEquals :: "'d double_ops \<Rightarrow> 'd Value \<Rightarrow> 'd Value \<Rightarrow> CmpBool result" where
  "DecimalType_CompareGreaterThanEquals D left right =
     guarded (CheckComparable left right)
       (if IsNull left \<or> IsNull right then Inr CmpNull else DECIMAL_COMPARE_FUNC D OpGe left right)"

definition DecimalType_Add :: "'d double_ops \<Rightarrow> 'd Value \<Rightarrow> 'd Value \<Rightarrow> 'd Value result" where
  "DecimalType_Add D left right =
     guarded (CheckComparable left right)
       (if IsNull left \<or> IsNull right then OperateNull D left right
        else DECIMAL_MODIFY_FUNC D (d_add D) left right)"

definition DecimalType_Subtract :: "'d double_ops \<Rightarrow> 'd Value \<Rightarrow> 'd Value \<Rightarrow> 'd Value result" where
  "DecimalType_Subtract D left right =
     guarded (CheckComparable left right)
       (if IsNull left \<or> IsNull right then OperateNull D left right
        else DECIMAL_MODIFY_FUNC D (d_sub D) left right)"

definition DecimalType_Multiply :: "'d double_ops \<Rightarrow> 'd Value \<Rightarrow> 'd Value \<Rightarrow> 'd Value result" where
  "DecimalType_Multiply D left right =
     guarded (CheckComparable left right)
       (if IsNull left \<or> IsNull right then OperateNull D left right
        else DECIMAL_MODIFY_FUNC D (d_mul D) left right)"

definition DecimalType_Divide :: "'d double_ops \<Rightarrow> 'd Value \<Rightarrow> 'd Value \<Rightarrow> 'd Value result" where
  "DecimalType_Divide D left right =
     guarded (CheckComparable left right)
       (if IsNull left \<or> IsNull right then OperateNull D left right
        else bind_result (IsZero D right) (\<lambda>z.
          if z then Inl (Exception ET_DIVIDE_BY_ZERO)
          else DECIMAL_MODIFY_FUNC D (d_div D) left right))"

definition DecimalType_Modulo :: "'d double_ops \<Rightarrow> 'd Value \<Rightarrow> 'd Value \<Rightarrow> 'd Value result" where
  "DecimalType_Modulo D left right =
     guarded (CheckComparable left right)
       (if IsNull left \<or> IsNull right then DecimalType_OperateNull D left right
        else bind_result (IsZero D right) (\<lambda>z.
          if z then Inl (Exception ET_DIVIDE_BY_ZERO)
          else bind_result (GetAs_double left) (\<lambda>x.
            case v_type right of
              TINYINT \<Rightarrow> bind_result (GetAs_int 8 right) (\<lambda>y. Value_double D DECIMAL (ValMod D x (d_of_int D y)))
            | SMALLINT \<Rightarrow> bind_result (GetAs_int 16 right) (\<lambda>y. Value_double D DECIMAL (ValMod D x (d_of_int D y)))
            | INTEGER \<Rightarrow> bind_result (GetAs_int 32 right) (\<lambda>y. Value_double D DECIMAL (ValMod D x (d_of_int D y)))
            | BIGINT \<Rightarrow> bind_result (GetAs_int 64 right) (\<lambda>y. Value_double D DECIMAL (ValMod D x (d_of_int D y)))
            | DECIMAL \<Rightarrow> bind_result (GetAs_double right) (\<lambda>y. Value_double D DECIMAL (ValMod D x y))
            | VARCHAR \<Rightarrow> bind_result (CastAs D right DECIMAL) (\<lambda>r_value.
          bind_result (GetAs_double r_value) (\<lambda>y. Value_double D DECIMAL (ValMod D x y)))
            | _ \<Rightarrow> type_error)))"

definition DecimalType_Sqrt :: "'d double_ops \<Rightarrow> 'd Value \<Rightarrow> 'd Value result" where
  "DecimalType_Sqrt D val =
     (if IsNull val then Value_double D DECIMAL (BUSTUB_DECIMAL_NULL D)
      else bind_result (GetAs_double val) (\<lambda>x.
        if d_lt D x (d_of_int D 0) then Inl (Exception ET_DECIMAL)
        else Value_double D DECIMAL (d_sqrt D x)))"

section \<open>BOOLEAN\<close>

definition BOOLEAN_COMPARE_FUNC :: "'d double_ops \<Rightarrow> cmp_op \<Rightarrow> 'd Value \<Rightarrow> 'd Value \<Rightarrow> CmpBool result" where
  "BOOLEAN_COMPARE_FUNC D rel left right =
     bind_result (GetAs_int 8 left) (\<lambda>x. bind_result (CastAs D right BOOLEAN) (\<lambda>r_value.
     bind_result (GetAs_int 8 r_value) (\<lambda>y. Inr (GetCmpBool (cmp_int rel x y)))))"

definition BooleanType_CompareEquals :: "'d double_ops \<Rightarrow> 'd Value \<Rightarrow> 'd Value \<Rightarrow> CmpBool result" where
  "BooleanType_CompareEquals D left right =
     guarded (CheckComparable left right)
       (if IsNull left \<or> IsNull right then Inr CmpNull else BOOLEAN_COMPARE_FUNC D OpEq left right)"

definition BooleanType_CompareNotEquals :: "'d double_ops \<Rightarrow> 'd Value \<Rightarrow> 'd Value \<Rightarrow> CmpBool result" where
  "BooleanType_CompareNotEquals D left right =
     guarded (CheckComparable left right)
       (if IsNull left \<or> IsNull right then Inr CmpNull else BOOLEAN_COMPARE_FUNC D OpNe left right)"

definition BooleanType_CompareLessThan :: "'d double_ops \<Rightarrow> 'd Value \<Rightarrow> 'd Value \<Rightarrow> CmpBool result" where
  "BooleanType_CompareLessThan D left right =
     guarded (CheckComparable left right)
       (if IsNull left \<or> IsNull right then Inr CmpNull else BOOLEAN_COMPARE_FUNC D OpLt left right)"

definition BooleanType_CompareLessThanEquals :: "'d double_ops \<Rightarrow> 'd Value \<Rightarrow> 'd Value \<Rightarrow> CmpBool result" where
  "BooleanType_CompareLessThanEquals D left right =
     guarded (CheckComparable left right)
       (if IsNull left \<or> IsNull right then Inr CmpNull else BOOLEAN_COMPARE_FUNC D OpLe left right)"

definition BooleanType_CompareGreaterThan :: "'d double_ops \<Rightarrow> 'd Value \<Rightarrow> 'd Value \<Rightarrow> CmpBool result" where
  "BooleanType_CompareGreaterThan D left right =
     guarded (CheckComparable left right)
       (if IsNull left \<or> IsNull right then Inr CmpNull else BOOLEAN_COMPARE_FUNC D OpGt left right)"

definition BooleanType_CompareGreaterThanEquals :: "'d double_ops \<Rightarrow> 'd Value \<Rightarrow> 'd Value \<Rightarrow> CmpBool result" where
  "BooleanType_CompareGreaterThanEquals D left right =
     guarded (CheckComparable left right)
       (if IsNull left \<or> IsNull right then Inr CmpNull else BOOLEAN_COMPARE_FUNC D OpGe left right)"

section \<open>VARCHAR\<close>

text \<open>
  \<^verbatim>\<open>memcmp\<close> compares unsigned bytes; \<open>len1\<close> and \<open>len2\<close> are unsigned
  lengths converted to \<^verbatim>\<open>int\<close>, so the length of an empty buffer arrives as \<open>-1\<close>.
  Only the sign of the result is specified for \<^verbatim>\<open>memcmp\<close>, and only the sign is used.
\<close>

fun memcmp :: "string \<Rightarrow> string \<Rightarrow> int" where
  "memcmp (a # as) (b # bs) =
     (if a = b then memcmp as bs else if (of_char a :: nat) < of_char b then -1 else 1)"
| "memcmp _ _ = 0"

definition CompareStrings :: "string option \<Rightarrow> int \<Rightarrow> string option \<Rightarrow> int \<Rightarrow> int result" where
  "CompareStrings str1 len1 str2 len2 =
     guarded (str1 \<noteq> None \<and> len1 \<ge> 0 \<and> str2 \<noteq> None \<and> len2 \<ge> 0)
       (let n = min len1 len2
        in bind_result (string_of_ptr str1 n) (\<lambda>s1. bind_result (string_of_ptr str2 n) (\<lambda>s2.
             let ret = memcmp s1 s2
             in Inr (if ret = 0 \<and> len1 \<noteq> len2 then len1 - len2 else ret))))"

definition VARLEN_COMPARE_FUNC :: "'d double_ops \<Rightarrow> cmp_op \<Rightarrow> 'd Value \<Rightarrow> 'd Value \<Rightarrow> CmpBool result" where
  "VARLEN_COMPARE_FUNC D rel left right =
     bind_result (GetData left) (\<lambda>str1.
       let len1 = (VarlenType_GetLength left - 1) mod 2 ^ 32
       in if v_type right = VARCHAR then
            bind_result (GetData right) (\<lambda>str2.
              let len2 = (VarlenType_GetLength right - 1) mod 2 ^ 32
              in bind_result (CompareStrings str1 (scast 32 len1) str2 (scast 32 len2)) (\<lambda>c.
                   Inr (GetCmpBool (cmp_int rel c 0))))
          else
            bind_result (CastAs D right VARCHAR) (\<lambda>r_value. bind_result (GetData r_value) (\<lambda>str2.
              let len2 = (VarlenType_GetLength r_value - 1) mod 2 ^ 32
              in bind_result (CompareStrings str1 (scast 32 len1) str2 (scast 32 len2)) (\<lambda>c.
                   Inr (GetCmpBool (cmp_int rel c 0))))))"

definition VarlenType_CompareEquals :: "'d double_ops \<Rightarrow> 'd Value \<Rightarrow> 'd Value \<Rightarrow> CmpBool result" where
  "VarlenType_CompareEquals D left right =
     guarded (CheckComparable left right)
       (if IsNull left \<or> IsNull right then Inr CmpNull
        else if VarlenType_GetLength left = BUSTUB_VARCHAR_MAX_LEN \<or>
                VarlenType_GetLength right = BUSTUB_VARCHAR_MAX_LEN
        then Inr (GetCmpBool (cmp_int OpEq (VarlenType_GetLength left) (VarlenType_GetLength right)))
        else VARLEN_COMPARE_FUNC D OpEq left right)"

definition VarlenType_CompareNotEquals :: "'d double_ops \<Rightarrow> 'd Value \<Rightarrow> 'd Value \<Rightarrow> CmpBool result" where
  "VarlenType_CompareNotEquals D left right =
     guarded (CheckComparable left right)
       (if IsNull left \<or> IsNull right then Inr CmpNull
        else if VarlenType_GetLength left = BUSTUB_VARCHAR_MAX_LEN \<or>
                VarlenType_GetLength right = BUSTUB_VARCHAR_MAX_LEN
        then Inr (GetCmpBool (cmp_int OpNe (VarlenType_GetLength left) (VarlenType_GetLength right)))
        else VARLEN_COMPARE_FUNC D OpNe left right)"

definition VarlenType_CompareLessThan :: "'d double_ops \<Rightarrow> 'd Value \<Rightarrow> 'd Value \<Rightarrow> CmpBool result" where
  "VarlenType_CompareLessThan D left right =
     guarded (CheckComparable left right)
       (if IsNull left \<or> IsNull right then Inr CmpNull
        else if VarlenType_GetLength left = BUSTUB_VARCHAR_MAX_LEN \<or>
                VarlenType_GetLength right = BUSTUB_VARCHAR_MAX_LEN
        then Inr (GetCmpBool (cmp_int OpLt (VarlenType_GetLength left) (VarlenType_GetLength right)))
        else VARLEN_COMPARE_FUNC D OpLt left right)"

definition VarlenType_CompareLessThanEquals :: "'d double_ops \<Rightarrow> 'd Value \<Rightarrow> 'd Value \<Rightarrow> CmpBool result" where
  "VarlenType_CompareLessThanEquals D left right =
     guarded (CheckComparable left right)
       (if IsNull left \<or> IsNull right then Inr CmpNull
        else if VarlenType_GetLength left = BUSTUB_VARCHAR_MAX_LEN \<or>
                VarlenType_GetLength right = BUSTUB_VARCHAR_MAX_LEN
        then Inr (GetCmpBool (cmp_int OpLe (VarlenType_GetLength left) (VarlenType_GetLength right)))
        else VARLEN_COMPARE_FUNC D OpLe left right)"

definition VarlenType_CompareGreaterThan :: "'d double_ops \<Rightarrow> 'd Value \<Rightarrow> 'd Value \<Rightarrow> CmpBool result" where
  "VarlenType_CompareGreaterThan D left right =
     guarded (CheckComparable left right)
       (if IsNull left \<or> IsNull right then Inr CmpNull
        else if VarlenType_GetLength left = BUSTUB_VARCHAR_MAX_LEN \<or>
                VarlenType_GetLength right = BUSTUB_VARCHAR_MAX_LEN
        then Inr (GetCmpBool (cmp_int OpGt (VarlenType_GetLength left) (VarlenType_GetLength right)))
        else VARLEN_COMPARE_FUNC D OpGt left right)"

definition VarlenType_CompareGreaterThanEquals :: "'d double_ops \<Rightarrow> 'd Value \<Rightarrow> 'd Value \<Rightarrow> CmpBool result" where
  "VarlenType_CompareGreaterThanEquals D left right =
     guarded (CheckComparable left right)
       (if IsNull left \<or> IsNull right then Inr CmpNull
        else if VarlenType_GetLength left = BUSTUB_VARCHAR_MAX_LEN \<or>
                VarlenType_GetLength right = BUSTUB_VARCHAR_MAX_LEN
        then Inr (GetCmpBool (cmp_int OpGe (VarlenType_GetLength left) (VarlenType_GetLength right)))
        else VARLEN_COMPARE_FUNC D OpGe left right)"

section \<open>TIMESTAMP\<close>

definition TimestampType_CompareEquals :: "'d Value \<Rightarrow> 'd Value \<Rightarrow> CmpBool result" where
  "TimestampType_CompareEquals left right =
     guarded (CheckComparable left right)
       (if IsNull left \<or> IsNull right then Inr CmpNull
        else bind_result (GetAs_uint64 left) (\<lambda>x. bind_result (GetAs_uint64 right) (\<lambda>y.
          Inr (GetCmpBool (cmp_int OpEq x y)))))"

definition TimestampType_CompareNotEquals :: "'d Value \<Rightarrow> 'd Value \<Rightarrow> CmpBool result" where
  "TimestampType_CompareNotEquals left right =
     guarded (CheckComparable left right)
       (if IsNull right then Inr CmpNull
        else bind_result (GetAs_uint64 left) (\<lambda>x. bind_result (GetAs_uint64 right) (\<lambda>y.
          Inr (GetCmpBool (cmp_int OpNe x y)))))"

definition TimestampType_CompareLessThan :: "'d Value \<Rightarrow> 'd Value \<Rightarrow> CmpBool result" where
  "TimestampType_CompareLessThan left right =
     guarded (CheckComparable left right)
       (if IsNull left \<or> IsNull right then Inr CmpNull
        else bind_result (GetAs_uint64 left) (\<lambda>x. bind_result (GetAs_uint64 right) (\<lambda>y.
          Inr (GetCmpBool (cmp_int OpLt x y)))))"

definition TimestampType_CompareLessThanEquals :: "'d Value \<Rightarrow> 'd Value \<Rightarrow> CmpBool result" where
  "TimestampType_CompareLessThanEquals left right =
     guarded (CheckComparable left right)
       (if IsNull left \<or> IsNull right then Inr CmpNull
        else bind_result (GetAs_uint64 left) (\<lambda>x. bind_result (GetAs_uint64 right) (\<lambda>y.
          Inr (GetCmpBool (cmp_int OpLe x y)))))"

definition TimestampType_CompareGreaterThan :: "'d Value \<Rightarrow> 'd Value \<Rightarrow> CmpBool result" where
  "TimestampType_CompareGreaterThan left right =
     guarded (CheckComparable left right)
       (if IsNull left \<or> IsNull right then Inr CmpNull
        else bind_result (GetAs_int 64 left) (\<lambda>x. bind_result (GetAs_int 64 right) (\<lambda>y.
          Inr (GetCmpBool (cmp_int OpGt x y)))))"

definition TimestampType_CompareGreaterThanEquals :: "'d Value \<Rightarrow> 'd Value \<Rightarrow> CmpBool result" where
  "TimestampType_CompareGreaterThanEquals left right =
     guarded (CheckComparable left right)
       (if IsNull left \<or> IsNull right then Inr CmpNull
        else bind_result (GetAs_uint64 left) (\<lambda>x. bind_result (GetAs_uint64 right) (\<lambda>y.
          Inr (GetCmpBool (cmp_int OpGe x y)))))"

section \<open>Dispatch\<close>

definition CompareEquals :: "'d double_ops \<Rightarrow> 'd Value \<Rightarrow> 'd Value \<Rightarrow> CmpBool result" where
  "CompareEquals D left right =
     (case GetInstance (v_type left) of
        None \<Rightarrow> Inl UndefinedBehaviour
      | Some INVALID \<Rightarrow> Type_not_implemented
      | Some BOOLEAN \<Rightarrow> BooleanType_CompareEquals D left right
      | Some TINYINT \<Rightarrow> TinyintType_CompareEquals D left right
      | Some SMALLINT \<Rightarrow> SmallintType_CompareEquals D left right
      | Some INTEGER \<Rightarrow> IntegerType_CompareEquals D left right
      | Some BIGINT \<Rightarrow> BigintType_CompareEquals D left right
      | Some DECIMAL \<Rightarrow> DecimalType_CompareEquals D left right
      | Some VARCHAR \<Rightarrow> VarlenType_CompareEquals D left right
      | Some TIMESTAMP \<Rightarrow> TimestampType_CompareEquals left right)"

definition CompareNotEquals :: "'d double_ops \<Rightarrow> 'd Value \<Rightarrow> 'd Value \<Rightarrow> CmpBool result" where
  "CompareNotEquals D left right =
     (case GetInstance (v_type left) of
        None \<Rightarrow> Inl UndefinedBehaviour
      | Some INVALID \<Rightarrow> Type_not_implemented
      | Some BOOLEAN \<Rightarrow> BooleanType_CompareNotEquals D left right
      | Some TINYINT \<Rightarrow> TinyintType_CompareNotEquals D left right
      | Some SMALLINT \<Rightarrow> SmallintType_CompareNotEquals D left right
      | Some INTEGER \<Rightarrow> IntegerType_CompareNotEquals D left right
      | Some BIGINT \<Rightarrow> BigintType_CompareNotEquals D left right
      | Some DECIMAL \<Rightarrow> DecimalType_CompareNotEquals D left right
      | Some VARCHAR \<Rightarrow> VarlenType_CompareNotEquals D left right
      | Some TIMESTAMP \<Rightarrow> TimestampType_CompareNotEquals left right)"

definition CompareLessThan :: "'d double_ops \<Rightarrow> 'd Value \<Rightarrow> 'd Value \<Rightarrow> CmpBool result" where
  "CompareLessThan D left right =
     (case GetInstance (v_type left) of
        None \<Rightarrow> Inl UndefinedBehaviour
      | Some INVALID \<Rightarrow> Type_not_implemented
      | Some BOOLEAN \<Rightarrow> BooleanType_CompareLessThan D left right
      | Some TINYINT \<Rightarrow> TinyintType_CompareLessThan D left right
      | Some SMALLINT \<Rightarrow> SmallintType_CompareLessThan D left right
      | Some INTEGER \<Rightarrow> IntegerType_CompareLessThan D left right
      | Some BIGINT \<Rightarrow> BigintType_CompareLessThan D left right
      | Some DECIMAL \<Rightarrow> DecimalType_CompareLessThan D left right
      | Some VARCHAR \<Rightarrow> VarlenType_CompareLessThan D left right
      | Some TIMESTAMP \<Rightarrow> TimestampType_CompareLessThan left right)"

definition CompareLessThanEquals :: "'d double_ops \<Rightarrow> 'd Value \<Rightarrow> 'd Value \<Rightarrow> CmpBool result" where
  "CompareLessThanEquals D left right =
     (case GetInstance (v_type left) of
        None \<Rightarrow> Inl UndefinedBehaviour
      | Some INVALID \<Rightarrow> Type_not_implemented
      | Some BOOLEAN \<Rightarrow> BooleanType_CompareLessThanEquals D left right
      | Some TINYINT \<Rightarrow> TinyintType_CompareLessThanEquals D left right
      | Some SMALLINT \<Rightarrow> SmallintType_CompareLessThanEquals D left right
      | Some INTEGER \<Rightarrow> IntegerType_CompareLessThanEquals D left right
      | Some BIGINT \<Rightarrow> BigintType_CompareLessThanEquals D left right
      | Some DECIMAL \<Rightarrow> DecimalType_CompareLessThanEquals D left right
      | Some VARCHAR \<Rightarrow> VarlenType_CompareLessThanEquals D left right
      | Some TIMESTAMP \<Rightarrow> TimestampType_CompareLessThanEquals left right)"

definition CompareGreaterThan :: "'d double_ops \<Rightarrow> 'd Value \<Rightarrow> 'd Value \<Rightarrow> CmpBool result" where
  "CompareGreaterThan D left right =
     (case GetInstance (v_type left) of
        None \<Rightarrow> Inl UndefinedBehaviour
      | Some INVALID \<Rightarrow> Type_not_implemented
      | Some BOOLEAN \<Rightarrow> BooleanType_CompareGreaterThan D left right
      | Some TINYINT \<Rightarrow> TinyintType_CompareGreaterThan D left right
      | Some SMALLINT \<Rightarrow> SmallintType_CompareGreaterThan D left right
      | Some INTEGER \<Rightarrow> IntegerType_CompareGreaterThan D left right
      | Some BIGINT \<Rightarrow> BigintType_CompareGreaterThan D left right
      | Some DECIMAL \<Rightarrow> DecimalType_CompareGreaterThan D left right
      | Some VARCHAR \<Rightarrow> VarlenType_CompareGreaterThan D left right
      | Some TIMESTAMP \<Rightarrow> TimestampType_CompareGreaterThan left right)"

definition CompareGreaterThanEquals :: "'d double_ops \<Rightarrow> 'd Value \<Rightarrow> 'd Value \<Rightarrow> CmpBool result" where
  "CompareGreaterThanEquals D left right =
     (case GetInstance (v_type left) of
        None \<Rightarrow> Inl UndefinedBehaviour
      | Some INVALID \<Rightarrow> Type_not_implemented
      | Some BOOLEAN \<Rightarrow> BooleanType_CompareGreaterThanEquals D left right
      | Some TINYINT \<Rightarrow> TinyintType_CompareGreaterThanEquals D left right
      | Some SMALLINT \<Rightarrow> SmallintType_CompareGreaterThanEquals D left right
      | Some INTEGER \<Rightarrow> IntegerType_CompareGreaterThanEquals D left right
      | Some BIGINT \<Rightarrow> BigintType_CompareGreaterThanEquals D left right
      | Some DECIMAL \<Rightarrow> DecimalType_CompareGreaterThanEquals D left right
      | Some VARCHAR \<Rightarrow> VarlenType_CompareGreaterThanEquals D left right
      | Some TIMESTAMP \<Rightarrow> TimestampType_CompareGreaterThanEquals left right)"

definition Add :: "'d double_ops \<Rightarrow> 'd Value \<Rightarrow> 'd Value \<Rightarrow> 'd Value result" where
  "Add D left right =
     (case GetInstance (v_type left) of
        None \<Rightarrow> Inl UndefinedBehaviour
      | Some TINYINT \<Rightarrow> TinyintType_Add D left right
      | Some SMALLINT \<Rightarrow> SmallintType_Add D left right
      | Some INTEGER \<Rightarrow> IntegerType_Add D left right
      | Some BIGINT \<Rightarrow> BigintType_Add D left right
      | Some DECIMAL \<Rightarrow> DecimalType_Add D left right
      | _ \<Rightarrow> Type_not_implemented)"

definition Subtract :: "'d double_ops \<Rightarrow> 'd Value \<Rightarrow> 'd Value \<Rightarrow> 'd Value result" where
  "Subtract D left right =
     (case GetInstance (v_type left) of
        None \<Rightarrow> Inl UndefinedBehaviour
      | Some TINYINT \<Rightarrow> TinyintType_Subtract D left right
      | Some SMALLINT \<Rightarrow> SmallintType_Subtract D left right
      | Some INTEGER \<Rightarrow> IntegerType_Subtract D left right
      | Some BIGINT \<Rightarrow> BigintType_Subtract D left right
      | Some DECIMAL \<Rightarrow> DecimalType_Subtract D left right
      | _ \<Rightarrow> Type_not_implemented)"

definition Multiply :: "'d double_ops \<Rightarrow> 'd Value \<Rightarrow> 'd Value \<Rightarrow> 'd Value result" where
  "Multiply D left right =
     (case GetInstance (v_type left) of
        None \<Rightarrow> Inl UndefinedBehaviour
      | Some TINYINT \<Rightarrow> TinyintType_Multiply D left right
      | Some SMALLINT \<Rightarrow> SmallintType_Multiply D left right
      | Some INTEGER \<Rightarrow> IntegerType_Multiply D left right
      | Some BIGINT \<Rightarrow> BigintType_Multiply D left right
      | Some DECIMAL \<Rightarrow> DecimalType_Multiply D left right
      | _ \<Rightarrow> Type_not_implemented)"

definition Divide :: "'d double_ops \<Rightarrow> 'd Value \<Rightarrow> 'd Value \<Rightarrow> 'd Value result" where
  "Divide D left right =
     (case GetInstance (v_type left) of
        None \<Rightarrow> Inl UndefinedBehaviour
      | Some TINYINT \<Rightarrow> TinyintType_Divide D left right
      | Some SMALLINT \<Rightarrow> SmallintType_Divide D left right
      | Some INTEGER \<Rightarrow> IntegerType_Divide D left right
      | Some BIGINT \<Rightarrow> BigintType_Divide D left right
      | Some DECIMAL \<Rightarrow> DecimalType_Divide D left right
      | _ \<Rightarrow> Type_not_implemented)"

definition Modulo :: "'d double_ops \<Rightarrow> 'd Value \<Rightarrow> 'd Value \<Rightarrow> 'd Value result" where
  "Modulo D left right =
     (case GetInstance (v_type left) of
        None \<Rightarrow> Inl UndefinedBehaviour
      | Some TINYINT \<Rightarrow> TinyintType_Modulo D left right
      | Some SMALLINT \<Rightarrow> SmallintType_Modulo D left right
      | Some INTEGER \<Rightarrow> IntegerType_Modulo D left right
      | Some BIGINT \<Rightarrow> BigintType_Modulo D left right
      | Some DECIMAL \<Rightarrow> DecimalType_Modulo D left right
      | _ \<Rightarrow> Type_not_implemented)"

definition Sqrt :: "'d double_ops \<Rightarrow> 'd Value \<Rightarrow> 'd Value result" where
  "Sqrt D val =
     (case GetInstance (v_type val) of
        None \<Rightarrow> Inl UndefinedBehaviour
      | Some TINYINT \<Rightarrow> TinyintType_Sqrt D val
      | Some SMALLINT \<Rightarrow> SmallintType_Sqrt D val
      | Some INTEGER \<Rightarrow> IntegerType_Sqrt D val
      | Some BIGINT \<Rightarrow> BigintType_Sqrt D val
      | Some DECIMAL \<Rightarrow> DecimalType_Sqrt D val
      | _ \<Rightarrow> Type_not_implemented)"

section \<open>Minimum and maximum\<close>

definition IntegerParentType_Min :: "'d double_ops \<Rightarrow> 'd Value \<Rightarrow> 'd Value \<Rightarrow> 'd Value result" where
  "IntegerParentType_Min D left right =
     guarded (CheckInteger left \<and> CheckComparable left right)
       (if IsNull left \<or> IsNull right then OperateNull D left right
        else bind_result (CompareLessThan D left right) (\<lambda>c.
          if c = CmpTrue then Copy D left else Copy D right))"

definition IntegerParentType_Max :: "'d double_ops \<Rightarrow> 'd Value \<Rightarrow> 'd Value \<Rightarrow> 'd Value result" where
  "IntegerParentType_Max D left right =
     guarded (CheckInteger left \<and> CheckComparable left right)
       (if IsNull left \<or> IsNull right then OperateNull D left right
        else bind_result (CompareGreaterThanEquals D left right) (\<lambda>c.
          if c = CmpTrue then Copy D left else Copy D right))"

definition DecimalType_Min :: "'d double_ops \<Rightarrow> 'd Value \<Rightarrow> 'd Value \<Rightarrow> 'd Value result" where
  "DecimalType_Min D left right =
     guarded (CheckComparable left right)
       (if IsNull left \<or> IsNull right then OperateNull D left right
        else bind_result (CompareLessThanEquals D left right) (\<lambda>c.
          if c = CmpTrue then Copy D left else Copy D right))"

definition DecimalType_Max :: "'d double_ops \<Rightarrow> 'd Value \<Rightarrow> 'd Value \<Rightarrow> 'd Value result" where
  "DecimalType_Max D left right =
     guarded (CheckComparable left right)
       (if IsNull left \<or> IsNull right then OperateNull D left right
        else bind_result (CompareGreaterThanEquals D left right) (\<lambda>c.
          if c = CmpTrue then Copy D left else Copy D right))"

definition VarlenType_Min :: "'d double_ops \<Rightarrow> 'd Value \<Rightarrow> 'd Value \<Rightarrow> 'd Value result" where
  "VarlenType_Min D left right =
     guarded (CheckComparable left right)
       (if IsNull left \<or> IsNull right then OperateNull D left right
        else bind_result (CompareLessThan D left right) (\<lambda>c.
          if c = CmpTrue then Copy D left else Copy D right))"

definition VarlenType_Max :: "'d double_ops \<Rightarrow> 'd Value \<Rightarrow> 'd Value \<Rightarrow> 'd Value result" where
  "VarlenType_Max D left right =
     guarded (CheckComparable left right)
       (if IsNull left \<or> IsNull right then OperateNull D left right
        else bind_result (CompareGreaterThan D left right) (\<lambda>c.
          if c = CmpTrue then Copy D left else Copy D right))"

definition TimestampType_Min :: "'d double_ops \<Rightarrow> 'd Value \<Rightarrow> 'd Value \<Rightarrow> 'd Value result" where
  "TimestampType_Min D left right =
     guarded (CheckComparable left right)
       (if IsNull left \<or> IsNull right then OperateNull D left right
        else bind_result (CompareLessThan D left right) (\<lambda>c.
          if c = CmpTrue then Copy D left else Copy D right))"

definition TimestampType_Max :: "'d double_ops \<Rightarrow> 'd Value \<Rightarrow> 'd Value \<Rightarrow> 'd Value result" where
  "TimestampType_Max D left right =
     guarded (CheckComparable left right)
       (if IsNull left \<or> IsNull right then OperateNull D left right
        else bind_result (CompareGreaterThanEquals D left right) (\<lambda>c.
          if c = CmpTrue then Copy D left else Copy D right))"

definition Value_Min :: "'d double_ops \<Rightarrow> 'd Value \<Rightarrow> 'd Value \<Rightarrow> 'd Value result" where
  "Value_Min D left right =
     (case GetInstance (v_type left) of
        None \<Rightarrow> Inl UndefinedBehaviour
      | Some TINYINT \<Rightarrow> IntegerParentType_Min D left right
      | Some SMALLINT \<Rightarrow> IntegerParentType_Min D left right
      | Some INTEGER \<Rightarrow> IntegerParentType_Min D left right
      | Some BIGINT \<Rightarrow> IntegerParentType_Min D left right
      | Some DECIMAL \<Rightarrow> DecimalType_Min D left right
      | Some VARCHAR \<Rightarrow> VarlenType_Min D left right
      | Some TIMESTAMP \<Rightarrow> TimestampType_Min D left right
      | _ \<Rightarrow> Type_not_implemented)"

definition Value_Max :: "'d double_ops \<Rightarrow> 'd Value \<Rightarrow> 'd Value \<Rightarrow> 'd Value result" where
  "Value_Max D left right =
     (case GetInstance (v_type left) of
        None \<Rightarrow> Inl UndefinedBehaviour
      | Some TINYINT \<Rightarrow> IntegerParentType_Max D left right
      | Some SMALLINT \<Rightarrow> IntegerParentType_Max D left right
      | Some INTEGER \<Rightarrow> IntegerParentType_Max D left right
      | Some BIGINT \<Rightarrow> IntegerParentType_Max D left right
      | Some DECIMAL \<Rightarrow> DecimalType_Max D left right
      | Some VARCHAR \<Rightarrow> VarlenType_Max D left right
      | Some TIMESTAMP \<Rightarrow> TimestampType_Max D left right
      | _ \<Rightarrow> Type_not_implemented)"

end
