(* ===== verification/ValueFactory.thy ===== *)
theory ValueFactory
  imports TypeArith
begin

text \<open>
  \<^verbatim>\<open>src/include/type/value_factory.h\<close>: the named constructors, the null and zero
  values of a type, and the checked conversions \<^verbatim>\<open>CastAs...\<close>, which go through
  \<^verbatim>\<open>Type::IsCoercableFrom\<close>.
\<close>

section \<open>Named constructors\<close>

definition Clone :: "'d double_ops \<Rightarrow> 'd Value \<Rightarrow> 'd Value result" where
  "Clone D src = Copy D src"

definition GetTinyIntValue :: "int \<Rightarrow> 'd Value result" where
  "GetTinyIntValue i = Value_int8 TINYINT i"

definition GetSmallIntValue :: "int \<Rightarrow> 'd Value result" where
  "GetSmallIntValue i = Value_int16 SMALLINT i"

definition GetIntegerValue :: "int \<Rightarrow> 'd Value result" where
  "GetIntegerValue i = Value_int32 INTEGER i"

definition GetBigIntValue :: "int \<Rightarrow> 'd Value result" where
  "GetBigIntValue i = Value_int64 BIGINT i"

definition GetTimestampValue :: "int \<Rightarrow> 'd Value result" where
  "GetTimestampValue i = Value_int64 TIMESTAMP i"

definition GetDecimalValue :: "'d double_ops \<Rightarrow> 'd \<Rightarrow> 'd Value result" where
  "GetDecimalValue D d = Value_double D DECIMAL d"

definition GetBooleanValue_cmp :: "CmpBool \<Rightarrow> 'd Value result" where
  "GetBooleanValue_cmp c =
     Value_int8 BOOLEAN
       (case c of CmpNull \<Rightarrow> BUSTUB_BOOLEAN_NULL | CmpFalse \<Rightarrow> 0 | CmpTrue \<Rightarrow> 1)"

definition GetBooleanValue_bool :: "bool \<Rightarrow> 'd Value result" where
  "GetBooleanValue_bool b = Value_int8 BOOLEAN (if b then 1 else 0)"

definition GetBooleanValue_int8 :: "int \<Rightarrow> 'd Value result" where
  "GetBooleanValue_int8 i = Value_int8 BOOLEAN i"

text \<open>A C string ends at its first zero byte, which must be there.\<close>

definition strlen :: "string \<Rightarrow> nat result" where
  "strlen s =
     (let n = length (takeWhile (\<lambda>c. c \<noteq> CHR 0x00) s)
      in if n < length s then Inr n else Inl UndefinedBehaviour)"

definition GetVarcharValue_len :: "string option \<Rightarrow> int \<Rightarrow> bool \<Rightarrow> 'd Value result" where
  "GetVarcharValue_len p len manage_data = Value_varlen VARCHAR p len manage_data"

definition GetVarcharValue_ptr :: "string option \<Rightarrow> bool \<Rightarrow> 'd Value result" where
  "GetVarcharValue_ptr p manage_data =
     bind_result (case p of None \<Rightarrow> Inr 0 | Some s \<Rightarrow> bind_result (strlen s) (\<lambda>n. Inr (int n + 1)))
       (\<lambda>len. GetVarcharValue_len p (len mod 2 ^ 32) manage_data)"

definition GetVarcharValue :: "string \<Rightarrow> 'd Value result" where
  "GetVarcharValue s = Value_string VARCHAR s"

definition GetNullValueByType :: "'d double_ops \<Rightarrow> TypeId \<Rightarrow> 'd Value result" where
  "GetNullValueByType D t =
     (case t of
        BOOLEAN \<Rightarrow> GetBooleanValue_int8 BUSTUB_BOOLEAN_NULL
      | TINYINT \<Rightarrow> GetTinyIntValue BUSTUB_INT8_NULL
      | SMALLINT \<Rightarrow> GetSmallIntValue BUSTUB_INT16_NULL
      | INTEGER \<Rightarrow> GetIntegerValue BUSTUB_INT32_NULL
      | BIGINT \<Rightarrow> GetBigIntValue BUSTUB_INT64_NULL
      | DECIMAL \<Rightarrow> GetDecimalValue D (BUSTUB_DECIMAL_NULL D)
      | VARCHAR \<Rightarrow> GetVarcharValue_ptr None False
      | _ \<Rightarrow> Inl (Exception ET_UNKNOWN_TYPE))"

definition GetZeroValueByType :: "'d double_ops \<Rightarrow> TypeId \<Rightarrow> 'd Value result" where
  "GetZeroValueByType D t =
     (case t of
        BOOLEAN \<Rightarrow> GetBooleanValue_bool False
      | TINYINT \<Rightarrow> GetTinyIntValue 0
      | SMALLINT \<Rightarrow> GetSmallIntValue 0
      | INTEGER \<Rightarrow> GetIntegerValue 0
      | BIGINT \<Rightarrow> GetBigIntValue 0
      | DECIMAL \<Rightarrow> GetDecimalValue D (d_of_int D 0)
      | VARCHAR \<Rightarrow> GetVarcharValue ''0''
      | _ \<Rightarrow> Inl (Exception ET_UNKNOWN_TYPE))"

section \<open>Checked conversions\<close>

text \<open>
  Here both exceptions of the parsers are caught; the text of the final
  exception of each conversion is computed with \<^verbatim>\<open>ToString\<close>.
\<close>

definition parse_caught :: "'a parsed \<Rightarrow> 'a result" where
  "parse_caught p =
     (case p of Parsed x \<Rightarrow> Inr x | ParseOutOfRange \<Rightarrow> out_of_range
      | ParseInvalid \<Rightarrow> Inl (Exception ET_INVALID))"

definition not_coercable :: "'d double_ops \<Rightarrow> 'd Value \<Rightarrow> 'a result" where
  "not_coercable D v = bind_result (ToString D v) (\<lambda>s. Inl (Exception ET_INVALID))"

definition CastAsBigInt :: "'d double_ops \<Rightarrow> 'd Value \<Rightarrow> 'd Value result" where
  "CastAsBigInt D v =
     (if IsCoercableFrom BIGINT (v_type v) then
        if IsNull v then GetBigIntValue BUSTUB_INT64_NULL
        else (case v_type v of
            TINYINT \<Rightarrow> bind_result (GetAs_int 8 v) (\<lambda>x. GetBigIntValue (scast 64 x))
          | SMALLINT \<Rightarrow> bind_result (GetAs_int 16 v) (\<lambda>x. GetBigIntValue (scast 64 x))
          | INTEGER \<Rightarrow> bind_result (GetAs_int 32 v) (\<lambda>x. GetBigIntValue (scast 64 x))
          | BIGINT \<Rightarrow> bind_result (GetAs_int 64 v) (\<lambda>x. GetBigIntValue x)
          | DECIMAL \<Rightarrow> bind_result (GetAs_double v) (\<lambda>d.
              if d_lt D (d_of_int D BUSTUB_INT64_MAX) d \<or> d_lt D d (d_of_int D BUSTUB_INT64_MIN)
              then out_of_range
              else bind_result (d_cast_int D 64 d) (\<lambda>x. GetBigIntValue x))
          | VARCHAR \<Rightarrow> bind_result (ToString D v) (\<lambda>s. bind_result (parse_caught (stoll s)) (\<lambda>i.
              if i > BUSTUB_INT64_MAX \<or> i < BUSTUB_INT64_MIN then out_of_range
              else GetBigIntValue i))
          | _ \<Rightarrow> not_coercable D v)
      else not_coercable D v)"

definition CastAsInteger :: "'d double_ops \<Rightarrow> 'd Value \<Rightarrow> 'd Value result" where
  "CastAsInteger D v =
     (if IsCoercableFrom INTEGER (v_type v) then
        if IsNull v then GetIntegerValue BUSTUB_INT32_NULL
        else (case v_type v of
            TINYINT \<Rightarrow> bind_result (GetAs_int 8 v) (\<lambda>x. GetIntegerValue (scast 32 x))
          | SMALLINT \<Rightarrow> bind_result (GetAs_int 16 v) (\<lambda>x. GetIntegerValue (scast 32 x))
          | INTEGER \<Rightarrow> bind_result (GetAs_int 32 v) (\<lambda>x. GetIntegerValue x)
          | BIGINT \<Rightarrow> bind_result (GetAs_int 64 v) (\<lambda>x.
              if x > BUSTUB_INT32_MAX \<or> x < BUSTUB_INT32_MIN then out_of_range
              else GetIntegerValue (scast 32 x))
          | DECIMAL \<Rightarrow> bind_result (GetAs_double v) (\<lambda>d.
              if d_lt D (d_of_int D BUSTUB_INT32_MAX) d \<or> d_lt D d (d_of_int D BUSTUB_INT32_MIN)
              then out_of_range
              else bind_result (d_cast_int D 32 d) (\<lambda>x. GetIntegerValue x))
          | VARCHAR \<Rightarrow> bind_result (ToString D v) (\<lambda>s. bind_result (parse_caught (stoi s)) (\<lambda>i.
              if i > BUSTUB_INT32_MAX \<or> i < BUSTUB_INT32_MIN then out_of_range
              else GetIntegerValue i))
          | _ \<Rightarrow> not_coercable D v)
      else not_coercable D v)"

definition CastAsSmallInt :: "'d double_ops \<Rightarrow> 'd Value \<Rightarrow> 'd Value result" where
  "CastAsSmallInt D v =
     (if IsCoercableFrom SMALLINT (v_type v) then
        if IsNull v then GetSmallIntValue BUSTUB_INT16_NULL
        else (case v_type v of
            TINYINT \<Rightarrow> bind_result (GetAs_int 8 v) (\<lambda>x. GetSmallIntValue (scast 16 x))
          | SMALLINT \<Rightarrow> bind_result (GetAs_int 16 v) (\<lambda>x. GetSmallIntValue x)
          | INTEGER \<Rightarrow> bind_result (GetAs_int 32 v) (\<lambda>x.
              if x > BUSTUB_INT16_MAX \<or> x < BUSTUB_INT16_MIN then out_of_range
              else GetSmallIntValue (scast 16 x))
          | BIGINT \<Rightarrow> bind_result (GetAs_int 64 v) (\<lambda>x.
              if x > BUSTUB_INT16_MAX \<or> x < BUSTUB_INT16_MIN then out_of_range
              else GetSmallIntValue (scast 16 x))
          | DECIMAL \<Rightarrow> bind_result (GetAs_double v) (\<lambda>d.
              if d_lt D (d_of_int D BUSTUB_INT16_MAX) d \<or> d_lt D d (d_of_int D BUSTUB_INT16_MIN)
              then out_of_range
              else bind_result (d_cast_int D 16 d) (\<lambda>x. GetSmallIntValue x))
          | VARCHAR \<Rightarrow> bind_result (ToString D v) (\<lambda>s. bind_result (parse_caught (stoi s)) (\<lambda>i.
              let narrowed = scast 16 i
              in if narrowed < BUSTUB_INT16_MIN then out_of_range else GetSmallIntValue narrowed))
          | _ \<Rightarrow> not_coercable D v)
      else not_coercable D v)"

definition CastAsTinyInt :: "'d double_ops \<Rightarrow> 'd Value \<Rightarrow> 'd Value result" where
  "CastAsTinyInt D v =
     (if IsCoercableFrom TINYINT (v_type v) then
        if IsNull v then GetTinyIntValue BUSTUB_INT8_NULL
        else (case v_type v of
            TINYINT \<Rightarrow> bind_result (GetAs_int 8 v) (\<lambda>x. GetTinyIntValue x)
          | SMALLINT \<Rightarrow> bind_result (GetAs_int 16 v) (\<lambda>x.
              if x > BUSTUB_INT8_MAX \<or> x < BUSTUB_INT8_MIN then out_of_range
              else GetTinyIntValue (scast 8 x))
          | INTEGER \<Rightarrow> bind_result (GetAs_int 32 v) (\<lambda>x.
              if x > BUSTUB_INT8_MAX \<or> x < BUSTUB_INT8_MIN then out_of_range
              else GetTinyIntValue (scast 8 x))
          | BIGINT \<Rightarrow> bind_result (GetAs_int 64 v) (\<lambda>x.
              if x > BUSTUB_INT8_MAX \<or> x < BUSTUB_INT8_MIN then out_of_range
              else GetTinyIntValue (scast 8 x))
          | DECIMAL \<Rightarrow> bind_result (GetAs_double v) (\<lambda>d.
              if d_lt D (d_of_int D BUSTUB_INT8_MAX) d \<or> d_lt D d (d_of_int D BUSTUB_INT8_MIN)
              then out_of_range
              else bind_result (d_cast_int D 8 d) (\<lambda>x. GetTinyIntValue x))
          | VARCHAR \<Rightarrow> bind_result (ToString D v) (\<lambda>s. bind_result (parse_caught (stoi s)) (\<lambda>i.
              let narrowed = scast 8 i
              in if narrowed < BUSTUB_INT8_MIN then out_of_range else GetTinyIntValue narrowed))
          | _ \<Rightarrow> not_coercable D v)
      else not_coercable D v)"

definition CastAsDecimal :: "'d double_ops \<Rightarrow> 'd Value \<Rightarrow> 'd Value result" where
  "CastAsDecimal D v =
     (if IsCoercableFrom DECIMAL (v_type v) then
        if IsNull v then GetDecimalValue D (BUSTUB_DECIMAL_NULL D)
        else (case v_type v of
            TINYINT \<Rightarrow> bind_result (GetAs_int 8 v) (\<lambda>x. GetDecimalValue D (d_of_int D x))
          | SMALLINT \<Rightarrow> bind_result (GetAs_int 16 v) (\<lambda>x. GetDecimalValue D (d_of_int D x))
          | INTEGER \<Rightarrow> bind_result (GetAs_int 32 v) (\<lambda>x. GetDecimalValue D (d_of_int D x))
          | BIGINT \<Rightarrow> bind_result (GetAs_int 64 v) (\<lambda>x. GetDecimalValue D (d_of_int D x))
          | DECIMAL \<Rightarrow> bind_result (GetAs_double v) (\<lambda>d. GetDecimalValue D d)
          | VARCHAR \<Rightarrow> bind_result (ToString D v) (\<lambda>s. bind_result (parse_caught (d_stod D s)) (\<lambda>d.
              if d_lt D (BUSTUB_DECIMAL_MAX D) d \<or> d_lt D d (BUSTUB_DECIMAL_MIN D) then out_of_range
              else GetDecimalValue D d))
          | _ \<Rightarrow> not_coercable D v)
      else not_coercable D v)"

definition CastAsVarchar :: "'d double_ops \<Rightarrow> 'd Value \<Rightarrow> 'd Value result" where
  "CastAsVarchar D v =
     (if IsCoercableFrom VARCHAR (v_type v) then
        if IsNull v then GetVarcharValue_ptr None False
        else (case v_type v of
            TIMESTAMP \<Rightarrow> not_coercable D v
          | INVALID \<Rightarrow> not_coercable D v
          | _ \<Rightarrow> bind_result (ToString D v) (\<lambda>s. GetVarcharValue s))
      else not_coercable D v)"

definition CastAsBoolean :: "'d double_ops \<Rightarrow> 'd Value \<Rightarrow> 'd Value result" where
  "CastAsBoolean D v =
     (if IsCoercableFrom BOOLEAN (v_type v) then
        if IsNull v then GetBooleanValue_int8 BUSTUB_BOOLEAN_NULL
        else (case v_type v of
            BOOLEAN \<Rightarrow> bind_result (GetAs_int 8 v) (\<lambda>x. GetBooleanValue_int8 x)
          | VARCHAR \<Rightarrow> bind_result (ToString D v) (\<lambda>s.
              let str = map tolower s
              in if str = ''true'' \<or> str = ''1'' \<or> str = ''t'' then GetBooleanValue_bool True
                 else if str = ''false'' \<or> str = ''0'' \<or> str = ''f'' then GetBooleanValue_bool False
                 else Inl (Exception ET_INVALID))
          | _ \<Rightarrow> not_coercable D v)
      else not_coercable D v)"

end
