(* ===== verification/TypeLaws.thy ===== *)
theory TypeLaws
  imports ValueFactory "HOL-Library.List_Lexorder"
begin

text \<open>
  The laws of the type subsystem: the invariant of values and its preservation, the reference
  semantics of integer arithmetic and comparison that the four integer classes implement, the
  order of strings, and the round trips of casts and of serialisation.
\<close>

section \<open>Well-formed values\<close>

definition int_types :: "TypeId set" where
  "int_types = {TINYINT, SMALLINT, INTEGER, BIGINT}"

definition null_mark :: "TypeId \<Rightarrow> int" where
  "null_mark t = - (2 ^ (int_bits t - 1))"

definition mk_int :: "TypeId \<Rightarrow> int \<Rightarrow> 'd Value" where
  "mk_int t i = int_Value t i (null_mark t)"

definition mk_string :: "string \<Rightarrow> 'd Value" where
  "mk_string s = (Value_type VARCHAR)\<lparr>v_val := StrVal (Some (s @ [CHR 0x00])),
     v_len := int (length s) + 1, v_manage := True\<rparr>"

text \<open>
  The member that was written is the one of the type, it is in the range of the member, and
  the length says whether it is null; a string owns as many bytes as its length says.
\<close>

definition wf_Value :: "'d double_ops \<Rightarrow> 'd Value \<Rightarrow> bool" where
  "wf_Value D v \<longleftrightarrow>
     (case v_type v of
        INVALID \<Rightarrow> IsNull v
      | DECIMAL \<Rightarrow>
          (case v_val v of
             DecVal d \<Rightarrow> v_len v = (if d_eq D d (BUSTUB_DECIMAL_NULL D) then BUSTUB_VALUE_NULL else 0)
           | _ \<Rightarrow> False) \<and> \<not> v_manage v
      | VARCHAR \<Rightarrow>
          (case v_val v of
             StrVal None \<Rightarrow> IsNull v
           | StrVal (Some bs) \<Rightarrow> 0 \<le> v_len v \<and> v_len v \<le> BUSTUB_VALUE_NULL \<and> v_len v \<le> int (length bs)
           | _ \<Rightarrow> False)
      | TIMESTAMP \<Rightarrow>
          (case v_val v of
             IntVal i \<Rightarrow> 0 \<le> i \<and> i < 2 ^ 64 \<and>
               v_len v = (if i = BUSTUB_TIMESTAMP_NULL then BUSTUB_VALUE_NULL else 0)
           | _ \<Rightarrow> False) \<and> \<not> v_manage v
      | t \<Rightarrow>
          (case v_val v of
             IntVal i \<Rightarrow> in_sint (int_bits t) i \<and>
               v_len v = (if i = null_mark t then BUSTUB_VALUE_NULL else 0)
           | _ \<Rightarrow> False) \<and> \<not> v_manage v)"

lemma mk_int_fields [simp]:
  "v_type (mk_int t i) = t" "v_val (mk_int t i) = IntVal i"
  "v_len (mk_int t i) = (if i = null_mark t then BUSTUB_VALUE_NULL else 0)"
  "v_manage (mk_int t i) \<longleftrightarrow> False"
  by (simp_all add: mk_int_def int_Value_def Value_type_def)

lemma mk_string_fields [simp]:
  "v_type (mk_string s) = VARCHAR" "v_val (mk_string s) = StrVal (Some (s @ [CHR 0x00]))"
  "v_len (mk_string s) = int (length s) + 1" "v_manage (mk_string s)"
  by (simp_all add: mk_string_def Value_type_def)

lemma IsNull_mk_int [simp]: "IsNull (mk_int t i) \<longleftrightarrow> i = null_mark t"
  by (simp add: IsNull_def limit_defs)

lemma int_types_cases:
  assumes "t \<in> int_types"
  obtains "t = TINYINT" | "t = SMALLINT" | "t = INTEGER" | "t = BIGINT"
  using assms by (auto simp: int_types_def)

lemma int_bits_simps [simp]:
  "int_bits BOOLEAN = 8" "int_bits TINYINT = 8" "int_bits SMALLINT = 16" "int_bits INTEGER = 32"
  "int_bits BIGINT = 64" "int_bits TIMESTAMP = 64"
  by (simp_all add: int_bits_def)

lemma null_mark_simps:
  "null_mark BOOLEAN = BUSTUB_BOOLEAN_NULL" "null_mark TINYINT = BUSTUB_INT8_NULL"
  "null_mark SMALLINT = BUSTUB_INT16_NULL" "null_mark INTEGER = BUSTUB_INT32_NULL"
  "null_mark BIGINT = BUSTUB_INT64_NULL"
  by (simp_all add: null_mark_def limit_defs)

lemma int_bits_pos: "t \<in> int_types \<Longrightarrow> 0 < int_bits t"
  by (auto elim!: int_types_cases)

lemma wf_mk_int: "t \<in> insert BOOLEAN int_types \<Longrightarrow> in_sint (int_bits t) i \<Longrightarrow> wf_Value D (mk_int t i)"
  by (auto simp: wf_Value_def int_types_def)

lemma wf_int_Value:
  assumes "wf_Value D v" "v_type v \<in> insert BOOLEAN int_types"
  obtains i where "v = mk_int (v_type v) i" "in_sint (int_bits (v_type v)) i"
proof -
  from assms obtain i where "v_val v = IntVal i" "in_sint (int_bits (v_type v)) i"
    "v_len v = (if i = null_mark (v_type v) then BUSTUB_VALUE_NULL else 0)" "\<not> v_manage v"
    by (cases "v_val v") (auto simp: wf_Value_def int_types_def)
  then show ?thesis
    by (intro that [of i]) (simp_all add: mk_int_def int_Value_def Value_type_def)
qed

section \<open>Integer constructors and reads\<close>

lemma in_sint_8: "in_sint 8 i \<longleftrightarrow> -128 \<le> i \<and> i < 128"
  by (simp add: in_sint_def)

lemma in_sint_16: "in_sint 16 i \<longleftrightarrow> -32768 \<le> i \<and> i < 32768"
  by (simp add: in_sint_def)

lemma in_sint_32: "in_sint 32 i \<longleftrightarrow> -2147483648 \<le> i \<and> i < 2147483648"
  by (simp add: in_sint_def)

lemma in_sint_64: "in_sint 64 i \<longleftrightarrow> -9223372036854775808 \<le> i \<and> i < 9223372036854775808"
  by (simp add: in_sint_def)

lemmas in_sint_widths = in_sint_8 in_sint_16 in_sint_32 in_sint_64

lemma in_sint_widen:
  "in_sint 8 i \<Longrightarrow> in_sint 16 i" "in_sint 8 i \<Longrightarrow> in_sint 32 i" "in_sint 8 i \<Longrightarrow> in_sint 64 i"
  "in_sint 16 i \<Longrightarrow> in_sint 32 i" "in_sint 16 i \<Longrightarrow> in_sint 64 i" "in_sint 32 i \<Longrightarrow> in_sint 64 i"
  by (auto simp: in_sint_widths)

lemma Value_intN:
  assumes "t \<in> insert BOOLEAN int_types"
  shows "Value_int8 t i = Inr (mk_int t (scast (int_bits t) i))"
    "Value_int16 t i = Inr (mk_int t (scast (int_bits t) i))"
    "Value_int32 t i = Inr (mk_int t (scast (int_bits t) i))"
    "Value_int64 t i = Inr (mk_int t (scast (int_bits t) i))"
  using assms
  by (auto simp: int_types_def Value_int8_def Value_int16_def Value_int32_def Value_int64_def
      mk_int_def null_mark_simps)

lemma Value_int_mk:
  "t \<in> int_types \<Longrightarrow> in_sint (int_bits t) i \<Longrightarrow> Value_int w t i = Inr (mk_int t i)"
  by (simp add: Value_int_def Value_intN scast_id int_bits_pos)

lemma GetAs_mk_int:
  "t \<in> insert BOOLEAN int_types \<Longrightarrow> in_sint (int_bits t) i \<Longrightarrow>
   GetAs_int (int_bits t) (mk_int t i) = Inr i"
  by (auto simp: GetAs_int_def int_types_def scast_id)

section \<open>Integer arithmetic\<close>

text \<open>
  The reference: the mathematical result, delivered in the wider of the two types.  The
  operation itself is carried out with at least 32 bits, and only that width can overflow.
\<close>

datatype arith_op = OpAdd | OpSub | OpMul | OpDiv | OpMod

fun arith_int :: "arith_op \<Rightarrow> int \<Rightarrow> int \<Rightarrow> int" where
  "arith_int OpAdd x y = x + y"
| "arith_int OpSub x y = x - y"
| "arith_int OpMul x y = x * y"
| "arith_int OpDiv x y = quot x y"
| "arith_int OpMod x y = remainder x y"

fun arith_Value :: "arith_op \<Rightarrow> 'd double_ops \<Rightarrow> 'd Value \<Rightarrow> 'd Value \<Rightarrow> 'd Value result" where
  "arith_Value OpAdd = Add"
| "arith_Value OpSub = Subtract"
| "arith_Value OpMul = Multiply"
| "arith_Value OpDiv = Divide"
| "arith_Value OpMod = Modulo"

definition wider :: "TypeId \<Rightarrow> TypeId \<Rightarrow> TypeId" where
  "wider t1 t2 = (if int_bits t1 \<ge> int_bits t2 then t1 else t2)"

definition ref_arith :: "arith_op \<Rightarrow> TypeId \<Rightarrow> TypeId \<Rightarrow> int \<Rightarrow> int \<Rightarrow> 'd Value result" where
  "ref_arith f t1 t2 x y =
     (let z = arith_int f x y; t = wider t1 t2
      in if f \<in> {OpDiv, OpMod} \<and> y = 0 then Inl (Exception ET_DIVIDE_BY_ZERO)
         else if in_sint (int_bits t) z then Inr (mk_int t z)
         else if in_sint (max 32 (int_bits t)) z then Inl (Exception ET_OUT_OF_RANGE)
         else Inl UndefinedBehaviour)"

lemma wider_int_types: "t1 \<in> int_types \<Longrightarrow> t2 \<in> int_types \<Longrightarrow> wider t1 t2 \<in> int_types"
  by (simp add: wider_def)

lemma int_bits_wider: "int_bits (wider t1 t2) = max (int_bits t1) (int_bits t2)"
  by (simp add: wider_def)

lemma abs_quot: "abs (quot x y) = abs x div abs y"
  by (auto simp: quot_def abs_mult abs_sgn_eq pos_imp_zdiv_nonneg_iff)

lemma quot_abs_le: "abs (quot x y) \<le> abs x"
  unfolding abs_quot by (cases "y = 0") (simp_all add: zdiv_mono2 [of "abs x" 1 "abs y", simplified])

lemma quot_mult: "y \<noteq> 0 \<Longrightarrow> quot (x * y) y = x"
  by (simp add: quot_def abs_mult sgn_mult mult.assoc sgn_mult_abs)

lemma abs_remainder: "y \<noteq> 0 \<Longrightarrow> abs (remainder x y) = abs x mod abs y"
proof -
  assume y: "y \<noteq> 0"
  have "remainder x y = x - sgn x * ((y * sgn y) * (abs x div abs y))"
    unfolding remainder_def quot_def by (simp only: mult_ac)
  also have "\<dots> = sgn x * abs x - sgn x * (abs y * (abs x div abs y))"
    by (simp only: abs_sgn [symmetric] sgn_mult_abs)
  also have "\<dots> = sgn x * (abs x - abs y * (abs x div abs y))"
    by (simp only: right_diff_distrib)
  also have "\<dots> = sgn x * (abs x mod abs y)"
    by (simp add: minus_mult_div_eq_mod)
  finally show ?thesis
    using y by (cases "x = 0") (simp_all add: abs_mult abs_sgn_eq)
qed

lemma in_sint_abs: "0 < w \<Longrightarrow> in_sint w x \<Longrightarrow> x \<noteq> - (2 ^ (w - 1)) \<Longrightarrow> abs z \<le> abs x \<Longrightarrow> in_sint w z"
  unfolding in_sint_def by linarith

lemma quot_in_range:
  assumes "t1 \<in> int_types" "in_sint (int_bits t1) x" "x \<noteq> null_mark t1"
  shows "in_sint (int_bits t1) (quot x y)"
  using assms quot_abs_le by (auto simp: null_mark_def intro: in_sint_abs [OF int_bits_pos])

lemma remainder_in_range:
  assumes "t1 \<in> int_types" "in_sint (int_bits t1) x" "x \<noteq> null_mark t1" "y \<noteq> 0"
  shows "in_sint (int_bits t1) (remainder x y)"
proof -
  have "abs (remainder x y) \<le> abs x"
    using assms(4) by (simp add: abs_remainder zmod_le_nonneg_dividend)
  with assms(1-3) show ?thesis
    by (auto simp: null_mark_def intro: in_sint_abs [OF int_bits_pos])
qed

text \<open>
  The shared shape of the templates: the result of an operation carried out with the promoted
  width \<open>p\<close> is delivered in the wider type when it fits there.
\<close>

lemma scast_agree:
  assumes "t1 \<in> int_types" "t2 \<in> int_types"
  shows "(s \<noteq> scast (int_bits t1) s \<and> s \<noteq> scast (int_bits t2) s) \<longleftrightarrow>
         \<not> in_sint (int_bits (wider t1 t2)) s"
proof -
  have "s \<noteq> scast (int_bits t) s \<longleftrightarrow> \<not> in_sint (int_bits t) s" if "t \<in> int_types" for t
    using scast_eq_iff [OF int_bits_pos [OF that], of s] by metis
  then show ?thesis
    using assms in_sint_mono [of "int_bits t1" s "int_bits t2"] in_sint_mono [of "int_bits t2" s "int_bits t1"]
    by (auto simp: wider_def)
qed

lemma promoted_wider: "promoted (int_bits t1) (int_bits t2) = max 32 (int_bits (wider t1 t2))"
  by (simp add: promoted_def int_bits_wider)

lemma checked_wider:
  "checked (int_bits t1) (int_bits t2) z =
   (if in_sint (max 32 (int_bits (wider t1 t2))) z then Inr z else Inl UndefinedBehaviour)"
  by (simp add: checked_def promoted_wider)

lemma in_promoted: "in_sint (int_bits (wider t1 t2)) z \<Longrightarrow> in_sint (max 32 (int_bits (wider t1 t2))) z"
  by (erule in_sint_mono) simp

lemma AddValue_ref:
  assumes t: "t1 \<in> int_types" "t2 \<in> int_types"
    and r: "in_sint (int_bits t1) x" "in_sint (int_bits t2) y"
  shows "AddValue (int_bits t1) (int_bits t2) (mk_int t1 x) (mk_int t2 y) = ref_arith OpAdd t1 t2 x y"
proof (cases "in_sint (int_bits (wider t1 t2)) (x + y)")
  case True
  then show ?thesis
    using t r in_promoted [OF True]
    by (auto simp: AddValue_def GetAs_mk_int checked_wider ref_arith_def Let_def scast_agree
        wider_def scast_id int_bits_pos Value_int_mk split: if_splits)
next
  case False
  then show ?thesis
    using t r
    by (auto simp: AddValue_def GetAs_mk_int checked_wider ref_arith_def Let_def scast_agree out_of_range_def)
qed

lemma SubtractValue_ref:
  assumes t: "t1 \<in> int_types" "t2 \<in> int_types"
    and r: "in_sint (int_bits t1) x" "in_sint (int_bits t2) y"
  shows "SubtractValue (int_bits t1) (int_bits t2) (mk_int t1 x) (mk_int t2 y) = ref_arith OpSub t1 t2 x y"
proof (cases "in_sint (int_bits (wider t1 t2)) (x - y)")
  case True
  then show ?thesis
    using t r in_promoted [OF True]
    by (auto simp: SubtractValue_def GetAs_mk_int checked_wider ref_arith_def Let_def scast_agree
        wider_def scast_id int_bits_pos Value_int_mk split: if_splits)
next
  case False
  then show ?thesis
    using t r
    by (auto simp: SubtractValue_def GetAs_mk_int checked_wider ref_arith_def Let_def scast_agree out_of_range_def)
qed

lemma MultiplyValue_ref:
  assumes t: "t1 \<in> int_types" "t2 \<in> int_types"
    and r: "in_sint (int_bits t1) x" "in_sint (int_bits t2) y"
  shows "MultiplyValue (int_bits t1) (int_bits t2) (mk_int t1 x) (mk_int t2 y) = ref_arith OpMul t1 t2 x y"
proof (cases "in_sint (int_bits (wider t1 t2)) (x * y)")
  case True
  have "in_sint (max 32 (int_bits (wider t1 t2))) x"
    using r(1) by (rule in_sint_mono) (simp add: int_bits_wider)
  then show ?thesis
    using True t r in_promoted [OF True]
    by (cases "y = 0") (auto simp: MultiplyValue_def GetAs_mk_int checked_wider ref_arith_def Let_def
        scast_agree wider_def scast_id int_bits_pos Value_int_mk quot_mult split: if_splits)
next
  case False
  then show ?thesis
    using t r
    by (auto simp: MultiplyValue_def GetAs_mk_int checked_wider ref_arith_def Let_def scast_agree out_of_range_def)
qed

lemma DivideValue_ref:
  assumes t: "t1 \<in> int_types" "t2 \<in> int_types"
    and r: "in_sint (int_bits t1) x" "in_sint (int_bits t2) y" and x: "x \<noteq> null_mark t1"
  shows "DivideValue (int_bits t1) (int_bits t2) (mk_int t1 x) (mk_int t2 y) = ref_arith OpDiv t1 t2 x y"
proof -
  have "in_sint (int_bits (wider t1 t2)) (quot x y)"
    by (rule in_sint_mono [OF quot_in_range [OF t(1) r(1) x]]) (simp add: int_bits_wider)
  then show ?thesis
    using t r in_promoted [of t1 t2 "quot x y"]
    by (auto simp: DivideValue_def GetAs_mk_int checked_wider ref_arith_def Let_def
        wider_def scast_id int_bits_pos Value_int_mk split: if_splits)
qed

lemma ModuloValue_ref:
  assumes t: "t1 \<in> int_types" "t2 \<in> int_types"
    and r: "in_sint (int_bits t1) x" "in_sint (int_bits t2) y" and x: "x \<noteq> null_mark t1"
  shows "ModuloValue (int_bits t1) (int_bits t2) (mk_int t1 x) (mk_int t2 y) = ref_arith OpMod t1 t2 x y"
proof (cases "y = 0")
  case True
  then show ?thesis
    using t r by (simp add: ModuloValue_def GetAs_mk_int ref_arith_def Let_def)
next
  case False
  have "in_sint (int_bits (wider t1 t2)) (quot x y)"
    by (rule in_sint_mono [OF quot_in_range [OF t(1) r(1) x]]) (simp add: int_bits_wider)
  moreover have "in_sint (int_bits (wider t1 t2)) (remainder x y)"
    by (rule in_sint_mono [OF remainder_in_range [OF t(1) r(1) x False]]) (simp add: int_bits_wider)
  ultimately show ?thesis
    using t r False in_promoted [of t1 t2 "quot x y"]
    by (auto simp: ModuloValue_def GetAs_mk_int checked_wider ref_arith_def Let_def
        wider_def scast_id int_bits_pos Value_int_mk split: if_splits)
qed

lemmas templates_ref =
  AddValue_ref SubtractValue_ref MultiplyValue_ref DivideValue_ref ModuloValue_ref

text \<open>The guards of the methods are passed by integer operands.\<close>

lemma CheckInteger_mk_int: "t \<in> int_types \<Longrightarrow> CheckInteger (mk_int t i)"
  by (auto simp: CheckInteger_def int_types_def)

lemma CheckComparable_mk_int:
  "t1 \<in> int_types \<Longrightarrow> v_type r \<in> insert DECIMAL (insert VARCHAR int_types) \<Longrightarrow>
   CheckComparable (mk_int t1 x) r"
  by (auto simp: CheckComparable_def int_types_def)

lemma IsZero_mk_int:
  "t \<in> int_types \<Longrightarrow> in_sint (int_bits t) y \<Longrightarrow> IsZero D (mk_int t y) = Inr (y = 0)"
  by (auto simp: IsZero_def TinyintType_IsZero_def SmallintType_IsZero_def IntegerType_IsZero_def
      BigintType_IsZero_def GetAs_int_def scast_id elim!: int_types_cases)

text \<open>
  Each class instantiates the macro with the templates at its own width and the width of the
  right operand.
\<close>

lemma MODIFY_FUNC_mk_int:
  assumes "t2 \<in> int_types"
  shows "TINYINT_MODIFY_FUNC D M dop l (mk_int t2 y) = M (int_bits TINYINT) (int_bits t2) l (mk_int t2 y)"
    "SMALLINT_MODIFY_FUNC D M dop l (mk_int t2 y) = M (int_bits SMALLINT) (int_bits t2) l (mk_int t2 y)"
    "INT_MODIFY_FUNC D M dop l (mk_int t2 y) = M (int_bits INTEGER) (int_bits t2) l (mk_int t2 y)"
    "BIGINT_MODIFY_FUNC D M dop l (mk_int t2 y) = M (int_bits BIGINT) (int_bits t2) l (mk_int t2 y)"
  using assms
  by (auto simp: TINYINT_MODIFY_FUNC_def SMALLINT_MODIFY_FUNC_def INT_MODIFY_FUNC_def
      BIGINT_MODIFY_FUNC_def elim!: int_types_cases)

lemmas int_class_arith_defs =
  TinyintType_Add_def TinyintType_Subtract_def TinyintType_Multiply_def TinyintType_Divide_def
  TinyintType_Modulo_def SmallintType_Add_def SmallintType_Subtract_def SmallintType_Multiply_def
  SmallintType_Divide_def SmallintType_Modulo_def IntegerType_Add_def IntegerType_Subtract_def
  IntegerType_Multiply_def IntegerType_Divide_def IntegerType_Modulo_def BigintType_Add_def
  BigintType_Subtract_def BigintType_Multiply_def BigintType_Divide_def BigintType_Modulo_def

lemma ref_arith_div_zero:
  "f \<in> {OpDiv, OpMod} \<Longrightarrow> ref_arith f t1 t2 x 0 = Inl (Exception ET_DIVIDE_BY_ZERO)"
  by (simp add: ref_arith_def Let_def)

text \<open>The method an integer class runs on integer operands that are not null.\<close>

fun arith_template :: "arith_op \<Rightarrow> nat \<Rightarrow> nat \<Rightarrow> 'd Value \<Rightarrow> 'd Value \<Rightarrow> 'd Value result" where
  "arith_template OpAdd = AddValue"
| "arith_template OpSub = SubtractValue"
| "arith_template OpMul = MultiplyValue"
| "arith_template OpDiv = DivideValue"
| "arith_template OpMod = ModuloValue"

lemma arith_template_ref:
  assumes "t1 \<in> int_types" "t2 \<in> int_types"
    "in_sint (int_bits t1) x" "in_sint (int_bits t2) y" "x \<noteq> null_mark t1"
  shows "arith_template f (int_bits t1) (int_bits t2) (mk_int t1 x) (mk_int t2 y) = ref_arith f t1 t2 x y"
  using assms by (cases f) (simp_all add: templates_ref)

lemma Modulo_switch:
  assumes "t2 \<in> int_types"
  shows "(case t2 of TINYINT \<Rightarrow> ModuloValue w 8 l r | SMALLINT \<Rightarrow> ModuloValue w 16 l r
          | INTEGER \<Rightarrow> ModuloValue w 32 l r | BIGINT \<Rightarrow> ModuloValue w 64 l r
          | DECIMAL \<Rightarrow> e | VARCHAR \<Rightarrow> f | _ \<Rightarrow> g) = ModuloValue w (int_bits t2) l r"
  using assms by (auto elim!: int_types_cases)

lemma int_arith_template:
  fixes D :: "'d double_ops"
  assumes t: "t1 \<in> int_types" "t2 \<in> int_types"
    and r: "in_sint (int_bits t1) x" "in_sint (int_bits t2) y"
    and nn: "x \<noteq> null_mark t1" "y \<noteq> null_mark t2"
  shows "arith_Value f D (mk_int t1 x) (mk_int t2 y) =
    (if f \<in> {OpDiv, OpMod} \<and> y = 0 then Inl (Exception ET_DIVIDE_BY_ZERO)
     else arith_template f (int_bits t1) (int_bits t2) (mk_int t1 x) (mk_int t2 y))"
proof -
  have g: "CheckInteger (mk_int t1 x :: 'd Value)"
    "CheckComparable (mk_int t1 x) (mk_int t2 y :: 'd Value)"
    "IsZero D (mk_int t2 y) = Inr (y = 0)"
    using t r by (simp_all add: CheckInteger_mk_int CheckComparable_mk_int IsZero_mk_int)
  show ?thesis
    using t(1) nn g
    by (cases f; elim int_types_cases)
       (simp_all add: Add_def Subtract_def Multiply_def Divide_def Modulo_def int_class_arith_defs
        MODIFY_FUNC_mk_int [OF t(2)] Modulo_switch [OF t(2)] split: if_splits)
qed

lemma int_arith_ref:
  fixes D :: "'d double_ops"
  assumes "t1 \<in> int_types" "t2 \<in> int_types"
    "in_sint (int_bits t1) x" "in_sint (int_bits t2) y" "x \<noteq> null_mark t1" "y \<noteq> null_mark t2"
  shows "arith_Value f D (mk_int t1 x) (mk_int t2 y) = ref_arith f t1 t2 x y"
  using assms by (auto simp: int_arith_template arith_template_ref ref_arith_div_zero)

section \<open>Integer comparison\<close>

fun compare_Value :: "cmp_op \<Rightarrow> 'd double_ops \<Rightarrow> 'd Value \<Rightarrow> 'd Value \<Rightarrow> CmpBool result" where
  "compare_Value OpEq = CompareEquals"
| "compare_Value OpNe = CompareNotEquals"
| "compare_Value OpLt = CompareLessThan"
| "compare_Value OpLe = CompareLessThanEquals"
| "compare_Value OpGt = CompareGreaterThan"
| "compare_Value OpGe = CompareGreaterThanEquals"

lemma COMPARE_FUNC_mk_int:
  assumes "t2 \<in> int_types" "in_sint (int_bits t2) y"
  shows "in_sint 8 x \<Longrightarrow> TINYINT_COMPARE_FUNC D rel (mk_int TINYINT x) (mk_int t2 y) =
      Inr (GetCmpBool (cmp_int rel x y))"
    "in_sint 16 x \<Longrightarrow> SMALLINT_COMPARE_FUNC D rel (mk_int SMALLINT x) (mk_int t2 y) =
      Inr (GetCmpBool (cmp_int rel x y))"
    "in_sint 32 x \<Longrightarrow> INT_COMPARE_FUNC D rel (mk_int INTEGER x) (mk_int t2 y) =
      Inr (GetCmpBool (cmp_int rel x y))"
    "in_sint 64 x \<Longrightarrow> BIGINT_COMPARE_FUNC D rel (mk_int BIGINT x) (mk_int t2 y) =
      Inr (GetCmpBool (cmp_int rel x y))"
  using assms
  by (auto simp: TINYINT_COMPARE_FUNC_def SMALLINT_COMPARE_FUNC_def INT_COMPARE_FUNC_def
      BIGINT_COMPARE_FUNC_def GetAs_int_def scast_id elim!: int_types_cases)

lemmas int_class_compare_defs =
  TinyintType_CompareEquals_def TinyintType_CompareNotEquals_def TinyintType_CompareLessThan_def
  TinyintType_CompareLessThanEquals_def TinyintType_CompareGreaterThan_def
  TinyintType_CompareGreaterThanEquals_def SmallintType_CompareEquals_def
  SmallintType_CompareNotEquals_def SmallintType_CompareLessThan_def
  SmallintType_CompareLessThanEquals_def SmallintType_CompareGreaterThan_def
  SmallintType_CompareGreaterThanEquals_def IntegerType_CompareEquals_def
  IntegerType_CompareNotEquals_def IntegerType_CompareLessThan_def
  IntegerType_CompareLessThanEquals_def IntegerType_CompareGreaterThan_def
  IntegerType_CompareGreaterThanEquals_def BigintType_CompareEquals_def
  BigintType_CompareNotEquals_def BigintType_CompareLessThan_def
  BigintType_CompareLessThanEquals_def BigintType_CompareGreaterThan_def
  BigintType_CompareGreaterThanEquals_def

lemmas dispatch_compare_defs =
  CompareEquals_def CompareNotEquals_def CompareLessThan_def CompareLessThanEquals_def
  CompareGreaterThan_def CompareGreaterThanEquals_def

lemma int_compare_ref:
  fixes D :: "'d double_ops"
  assumes t: "t1 \<in> int_types" "t2 \<in> int_types"
    and r: "in_sint (int_bits t1) x" "in_sint (int_bits t2) y"
  shows "compare_Value rel D (mk_int t1 x) (mk_int t2 y) =
    Inr (if x = null_mark t1 \<or> y = null_mark t2 then CmpNull else GetCmpBool (cmp_int rel x y))"
proof -
  have g: "CheckInteger (mk_int t1 x :: 'd Value)"
    "CheckComparable (mk_int t1 x) (mk_int t2 y :: 'd Value)"
    using t r by (simp_all add: CheckInteger_mk_int CheckComparable_mk_int)
  show ?thesis
    using t(1) r(1) g
    by (cases rel; elim int_types_cases)
       (simp_all add: dispatch_compare_defs int_class_compare_defs COMPARE_FUNC_mk_int [OF t(2) r(2)])
qed

section \<open>Casts\<close>

lemmas int_class_cast_defs =
  TinyintType_CastAs_def SmallintType_CastAs_def IntegerType_CastAs_def BigintType_CastAs_def

lemmas int_class_copy_defs =
  TinyintType_Copy_def SmallintType_Copy_def IntegerType_Copy_def BigintType_Copy_def

text \<open>Between integer types: exactly the numbers of the target type other than its null marker.\<close>

definition ref_cast :: "TypeId \<Rightarrow> TypeId \<Rightarrow> int \<Rightarrow> 'd Value result" where
  "ref_cast t1 t2 i =
     (if i = null_mark t1 then Inr (mk_int t2 (null_mark t2))
      else if int_bits t2 < int_bits t1 \<and> (\<not> in_sint (int_bits t2) i \<or> i = null_mark t2)
      then Inl (Exception ET_OUT_OF_RANGE)
      else Inr (mk_int t2 i))"

lemma in_sint_narrow:
  "(i > BUSTUB_INT8_MAX \<or> i < BUSTUB_INT8_MIN) \<longleftrightarrow> (\<not> in_sint 8 i \<or> i = null_mark TINYINT)"
  "(i > BUSTUB_INT16_MAX \<or> i < BUSTUB_INT16_MIN) \<longleftrightarrow> (\<not> in_sint 16 i \<or> i = null_mark SMALLINT)"
  "(i > BUSTUB_INT32_MAX \<or> i < BUSTUB_INT32_MIN) \<longleftrightarrow> (\<not> in_sint 32 i \<or> i = null_mark INTEGER)"
  "(i > BUSTUB_INT64_MAX \<or> i < BUSTUB_INT64_MIN) \<longleftrightarrow> (\<not> in_sint 64 i \<or> i = null_mark BIGINT)"
  by (auto simp: in_sint_widths null_mark_simps limit_defs)

lemma scast_narrow: "in_sint w i \<Longrightarrow> w \<le> w' \<Longrightarrow> 0 < w \<Longrightarrow> scast w' i = i"
  by (rule scast_id) (auto intro: in_sint_mono)

lemma null_mark_in_range: "t \<in> insert BOOLEAN int_types \<Longrightarrow> in_sint (int_bits t) (null_mark t)"
  by (auto simp: null_mark_def in_sint_def int_types_def)

lemma Value_null_mark:
  "Value_int8 TINYINT BUSTUB_INT8_NULL = Inr (mk_int TINYINT (null_mark TINYINT))"
  "Value_int16 SMALLINT BUSTUB_INT16_NULL = Inr (mk_int SMALLINT (null_mark SMALLINT))"
  "Value_int32 INTEGER BUSTUB_INT32_NULL = Inr (mk_int INTEGER (null_mark INTEGER))"
  "Value_int64 BIGINT BUSTUB_INT64_NULL = Inr (mk_int BIGINT (null_mark BIGINT))"
  "Value_int8 BOOLEAN BUSTUB_BOOLEAN_NULL = Inr (mk_int BOOLEAN (null_mark BOOLEAN))"
  by (simp_all add: Value_intN int_types_def null_mark_simps limit_defs scast_def)

lemma Value_in_range:
  "in_sint 8 i \<Longrightarrow> Value_int8 TINYINT i = Inr (mk_int TINYINT i)"
  "in_sint 16 i \<Longrightarrow> Value_int16 SMALLINT i = Inr (mk_int SMALLINT i)"
  "in_sint 32 i \<Longrightarrow> Value_int32 INTEGER i = Inr (mk_int INTEGER i)"
  "in_sint 64 i \<Longrightarrow> Value_int64 BIGINT i = Inr (mk_int BIGINT i)"
  "in_sint 8 i \<Longrightarrow> Value_int8 BOOLEAN i = Inr (mk_int BOOLEAN i)"
  "in_sint 8 i \<Longrightarrow> Value_int32 BOOLEAN i = Inr (mk_int BOOLEAN i)"
  by (simp_all add: Value_intN int_types_def scast_id)

lemma GetAs_widths:
  "in_sint 8 i \<Longrightarrow> GetAs_int 8 (mk_int TINYINT i) = Inr i"
  "in_sint 16 i \<Longrightarrow> GetAs_int 16 (mk_int SMALLINT i) = Inr i"
  "in_sint 32 i \<Longrightarrow> GetAs_int 32 (mk_int INTEGER i) = Inr i"
  "in_sint 64 i \<Longrightarrow> GetAs_int 64 (mk_int BIGINT i) = Inr i"
  "in_sint 8 i \<Longrightarrow> GetAs_int 8 (mk_int BOOLEAN i) = Inr i"
  by (simp_all add: GetAs_int_def scast_id)

lemma int_cast_ref:
  assumes "t1 \<in> int_types" "t2 \<in> int_types" "in_sint (int_bits t1) i"
  shows "CastAs D (mk_int t1 i) t2 = ref_cast t1 t2 i"
  using assms
  by (elim int_types_cases; hypsubst)
     (auto simp: CastAs_def int_class_cast_defs int_class_copy_defs ref_cast_def Value_null_mark
      GetAs_widths in_sint_narrow in_sint_widen scast_id scast_narrow Value_in_range CheckInteger_def out_of_range_def)

section \<open>Strings\<close>

lemma ToString_mk_int:
  assumes "t \<in> int_types" "in_sint (int_bits t) i" "i \<noteq> null_mark t"
  shows "ToString D (mk_int t i) = Inr (to_string i)"
  using assms
  by (elim int_types_cases; hypsubst)
     (simp_all add: ToString_def Type_ToString_def TinyintType_ToString_def SmallintType_ToString_def
      IntegerType_ToString_def BigintType_ToString_def CheckInteger_def GetAs_widths)

definition short_string :: "string \<Rightarrow> bool" where
  "short_string s \<longleftrightarrow> int (length s) + 1 < BUSTUB_VALUE_NULL"

lemma Value_string_short: "short_string s \<Longrightarrow> Value_string VARCHAR s = Inr (mk_string s)"
  by (simp add: Value_string_def short_string_def limit_defs mk_string_def Let_def nat_add_distrib)

lemma IsNull_mk_string: "short_string s \<Longrightarrow> \<not> IsNull (mk_string s)"
  by (simp add: IsNull_def short_string_def)

lemma ToString_mk_string: "short_string s \<Longrightarrow> ToString D (mk_string s) = Inr s"
  by (simp add: ToString_def Type_ToString_def VarlenType_ToString_def VarlenType_GetLength_def
      VarlenType_GetData_def GetAs_varlen_def IsNull_def short_string_def Let_def string_of_ptr_def
      limit_defs)

lemma length_nat_to_string: "n < 10 ^ k \<Longrightarrow> 0 < k \<Longrightarrow> length (nat_to_string n) \<le> k"
proof (induction n arbitrary: k rule: nat_to_string.induct)
  case (1 n)
  show ?case
  proof (cases "n < 10")
    case True
    then show ?thesis
      using 1(3) by (simp add: nat_to_string.simps [of n])
  next
    case False
    obtain k' where k: "k = Suc k'"
      using 1(3) by (cases k) auto
    then have "n div 10 < 10 ^ k'"
      using 1(2) by (simp add: less_mult_imp_div_less mult.commute)
    moreover have "0 < k'"
      using False 1(2) k by (cases k') auto
    ultimately show ?thesis
      using False k 1(1) by (simp add: nat_to_string.simps [of n])
  qed
qed

lemma nat_less_iff_if: "nat z < m \<longleftrightarrow> (if 0 \<le> z then z < int m else 0 < m)"
  by (auto simp: nat_less_iff)

lemma length_to_string: "in_sint 64 i \<Longrightarrow> length (to_string i) \<le> 20"
proof -
  assume "in_sint 64 i"
  then have "nat i < 10 ^ 19" "nat (- i) < 10 ^ 19"
    unfolding in_sint_64 by (simp_all add: nat_less_iff_if)
  then show ?thesis
    using length_nat_to_string [of "nat i" 19] length_nat_to_string [of "nat (- i)" 19]
    by (simp add: to_string_def)
qed

lemma short_to_string: "t \<in> int_types \<Longrightarrow> in_sint (int_bits t) i \<Longrightarrow> short_string (to_string i)"
proof -
  assume "t \<in> int_types" "in_sint (int_bits t) i"
  then have "in_sint 64 i"
    by (auto intro: in_sint_mono elim!: int_types_cases)
  then show ?thesis
    using length_to_string [of i] by (simp add: short_string_def limit_defs)
qed

lemma int_cast_to_string:
  assumes "t \<in> int_types" "in_sint (int_bits t) i" "i \<noteq> null_mark t"
  shows "CastAs D (mk_int t i) VARCHAR = Inr (mk_string (to_string i))"
  using assms short_to_string [OF assms(1,2)] ToString_mk_int [OF assms, of D]
  by (elim int_types_cases; hypsubst)
     (simp_all add: CastAs_def int_class_cast_defs Value_string_short)

text \<open>What a string is read as: the width-wrapped number of the parser.\<close>

lemma string_cast_parsed:
  assumes "short_string s" "t \<in> int_types"
    "(if t = BIGINT then stoll s else stoi s) = Parsed i" "scast (int_bits t) i = j" "j \<noteq> null_mark t"
  shows "CastAs D (mk_string s) t = Inr (mk_int t j)"
proof -
  have "in_sint (int_bits t) j"
    using assms(2,4) scast_in_range int_bits_pos by blast
  moreover have "in_sint 32 i" if "t \<noteq> BIGINT"
    using assms(3) that by (auto simp: stoi_def sto_def split: option.splits if_splits)
  moreover have "in_sint 64 i" if "t = BIGINT"
    using assms(3) that by (auto simp: stoll_def sto_def split: option.splits if_splits)
  ultimately show ?thesis
    using assms
    by (elim int_types_cases; hypsubst)
       (auto simp: CastAs_def VarlenType_CastAs_def ToString_mk_string parse_result_def Value_in_range
        in_sint_narrow scast_id Let_def in_sint_widths limit_defs null_mark_simps)
qed

text \<open>A wrapped number that is the null marker, and a numeral that the parser does not take, are refused.\<close>

lemma string_cast_refused:
  assumes "short_string s" "t \<in> int_types"
    "(if t = BIGINT then stoll s else stoi s) = Parsed i \<and> scast (int_bits t) i = null_mark t \<or>
     (if t = BIGINT then stoll s else stoi s) = ParseOutOfRange"
  shows "CastAs D (mk_string s) t = Inl (Exception ET_OUT_OF_RANGE)"
proof -
  have "in_sint 32 i" if "(if t = BIGINT then stoll s else stoi s) = Parsed i" "t \<noteq> BIGINT"
    using that by (auto simp: stoi_def sto_def split: option.splits if_splits)
  moreover have "in_sint 64 i" if "(if t = BIGINT then stoll s else stoi s) = Parsed i" "t = BIGINT"
    using that by (auto simp: stoll_def sto_def split: option.splits if_splits)
  ultimately show ?thesis
    using assms
    by (elim int_types_cases; hypsubst)
       (auto simp: CastAs_def VarlenType_CastAs_def ToString_mk_string parse_result_def out_of_range_def
        scast_id Let_def limit_defs null_mark_simps)
qed

lemma null_string_cast:
  assumes "t \<in> int_types" "u \<in> int_types"
  shows "bind_result (CastAs D (mk_int t (null_mark t)) VARCHAR) (\<lambda>v. CastAs D v u) = Inl InvalidArgument"
proof -
  obtain v where v: "CastAs D (mk_int t (null_mark t)) VARCHAR = Inr v" "v_type v = VARCHAR" "ToString D v = Inr ''varlen_null''"
    using assms(1)
    by (elim int_types_cases; hypsubst)
       (auto simp: CastAs_def int_class_cast_defs Value_varlen_def ToString_def Type_ToString_def VarlenType_ToString_def Value_type_def IsNull_def)
  have "stoi ''varlen_null'' = ParseInvalid" "stoll ''varlen_null'' = ParseInvalid"
    by (simp_all add: stoi_def stoll_def sto_def parse_int_def is_space_def parse_digits_def is_digit_def)
  then show ?thesis
    using v assms(2) by (elim int_types_cases; hypsubst) (simp_all add: CastAs_def VarlenType_CastAs_def parse_result_def)
qed

lemma string_cast_to_string:
  assumes "t \<in> int_types" "in_sint (int_bits t) i" "i \<noteq> null_mark t"
  shows "CastAs D (mk_string (to_string i)) t = Inr (mk_int t i)"
proof (rule string_cast_parsed)
  show "short_string (to_string i)"
    using assms by (simp add: short_to_string)
  show "(if t = BIGINT then stoll (to_string i) else stoi (to_string i)) = Parsed i"
    using assms(1,2) by (auto simp: stoll_def stoi_def intro!: sto_to_string intro: in_sint_mono elim!: int_types_cases)
  show "scast (int_bits t) i = i"
    using assms by (simp add: scast_id int_bits_pos)
qed (use assms in auto)

section \<open>Every operation yields well-formed values\<close>

definition makes_wf :: "'d double_ops \<Rightarrow> 'd Value result \<Rightarrow> bool" where
  "makes_wf D r \<longleftrightarrow> (\<forall>v. r = Inr v \<longrightarrow> wf_Value D v)"

lemma makes_wf_simps [simp]: "makes_wf D (Inl e)" "makes_wf D (Inr v) \<longleftrightarrow> wf_Value D v"
  by (simp_all add: makes_wf_def)

lemma makes_wf_bind: "(\<And>x. makes_wf D (f x)) \<Longrightarrow> makes_wf D (bind_result r f)"
  by (cases r) simp_all

lemma makes_wf_bind_wf:
  "makes_wf D r \<Longrightarrow> (\<And>x. wf_Value D x \<Longrightarrow> makes_wf D (f x)) \<Longrightarrow> makes_wf D (bind_result r f)"
  by (cases r) (simp_all add: makes_wf_def)

lemma wf_int_Value_scast:
  "t \<in> insert BOOLEAN int_types \<Longrightarrow> wf_Value D (mk_int t (scast (int_bits t) i))"
  by (rule wf_mk_int) (auto intro: scast_in_range simp: int_types_def)

lemma wf_timestamp: "wf_Value D (int_Value TIMESTAMP (ucast64 i) BUSTUB_TIMESTAMP_NULL)"
  using ucast64_range [of i] by (simp add: wf_Value_def int_Value_def Value_type_def)

lemma makes_wf_constructors:
  "makes_wf D (Value_int8 t i)" "makes_wf D (Value_int16 t i)" "makes_wf D (Value_int32 t i)"
  "makes_wf D (Value_int64 t i)" "makes_wf D (Value_uint64 t i)" "makes_wf D (Value_double D t d)"
  "makes_wf D (Value_string t s)" "makes_wf D (Value_varlen t None n b)"
proof -
  have wf: "wf_Value D (int_Value t' (scast (int_bits t') i) (null_mark t'))"
    if "t' \<in> insert BOOLEAN int_types" for t'
    using wf_int_Value_scast [OF that] by (simp add: mk_int_def)
  note wfs = wf [of BOOLEAN] wf [of TINYINT] wf [of SMALLINT] wf [of INTEGER] wf [of BIGINT]
  show "makes_wf D (Value_int8 t i)" "makes_wf D (Value_int16 t i)" "makes_wf D (Value_int32 t i)"
    "makes_wf D (Value_int64 t i)" "makes_wf D (Value_uint64 t i)"
    using wfs wf_timestamp [of D i]
    by (auto simp: Value_int8_def Value_int16_def Value_int32_def Value_int64_def Value_uint64_def
        null_mark_simps int_types_def split: TypeId.split option.split)
  show "makes_wf D (Value_double D t d)" "makes_wf D (Value_varlen t None n b)"
    by (auto simp: Value_double_def Value_varlen_def wf_Value_def Value_type_def IsNull_def split: TypeId.split option.split)
  have "(int (length s) + 1) mod 4294967296 \<le> int (length s) + 1"
    by (rule zmod_le_nonneg_dividend) simp
  then show "makes_wf D (Value_string t s)"
    by (auto simp: Value_string_def wf_Value_def Value_type_def Let_def limit_defs min_def split: TypeId.split option.split)
qed

lemma makes_wf_Value_int: "makes_wf D (Value_int w t i)"
  by (simp add: Value_int_def makes_wf_constructors)

lemmas makes_wf_intros = makes_wf_bind makes_wf_constructors makes_wf_Value_int

lemma makes_wf_templates:
  "makes_wf D (arith_template f w1 w2 l r)"
  by (cases f)
     (auto simp: AddValue_def SubtractValue_def MultiplyValue_def DivideValue_def ModuloValue_def Let_def
      out_of_range_def intro!: makes_wf_intros)

lemma makes_wf_Copy: "wf_Value D v \<Longrightarrow> makes_wf D (Copy D v)"
proof (cases "v_type v = VARCHAR")
  case True
  assume "wf_Value D v"
  with True show ?thesis
    by (auto simp: Copy_def VarlenType_Copy_def Value_copy_def wf_Value_def IsNull_def
        split: val.split option.split)
next
  case False
  then show ?thesis
    by (auto simp: Copy_def BooleanType_Copy_def int_class_copy_defs DecimalType_Copy_def
        Type_not_implemented_def intro!: makes_wf_intros split: TypeId.split option.split)
qed

lemma makes_wf_OperateNull: "makes_wf D (OperateNull D l r)"
  by (auto simp: OperateNull_def TinyintType_OperateNull_def SmallintType_OperateNull_def
      IntegerType_OperateNull_def BigintType_OperateNull_def DecimalType_OperateNull_def
      Type_not_implemented_def intro!: makes_wf_intros split: TypeId.split option.split)

lemma makes_wf_CastAs: "wf_Value D v \<Longrightarrow> makes_wf D (CastAs D v t)"
proof -
  assume wf: "wf_Value D v"
  have copies: "makes_wf D (BooleanType_Copy v)" "makes_wf D (TinyintType_Copy v)"
    "makes_wf D (SmallintType_Copy v)" "makes_wf D (BigintType_Copy v)"
    by (auto simp: BooleanType_Copy_def int_class_copy_defs intro!: makes_wf_intros)
  have "makes_wf D (BooleanType_CastAs D v t)" "makes_wf D (TinyintType_CastAs D v t)"
    "makes_wf D (SmallintType_CastAs D v t)" "makes_wf D (IntegerType_CastAs D v t)"
    "makes_wf D (BigintType_CastAs D v t)"
    using copies
    by (auto simp: BooleanType_CastAs_def int_class_cast_defs out_of_range_def
        intro!: makes_wf_intros split: TypeId.split option.split)
  moreover have "makes_wf D (DecimalType_CastAs D v t)" "makes_wf D (VarlenType_CastAs D v t)"
    using makes_wf_Copy [OF wf]
    by (auto simp: DecimalType_CastAs_def VarlenType_CastAs_def out_of_range_def Let_def
        intro!: makes_wf_intros split: TypeId.split option.split)
  ultimately show ?thesis
    by (auto simp: CastAs_def Type_not_implemented_def split: TypeId.split option.split)
qed

lemma makes_wf_MODIFY:
  "makes_wf D (TINYINT_MODIFY_FUNC D (arith_template f) dop l r)"
  "makes_wf D (SMALLINT_MODIFY_FUNC D (arith_template f) dop l r)"
  "makes_wf D (INT_MODIFY_FUNC D (arith_template f) dop l r)"
  "makes_wf D (BIGINT_MODIFY_FUNC D (arith_template f) dop l r)"
  by (auto simp: TINYINT_MODIFY_FUNC_def SMALLINT_MODIFY_FUNC_def INT_MODIFY_FUNC_def
      BIGINT_MODIFY_FUNC_def type_error_def
      intro!: makes_wf_intros makes_wf_templates split: TypeId.split option.split)

lemma makes_wf_DECIMAL_MODIFY: "makes_wf D (DECIMAL_MODIFY_FUNC D dop l r)"
  by (auto simp: DECIMAL_MODIFY_FUNC_def type_error_def intro!: makes_wf_intros split: TypeId.split option.split)

lemmas makes_wf_MODIFY_each = makes_wf_DECIMAL_MODIFY
  makes_wf_MODIFY [where f = OpAdd, simplified] makes_wf_MODIFY [where f = OpSub, simplified]
  makes_wf_MODIFY [where f = OpMul, simplified] makes_wf_MODIFY [where f = OpDiv, simplified]

lemma makes_wf_ModuloValue: "makes_wf D (ModuloValue w1 w2 l r)"
  using makes_wf_templates [of D OpMod] by simp

lemmas decimal_arith_defs =
  DecimalType_Add_def DecimalType_Subtract_def DecimalType_Multiply_def DecimalType_Divide_def
  DecimalType_Modulo_def DecimalType_OperateNull_def

lemma makes_wf_arith: "makes_wf D (arith_Value f D l r)"
  by (cases f; cases "v_type l")
     (auto simp: Add_def Subtract_def Multiply_def Divide_def Modulo_def int_class_arith_defs
      decimal_arith_defs Type_not_implemented_def type_error_def
      intro!: makes_wf_bind makes_wf_MODIFY_each makes_wf_constructors makes_wf_OperateNull
        makes_wf_ModuloValue split: TypeId.split option.split)

lemma makes_wf_Sqrt: "makes_wf D (Sqrt D v)"
  by (auto simp: Sqrt_def TinyintType_Sqrt_def SmallintType_Sqrt_def IntegerType_Sqrt_def
      BigintType_Sqrt_def DecimalType_Sqrt_def IntegerType_OperateNull_def Type_not_implemented_def
      intro!: makes_wf_intros split: TypeId.split option.split)

lemma makes_wf_MinMax:
  assumes "wf_Value D l" "wf_Value D r"
  shows "makes_wf D (Value_Min D l r)" "makes_wf D (Value_Max D l r)"
  using makes_wf_Copy [OF assms(1)] makes_wf_Copy [OF assms(2)]
  by (auto simp: Value_Min_def Value_Max_def IntegerParentType_Min_def IntegerParentType_Max_def
      DecimalType_Min_def DecimalType_Max_def VarlenType_Min_def VarlenType_Max_def
      Type_not_implemented_def intro!: makes_wf_bind makes_wf_OperateNull split: TypeId.split option.split)

lemma makes_wf_Deserialize: "makes_wf D (DeserializeFrom D bs t)"
proof -
  have "makes_wf D (VarlenType_DeserializeFrom bs)"
  proof -
    have "makes_wf D (Value_varlen VARCHAR (Some s) (le_uint (take 4 bs)) True)" for s
    proof -
      have "0 \<le> le_uint xs" for xs
        by (induction xs) auto
      then show ?thesis
        by (auto simp: Value_varlen_def wf_Value_def Value_type_def limit_defs min_def)
    qed
    then show ?thesis
      by (auto simp: VarlenType_DeserializeFrom_def load_bytes_def Let_def makes_wf_constructors)
  qed
  then show ?thesis
    by (auto simp: DeserializeFrom_def BooleanType_DeserializeFrom_def TinyintType_DeserializeFrom_def
        SmallintType_DeserializeFrom_def IntegerType_DeserializeFrom_def BigintType_DeserializeFrom_def
        DecimalType_DeserializeFrom_def Type_not_implemented_def intro!: makes_wf_intros split: TypeId.split option.split)
qed

section \<open>Serialisation\<close>

text \<open>
  What comes back from storage: the value itself, except that a string has become a managed
  copy of the bytes its length covers.
\<close>

definition stored_Value :: "'d Value \<Rightarrow> 'd Value" where
  "stored_Value v =
     (if v_type v = VARCHAR then
        if IsNull v then v\<lparr>v_val := StrVal None, v_manage := False\<rparr>
        else (case v_val v of
                StrVal (Some bs) \<Rightarrow> v\<lparr>v_val := StrVal (Some (take (nat (v_len v)) bs)), v_manage := True\<rparr>
              | _ \<Rightarrow> v)
      else v)"

definition stored_size :: "'d Value \<Rightarrow> nat" where
  "stored_size v =
     (case v_type v of
        BOOLEAN \<Rightarrow> 1 | TINYINT \<Rightarrow> 1 | SMALLINT \<Rightarrow> 2 | INTEGER \<Rightarrow> 4 | BIGINT \<Rightarrow> 8 | DECIMAL \<Rightarrow> 8
      | VARCHAR \<Rightarrow> (if IsNull v then 4 else 4 + nat (v_len v))
      | _ \<Rightarrow> 0)"

text \<open>What is relied on of the processor's doubles: eight bytes that give the number back.\<close>

definition double_storage :: "'d double_ops \<Rightarrow> bool" where
  "double_storage D \<longleftrightarrow> (\<forall>d. length (d_bytes D d) = 8 \<and> d_of_bytes D (d_bytes D d) = d)"

lemma store_load_int:
  assumes "store_bytes (le_bytes n i) st = Inr st'" "0 < n" "in_sint (8 * n) i"
  shows "bind_result (load_bytes n st') (\<lambda>bs. f (le_sint bs)) = f i"
  using load_after_store [OF assms(1)] le_sint_le_bytes [OF assms(2,3)] by simp

lemma int_bits_bytes: "t \<in> insert BOOLEAN int_types \<Longrightarrow> 8 * (int_bits t div 8) = int_bits t \<and> 0 < int_bits t div 8"
  by (auto simp: int_types_def)

lemmas int_class_serialize_defs =
  BooleanType_SerializeTo_def TinyintType_SerializeTo_def SmallintType_SerializeTo_def
  IntegerType_SerializeTo_def BigintType_SerializeTo_def BooleanType_DeserializeFrom_def
  TinyintType_DeserializeFrom_def SmallintType_DeserializeFrom_def IntegerType_DeserializeFrom_def
  BigintType_DeserializeFrom_def

lemma SerializeTo_mk_int:
  assumes "t \<in> insert BOOLEAN int_types" "in_sint (int_bits t) i"
  shows "SerializeTo D (mk_int t i) st = store_bytes (le_bytes (int_bits t div 8) i) st"
  using assms by (auto simp: SerializeTo_def int_class_serialize_defs GetAs_widths int_types_def)

lemma DeserializeFrom_int:
  assumes "t \<in> insert BOOLEAN int_types"
  shows "DeserializeFrom D st t =
    bind_result (load_bytes (int_bits t div 8) st) (\<lambda>bs. Inr (mk_int t (scast (int_bits t) (le_sint bs))))"
  using assms by (auto simp: DeserializeFrom_def int_class_serialize_defs Value_intN int_types_def)

definition round_trips :: "'d double_ops \<Rightarrow> 'd Value \<Rightarrow> byte list \<Rightarrow> bool" where
  "round_trips D v st \<longleftrightarrow>
     (case SerializeTo D v st of
        Inl e \<Rightarrow> False
      | Inr st' \<Rightarrow> length st' = length st \<and> drop (stored_size v) st' = drop (stored_size v) st \<and>
                  DeserializeFrom D st' (v_type v) = Inr (stored_Value v))"

lemma round_trips_int:
  fixes D :: "'d double_ops"
  assumes "t \<in> insert BOOLEAN int_types" "in_sint (int_bits t) i" "int_bits t div 8 \<le> length st"
  shows "round_trips D (mk_int t i) st"
proof -
  let ?n = "int_bits t div 8"
  have size: "stored_size (mk_int t i :: 'd Value) = ?n"
    "stored_Value (mk_int t i :: 'd Value) = mk_int t i"
    using assms(1) by (auto simp: stored_size_def stored_Value_def int_types_def)
  have st: "store_bytes (le_bytes ?n i) st = Inr (le_bytes ?n i @ drop ?n st)"
    using assms(3) by (simp add: store_bytes_def)
  have "le_sint (le_bytes ?n i) = i"
    using assms(1,2) int_bits_bytes by (intro le_sint_le_bytes) auto
  moreover have "load_bytes ?n (le_bytes ?n i @ drop ?n st) = Inr (le_bytes ?n i)"
    by (simp add: load_bytes_def)
  moreover have "scast (int_bits t) i = i"
    using assms by (intro scast_id) (auto simp: int_types_def)
  ultimately show ?thesis
    using assms st size
    by (simp add: round_trips_def SerializeTo_mk_int DeserializeFrom_int)
qed

lemma round_trips_decimal:
  assumes "double_storage D" "wf_Value D v" "v_type v = DECIMAL" "8 \<le> length st"
  shows "round_trips D v st"
proof -
  obtain d where d: "v_val v = DecVal d" "\<not> v_manage v"
    "v_len v = (if d_eq D d (BUSTUB_DECIMAL_NULL D) then BUSTUB_VALUE_NULL else 0)"
    using assms(2,3) by (auto simp: wf_Value_def split: val.splits)
  have b: "length (d_bytes D d) = 8" "d_of_bytes D (d_bytes D d) = d"
    using assms(1) by (auto simp: double_storage_def)
  then show ?thesis
    using d assms
    by (simp add: round_trips_def SerializeTo_def DecimalType_SerializeTo_def GetAs_double_def
        store_bytes_def DeserializeFrom_def DecimalType_DeserializeFrom_def load_bytes_def
        Value_double_def Value_type_def stored_Value_def stored_size_def)
qed

lemma round_trips_string:
  assumes "wf_Value D v" "v_type v = VARCHAR" "stored_size v \<le> length st"
  shows "round_trips D v st"
proof (cases "IsNull v")
  case True
  then have "le_uint (le_bytes 4 BUSTUB_VALUE_NULL) = BUSTUB_VALUE_NULL"
    by (simp add: le_uint_le_bytes limit_defs)
  then show ?thesis
    using True assms
    by (simp add: round_trips_def SerializeTo_def VarlenType_SerializeTo_def VarlenType_GetLength_def
        IsNull_def store_bytes_def stored_size_def DeserializeFrom_def VarlenType_DeserializeFrom_def
        load_bytes_def Let_def Value_varlen_def Value_type_def stored_Value_def)
next
  case False
  then obtain bs where bs: "v_val v = StrVal (Some bs)" and len: "0 \<le> v_len v"
    "v_len v < BUSTUB_VALUE_NULL" "v_len v \<le> int (length bs)"
    using assms by (auto simp: wf_Value_def IsNull_def split: val.splits option.splits)
  define n where "n = nat (v_len v)"
  have n: "v_len v = int n" "n \<le> length bs" "int n \<noteq> BUSTUB_VALUE_NULL" "int n < BUSTUB_VARCHAR_MAX_LEN"
    using len by (auto simp: n_def limit_defs)
  have le: "le_uint (le_bytes 4 (int n)) = int n"
    using n by (simp add: le_uint_le_bytes limit_defs)
  have conv: "map byte_char (map char_byte (take n bs)) = take n bs"
    by (simp add: byte_char_byte comp_def)
  show ?thesis
    using False assms bs n le conv
    by (simp add: round_trips_def SerializeTo_def VarlenType_SerializeTo_def VarlenType_GetLength_def
        VarlenType_GetData_def GetAs_varlen_def string_of_ptr_def
        IsNull_def store_bytes_def stored_size_def DeserializeFrom_def VarlenType_DeserializeFrom_def
        load_bytes_def Let_def Value_varlen_def Value_type_def stored_Value_def)
qed

section \<open>The order of strings\<close>

definition codes :: "string \<Rightarrow> nat list" where
  "codes s = map of_char s"

lemma memcmp_prefix: "memcmp (take n s) (take n t) = memcmp s t" if "n = min (length s) (length t)"
  using that
proof (induction s t arbitrary: n rule: memcmp.induct)
  case (1 a as b bs)
  obtain m where "n = Suc m" "m = min (length as) (length bs)"
    using 1(2) by auto
  with 1 show ?case by simp
qed auto

lemma Nil_less_nat_list: "([] :: nat list) < xs \<longleftrightarrow> xs \<noteq> []"
  by (cases xs) simp_all

lemma memcmp_lex:
  "(memcmp s t < 0 \<or> memcmp s t = 0 \<and> length s < length t) \<longleftrightarrow> codes s < codes t"
  "(memcmp s t = 0 \<and> length s = length t) \<longleftrightarrow> s = t"
  by (induction s t rule: memcmp.induct) (auto simp: codes_def Nil_less_nat_list)

lemma CompareStrings_eq:
  "CompareStrings (Some (s @ x)) (int (length s)) (Some (t @ y)) (int (length t)) =
   Inr (if memcmp s t = 0 \<and> length s \<noteq> length t then int (length s) - int (length t) else memcmp s t)"
proof -
  define n where "n = min (length s) (length t)"
  have n: "min (int (length s)) (int (length t)) = int n" "n \<le> length s" "n \<le> length t"
    by (simp_all add: n_def)
  have "string_of_ptr (Some (s @ x)) (int n) = Inr (take n s)"
    "string_of_ptr (Some (t @ y)) (int n) = Inr (take n t)"
    using n by (simp_all add: string_of_ptr_def)
  then show ?thesis
    using memcmp_prefix [OF n_def] by (simp add: CompareStrings_def Let_def n(1) del: memcmp.simps)
qed

lemma CompareStrings_sign:
  assumes "c = (if memcmp s t = 0 \<and> length s \<noteq> length t then int (length s) - int (length t) else memcmp s t)"
  shows "c < 0 \<longleftrightarrow> codes s < codes t" "c = 0 \<longleftrightarrow> s = t"
proof -
  show "c < 0 \<longleftrightarrow> codes s < codes t"
    using assms memcmp_lex(1) [of s t] by (cases "memcmp s t = 0") auto
  show "c = 0 \<longleftrightarrow> s = t"
    using assms memcmp_lex(2) [of s t] by (cases "memcmp s t = 0") auto
qed

fun cmp_codes :: "cmp_op \<Rightarrow> string \<Rightarrow> string \<Rightarrow> bool" where
  "cmp_codes OpEq s t \<longleftrightarrow> codes s = codes t"
| "cmp_codes OpNe s t \<longleftrightarrow> codes s \<noteq> codes t"
| "cmp_codes OpLt s t \<longleftrightarrow> codes s < codes t"
| "cmp_codes OpLe s t \<longleftrightarrow> codes s \<le> codes t"
| "cmp_codes OpGt s t \<longleftrightarrow> codes t < codes s"
| "cmp_codes OpGe s t \<longleftrightarrow> codes t \<le> codes s"

lemma codes_inj: "codes s = codes t \<longleftrightarrow> s = t"
  unfolding codes_def using of_char_eq_iff by (metis injI inj_map_eq_map)

lemma cmp_int_sign:
  assumes "c < 0 \<longleftrightarrow> codes s < codes t" "c = 0 \<longleftrightarrow> s = t"
  shows "cmp_int rel c 0 \<longleftrightarrow> cmp_codes rel s t"
  using assms codes_inj [of s t] by (cases rel) (auto simp: order_le_less)

definition int_length :: "string \<Rightarrow> bool" where
  "int_length s \<longleftrightarrow> int (length s) < 2 ^ 31"

lemma int_length_short: "int_length s \<Longrightarrow> short_string s"
  by (simp add: int_length_def short_string_def limit_defs)

lemma VARLEN_COMPARE_mk_string:
  assumes "int_length s" "int_length t"
  shows "VARLEN_COMPARE_FUNC D rel (mk_string s) (mk_string t) = Inr (GetCmpBool (cmp_codes rel s t))"
proof -
  have len: "scast 32 (int (length u) mod 2 ^ 32) = int (length u)" if "int_length u" for u :: string
    using that by (simp add: int_length_def scast_id in_sint_32)
  show ?thesis
    using assms len [of s] len [of t] cmp_int_sign [OF CompareStrings_sign [OF refl, of s t], of rel]
    by (simp add: VARLEN_COMPARE_FUNC_def GetData_def VarlenType_GetData_def GetAs_varlen_def
        VarlenType_GetLength_def Let_def CompareStrings_eq)
qed

lemmas varlen_compare_defs =
  VarlenType_CompareEquals_def VarlenType_CompareNotEquals_def VarlenType_CompareLessThan_def
  VarlenType_CompareLessThanEquals_def VarlenType_CompareGreaterThan_def
  VarlenType_CompareGreaterThanEquals_def

lemma string_compare_ref:
  fixes D :: "'d double_ops"
  assumes "int_length s" "int_length t"
  shows "compare_Value rel D (mk_string s) (mk_string t) = Inr (GetCmpBool (cmp_codes rel s t))"
proof -
  have "\<not> IsNull (mk_string u :: 'd Value)" "int (length u) + 1 \<noteq> BUSTUB_VARCHAR_MAX_LEN"
    if "int_length u" for u :: string
    using that IsNull_mk_string [OF int_length_short [OF that]] by (simp_all add: int_length_def limit_defs)
  then show ?thesis
    using assms VARLEN_COMPARE_mk_string [OF assms, of D]
    by (cases rel) (simp_all add: dispatch_compare_defs varlen_compare_defs CheckComparable_def
        VarlenType_GetLength_def)
qed

section \<open>Nulls\<close>

lemma int_arith_null:
  fixes D :: "'d double_ops"
  assumes t: "t1 \<in> int_types" "t2 \<in> int_types" and n: "x = null_mark t1 \<or> y = null_mark t2"
  shows "arith_Value f D (mk_int t1 x) (mk_int t2 y) = Inr (mk_int (wider t1 t2) (null_mark (wider t1 t2)))"
proof -
  have g: "CheckInteger (mk_int t1 x :: 'd Value)"
    "CheckComparable (mk_int t1 x) (mk_int t2 y :: 'd Value)"
    using t by (simp_all add: CheckInteger_mk_int CheckComparable_mk_int)
  have "OperateNull D (mk_int t1 x) (mk_int t2 y) = Inr (mk_int (wider t1 t2) (null_mark (wider t1 t2)))"
    using t by (elim int_types_cases; hypsubst)
      (simp_all add: OperateNull_def TinyintType_OperateNull_def SmallintType_OperateNull_def
        IntegerType_OperateNull_def BigintType_OperateNull_def wider_def Value_null_mark)
  then show ?thesis
    using t(1) n g
    by (cases f; elim int_types_cases; hypsubst)
       (simp_all add: Add_def Subtract_def Multiply_def Divide_def Modulo_def int_class_arith_defs)
qed

text \<open>
  An instance of the floating-point parameter for concrete evaluation: 64-bit patterns with the
  arithmetic of signed integers.
\<close>

definition word_double :: "64 word double_ops" where
  "word_double =
     \<lparr>d_of_int = word_of_int, d_add = (+), d_sub = (-), d_mul = (*),
      d_div = (\<lambda>x y. word_of_int (quot (sint x) (sint y))), d_trunc = id, d_sqrt = id,
      d_eq = (=), d_lt = (\<lambda>x y. sint x < sint y), d_le = (\<lambda>x y. sint x \<le> sint y),
      d_to_int = (\<lambda>x. Some (sint x)), d_to_string = (\<lambda>x. to_string (sint x)),
      d_stod = (\<lambda>s. case parse_int s of None \<Rightarrow> ParseInvalid | Some i \<Rightarrow> Parsed (word_of_int i)),
      d_bytes = (\<lambda>x. le_bytes 8 (uint x)), d_of_bytes = (\<lambda>bs. word_of_int (le_uint bs)),
      dbl_lowest = word_of_int (- (2 ^ 63)), flt_lowest = word_of_int (- (2 ^ 31)),
      dbl_max = word_of_int (2 ^ 63 - 1)\<rparr>"

lemma double_storage_word_double: "double_storage word_double"
proof -
  have "uint (x :: 64 word) mod 256 ^ 8 = uint x" for x
    using uint_lt2p [of x] by simp
  then show ?thesis
    by (simp add: double_storage_def word_double_def le_uint_le_bytes)
qed

section \<open>Properties\<close>

text \<open>
  C32. Every value the type subsystem produces is well formed: arithmetic, square root, minimum
  and maximum, copying, casting and deserialisation, on well-formed operands of any types,
  either fail or return a value whose union member, null flag and (for strings) owned bytes
  agree with its type.
\<close>

theorem value_ops_well_formed:
  assumes "wf_Value D l" "wf_Value D r"
  shows "makes_wf D (arith_Value f D l r) \<and> makes_wf D (Value_Min D l r) \<and> makes_wf D (Value_Max D l r) \<and>
         makes_wf D (Sqrt D l) \<and> makes_wf D (Copy D l) \<and> makes_wf D (CastAs D l t) \<and>
         makes_wf D (DeserializeFrom D bs t)"
  using assms
  by (simp add: makes_wf_arith makes_wf_MinMax makes_wf_Sqrt makes_wf_Copy makes_wf_CastAs makes_wf_Deserialize)

theorem value_ops_well_formed_witness:
  "wf_Value word_double (mk_int TINYINT 100) \<and> wf_Value word_double (mk_int INTEGER 7) \<and>
   makes_wf word_double (arith_Value OpAdd word_double (mk_int TINYINT 100) (mk_int INTEGER 7))"
proof -
  have "wf_Value word_double (mk_int TINYINT 100)" "wf_Value word_double (mk_int INTEGER 7)"
    by (simp_all add: wf_mk_int int_types_def in_sint_def)
  then show ?thesis
    using value_ops_well_formed [of word_double "mk_int TINYINT 100" "mk_int INTEGER 7" OpAdd] by blast
qed

text \<open>
  C30. The arithmetic of the four integer classes is one function.  Whatever the two integer
  types, \<^verbatim>\<open>Add\<close>, \<^verbatim>\<open>Subtract\<close>, \<^verbatim>\<open>Multiply\<close>,
  \<^verbatim>\<open>Divide\<close> and \<^verbatim>\<open>Modulo\<close> return null of the wider type for a null
  operand, throw on division by zero, and otherwise deliver the exact mathematical result in
  the wider type when it fits there; a result that fits only the promoted type throws
  \<^verbatim>\<open>OUT_OF_RANGE\<close>, and one that does not even fit the promoted type is a signed
  overflow.
\<close>

theorem int_arith_is_reference:
  assumes "t1 \<in> int_types" "t2 \<in> int_types" "in_sint (int_bits t1) x" "in_sint (int_bits t2) y"
  shows "arith_Value f D (mk_int t1 x) (mk_int t2 y) =
    (if x = null_mark t1 \<or> y = null_mark t2
     then Inr (mk_int (wider t1 t2) (null_mark (wider t1 t2)))
     else ref_arith f t1 t2 x y)"
  using assms by (simp add: int_arith_null int_arith_ref)

theorem int_arith_is_reference_witness:
  "Add word_double (mk_int TINYINT 100) (mk_int SMALLINT 100) = Inr (mk_int SMALLINT 200) \<and>
   Add word_double (mk_int TINYINT 100) (mk_int TINYINT 100) = Inl (Exception ET_OUT_OF_RANGE) \<and>
   Modulo word_double (mk_int INTEGER (-7)) (mk_int TINYINT 2) = Inr (mk_int INTEGER (-1))"
  using int_arith_is_reference [of TINYINT SMALLINT 100 100 OpAdd word_double]
    int_arith_is_reference [of TINYINT TINYINT 100 100 OpAdd word_double]
    int_arith_is_reference [of INTEGER TINYINT "-7" 2 OpMod word_double]
  by (simp add: int_types_def in_sint_def null_mark_def ref_arith_def wider_def remainder_def quot_def)

text \<open>
  C31. Comparison of integers of any two widths is the order of the integers, for all six
  operators, and is null exactly when an operand is null.
\<close>

theorem int_compare_is_order:
  assumes "t1 \<in> int_types" "t2 \<in> int_types" "in_sint (int_bits t1) x" "in_sint (int_bits t2) y"
  shows "compare_Value rel D (mk_int t1 x) (mk_int t2 y) =
    Inr (if x = null_mark t1 \<or> y = null_mark t2 then CmpNull else GetCmpBool (cmp_int rel x y))"
  using assms by (rule int_compare_ref)

theorem int_compare_is_order_witness:
  "CompareLessThan word_double (mk_int BIGINT (-5)) (mk_int TINYINT 3) = Inr CmpTrue"
  using int_compare_is_order [of BIGINT TINYINT "-5" 3 OpLt word_double]
  by (simp add: int_types_def in_sint_def null_mark_def GetCmpBool_def)

text \<open>
  C34. Strings shorter than two gigabytes are compared by all six operators in the
  lexicographic order of their unsigned bytes, a proper prefix being smaller.
\<close>

theorem string_compare_is_lexicographic:
  assumes "int_length s" "int_length t"
  shows "compare_Value rel D (mk_string s) (mk_string t) = Inr (GetCmpBool (cmp_codes rel s t))"
  using assms by (rule string_compare_ref)

theorem string_compare_is_lexicographic_witness:
  "CompareLessThan word_double (mk_string ''ab'') (mk_string ''abc'') = Inr CmpTrue \<and>
   CompareGreaterThan word_double (mk_string ''b'') (mk_string ''abc'') = Inr CmpTrue"
  using string_compare_is_lexicographic [of "''ab''" "''abc''" OpLt word_double]
    string_compare_is_lexicographic [of "''b''" "''abc''" OpGt word_double]
  by (simp add: int_length_def codes_def GetCmpBool_def)

text \<open>
  C33. Serialisation round trip: a well-formed value of any type with an instance, written to a
  buffer that has room for it, is read back as itself (a string as an owned copy of the bytes
  its length covers), and the bytes behind it are untouched.
\<close>

theorem serialize_round_trip:
  assumes "double_storage D" "wf_Value D v" "v_type v \<notin> {INVALID, TIMESTAMP}" "stored_size v \<le> length st"
  shows "round_trips D v st"
proof (cases "v_type v \<in> insert BOOLEAN int_types")
  case True
  then obtain i where i: "v = mk_int (v_type v) i" "in_sint (int_bits (v_type v)) i"
    using wf_int_Value [OF assms(2)] by blast
  moreover have "stored_size v = int_bits (v_type v) div 8"
    using True by (auto simp: stored_size_def int_types_def)
  ultimately show ?thesis
    using round_trips_int [OF True i(2), of st D] assms(4) by metis
next
  case False
  then have "v_type v = DECIMAL \<or> v_type v = VARCHAR"
    using assms(3) by (cases "v_type v") (auto simp: int_types_def)
  then show ?thesis
  proof
    assume "v_type v = DECIMAL"
    then show ?thesis
      using assms round_trips_decimal by (simp add: stored_size_def)
  next
    assume "v_type v = VARCHAR"
    then show ?thesis
      by (rule round_trips_string [OF assms(2) _ assms(4)])
  qed
qed

theorem serialize_round_trip_witness:
  "round_trips word_double (mk_string ''hi'') (replicate 10 0)"
  by (rule serialize_round_trip [OF double_storage_word_double])
     (simp_all add: wf_Value_def stored_size_def IsNull_def limit_defs)

text \<open>
  C35. Casting an integer to \<^verbatim>\<open>VARCHAR\<close> and back gives the integer again, in every
  integer type, unless it is null: a null integer becomes a null string, which prints as a word that
  no parser takes, and casting it back ends in an uncaught \<^verbatim>\<open>std::invalid_argument\<close>.
\<close>

theorem cast_string_round_trip:
  assumes "t \<in> int_types" "in_sint (int_bits t) i"
  shows "bind_result (CastAs D (mk_int t i) VARCHAR) (\<lambda>v. CastAs D v t) =
    (if IsNull (mk_int t i) then Inl InvalidArgument else Inr (mk_int t i))"
  using assms null_string_cast [OF assms(1,1)]
  by (cases "i = null_mark t") (simp_all add: int_cast_to_string string_cast_to_string IsNull_mk_int)

theorem cast_string_round_trip_witness:
  "bind_result (CastAs word_double (mk_int SMALLINT (-300)) VARCHAR) (\<lambda>v. CastAs word_double v SMALLINT) =
   Inr (mk_int SMALLINT (-300)) \<and>
   bind_result (CastAs word_double (mk_int TINYINT (-128)) VARCHAR) (\<lambda>v. CastAs word_double v TINYINT) = Inl InvalidArgument"
  using cast_string_round_trip [of SMALLINT "-300" word_double] cast_string_round_trip [of TINYINT "-128" word_double]
  by (simp add: int_types_def in_sint_def null_mark_def IsNull_mk_int)

text \<open>
  C36. Casts between integer types: null stays null, a number the target type can hold is
  unchanged, and a narrowing cast of any other number (the null marker of the target included)
  throws \<^verbatim>\<open>OUT_OF_RANGE\<close>.
\<close>

theorem int_cast_bounds:
  assumes "t1 \<in> int_types" "t2 \<in> int_types" "in_sint (int_bits t1) i"
  shows "CastAs D (mk_int t1 i) t2 = ref_cast t1 t2 i"
  using assms by (rule int_cast_ref)

theorem int_cast_bounds_witness:
  "CastAs word_double (mk_int INTEGER 128) TINYINT = Inl (Exception ET_OUT_OF_RANGE) \<and>
   CastAs word_double (mk_int INTEGER 127) TINYINT = Inr (mk_int TINYINT 127) \<and>
   CastAs word_double (mk_int SMALLINT (-128)) TINYINT = Inl (Exception ET_OUT_OF_RANGE)"
  using int_cast_bounds [of INTEGER TINYINT 128 word_double]
    int_cast_bounds [of INTEGER TINYINT 127 word_double]
    int_cast_bounds [of SMALLINT TINYINT "-128" word_double]
  by (simp add: int_types_def in_sint_def null_mark_def ref_cast_def)

text \<open>
  C37. The two cast interfaces agree: on an integer of any type, the checked conversions of the
  value factory return what \<^verbatim>\<open>Value::CastAs\<close> returns, failures included.
\<close>

theorem factory_casts_agree:
  assumes "t \<in> int_types" "in_sint (int_bits t) i"
  shows "CastAsTinyInt D (mk_int t i) = CastAs D (mk_int t i) TINYINT \<and>
         CastAsSmallInt D (mk_int t i) = CastAs D (mk_int t i) SMALLINT \<and>
         CastAsInteger D (mk_int t i) = CastAs D (mk_int t i) INTEGER \<and>
         CastAsBigInt D (mk_int t i) = CastAs D (mk_int t i) BIGINT \<and>
         CastAsDecimal D (mk_int t i) = CastAs D (mk_int t i) DECIMAL \<and>
         CastAsVarchar D (mk_int t i) = CastAs D (mk_int t i) VARCHAR"
  using assms
  by (elim int_types_cases; hypsubst)
     (auto simp: CastAsTinyInt_def CastAsSmallInt_def CastAsInteger_def CastAsBigInt_def CastAsDecimal_def
      CastAsVarchar_def GetTinyIntValue_def GetSmallIntValue_def GetIntegerValue_def GetBigIntValue_def
      GetDecimalValue_def GetVarcharValue_def [abs_def] GetVarcharValue_ptr_def GetVarcharValue_len_def
      CastAs_def int_class_cast_defs int_class_copy_defs GetAs_widths CheckInteger_def IsCoercableFrom_def
      Value_in_range in_sint_widen scast_id)

theorem factory_casts_agree_witness:
  "CastAsTinyInt word_double (mk_int BIGINT 500) = CastAs word_double (mk_int BIGINT 500) TINYINT \<and>
   CastAsVarchar word_double (mk_int BIGINT 500) = CastAs word_double (mk_int BIGINT 500) VARCHAR"
  using factory_casts_agree [of BIGINT 500 word_double] by (simp add: int_types_def in_sint_def)

text \<open>
  C38. What a numeral is cast to: the string is parsed as a 32-bit number (64 bits for
  \<^verbatim>\<open>BIGINT\<close>) and then wrapped to the width of the target type without a check.  The cast throws
  \<^verbatim>\<open>OUT_OF_RANGE\<close> only beyond the range of the parser, or when the wrapped number happens to be
  the null marker; every other numeral is accepted, also one far outside the target type.
\<close>

theorem string_cast_wraps:
  assumes "t \<in> int_types" "short_string (to_string i)"
  shows "CastAs D (mk_string (to_string i)) t =
    (if in_sint (if t = BIGINT then 64 else 32) i \<and> scast (int_bits t) i \<noteq> null_mark t
     then Inr (mk_int t (scast (int_bits t) i)) else Inl (Exception ET_OUT_OF_RANGE))"
proof -
  have parse: "(if t = BIGINT then stoll (to_string i) else stoi (to_string i)) =
      (if in_sint (if t = BIGINT then 64 else 32) i then Parsed i else ParseOutOfRange)"
    by (simp add: stoll_def stoi_def sto_def parse_int_to_string)
  show ?thesis
    using string_cast_parsed [OF assms(2,1), of i "scast (int_bits t) i" D] string_cast_refused [OF assms(2,1), of i D]
    unfolding parse by auto
qed

theorem string_cast_wraps_witness:
  "CastAs word_double (mk_string (to_string 300)) TINYINT = Inr (mk_int TINYINT 44) \<and>
   CastAs word_double (mk_string (to_string 384)) TINYINT = Inl (Exception ET_OUT_OF_RANGE)"
  using string_cast_wraps [of TINYINT 300 word_double] string_cast_wraps [of TINYINT 384 word_double] length_to_string [of 300] length_to_string [of 384]
  by (simp add: int_types_def in_sint_def null_mark_def short_string_def limit_defs scast_def)

text \<open>
  C39. The table \<^verbatim>\<open>k_types\<close> has no instance for \<^verbatim>\<open>TIMESTAMP\<close>, although values of that type
  can be constructed: every operation that dispatches on such a value goes through a null pointer, and
  the methods of the timestamp class are never run.
\<close>

theorem timestamp_has_no_instance:
  assumes "v_type v = TIMESTAMP"
  shows "compare_Value rel D v w = Inl UndefinedBehaviour \<and> arith_Value f D v w = Inl UndefinedBehaviour \<and>
    Value_Min D v w = Inl UndefinedBehaviour \<and> Value_Max D v w = Inl UndefinedBehaviour \<and>
    Sqrt D v = Inl UndefinedBehaviour \<and> IsZero D v = Inl UndefinedBehaviour \<and> OperateNull D v w = Inl UndefinedBehaviour \<and>
    CastAs D v t = Inl UndefinedBehaviour \<and> ToString D v = Inl UndefinedBehaviour \<and>
    Copy D v = Inl UndefinedBehaviour \<and> SerializeTo D v st = Inl UndefinedBehaviour \<and>
    DeserializeFrom D st TIMESTAMP = Inl UndefinedBehaviour \<and>
    GetData v = Inl UndefinedBehaviour \<and> GetLength v = Inl UndefinedBehaviour"
  using assms
  by (cases rel; cases f)
     (simp_all add: dispatch_compare_defs Add_def Subtract_def Multiply_def Divide_def Modulo_def CastAs_def
      ToString_def Type_ToString_def Copy_def SerializeTo_def DeserializeFrom_def Value_Min_def Value_Max_def
      Sqrt_def IsZero_def OperateNull_def GetData_def GetLength_def)

theorem timestamp_has_no_instance_witness:
  "\<exists>v. GetTimestampValue 5 = Inr v \<and> CompareEquals word_double v v = Inl UndefinedBehaviour"
  using timestamp_has_no_instance [of "int_Value TIMESTAMP 5 BUSTUB_TIMESTAMP_NULL" OpEq word_double]
  by (auto simp: GetTimestampValue_def Value_int64_def int_Value_def Value_type_def ucast64_def)

end
