(* ===== verification/Spec2Isabelle.thy ===== *)
theory Spec2Isabelle
  imports BPlusTreeSpec TransactionsSpec Trie TypeLaws
begin

text \<open>
  A verification of the storage engine, the index, the table storage, the type system and the primer
  trie of BusTub.  Paths are relative to the directory \<^verbatim>\<open>src\<close> of the second project.

  \<^bold>\<open>The parts and how they interact.\<close>  The disk manager stores pages of 4096 bytes.  The buffer pool
  manager keeps some of them in frames; it finds the frame of a page in an extendible hash table,
  takes a free frame or asks the LRU-K replacer for a victim, and writes dirty victims back.  The
  B+ tree keeps its nodes on pages and its root id on the header page.  A table heap is a list of
  slotted pages that its operations fetch, change and unpin; it records the writes of a transaction,
  which the transaction manager applies on commit and undoes on abort.  Values, with one class per
  SQL type, and the trie stand on their own.

  \<^bold>\<open>Conventions.\<close>  A call that can fail returns \<open>'a result\<close>, the sum of \<open>error\<close> and its
  answer (\<open>Prelude\<close>).  State is passed explicitly.  A pointer to a page is its frame number (table
  heap) or its page id (B+ tree), a shared bucket pointer an index into the list of buckets.  Machine
  integers are \<open>int\<close> with the wrap-around written out, or words.  An execution without meaning in
  C++ is the error \<open>UndefinedBehaviour\<close>.

  \<^bold>\<open>Theories.\<close>

    \<^item> \<open>Prelude\<close>: errors, identifier types and constants of
      \<^verbatim>\<open>include/common/config.h\<close>, generic lemmas.
    \<^item> \<open>Interfaces\<close>: the contracts between components as locales: \<open>replacer\<close>, \<open>page_table\<close>
      and \<open>disk\<close> (what the buffer pool needs), \<open>map_index\<close> (what an index promises) and
      \<open>simulation\<close> (step-by-step refinement, lifted to runs).  \<open>page_pool\<close>, what holders of page
      pointers need, is in \<open>PoolClient\<close>.  Each is interpreted on the definitions that model the code.
    \<^item> \<open>LRUKReplacer\<close> models \<^verbatim>\<open>buffer/lru_k_replacer.cpp\<close>: record \<open>lruk\<close>, operations
      \<open>LRUKReplacer_...\<close>.  They refine a specification by time stamps.
    \<^item> \<open>ExtendibleHashTable\<close> models \<^verbatim>\<open>container/hash/extendible_hash_table.cpp\<close>: records
      \<open>bucket\<close> and \<open>eht\<close>.  Insertion with its splits is correct and the table is a finite map.
    \<^item> \<open>DiskManager\<close> models \<^verbatim>\<open>storage/disk/disk_manager.cpp\<close> and the two managers in
      memory, behind the virtual calls \<open>ReadPage\<close> and \<open>WritePage\<close>.
    \<^item> \<open>BufferPool\<close> models \<^verbatim>\<open>buffer/buffer_pool_manager_instance.cpp\<close> on the three components
      above: record \<open>bpm\<close>, operations \<open>NewPgImp\<close> to \<open>DeletePgImp\<close>, with their invariant.
      \<open>BufferPoolSpec\<close> shows that it is a store of page contents with pin counts.
    \<^item> \<open>HeaderPage\<close>, \<open>BPlusTreePage\<close> and \<open>BPlusTree\<close> model
      \<^verbatim>\<open>storage/page/header_page.cpp\<close>, \<^verbatim>\<open>storage/page/b_plus_tree_*page.cpp\<close>,
      \<^verbatim>\<open>storage/index/b_plus_tree.cpp\<close> and \<^verbatim>\<open>storage/index/index_iterator.cpp\<close>.
      \<open>BPlusTreeShape\<close> relates the pages to a tree; \<open>BPlusTreeFind\<close>, \<open>BPlusTreeInsert\<close>,
      \<open>BPlusTreeRemove\<close>, \<open>BPlusTreeDelete\<close> and \<open>BPlusTreeScan\<close> verify the operations, and
      \<open>BPlusTreeSpec\<close> states the guarantees: a finite map, balance, termination, ordered scans.
    \<^item> \<open>Records\<close> and \<open>TablePage\<close> model \<^verbatim>\<open>include/common/rid.h\<close>, the byte array of
      \<^verbatim>\<open>include/storage/table/tuple.h\<close> and \<^verbatim>\<open>storage/page/table_page.cpp\<close>;
      \<open>TablePageSpec\<close> shows that the bytes of a page implement a list of slots.
    \<^item> \<open>TableHeap\<close> models \<^verbatim>\<open>storage/table/table_heap.cpp\<close>,
      \<^verbatim>\<open>storage/table/table_iterator.cpp\<close>, \<^verbatim>\<open>include/concurrency/transaction.h\<close> and
      \<^verbatim>\<open>concurrency/transaction_manager.cpp\<close> on the modelled buffer pool.  \<open>TableHeapPages\<close> and
      \<open>TableHeapSpec\<close> verify the operations against a list of pages of slots, \<open>Transactions\<close>
      proves the simulation, commit and abort included, and \<open>TransactionsSpec\<close> states the guarantees.
    \<^item> \<open>Values\<close>, \<open>TypeCasts\<close>, \<open>TypeArith\<close> and \<open>ValueFactory\<close> model \<^verbatim>\<open>type/\<close> and
      \<^verbatim>\<open>include/type/\<close>; \<open>TypeLaws\<close> shows that integer arithmetic and comparison are those of
      the integers, and the round trips of casts and serialization.
    \<^item> \<open>Trie\<close> models \<^verbatim>\<open>include/primer/p0_trie.h\<close> and shows what its operations do to the map
      from keys to values.

  \<^bold>\<open>Bounds and fuel.\<close>  The replacer is verified for \<open>k \<ge> 2\<close>; \<open>k = 1\<close> is undefined behaviour, which
  is proved.  The buffer pool has fewer than \<open>2 ^ 31\<close> frames and hands out at most \<open>2 ^ 30\<close> page
  ids, within the capacity of the disk; its clients only unpin pages they have pinned.  The loops of
  the model that follow page ids take a number of rounds: 32 rounds are enough for the splits of an
  insertion into the hash table, since the doubling of a directory of \<open>2 ^ 30\<close> slots throws; \<open>n\<close> rounds for a B+ tree of fewer than \<open>2 ^ n\<close> bindings, since its height
  is logarithmic; more rounds than pages (and, for a scan, than live tuples) for a table heap, since
  the list of pages has no cycle.  The guarantees state these numbers as hypotheses and conclude that
  the calls return.  The access counts of the replacer are unbounded, where the code counts modulo
  \<open>2 ^ 64\<close>.  The pages of the B+ tree are lists: the maximal sizes given to the constructor are assumed
  to be such that the entries fit a page, which the code does not check.

  \<^bold>\<open>Parameters.\<close>  The hash function of the hash table is an argument of its definitions; the page
  table of the buffer pool uses the identity of \<^verbatim>\<open>std::hash<int>\<close>.  Floating-point numbers are
  elements of an arbitrary type with the operations of the processor as an argument.  The keys of the
  B+ tree are an arbitrary linear order.  The order in which C++ evaluates the two operands of a
  comparison in \<^verbatim>\<open>BPlusTree::Remove\<close> is an argument, because the result depends on it.

  \<^bold>\<open>Not modelled.\<close>  Concurrency: an operation under a latch is one step, page latches are left out,
  and so are the debugging output and the destructors that only free memory.  The lock manager, the
  log manager and recovery are stubs in the repository; the constant results that the other parts see
  are written into them, and \<^verbatim>\<open>enable_logging\<close> is an argument.  The index part of
  \<^verbatim>\<open>TransactionManager::Abort\<close> never runs, because nothing fills the index write set.  The clock
  and LRU replacers and the disk based hash tables are unimplemented exercises.  The B+ tree uses the
  buffer pool through its guarantees, as a map of allocated pages with pins and a bound on further
  allocations, not on frames.  Of tuples only the byte array is modelled: their layout by a schema, and
  with it the catalog, the expressions and the keys that the index wrapper cuts out of tuples, is not
  covered.  Binder and planner translate the parse trees of a bundled third-party parser; the
  optimizer rewrites the resulting plans; most executors, which would give plans a meaning, are stubs.
\<close>

end
